(* ===== verification/Prelude.thy ===== *)
theory Prelude
  imports Main "HOL-Library.Word"
begin

text \<open>
  The prelude of the OHM-ECDSA development: the results and the state-passing functions the
  components are written in, the machine arithmetic of \<open>usize\<close>, big-endian byte strings, and
  the list lemmas the components share.

  \<^item> \<open>('e, 'a) res\<close> is a Rust \<open>Result\<close> with a third outcome, \<open>Panic\<close>, for \<open>expect\<close>,
    indexing out of range and the other unwinding exits of the source.
  \<^item> \<open>('s, 'e, 'a) sm\<close> is a function that also mutates a state \<open>'s\<close> (the per-party random
    generators); the state is returned on every outcome, since the callers keep it after an error.
  \<^item> \<open>wadd\<close>, \<open>wsub\<close>, \<open>wmul\<close> are the 64-bit \<open>usize\<close> operations of a release build, with the
    wrap-around written out.
\<close>

named_theorems res_simps "evaluation of the result and state-passing combinators"
named_theorems byte_simps "lengths and prefixes of the byte encodings"

section \<open>Bytes, words and party ids\<close>

type_synonym byte = "8 word"
type_synonym bytes = "byte list"
type_synonym party_id = nat

section \<open>Results\<close>

datatype ('e, 'a) res = Ok 'a | Err 'e | Panic

fun bindR :: "('e, 'a) res \<Rightarrow> ('a \<Rightarrow> ('e, 'b) res) \<Rightarrow> ('e, 'b) res" where
  "bindR (Ok a) f = f a"
| "bindR (Err e) f = Err e"
| "bindR Panic f = Panic"

definition of_opt :: "'a option \<Rightarrow> ('e, 'a) res" where
  \<comment> \<open>\<open>Option::expect\<close>, indexing a slice or a map\<close>
  "of_opt x = (case x of None \<Rightarrow> Panic | Some a \<Rightarrow> Ok a)"

fun mapR :: "('a \<Rightarrow> ('e, 'b) res) \<Rightarrow> 'a list \<Rightarrow> ('e, 'b list) res" where
  "mapR f [] = Ok []"
| "mapR f (x # xs) = bindR (f x) (\<lambda>y. bindR (mapR f xs) (\<lambda>ys. Ok (y # ys)))"

fun foldR :: "('a \<Rightarrow> 's \<Rightarrow> ('e, 's) res) \<Rightarrow> 'a list \<Rightarrow> 's \<Rightarrow> ('e, 's) res" where
  "foldR f [] s = Ok s"
| "foldR f (x # xs) s = bindR (f x s) (foldR f xs)"

lemma bindR_Ok_iff [res_simps]:
  "bindR m f = Ok b \<longleftrightarrow> (\<exists>a. m = Ok a \<and> f a = Ok b)"
  by (cases m) auto

lemma bindR_Err_iff:
  "bindR m f = Err e \<longleftrightarrow> m = Err e \<or> (\<exists>a. m = Ok a \<and> f a = Err e)"
  by (cases m) auto

lemma bindR_Panic_iff:
  "bindR m f = Panic \<longleftrightarrow> m = Panic \<or> (\<exists>a. m = Ok a \<and> f a = Panic)"
  by (cases m) auto

lemma bindR_assoc: "bindR (bindR m f) g = bindR m (\<lambda>x. bindR (f x) g)"
  by (cases m) auto

lemma bindR_right_id: "bindR m Ok = m"
  by (cases m) auto

lemma of_opt_simps [simp]: "of_opt (Some a) = Ok a" "of_opt None = Panic"
  by (simp_all add: of_opt_def)

lemma of_opt_Ok_iff [simp]: "of_opt x = Ok a \<longleftrightarrow> x = Some a"
  by (cases x) (auto simp: of_opt_def)

lemma mapR_Ok:
  assumes "\<And>x. x \<in> set xs \<Longrightarrow> f x = Ok (g x)"
  shows "mapR f xs = Ok (map g xs)"
  using assms by (induction xs) auto

lemma mapR_Ok_iff:
  "mapR f xs = Ok ys \<longleftrightarrow> list_all2 (\<lambda>x y. f x = Ok y) xs ys"
proof (induction xs arbitrary: ys)
  case Nil
  then show ?case by auto
next
  case (Cons x xs)
  then show ?case by (cases ys) (auto simp: bindR_Ok_iff)
qed

lemma mapR_map: "mapR f (map g xs) = mapR (\<lambda>x. f (g x)) xs"
  by (induction xs) auto

lemma mapR_length: "mapR f xs = Ok ys \<Longrightarrow> length ys = length xs"
  by (auto simp: mapR_Ok_iff dest: list_all2_lengthD)

lemma foldR_Ok:
  assumes "\<And>x s. x \<in> set xs \<Longrightarrow> f x s = Ok (g x s)"
  shows "foldR f xs s = Ok (foldl (\<lambda>s x. g x s) s xs)"
  using assms by (induction xs arbitrary: s) auto

lemma foldR_unit: "(\<And>x u. x \<in> set xs \<Longrightarrow> f x u = Ok ()) \<Longrightarrow> foldR f xs () = Ok ()"
  by (induction xs) auto

lemma foldR_append: "foldR f (xs @ ys) s = bindR (foldR f xs s) (foldR f ys)"
proof (induction xs arbitrary: s)
  case (Cons x xs)
  then show ?case by (cases "f x s") auto
qed simp

definition nth_opt :: "'a list \<Rightarrow> nat \<Rightarrow> 'a option" where
  "nth_opt xs i = (if i < length xs then Some (xs ! i) else None)"

lemma nth_opt_simps [simp]:
  "i < length xs \<Longrightarrow> nth_opt xs i = Some (xs ! i)" "length xs \<le> i \<Longrightarrow> nth_opt xs i = None"
  by (simp_all add: nth_opt_def)

section \<open>State passing\<close>

type_synonym ('s, 'e, 'a) sm = "'s \<Rightarrow> ('e, 'a) res \<times> 's"

definition retS :: "'a \<Rightarrow> ('s, 'e, 'a) sm" where
  "retS a = (\<lambda>s. (Ok a, s))"

definition liftR :: "('e, 'a) res \<Rightarrow> ('s, 'e, 'a) sm" where
  "liftR r = (\<lambda>s. (r, s))"

definition bindS :: "('s, 'e, 'a) sm \<Rightarrow> ('a \<Rightarrow> ('s, 'e, 'b) sm) \<Rightarrow> ('s, 'e, 'b) sm" where
  "bindS m f = (\<lambda>s. case m s of
      (Ok a, s') \<Rightarrow> f a s'
    | (Err e, s') \<Rightarrow> (Err e, s')
    | (Panic, s') \<Rightarrow> (Panic, s'))"

fun mapS :: "('a \<Rightarrow> ('s, 'e, 'b) sm) \<Rightarrow> 'a list \<Rightarrow> ('s, 'e, 'b list) sm" where
  "mapS f [] = retS []"
| "mapS f (x # xs) = bindS (f x) (\<lambda>y. bindS (mapS f xs) (\<lambda>ys. retS (y # ys)))"

definition with_rng :: "nat \<Rightarrow> ('r \<Rightarrow> 'a \<times> 'r) \<Rightarrow> ('r list, 'e, 'a) sm" where
  \<comment> \<open>use of \<open>&mut rngs[k]\<close>: an index out of range panics\<close>
  "with_rng k f = (\<lambda>rs. if k < length rs
     then (case f (rs ! k) of (a, r) \<Rightarrow> (Ok a, rs[k := r])) else (Panic, rs))"

lemma retS_apply [simp]: "retS a s = (Ok a, s)"
  by (simp add: retS_def)

lemma liftR_apply [simp]: "liftR r s = (r, s)"
  by (simp add: liftR_def)

lemma bindS_Ok [simp]: "m s = (Ok a, s') \<Longrightarrow> bindS m f s = f a s'"
  by (simp add: bindS_def)

lemma bindS_Err [simp]: "m s = (Err e, s') \<Longrightarrow> bindS m f s = (Err e, s')"
  by (simp add: bindS_def)

lemma bindS_Panic [simp]: "m s = (Panic, s') \<Longrightarrow> bindS m f s = (Panic, s')"
  by (simp add: bindS_def)

lemma bindS_liftR [simp]:
  "bindS (liftR (Ok a)) f = f a" "bindS (liftR (Err e)) f = liftR (Err e)" "bindS (liftR Panic) f = liftR Panic"
  by (simp_all add: bindS_def fun_eq_iff)

lemma bindS_lift2: "bindS (liftR r) (\<lambda>(a, b). liftR (f a b)) = liftR (bindR r (\<lambda>(a, b). f a b))"
  by (cases r) (auto simp: fun_eq_iff)

lemma bindS_lift: "bindS (liftR r) (\<lambda>a. liftR (f a)) = liftR (bindR r f)"
  by (cases r) (auto simp: fun_eq_iff)

lemma bindS_assoc: "bindS (bindS m f) g = bindS m (\<lambda>a. bindS (f a) g)"
  by (auto simp: bindS_def fun_eq_iff split: prod.splits res.splits)

lemma bindS_Ok_iff [res_simps]:
  "bindS m f s = (Ok b, s'') \<longleftrightarrow> (\<exists>a s'. m s = (Ok a, s') \<and> f a s' = (Ok b, s''))"
  by (auto simp: bindS_def split: prod.splits res.splits)

lemma mapS_cong: "(\<And>x. x \<in> set xs \<Longrightarrow> f x = g x) \<Longrightarrow> mapS f xs = mapS g xs"
  by (induction xs) auto

lemma mapS_length: "mapS f xs s = (Ok ys, s') \<Longrightarrow> length ys = length xs"
proof (induction xs arbitrary: s ys)
  case Nil
  then show ?case by simp
next
  case (Cons x xs)
  then show ?case by (fastforce simp: bindS_Ok_iff)
qed

lemma with_rng_length: "with_rng k f rs = (x, rs') \<Longrightarrow> length rs' = length rs"
  by (auto simp: with_rng_def split: if_splits prod.splits)

text \<open>
  A loop over the committee in which iteration \<open>k\<close> draws from generator \<open>k\<close> only: with enough
  generators it never fails, and each result satisfies what every draw guarantees.
\<close>

lemma mapS_with_rng:
  fixes f :: "nat \<Rightarrow> 'x \<Rightarrow> 'r \<Rightarrow> 'y \<times> 'r"
  assumes "k + length xs \<le> length rs"
    and "\<And>i x r. x \<in> set xs \<Longrightarrow> P (i, x) (fst (f i x r))"
  shows "\<exists>ys rs'. mapS (\<lambda>(i, x). with_rng i (f i x)) (List.enumerate k xs) rs = (Ok ys :: ('e, 'y list) res, rs')
    \<and> list_all2 P (List.enumerate k xs) ys \<and> length rs' = length rs"
  using assms
proof (induction xs arbitrary: k rs)
  case Nil
  then show ?case by simp
next
  case (Cons x xs)
  obtain y r where f: "f k x (rs ! k) = (y, r)" by (cases "f k x (rs ! k)") auto
  have len: "Suc k + length xs \<le> length (rs[k := r])" using Cons.prems(1) by simp
  have prem: "P (i, z) (fst (f i z r'))" if "z \<in> set xs" for i z r'
    using Cons.prems(2) that by simp
  from Cons.IH [OF len prem] obtain ys rs' where
    ih: "mapS (\<lambda>(i, x). with_rng i (f i x)) (List.enumerate (Suc k) xs) (rs[k := r]) = (Ok ys :: ('e, 'y list) res, rs')"
    and ok: "list_all2 P (List.enumerate (Suc k) xs) ys" "length rs' = length rs"
    by auto
  have "with_rng k (f k x) rs = (Ok y :: ('e, 'y) res, rs[k := r])"
    using Cons.prems f by (simp add: with_rng_def)
  then have "mapS (\<lambda>(i, x). with_rng i (f i x)) (List.enumerate k (x # xs)) rs
      = (Ok (y # ys) :: ('e, 'y list) res, rs')"
    using ih by (simp add: bindS_def)
  moreover have "P (k, x) y"
    using Cons.prems(2) [of x k "rs ! k"] f by simp
  then have "list_all2 P (List.enumerate k (x # xs)) (y # ys)" using ok by simp
  moreover have "length rs' = length rs" using ok by simp
  ultimately show ?case by blast
qed

lemma list_all2_enumerate_nth:
  "list_all2 P (List.enumerate 0 xs) ys \<longleftrightarrow>
     length ys = length xs \<and> (\<forall>i < length xs. P (i, xs ! i) (ys ! i))"
  by (auto simp: list_all2_conv_all_nth nth_enumerate_eq)

section \<open>Machine arithmetic on \<open>usize\<close>\<close>

definition wadd :: "nat \<Rightarrow> nat \<Rightarrow> nat" where
  "wadd a b = (a + b) mod 2 ^ 64"

definition wmul :: "nat \<Rightarrow> nat \<Rightarrow> nat" where
  "wmul a b = (a * b) mod 2 ^ 64"

definition wsub :: "nat \<Rightarrow> nat \<Rightarrow> nat" where
  "wsub a b = (a + (2 ^ 64 - b mod 2 ^ 64)) mod 2 ^ 64"

lemma wadd_exact: "a + b < 2 ^ 64 \<Longrightarrow> wadd a b = a + b"
  by (simp add: wadd_def)

lemma wmul_exact: "a * b < 2 ^ 64 \<Longrightarrow> wmul a b = a * b"
  by (simp add: wmul_def)

lemma wsub_exact:
  assumes "b \<le> a" "a < 2 ^ 64"
  shows "wsub a b = a - b"
proof -
  have "a + (2 ^ 64 - b mod 2 ^ 64) = (a - b) + 2 ^ 64"
    using assms by simp
  then have "wsub a b = (a - b) mod 2 ^ 64"
    unfolding wsub_def by (simp only: mod_add_self2)
  then show ?thesis using assms by simp
qed

section \<open>Big-endian byte strings\<close>

primrec be_bytes :: "nat \<Rightarrow> nat \<Rightarrow> bytes" where
  \<comment> \<open>the low \<open>k\<close> bytes of \<open>n\<close>, most significant first\<close>
  "be_bytes 0 n = []"
| "be_bytes (Suc k) n = be_bytes k (n div 256) @ [of_nat n]"

definition u64_be :: "nat \<Rightarrow> bytes" where
  \<comment> \<open>\<open>u64::to_be_bytes\<close>\<close>
  "u64_be n = be_bytes 8 n"

definition be_nat :: "bytes \<Rightarrow> nat" where
  \<comment> \<open>\<open>u64::from_be_bytes\<close>\<close>
  "be_nat bs = foldl (\<lambda>a b. a * 256 + unat b) 0 bs"

lemma length_be_bytes [simp]: "length (be_bytes k n) = k"
  by (induction k arbitrary: n) auto

lemma length_u64_be [simp, byte_simps]: "length (u64_be n) = 8"
  by (simp add: u64_be_def)

lemma unat_of_nat_byte: "unat (of_nat n :: byte) = n mod 256"
  by (simp add: unat_of_nat)

lemma be_nat_be_bytes: "be_nat (be_bytes k n) = n mod 256 ^ k"
proof (induction k arbitrary: n)
  case 0
  then show ?case by (simp add: be_nat_def)
next
  case (Suc k)
  have "be_nat (be_bytes (Suc k) n) = be_nat (be_bytes k (n div 256)) * 256 + n mod 256"
    by (simp add: be_nat_def unat_of_nat_byte)
  also have "\<dots> = n div 256 mod 256 ^ k * 256 + n mod 256"
    by (simp add: Suc.IH)
  also have "\<dots> = n mod 256 ^ Suc k"
    by (simp add: mod_mult2_eq mult.commute)
  finally show ?case .
qed

lemma be_nat_u64_be: "n < 2 ^ 64 \<Longrightarrow> be_nat (u64_be n) = n"
  by (simp add: u64_be_def be_nat_be_bytes)

lemma u64_be_inject: "m < 2 ^ 64 \<Longrightarrow> n < 2 ^ 64 \<Longrightarrow> u64_be m = u64_be n \<longleftrightarrow> m = n"
  using be_nat_u64_be by metis

section \<open>Decimal strings\<close>

fun dec_str :: "nat \<Rightarrow> string" where
  \<comment> \<open>\<open>format!("{n}")\<close>\<close>
  "dec_str n = (if n < 10 then [char_of (48 + n)] else dec_str (n div 10) @ [char_of (48 + n mod 10)])"

declare dec_str.simps [simp del]

section \<open>Partitioning a list of shares\<close>

text \<open>
  The loop that sorts incoming shares into valid senders, valid values and blamed senders; the
  source writes it out in every opening and combine.
\<close>

fun sift :: "('k \<Rightarrow> 'v \<Rightarrow> bool) \<Rightarrow> ('k \<times> 'v) list \<Rightarrow> 'k list \<times> 'v list \<times> 'k list
    \<Rightarrow> 'k list \<times> 'v list \<times> 'k list" where
  "sift P [] acc = acc"
| "sift P ((k, v) # xs) (ps, vs, bl) =
     sift P xs (if P k v then (ps @ [k], vs @ [v], bl) else (ps, vs, bl @ [k]))"

lemma sift_filter:
  "sift P xs (ps, vs, bl) =
     (ps @ map fst (filter (\<lambda>(k, v). P k v) xs), vs @ map snd (filter (\<lambda>(k, v). P k v) xs),
      bl @ map fst (filter (\<lambda>(k, v). \<not> P k v) xs))"
  by (induction xs arbitrary: ps vs bl) auto

lemma sift_Nil:
  "sift P xs ([], [], []) =
     (map fst (filter (\<lambda>(k, v). P k v) xs), map snd (filter (\<lambda>(k, v). P k v) xs),
      map fst (filter (\<lambda>(k, v). \<not> P k v) xs))"
  by (simp add: sift_filter)

lemma distinct_fst_filter: "distinct (map fst xs) \<Longrightarrow> distinct (map fst (filter P xs))"
  by (rule distinct_map_filter)

lemma map_of_keyed:
  assumes "distinct (map k xs)" "x \<in> set xs"
  shows "map_of (map (\<lambda>x. (k x, v x)) xs) (k x) = Some (v x)"
  using assms by (subst map_of_eq_Some_iff) (auto simp: o_def)

lemma filter_eq_singleton:
  assumes "distinct xs" "x \<in> set xs"
  shows "filter (\<lambda>y. y = x) xs = [x]"
  using assms by (induction xs) (auto simp: filter_empty_conv)

lemma map_nth_pos: "map (\<lambda>k. f (xs ! k)) [0..<length xs] = map f xs"
  by (rule nth_equalityI) auto

lemma enumerate_conv_nth: "List.enumerate 0 xs = map (\<lambda>i. (i, xs ! i)) [0..<length xs]"
  by (rule nth_equalityI) (auto simp: nth_enumerate_eq)

lemma enumerate_map: "map (\<lambda>(i, x). f x) (List.enumerate k xs) = map f xs"
  by (induction xs arbitrary: k) auto

text \<open>A list computed element by element from distinct keys is a function of the keys.\<close>

lemma list_all2_fun:
  assumes "list_all2 P xs ys" "distinct xs"
  shows "\<exists>F. ys = map F xs \<and> (\<forall>x \<in> set xs. P x (F x))"
  using assms
proof (induction rule: list_all2_induct)
  case Nil
  then show ?case by simp
next
  case (Cons x xs y ys)
  then obtain F where F: "ys = map F xs" "\<forall>x \<in> set xs. P x (F x)" by auto
  show ?case
    using Cons.prems Cons.hyps F by (intro exI [of _ "F(x := y)"]) auto
qed

lemma list_all2_enumerate:
  "list_all2 (\<lambda>(i, x) y. P x y) (List.enumerate k xs) ys \<longleftrightarrow> list_all2 P xs ys"
proof (induction xs arbitrary: k ys)
  case (Cons x xs)
  then show ?case by (cases ys) auto
qed simp

lemma map_of_map_key: "x \<in> set xs \<Longrightarrow> map_of (map (\<lambda>x. (x, f x)) xs) x = Some (f x)"
  by (induction xs) auto

lemma filter_concat_singleton:
  assumes "\<And>x. x \<in> set xs \<Longrightarrow> filter P (f x) = [g x]"
  shows "filter P (concat (map f xs)) = map g xs"
  using assms by (induction xs) auto

lemma zip_map_self: "zip xs (map f xs) = map (\<lambda>x. (x, f x)) xs"
  by (induction xs) auto

lemma zip_map_both: "zip (map f xs) (map g xs) = map (\<lambda>x. (f x, g x)) xs"
  by (induction xs) auto

text \<open>A fold whose state is a function of the prefix it has consumed.\<close>

lemma foldR_prefix:
  assumes "\<And>ps x. x \<in> set xs \<Longrightarrow> f x (I ps) = Ok (I (ps @ [x]))"
  shows "foldR f xs (I ps) = Ok (I (ps @ xs))"
  using assms
proof (induction xs arbitrary: ps)
  case (Cons x xs)
  have "f x (I ps) = Ok (I (ps @ [x]))" using Cons.prems by simp
  moreover have "foldR f xs (I (ps @ [x])) = Ok (I ((ps @ [x]) @ xs))"
    using Cons.prems by (intro Cons.IH) simp
  ultimately show ?case by simp
qed simp

lemma foldR_map: "foldR f (map g xs) s = foldR (\<lambda>x. f (g x)) xs s"
  by (induction xs arbitrary: s) (auto intro: arg_cong2 [of _ _ _ _ bindR])

text \<open>A fold stops at the first element whose step fails.\<close>

lemma foldR_stop:
  assumes "\<And>y s. y \<in> set ys \<Longrightarrow> \<exists>s'. f y s = Ok s'" and "\<And>s. f x s = Err e"
  shows "foldR f (ys @ x # zs) s = Err e"
  using assms
proof (induction ys arbitrary: s)
  case (Cons y ys)
  from Cons.prems(1) [of y s] obtain s' where "f y s = Ok s'" by auto
  then show ?case using Cons by simp
qed simp

text \<open>Every step either succeeds or fails as described.\<close>

lemma foldR_cases:
  assumes "\<And>x s. x \<in> set xs \<Longrightarrow> (\<exists>s'. f x s = Ok s') \<or> (\<exists>e. f x s = Err e \<and> Q x e)"
  shows "(\<exists>s'. foldR f xs s = Ok s') \<or> (\<exists>x \<in> set xs. \<exists>e. foldR f xs s = Err e \<and> Q x e)"
  using assms
proof (induction xs arbitrary: s)
  case (Cons x xs)
  from Cons.prems [of x s] consider s' where "f x s = Ok s'" | e where "f x s = Err e" "Q x e" by auto
  then show ?case
  proof cases
    case 1
    then show ?thesis using Cons.IH [of s'] Cons.prems by auto
  next
    case 2
    then show ?thesis by auto
  qed
qed simp

lemma foldR_Ok_step: "foldR f xs s = Ok s' \<Longrightarrow> x \<in> set xs \<Longrightarrow> \<exists>s1 s2. f x s1 = Ok s2"
  by (induction xs arbitrary: s) (auto simp: bindR_Ok_iff)

lemma map_update_key:
  assumes "distinct xs" "p < length xs"
  shows "(map f xs)[p := y] = map (f(xs ! p := y)) xs"
  using assms by (intro nth_equalityI) (auto simp: nth_list_update nth_eq_iff_index_eq)

lemma foldR_upt:
  assumes "\<And>k. k < n \<Longrightarrow> f k (I k) = Ok (I (Suc k))"
  shows "foldR f [0..<n] (I 0) = Ok (I n)"
  using assms by (induction n) (auto simp: foldR_append)

lemma enumerate_map_upt: "List.enumerate 0 (map f [0..<n]) = map (\<lambda>k. (k, f k)) [0..<n]"
  by (rule nth_equalityI) (auto simp: nth_enumerate_eq)

lemma list_all2_upt:
  "list_all2 P (map f [0..<n]) ys \<Longrightarrow> \<exists>g. ys = map g [0..<n] \<and> (\<forall>k < n. P (f k) (g k))"
  by (rule exI [of _ "\<lambda>k. ys ! k"]) (auto simp: list_all2_conv_all_nth intro: nth_equalityI)

text \<open>A loop of steps that each return a value or stop with an error of their own.\<close>

lemma mapR_stop:
  assumes "\<And>x. x \<in> set xs \<Longrightarrow> (f x = Ok (g x) \<and> P x) \<or> (\<exists>e. f x = Err e \<and> Q x e)"
  shows "(mapR f xs = Ok (map g xs) \<and> (\<forall>x \<in> set xs. P x)) \<or> (\<exists>x \<in> set xs. \<exists>e. mapR f xs = Err e \<and> Q x e)"
  using assms
proof (induction xs)
  case (Cons x xs)
  from Cons.prems [of x] consider "f x = Ok (g x)" "P x" | e where "f x = Err e" "Q x e" by auto
  then show ?case
  proof cases
    case 1
    from Cons.IH Cons.prems show ?thesis using 1 by fastforce
  next
    case 2
    then show ?thesis by auto
  qed
qed simp

end
