(* ===== verification/Ordered_Map.thy ===== *)
theory Ordered_Map
  imports Prelude
begin

text \<open>
  The model of Rust's \<open>BTreeMap\<close>: an association list with strictly
  ascending keys, so that iteration is the list itself. The locale \<open>ordered_map\<close> is the contract
  the protocol code relies on (lookup after insert and remove, ascending iteration, size); what
  the message-set code needs from \<open>collect()\<close> is proved inside it once and used through the
  interpretation \<open>bt\<close>. Most maps are keyed by party ids (\<open>btree\<close>).
\<close>

type_synonym ('k, 'v) kmap = "('k \<times> 'v) list"
type_synonym 'v btree = "(party_id, 'v) kmap"

fun bt_insert :: "'k::linorder \<Rightarrow> 'v \<Rightarrow> ('k, 'v) kmap \<Rightarrow> ('k, 'v) kmap" where
  "bt_insert k v [] = [(k, v)]"
| "bt_insert k v ((a, b) # m) =
     (if k < a then (k, v) # (a, b) # m else if k = a then (k, v) # m else (a, b) # bt_insert k v m)"

fun bt_get :: "('k, 'v) kmap \<Rightarrow> 'k \<Rightarrow> 'v option" where
  "bt_get [] k = None"
| "bt_get ((a, b) # m) k = (if k = a then Some b else bt_get m k)"

fun bt_remove :: "'k \<Rightarrow> ('k, 'v) kmap \<Rightarrow> ('k, 'v) kmap" where
  "bt_remove k [] = []"
| "bt_remove k ((a, b) # m) = (if k = a then m else (a, b) # bt_remove k m)"

definition bt_contains :: "('k, 'v) kmap \<Rightarrow> 'k \<Rightarrow> bool" where
  "bt_contains m k = (bt_get m k \<noteq> None)"

definition bt_of_list :: "('k::linorder \<times> 'v) list \<Rightarrow> ('k, 'v) kmap" where
  \<comment> \<open>\<open>collect()\<close> into a map: later pairs replace earlier ones\<close>
  "bt_of_list xs = foldl (\<lambda>m (k, v). bt_insert k v m) [] xs"

definition bt_wf :: "('k::linorder, 'v) kmap \<Rightarrow> bool" where
  "bt_wf m = sorted_wrt (<) (map fst m)"

lemma map_of_rev_distinct:
  assumes "distinct (map fst xs)"
  shows "map_of (rev xs) = map_of xs"
  using assms map_of_inject_set [of "rev xs" xs] by (simp add: rev_map [symmetric])

section \<open>The contract\<close>

locale ordered_map =
  fixes empty :: 'm
    and insert :: "'k::linorder \<Rightarrow> 'v \<Rightarrow> 'm \<Rightarrow> 'm"
    and get :: "'m \<Rightarrow> 'k \<Rightarrow> 'v option"
    and remove :: "'k \<Rightarrow> 'm \<Rightarrow> 'm"
    and entries :: "'m \<Rightarrow> ('k \<times> 'v) list"
    and wf :: "'m \<Rightarrow> bool"
  assumes wf_empty: "wf empty"
    and get_empty: "get empty k = None"
    and wf_insert: "wf m \<Longrightarrow> wf (insert k v m)"
    and get_insert: "wf m \<Longrightarrow> get (insert k v m) j = (if j = k then Some v else get m j)"
    and wf_remove: "wf m \<Longrightarrow> wf (remove k m)"
    and get_remove: "wf m \<Longrightarrow> get (remove k m) j = (if j = k then None else get m j)"
    and entries_sorted: "wf m \<Longrightarrow> sorted_wrt (<) (map fst (entries m))"
    and entries_get: "wf m \<Longrightarrow> (k, v) \<in> set (entries m) \<longleftrightarrow> get m k = Some v"
begin

lemma wf_collect: "wf m \<Longrightarrow> wf (foldl (\<lambda>m (k, v). insert k v m) m xs)"
  by (induction xs arbitrary: m) (auto simp: wf_insert)

lemma get_collect:
  "wf m \<Longrightarrow> get (foldl (\<lambda>m (k, v). insert k v m) m xs) j =
     (case map_of (rev xs) j of None \<Rightarrow> get m j | Some v \<Rightarrow> Some v)"
proof (induction xs arbitrary: m)
  case Nil
  then show ?case by simp
next
  case (Cons kv xs)
  then show ?case
    by (cases kv) (simp add: wf_insert get_insert map_add_def split: option.splits)
qed

lemma distinct_entries: "wf m \<Longrightarrow> distinct (map fst (entries m))"
  using entries_sorted by (simp add: strict_sorted_iff)

lemma entries_ext:
  assumes "wf m" "wf m'" and "\<And>k. get m k = get m' k"
  shows "entries m = entries m'"
proof -
  have set_eq: "set (entries m) = set (entries m')"
    using assms by (auto simp: entries_get)
  then have fst_eq: "map fst (entries m) = map fst (entries m')"
    using entries_sorted [OF assms(1)] entries_sorted [OF assms(2)]
    by (metis set_map strict_sorted_equal)
  show ?thesis
  proof (rule nth_equalityI)
    show "length (entries m) = length (entries m')"
      using arg_cong [OF fst_eq, of length] by simp
    fix i
    assume i: "i < length (entries m)"
    then have i': "i < length (entries m')"
      using arg_cong [OF fst_eq, of length] by simp
    have key: "fst (entries m ! i) = fst (entries m' ! i)"
      using arg_cong [OF fst_eq, of "\<lambda>l. l ! i"] i i' by simp
    have "get m (fst (entries m ! i)) = Some (snd (entries m ! i))"
      using i entries_get [OF assms(1)] by (metis nth_mem surjective_pairing)
    moreover have "get m' (fst (entries m' ! i)) = Some (snd (entries m' ! i))"
      using i' entries_get [OF assms(2)] by (metis nth_mem surjective_pairing)
    ultimately show "entries m ! i = entries m' ! i"
      using key assms(3) by (metis option.inject prod.expand)
  qed
qed

lemma size_collect:
  assumes "distinct (map fst xs)"
  shows "length (entries (foldl (\<lambda>m (k, v). insert k v m) empty xs)) = length xs"
proof -
  let ?m = "foldl (\<lambda>m (k, v). insert k v m) empty xs"
  have get: "get ?m k = map_of xs k" for k
    using assms get_collect [OF wf_empty, of xs k]
    by (simp add: get_empty map_of_rev_distinct split: option.splits)
  have "(k, v) \<in> set (entries ?m) \<longleftrightarrow> (k, v) \<in> set xs" for k v
    using assms entries_get [OF wf_collect [OF wf_empty], of k v]
    by (simp add: get map_of_eq_Some_iff)
  then have "set (entries ?m) = set xs" by auto
  moreover have "distinct (entries ?m)"
    using distinct_entries [OF wf_collect [OF wf_empty]] distinct_map by blast
  moreover have "distinct xs" using assms distinct_map by blast
  ultimately show ?thesis by (metis distinct_card)
qed

end

section \<open>The association list provides it\<close>

lemma fst_bt_insert: "fst ` set (bt_insert k v m) = Set.insert k (fst ` set m)"
  by (induction m rule: bt_insert.induct [of _ k v]) (auto simp: image_iff split: if_splits)

lemma bt_wf_insert: "bt_wf m \<Longrightarrow> bt_wf (bt_insert k v m)"
proof (induction m)
  case Nil
  then show ?case by (simp add: bt_wf_def)
next
  case (Cons ab m)
  then show ?case
    using fst_bt_insert [of k v m] by (cases ab) (auto simp: bt_wf_def)
qed

lemma bt_get_insert: "bt_get (bt_insert k v m) j = (if j = k then Some v else bt_get m j)"
  by (induction m) auto

lemma bt_get_notin: "k \<notin> fst ` set m \<Longrightarrow> bt_get m k = None"
  by (induction m) force+

lemma set_bt_remove: "set (bt_remove k m) \<subseteq> set m"
  by (induction m) (auto split: if_splits)

lemma bt_wf_remove: "bt_wf m \<Longrightarrow> bt_wf (bt_remove k m)"
proof (induction m)
  case (Cons ab m)
  then show ?case
    using set_bt_remove [of k m] by (cases ab) (fastforce simp: bt_wf_def)
qed (simp add: bt_wf_def)

lemma bt_get_remove: "bt_wf m \<Longrightarrow> bt_get (bt_remove k m) j = (if j = k then None else bt_get m j)"
proof (induction m)
  case (Cons ab m)
  have "bt_get m (fst ab) = None"
    using Cons.prems by (intro bt_get_notin) (auto simp: bt_wf_def)
  with Cons show ?case by (cases ab) (auto simp: bt_wf_def)
qed simp

lemma bt_entries_get: "bt_wf m \<Longrightarrow> (k, v) \<in> set m \<longleftrightarrow> bt_get m k = Some v"
proof (induction m)
  case (Cons ab m)
  then have "fst ab \<notin> fst ` set m" by (auto simp: bt_wf_def)
  then have "(fst ab, w) \<notin> set m" for w by (metis fst_conv image_eqI)
  with Cons show ?case by (cases ab) (auto simp: bt_wf_def)
qed simp

interpretation bt: ordered_map "[]" bt_insert bt_get bt_remove "\<lambda>m. m" bt_wf
  by unfold_locales
    (auto simp: bt_wf_insert bt_get_insert bt_wf_remove bt_get_remove bt_entries_get, auto simp: bt_wf_def)

lemma bt_of_list_wf [simp]: "bt_wf (bt_of_list xs)"
  unfolding bt_of_list_def by (rule bt.wf_collect) (simp add: bt_wf_def)

lemma bt_get_of_list:
  assumes "distinct (map fst xs)"
  shows "bt_get (bt_of_list xs) k = map_of xs k"
  using bt.get_collect [OF bt.wf_empty, of xs k] assms
  by (simp add: bt_of_list_def map_of_rev_distinct split: option.splits)

lemma length_bt_of_list: "distinct (map fst xs) \<Longrightarrow> length (bt_of_list xs) = length xs"
  unfolding bt_of_list_def by (rule bt.size_collect)

lemma distinct_bt_of_list: "distinct (map fst (bt_of_list xs))"
  by (rule bt.distinct_entries) simp

text \<open>Collecting pairs whose keys already ascend changes nothing.\<close>

lemma bt_get_map_of: "bt_get m k = map_of m k"
  by (induction m) auto

lemma bt_of_list_sorted:
  assumes "sorted_wrt (<) (map fst xs)"
  shows "bt_of_list xs = xs"
proof (rule bt.entries_ext)
  show "bt_wf (bt_of_list xs)" by simp
  show "bt_wf xs" using assms by (simp add: bt_wf_def)
  show "bt_get (bt_of_list xs) k = bt_get xs k" for k
  proof -
    have "distinct (map fst xs)" using assms by (simp add: strict_sorted_iff)
    then show ?thesis unfolding bt_get_of_list [OF \<open>distinct (map fst xs)\<close>] by (simp add: bt_get_map_of)
  qed
qed

lemma bt_of_list_idem: "bt_of_list (bt_of_list xs) = bt_of_list xs"
  by (rule bt_of_list_sorted) (metis bt_of_list_wf bt_wf_def)

lemma bt_get_collected: "bt_get (bt_of_list xs) j = map_of (rev xs) j"
  using bt.get_collect [OF bt.wf_empty, of xs j] by (simp add: bt_of_list_def split: option.splits)

text \<open>Collecting commutes with a change of the values.\<close>

lemma bt_insert_map:
  "bt_insert k (f k v) (map (\<lambda>(k, v). (k, f k v)) m) = map (\<lambda>(k, v). (k, f k v)) (bt_insert k v m)"
  by (induction m) auto

lemma bt_of_list_map:
  "bt_of_list (map (\<lambda>(k, v). (k, f k v)) xs) = map (\<lambda>(k, v). (k, f k v)) (bt_of_list xs)"
proof -
  have "foldl (\<lambda>m (k, v). bt_insert k v m) (map (\<lambda>(k, v). (k, f k v)) m) (map (\<lambda>(k, v). (k, f k v)) xs)
      = map (\<lambda>(k, v). (k, f k v)) (foldl (\<lambda>m (k, v). bt_insert k v m) m xs)" for m
    by (induction xs arbitrary: m) (auto simp: bt_insert_map)
  from this [of "[]"] show ?thesis by (simp add: bt_of_list_def)
qed

end
