(* ===== verification/Core.thy ===== *)
theory Core
  imports Ordered_Map
begin

text \<open>
  The crate root (\<open>src/lib.rs\<close>) and its error type (\<open>src/error.rs\<close>): thresholds, committees,
  domain-separation tags, the commitment hash and the session id. It also declares \<open>k256\<close>, the
  record of everything the program takes from outside its sources (curve, field encodings, hash,
  randomness), and \<open>k256_ok\<close>, the documented laws of the curve the theorems name as hypothesis.

  Scalars are a type \<open>'f\<close> of class \<open>field\<close>, curve points a type \<open>'g\<close> of class \<open>ab_group_add\<close>
  (affine and projective forms of a point are one value), generators of randomness a type \<open>'r\<close>.
\<close>

section \<open>Phases and errors\<close>

datatype phase = KeyGen | Triples | Presign | Sign | Refresh

fun phase_display :: "phase \<Rightarrow> string" where
  "phase_display KeyGen = ''keygen''"
| "phase_display Triples = ''triples''"
| "phase_display Presign = ''presign''"
| "phase_display Sign = ''sign''"
| "phase_display Refresh = ''refresh''"

record ident_abort =
  ab_phase :: phase
  ab_blamed :: "party_id list"
  ab_detail :: string

datatype error =
    InvalidParams string
  | RevealMismatch party_id
  | InvalidShare party_id party_id
  | InvalidProductProof party_id
  | InvalidOpening party_id
  | InvalidNoncePoint party_id
  | InvalidSigShare party_id
  | ZeroValue string
  | NotEnoughShares nat nat
  | Abort ident_abort
  | PresigStore string
  | Ecdsa

type_synonym 'a result = "(error, 'a) res"

definition abort :: "phase \<Rightarrow> party_id list \<Rightarrow> string \<Rightarrow> 'a result" where
  \<comment> \<open>\<open>Err(Error::Abort \<dots>)\<close>\<close>
  "abort ph bl d = Err (Abort \<lparr>ab_phase = ph, ab_blamed = bl, ab_detail = d\<rparr>)"

definition section_sign :: string where
  \<comment> \<open>the UTF-8 bytes of the section sign in the source's messages\<close>
  "section_sign = [char_of (0xC2 :: nat), char_of (0xA7 :: nat)]"

section \<open>The curve, the hash and the randomness: parameters of the program\<close>

record ('f, 'g, 'r) k256 =
  gen :: 'g
  smul :: "'g \<Rightarrow> 'f \<Rightarrow> 'g"
  sha256 :: "bytes \<Rightarrow> bytes"
  reduce :: "bytes \<Rightarrow> 'f"
  pt_bytes :: "'g \<Rightarrow> bytes"
  pt_of_bytes :: "bytes \<Rightarrow> 'g option"
  x_bytes :: "'g \<Rightarrow> bytes option"
  sc_bytes :: "'f \<Rightarrow> bytes"
  sc_of_bytes :: "bytes \<Rightarrow> 'f option"
  is_high :: "'f \<Rightarrow> bool"
  sig_from_scalars :: "'f \<Rightarrow> 'f \<Rightarrow> ('f \<times> 'f) option"
  sig_normalize :: "'f \<times> 'f \<Rightarrow> ('f \<times> 'f) option"
  rnd :: "'r \<Rightarrow> 'f \<times> 'r"

definition module_law :: "('f::field, 'g::ab_group_add, 'r) k256 \<Rightarrow> bool" where
  "module_law E \<longleftrightarrow>
     (\<forall>P a b. smul E P (a + b) = smul E P a + smul E P b) \<and>
     (\<forall>P Q a. smul E (P + Q) a = smul E P a + smul E Q a) \<and>
     (\<forall>P a b. smul E (smul E P a) b = smul E P (a * b)) \<and>
     (\<forall>P. smul E P 1 = P)"

definition generator_law :: "('f::field, 'g::ab_group_add, 'r) k256 \<Rightarrow> bool" where
  "generator_law E \<longleftrightarrow> (\<forall>a. smul E (gen E) a = 0 \<longrightarrow> a = 0)"

definition index_law :: "('f::field, 'g::ab_group_add, 'r) k256 \<Rightarrow> bool" where
  \<comment> \<open>the group order is far above the 64-bit party indices\<close>
  "index_law E \<longleftrightarrow> (\<forall>i < 2 ^ 128. \<forall>j < 2 ^ 128. of_nat i = (of_nat j :: 'f) \<longrightarrow> i = j)"

definition x_law :: "('f::field, 'g::ab_group_add, 'r) k256 \<Rightarrow> bool" where
  \<comment> \<open>only the identity has no x coordinate; a point and its negation share theirs\<close>
  "x_law E \<longleftrightarrow> (\<forall>P. (x_bytes E P = None) = (P = 0)) \<and> (\<forall>P. x_bytes E (- P) = x_bytes E P)"

definition sig_law :: "('f::field, 'g::ab_group_add, 'r) k256 \<Rightarrow> bool" where
  \<comment> \<open>\<open>Signature::from_scalars\<close> refuses zero scalars; \<open>normalize_s\<close> returns the low-\<open>s\<close> form of a high-\<open>s\<close> signature\<close>
  "sig_law E \<longleftrightarrow>
     (\<forall>r s. sig_from_scalars E r s = (if r = 0 \<or> s = 0 then None else Some (r, s))) \<and>
     (\<forall>r s. sig_normalize E (r, s) = (if is_high E s then Some (r, - s) else None)) \<and>
     (\<forall>s. is_high E s \<longrightarrow> \<not> is_high E (- s))"

definition k256_ok :: "('f::field, 'g::ab_group_add, 'r) k256 \<Rightarrow> bool" where
  "k256_ok E \<longleftrightarrow> module_law E \<and> generator_law E \<and> index_law E \<and> x_law E \<and> sig_law E"

definition sc_invert :: "'f::field \<Rightarrow> 'f option" where
  \<comment> \<open>\<open>Scalar::invert\<close>\<close>
  "sc_invert s = (if s = 0 then None else Some (inverse s))"

definition scalar_from_digest :: "('f, 'g, 'r) k256 \<Rightarrow> bytes \<Rightarrow> 'f" where
  "scalar_from_digest E digest = reduce E digest"

section \<open>Consequences of the laws\<close>

lemma smul_add: "k256_ok E \<Longrightarrow> smul E P (a + b) = smul E P a + smul E P b"
  by (simp add: k256_ok_def module_law_def)

lemma smul_add_pt: "k256_ok E \<Longrightarrow> smul E (P + Q) a = smul E P a + smul E Q a"
  by (simp add: k256_ok_def module_law_def)

lemma smul_smul: "k256_ok E \<Longrightarrow> smul E (smul E P a) b = smul E P (a * b)"
  by (simp add: k256_ok_def module_law_def)

lemma smul_1: "k256_ok E \<Longrightarrow> smul E P 1 = P"
  by (simp add: k256_ok_def module_law_def)

lemma smul_zero: "k256_ok E \<Longrightarrow> smul E P 0 = 0"
  using smul_add [of E P 0 0] by simp

lemma smul_zero_pt: "k256_ok E \<Longrightarrow> smul E 0 a = 0"
  using smul_add_pt [of E 0 0 a] by simp

lemma smul_neg: "k256_ok E \<Longrightarrow> smul E P (- a) = - smul E P a"
  using smul_add [of E P a "- a"] smul_zero [of E P] by (simp add: eq_neg_iff_add_eq_0 add.commute)

lemma smul_neg_pt: "k256_ok E \<Longrightarrow> smul E (- P) a = - smul E P a"
  using smul_add_pt [of E P "- P" a] smul_zero_pt [of E a]
  by (simp add: eq_neg_iff_add_eq_0 add.commute)

lemma smul_diff: "k256_ok E \<Longrightarrow> smul E P (a - b) = smul E P a - smul E P b"
  using smul_add [of E P a "- b"] by (simp add: smul_neg)

lemma smul_diff_pt: "k256_ok E \<Longrightarrow> smul E (P - Q) a = smul E P a - smul E Q a"
  using smul_add_pt [of E P "- Q" a] by (simp add: smul_neg_pt)

lemma smul_sum: "k256_ok E \<Longrightarrow> smul E P (\<Sum>i\<in>A. f i) = (\<Sum>i\<in>A. smul E P (f i))"
  by (induction A rule: infinite_finite_induct) (simp_all add: smul_zero smul_add)

lemma smul_sum_pt: "k256_ok E \<Longrightarrow> smul E (\<Sum>i\<in>A. f i) a = (\<Sum>i\<in>A. smul E (f i) a)"
  by (induction A rule: infinite_finite_induct) (simp_all add: smul_zero_pt smul_add_pt)

lemmas smul_simps = smul_add smul_add_pt smul_smul smul_1 smul_zero smul_zero_pt smul_neg
  smul_neg_pt smul_diff

lemma smul_gen_inject:
  assumes "k256_ok E"
  shows "smul E (gen E) a = smul E (gen E) b \<longleftrightarrow> a = b"
proof
  assume "smul E (gen E) a = smul E (gen E) b"
  then have "smul E (gen E) (a - b) = 0" using assms by (simp add: smul_diff)
  then have "a - b = 0" using assms unfolding k256_ok_def generator_law_def by blast
  then show "a = b" by simp
qed simp

lemma of_nat_index_inject:
  assumes "k256_ok (E :: ('f::field, 'g::ab_group_add, 'r) k256)" "i < 2 ^ 128" "j < 2 ^ 128"
  shows "(of_nat i :: 'f) = of_nat j \<longleftrightarrow> i = j"
  using assms by (auto simp: k256_ok_def index_law_def)

lemma of_nat_index_inj:
  assumes "k256_ok (E :: ('f::field, 'g::ab_group_add, 'r) k256)" "\<And>i. i \<in> A \<Longrightarrow> i < 2 ^ 64"
  shows "inj_on (of_nat :: nat \<Rightarrow> 'f) A"
proof (rule inj_onI)
  fix i j
  assume ij: "i \<in> A" "j \<in> A" "(of_nat i :: 'f) = of_nat j"
  have "i < 2 ^ 128" "j < 2 ^ 128"
    using assms(2) [OF ij(1)] assms(2) [OF ij(2)] by simp_all
  then show "i = j" using ij(3) of_nat_index_inject [OF assms(1)] by blast
qed

lemma x_bytes_Some: "k256_ok E \<Longrightarrow> P \<noteq> 0 \<Longrightarrow> \<exists>b. x_bytes E P = Some b"
  by (auto simp: k256_ok_def x_law_def)

section \<open>Thresholds\<close>

record params =
  p_n :: nat
  p_t :: nat

definition params_new :: "nat \<Rightarrow> nat \<Rightarrow> params result" where
  "params_new n t =
     (if t < 1 then Err (InvalidParams ''threshold must be >= 1'')
      else if n < wsub (wmul 2 t) 1
      then Err (InvalidParams ''honest majority requires n >= 2t - 1'')
      else Ok \<lparr>p_n = n, p_t = t\<rparr>)"

definition parties :: "params \<Rightarrow> party_id list" where
  "parties p = [1..<Suc (p_n p)]"

section \<open>Committees\<close>

record committee =
  c_ids :: "party_id list"
  c_t :: nat

fun dup_window :: "party_id list \<Rightarrow> bool" where
  \<comment> \<open>\<open>ids.windows(2).any(|w| w[0] == w[1])\<close>\<close>
  "dup_window (a # b # xs) = (a = b \<or> dup_window (b # xs))"
| "dup_window _ = False"

definition committee_new :: "party_id list \<Rightarrow> nat \<Rightarrow> committee result" where
  "committee_new ids t =
     (if t < 1 then Err (InvalidParams ''threshold must be >= 1'')
      else if length ids < wsub (wmul 2 t) 1
      then Err (InvalidParams ''honest majority requires n >= 2t - 1'')
      else let ids = sort ids in
        bindR (of_opt (if ids = [] then None else Some (hd ids))) (\<lambda>first.
          if first = 0
          then Err (InvalidParams ''party ids start at 1; 0 is the secret'')
          else if dup_window ids then Err (InvalidParams ''duplicate party ids'')
          else Ok \<lparr>c_ids = ids, c_t = t\<rparr>))"

definition committee_full :: "params \<Rightarrow> committee result" where
  \<comment> \<open>\<open>Committee::full\<close>: an error of \<open>new\<close> is an \<open>expect\<close> panic\<close>
  "committee_full p = (case committee_new (parties p) (p_t p) of Ok c \<Rightarrow> Ok c | _ \<Rightarrow> Panic)"

definition c_n :: "committee \<Rightarrow> nat" where
  "c_n c = length (c_ids c)"

fun find_index :: "('a \<Rightarrow> bool) \<Rightarrow> 'a list \<Rightarrow> nat option" where
  "find_index P [] = None"
| "find_index P (x # xs) = (if P x then Some 0 else map_option Suc (find_index P xs))"

definition position :: "committee \<Rightarrow> party_id \<Rightarrow> nat option" where
  "position c j = find_index (\<lambda>p. p = j) (c_ids c)"

definition committee_wf :: "committee \<Rightarrow> bool" where
  \<comment> \<open>what \<open>Committee::new\<close> establishes, and no operation changes\<close>
  "committee_wf c \<longleftrightarrow> 1 \<le> c_t c \<and> 2 * c_t c - 1 \<le> length (c_ids c)
     \<and> sorted_wrt (<) (c_ids c) \<and> (\<forall>j \<in> set (c_ids c). 1 \<le> j \<and> j < 2 ^ 64)"

lemma dup_window_iff: "sorted xs \<Longrightarrow> dup_window xs \<longleftrightarrow> \<not> distinct xs"
  by (induction xs rule: dup_window.induct) (auto intro: le_antisym)

lemma find_index_nth:
  "distinct xs \<Longrightarrow> i < length xs \<Longrightarrow> find_index (\<lambda>p. p = xs ! i) xs = Some i"
  by (induction xs arbitrary: i) (auto simp: nth_Cons split: nat.splits)

lemma find_index_Some:
  "find_index P xs = Some i \<Longrightarrow> i < length xs \<and> P (xs ! i) \<and> (\<forall>k < i. \<not> P (xs ! k))"
  by (induction xs arbitrary: i) (auto simp: less_Suc_eq_0_disj split: if_splits)

lemma find_index_None: "find_index P xs = None \<longleftrightarrow> (\<forall>x \<in> set xs. \<not> P x)"
  by (induction xs) auto

lemma double_minus_one:
  assumes "1 \<le> t" "t \<le> 2 ^ 63"
  shows "wsub (wmul 2 t) 1 = (if t = 2 ^ 63 then 2 ^ 64 - 1 else 2 * t - 1)"
  using assms by (cases "t = 2 ^ 63") (auto simp: wmul_exact wsub_exact, auto simp: wmul_def wsub_def)

lemma parties_sorted: "sorted_wrt (<) (parties p)"
  by (simp add: parties_def sorted_wrt_upt del: upt_Suc)

lemma length_parties [simp]: "length (parties p) = p_n p"
  by (simp add: parties_def)

section \<open>Domain-separation tags\<close>

definition str_bytes :: "string \<Rightarrow> bytes" where
  "str_bytes s = map (\<lambda>c. of_nat (of_char c)) s"

definition DKG_COMMIT :: bytes where
  "DKG_COMMIT = str_bytes ''OHM-ECDSA/v0.1/dkg-commit''"
definition DKG_BATCH_COMMIT :: bytes where
  "DKG_BATCH_COMMIT = str_bytes ''OHM-ECDSA/v0.1/dkg-batch-commit''"
definition DKG_PACKED_COMMIT :: bytes where
  "DKG_PACKED_COMMIT = str_bytes ''OHM-ECDSA/v0.1/dkg-packed-commit''"
definition TRIPLE_PRODUCT :: bytes where
  "TRIPLE_PRODUCT = str_bytes ''OHM-ECDSA/v0.1/triple-product''"
definition DLEQ_BATCH_RHO :: bytes where
  "DLEQ_BATCH_RHO = str_bytes ''OHM-ECDSA/v0.1/dleq-batch-rho''"
definition SESSION_ID :: bytes where
  "SESSION_ID = str_bytes ''OHM-ECDSA/v0.1/session-id''"
definition REFRESH_COMMIT :: bytes where
  "REFRESH_COMMIT = str_bytes ''OHM-ECDSA/v0.1/refresh-commit''"
definition RESHARE_COMMIT :: bytes where
  "RESHARE_COMMIT = str_bytes ''OHM-ECDSA/v0.1/reshare-commit''"
definition TRANSPORT_SIGN :: bytes where
  "TRANSPORT_SIGN = str_bytes ''OHM-ECDSA/v0.1/transport-sign''"
definition RERAND_GAMMA :: bytes where
  "RERAND_GAMMA = str_bytes ''OHM-ECDSA/v0.1/rerand-gamma''"

section \<open>Hashes of public data\<close>

record 'g feldman =
  points :: "'g list"

definition hash_commitments ::
    "('f, 'g, 'r) k256 \<Rightarrow> bytes \<Rightarrow> bytes \<Rightarrow> party_id \<Rightarrow> 'g feldman list \<Rightarrow> bytes" where
  "hash_commitments E sid tag party coms =
     sha256 E (tag @ sid @ u64_be party @
       concat (map (\<lambda>com. concat (map (pt_bytes E) (points com))) coms))"

definition hash_commitment ::
    "('f, 'g, 'r) k256 \<Rightarrow> bytes \<Rightarrow> bytes \<Rightarrow> party_id \<Rightarrow> 'g feldman \<Rightarrow> bytes" where
  "hash_commitment E sid tag party com = hash_commitments E sid tag party [com]"

definition session_preimage :: "bytes \<Rightarrow> bytes \<Rightarrow> nat option \<Rightarrow> bytes \<Rightarrow> bytes" where
  "session_preimage genesis key_id presig_id tag =
     SESSION_ID @ u64_be (length genesis) @ genesis @ u64_be (length key_id) @ key_id
     @ (case presig_id of Some i \<Rightarrow> [1] @ u64_be i | None \<Rightarrow> [0])
     @ u64_be (length tag) @ tag"

definition session_id ::
    "('f, 'g, 'r) k256 \<Rightarrow> bytes \<Rightarrow> bytes \<Rightarrow> nat option \<Rightarrow> bytes \<Rightarrow> bytes" where
  "session_id E genesis key_id presig_id tag =
     sha256 E (session_preimage genesis key_id presig_id tag)"

lemma prefixed_inject:
  assumes "u64_be (length a) @ a @ x = u64_be (length b) @ b @ y"
    and "length a < 2 ^ 64" "length b < 2 ^ 64"
  shows "a = b \<and> x = y"
proof -
  have "u64_be (length a) = u64_be (length b)" "a @ x = b @ y"
    using assms(1) by (simp_all add: append_eq_append_conv)
  then show ?thesis using assms(2,3) by (simp add: u64_be_inject append_eq_append_conv)
qed

section \<open>Properties of thresholds and committees\<close>

lemma sort_eq_Nil: "sort xs = [] \<longleftrightarrow> xs = []"
  by (metis set_empty set_sort)

lemma hd_sort_pos:
  fixes ids :: "nat list"
  assumes "ids \<noteq> []" "hd (sort ids) \<noteq> 0" "j \<in> set ids"
  shows "1 \<le> j"
proof -
  obtain a as where s: "sort ids = a # as" using assms(1) sort_eq_Nil by (cases "sort ids") auto
  have "sorted (a # as)" by (metis s sorted_sort)
  moreover have "j \<in> set (a # as)" by (metis assms(3) s set_sort)
  ultimately have "a \<le> j" by auto
  then show ?thesis using assms(2) s by simp
qed

lemma threshold_exact: "0 < t \<Longrightarrow> t < 2 ^ 63 \<Longrightarrow> wsub (wmul 2 t) (Suc 0) = 2 * t - 1"
  using double_minus_one [of t] by simp

lemma committee_new_Ok_iff:
  assumes "t < 2 ^ 63" "\<And>j. j \<in> set ids \<Longrightarrow> j < 2 ^ 64"
  shows "committee_new ids t = Ok c \<longleftrightarrow>
    1 \<le> t \<and> 2 * t - 1 \<le> length ids \<and> 0 \<notin> set ids \<and> distinct ids
      \<and> c = \<lparr>c_ids = sort ids, c_t = t\<rparr>"
proof (cases "1 \<le> t \<and> 2 * t - 1 \<le> length ids")
  case True
  then have "0 < length ids" by linarith
  then have ne: "ids \<noteq> []" by simp
  then have ne': "sort ids \<noteq> []" by (simp add: sort_eq_Nil)
  have zero: "hd (sort ids) = 0 \<longleftrightarrow> 0 \<in> set ids"
    using hd_sort_pos [OF ne] hd_in_set [OF ne'] by (metis not_one_le_zero set_sort)
  have "committee_new ids t = (if 0 \<in> set ids
      then Err (InvalidParams ''party ids start at 1; 0 is the secret'')
      else if \<not> distinct ids then Err (InvalidParams ''duplicate party ids'')
      else Ok \<lparr>c_ids = sort ids, c_t = t\<rparr>)"
    using True assms(1) ne' zero
    by (simp add: committee_new_def Let_def threshold_exact Suc_le_eq dup_window_iff)
  then show ?thesis using True by auto
next
  case False
  then consider "t = 0" | "0 < t" "length ids < 2 * t - 1" by linarith
  then show ?thesis
  proof cases
    case 1
    then show ?thesis by (simp add: committee_new_def)
  next
    case 2
    then show ?thesis using assms(1) False
      by (simp add: committee_new_def threshold_exact)
  qed
qed

lemma committee_new_wf:
  assumes "committee_new ids t = Ok c" "t < 2 ^ 63" "\<And>j. j \<in> set ids \<Longrightarrow> j < 2 ^ 64"
  shows "committee_wf c"
proof -
  have "1 \<le> t \<and> 2 * t - 1 \<le> length ids \<and> 0 \<notin> set ids \<and> distinct ids
      \<and> c = \<lparr>c_ids = sort ids, c_t = t\<rparr>"
    using assms committee_new_Ok_iff by blast
  then show ?thesis
    using assms(3) by (auto simp: committee_wf_def strict_sorted_iff Suc_le_eq intro: gr0I)
qed

lemma committee_full_Ok:
  assumes "params_new n t = Ok p" "t < 2 ^ 63" "n < 2 ^ 64"
  shows "committee_full p = Ok \<lparr>c_ids = [1..<Suc n], c_t = t\<rparr>
    \<and> committee_wf \<lparr>c_ids = [1..<Suc n], c_t = t\<rparr>"
proof -
  have p: "p = \<lparr>p_n = n, p_t = t\<rparr>" "1 \<le> t" "2 * t - 1 \<le> n"
    using assms by (auto simp: params_new_def threshold_exact split: if_splits)
  have small: "j < 2 ^ 64" if "j \<in> set (parties p)" for j
    using that assms(3) p(1) by (auto simp: parties_def)
  have "sort (parties p) = parties p"
    using parties_sorted [of p] by (simp add: sorted_sort_id strict_sorted_iff)
  then have "committee_new (parties p) t = Ok \<lparr>c_ids = [1..<Suc n], c_t = t\<rparr>"
    using p parties_sorted [of p] by (subst committee_new_Ok_iff [OF assms(2) small])
      (auto simp: strict_sorted_iff parties_def simp del: upt_Suc)
  then show ?thesis
    using committee_new_wf [OF _ assms(2) small] p(1) by (simp add: committee_full_def)
qed

lemma committee_wf_facts:
  assumes "committee_wf c"
  shows "distinct (c_ids c)" "c_ids c \<noteq> []" "0 < c_t c" "c_t c \<le> length (c_ids c)"
    "2 * c_t c - 1 \<le> length (c_ids c)"
    "\<And>j. j \<in> set (c_ids c) \<Longrightarrow> 0 < j \<and> j < 2 ^ 64"
  using assms by (auto simp: committee_wf_def strict_sorted_iff)

lemma position_nth:
  "committee_wf c \<Longrightarrow> k < length (c_ids c) \<Longrightarrow> position c (c_ids c ! k) = Some k"
  by (simp add: position_def find_index_nth committee_wf_facts)

lemma position_Some:
  "position c j = Some k \<Longrightarrow> k < length (c_ids c) \<and> c_ids c ! k = j"
  unfolding position_def by (drule find_index_Some) auto

lemma position_None: "position c j = None \<longleftrightarrow> j \<notin> set (c_ids c)"
  by (auto simp: position_def find_index_None)

lemma gen_nonzero: "k256_ok E \<Longrightarrow> gen E \<noteq> 0"
  using smul_gen_inject [of E 1 0] by (auto simp: smul_1 smul_zero)

end
