(* ===== verification/Polynomials.thy ===== *)
theory Polynomials
  imports Prelude
begin

text \<open>
  Polynomial functions over a field, represented by coefficient lists (constant term first): the
  facts behind Shamir sharing. \<open>peval\<close> is Horner evaluation; a function is \<open>polyfun n\<close> when a list
  of \<open>n\<close> coefficients represents it. A \<open>polyfun n\<close> with \<open>n\<close> distinct roots vanishes, from which
  Lagrange interpolation over \<open>n\<close> distinct points is exact for it (\<open>lagrange_exact\<close>).
\<close>

definition peval :: "'f::comm_ring_1 list \<Rightarrow> 'f \<Rightarrow> 'f" where
  "peval cs x = foldr (\<lambda>c acc. acc * x + c) cs 0"

lemma peval_Nil [simp]: "peval [] x = 0"
  by (simp add: peval_def)

lemma peval_Cons [simp]: "peval (c # cs) x = peval cs x * x + c"
  by (simp add: peval_def)

lemma peval_append: "peval (xs @ ys) x = peval xs x + x ^ length xs * peval ys x"
  by (induction xs) (auto simp: algebra_simps)

lemma peval_replicate_0 [simp]: "peval (replicate n 0) x = 0"
  by (induction n) auto

lemma peval_sum: "peval cs x = (\<Sum>i<length cs. cs ! i * x ^ i)"
proof (induction cs)
  case Nil
  then show ?case by simp
next
  case (Cons c cs)
  have "(\<Sum>i<length (c # cs). (c # cs) ! i * x ^ i) = c + (\<Sum>i<length cs. cs ! i * x ^ Suc i)"
    by (simp add: sum.lessThan_Suc_shift del: sum.lessThan_Suc)
  also have "\<dots> = c + (\<Sum>i<length cs. cs ! i * x ^ i) * x"
    by (simp add: sum_distrib_left ac_simps)
  finally show ?case using Cons.IH by (simp add: add.commute)
qed

lemma peval_0: "cs \<noteq> [] \<Longrightarrow> peval cs 0 = hd cs"
  by (cases cs) auto

section \<open>Operations on coefficient lists\<close>

fun padd :: "'f::comm_ring_1 list \<Rightarrow> 'f list \<Rightarrow> 'f list" where
  "padd [] ys = ys"
| "padd xs [] = xs"
| "padd (x # xs) (y # ys) = (x + y) # padd xs ys"

lemma padd_Nil2 [simp]: "padd xs [] = xs"
  by (cases xs) auto

lemma padd_Nil_iff [simp]: "padd xs ys = [] \<longleftrightarrow> xs = [] \<and> ys = []"
  by (cases xs; cases ys) auto

lemma length_padd [simp]: "length (padd xs ys) = max (length xs) (length ys)"
  by (induction xs ys rule: padd.induct) auto

lemma peval_padd [simp]: "peval (padd xs ys) x = peval xs x + peval ys x"
  by (induction xs ys rule: padd.induct) (auto simp: algebra_simps)

definition pscale :: "'f::comm_ring_1 \<Rightarrow> 'f list \<Rightarrow> 'f list" where
  "pscale c xs = map (\<lambda>a. a * c) xs"

lemma length_pscale [simp]: "length (pscale c xs) = length xs"
  by (simp add: pscale_def)

lemma peval_pscale [simp]: "peval (pscale c xs) x = peval xs x * c"
  by (induction xs) (auto simp: pscale_def algebra_simps)

fun pmul :: "'f::comm_ring_1 list \<Rightarrow> 'f list \<Rightarrow> 'f list" where
  "pmul [] ys = []"
| "pmul (x # xs) ys = padd (pscale x ys) (0 # pmul xs ys)"

lemma length_pmul:
  assumes "xs \<noteq> []" "ys \<noteq> []"
  shows "length (pmul xs ys) = length xs + length ys - 1"
  using assms
proof (induction xs ys rule: pmul.induct)
  case (2 x xs ys)
  then show ?case by (cases xs) (auto simp: max_def, cases ys, auto)
qed simp

lemma peval_pmul [simp]: "peval (pmul xs ys) x = peval xs x * peval ys x"
  by (induction xs ys rule: pmul.induct) (auto simp: algebra_simps)

section \<open>Polynomial functions of bounded degree\<close>

definition polyfun :: "nat \<Rightarrow> ('f::comm_ring_1 \<Rightarrow> 'f) \<Rightarrow> bool" where
  "polyfun n f \<longleftrightarrow> (\<exists>cs. length cs = n \<and> f = peval cs)"

lemma polyfunI: "(\<And>x. f x = peval cs x) \<Longrightarrow> length cs \<le> n \<Longrightarrow> polyfun n f"
  unfolding polyfun_def
  by (rule exI [of _ "cs @ replicate (n - length cs) 0"]) (auto simp: peval_append)

lemma polyfun_peval [intro]: "length cs \<le> n \<Longrightarrow> polyfun n (peval cs)"
  by (rule polyfunI) auto

lemma polyfun_mono: "polyfun m f \<Longrightarrow> m \<le> n \<Longrightarrow> polyfun n f"
  using polyfunI [of f _ n] by (auto simp: polyfun_def)

lemma polyfun_add: "polyfun n f \<Longrightarrow> polyfun n g \<Longrightarrow> polyfun n (\<lambda>x. f x + g x)"
  unfolding polyfun_def by (elim exE, rule_tac x = "padd cs csa" in exI) auto

lemma polyfun_scale: "polyfun n f \<Longrightarrow> polyfun n (\<lambda>x. f x * c)"
  unfolding polyfun_def by (elim exE, rule_tac x = "pscale c cs" in exI) auto

lemma polyfun_diff:
  assumes "polyfun n f" "polyfun n g"
  shows "polyfun n (\<lambda>x. f x - g x)"
  using polyfun_add [OF assms(1) polyfun_scale [OF assms(2), of "-1"]] by simp

lemma polyfun_sum:
  assumes "finite A" "\<And>a. a \<in> A \<Longrightarrow> polyfun n (f a)"
  shows "polyfun n (\<lambda>x. \<Sum>a\<in>A. f a x)"
  using assms
proof (induction A rule: finite_induct)
  case empty
  show ?case by (rule polyfunI [of _ "[]"]) auto
next
  case (insert a A)
  then show ?case by (simp add: polyfun_add)
qed

lemma polyfun_linear_mult:
  assumes "polyfun n f"
  shows "polyfun (Suc n) (\<lambda>x. f x * (x - a))"
proof -
  from assms obtain cs where cs: "length cs = n" "f = peval cs" by (auto simp: polyfun_def)
  show ?thesis
  proof (cases "cs = []")
    case True
    then show ?thesis using cs by (intro polyfunI [of _ "[]"]) auto
  next
    case False
    show ?thesis
      by (rule polyfunI [of _ "pmul cs [- a, 1]"]) (use cs False in \<open>auto simp: length_pmul\<close>)
  qed
qed

lemma polyfun_prod_linear:
  assumes "finite A"
  shows "polyfun (Suc (card A)) (\<lambda>x. \<Prod>a\<in>A. (x - g a))"
  using assms
proof (induction A rule: finite_induct)
  case empty
  show ?case by (rule polyfunI [of _ "[1]"]) auto
next
  case (insert a A)
  have "(\<lambda>x. \<Prod>a\<in>insert a A. (x - g a)) = (\<lambda>x. (\<Prod>a\<in>A. (x - g a)) * (x - g a))"
    using insert by (simp add: mult.commute)
  then show ?case using polyfun_linear_mult [OF insert.IH] insert.hyps by simp
qed

section \<open>Roots\<close>

fun pquot :: "'f::comm_ring_1 \<Rightarrow> 'f list \<Rightarrow> 'f list" where
  \<comment> \<open>synthetic division by \<open>X - a\<close>\<close>
  "pquot a [] = []"
| "pquot a [c] = []"
| "pquot a (c # cs) = peval cs a # pquot a cs"

lemma length_pquot [simp]: "length (pquot a cs) = length cs - 1"
  by (induction a cs rule: pquot.induct) auto

lemma pquot_correct: "peval cs x - peval cs a = (x - a) * peval (pquot a cs) x"
proof (induction a cs rule: pquot.induct)
  case (3 a c d cs)
  have "peval (c # d # cs) x - peval (c # d # cs) a
      = (peval (d # cs) x - peval (d # cs) a) * x + peval (d # cs) a * (x - a)"
    by (simp add: algebra_simps)
  also have "\<dots> = (x - a) * (peval (pquot a (d # cs)) x * x + peval (d # cs) a)"
    unfolding 3 by (simp add: algebra_simps)
  finally show ?case by simp
qed auto

lemma polyfun_roots:
  fixes cs :: "'f::field list"
  assumes "distinct as" "length as = length cs" "\<And>a. a \<in> set as \<Longrightarrow> peval cs a = 0"
  shows "peval cs x = 0"
  using assms
proof (induction as arbitrary: cs)
  case Nil
  then show ?case by simp
next
  case (Cons a as)
  have "peval (pquot a cs) b = 0" if "b \<in> set as" for b
  proof -
    have "(b - a) * peval (pquot a cs) b = 0"
      using pquot_correct [of cs b a] Cons.prems(3) that by simp
    moreover have "b \<noteq> a" using that Cons.prems(1) by auto
    ultimately show ?thesis by simp
  qed
  then have "peval (pquot a cs) x = 0"
    using Cons.prems by (intro Cons.IH) auto
  then show ?case
    using pquot_correct [of cs x a] Cons.prems(3) by simp
qed

section \<open>Lagrange interpolation\<close>

definition lagrange_basis :: "'f::field list \<Rightarrow> nat \<Rightarrow> 'f \<Rightarrow> 'f" where
  "lagrange_basis xs i x =
     (\<Prod>k\<in>{..<length xs} - {i}. (x - xs ! k)) / (\<Prod>k\<in>{..<length xs} - {i}. (xs ! i - xs ! k))"

lemma lagrange_basis_delta:
  assumes "distinct xs" "i < length xs" "j < length xs"
  shows "lagrange_basis xs i (xs ! j) = (if i = j then 1 else 0)"
proof (cases "i = j")
  case True
  have "(\<Prod>k\<in>{..<length xs} - {j}. (xs ! j - xs ! k)) \<noteq> 0"
    using assms by (auto simp: nth_eq_iff_index_eq)
  then show ?thesis using True by (simp add: lagrange_basis_def)
next
  case False
  have "(\<Prod>k\<in>{..<length xs} - {i}. (xs ! j - xs ! k)) = 0"
    using assms False by (auto intro!: prod_zero bexI [of _ j])
  then show ?thesis using False by (simp add: lagrange_basis_def)
qed

lemma polyfun_lagrange_basis:
  assumes "i < length xs"
  shows "polyfun (length xs) (lagrange_basis xs i)"
proof -
  have card: "Suc (card ({..<length xs} - {i})) = length xs" using assms by simp
  have "polyfun (length xs) (\<lambda>x. \<Prod>k\<in>{..<length xs} - {i}. (x - xs ! k))"
    using polyfun_prod_linear [of "{..<length xs} - {i}" "\<lambda>k. xs ! k"] unfolding card by simp
  then show ?thesis
    unfolding lagrange_basis_def divide_inverse by (rule polyfun_scale)
qed

theorem lagrange_exact:
  fixes xs :: "'f::field list"
  assumes "distinct xs" "length cs \<le> length xs"
  shows "(\<Sum>i<length xs. peval cs (xs ! i) * lagrange_basis xs i x) = peval cs x"
proof -
  let ?L = "\<lambda>x. \<Sum>i<length xs. peval cs (xs ! i) * lagrange_basis xs i x"
  have "polyfun (length xs) (\<lambda>x. ?L x - peval cs x)"
    using assms(2)
    by (intro polyfun_diff polyfun_sum polyfun_peval)
      (auto simp: mult.commute intro: polyfun_scale polyfun_lagrange_basis)
  then obtain ds where ds: "length ds = length xs" "(\<lambda>x. ?L x - peval cs x) = peval ds"
    by (auto simp: polyfun_def)
  have "peval ds (xs ! j) = 0" if "j < length xs" for j
  proof -
    have "?L (xs ! j) = (\<Sum>i<length xs. if i = j then peval cs (xs ! i) else 0)"
      using assms(1) that by (intro sum.cong) (auto simp: lagrange_basis_delta)
    then have "?L (xs ! j) = peval cs (xs ! j)" using that by (simp add: sum.delta)
    then show ?thesis using fun_cong [OF ds(2), of "xs ! j"] by simp
  qed
  then have "peval ds a = 0" if "a \<in> set xs" for a
    using that by (auto simp: in_set_conv_nth)
  then have "peval ds x = 0"
    using polyfun_roots [OF assms(1), of ds x] ds(1) by simp
  then show ?thesis using fun_cong [OF ds(2), of x] by simp
qed

text \<open>The monomial instance, from which interpolation in a module follows by linearity.\<close>

corollary lagrange_monomial:
  fixes xs :: "'f::field list"
  assumes "distinct xs" "l < length xs"
  shows "(\<Sum>i<length xs. (xs ! i) ^ l * lagrange_basis xs i x) = x ^ l"
proof -
  have "peval (replicate l 0 @ [1]) y = y ^ l" for y :: 'f
    by (simp add: peval_append)
  then show ?thesis
    using lagrange_exact [OF assms(1), of "replicate l 0 @ [1]" x] assms(2) by simp
qed

end
