(* ===== verification/Shamir.thy ===== *)
theory Shamir
  imports Core Polynomials
begin

text \<open>
  Shamir sharing (\<open>src/primitives/shamir.rs\<close>): sampling, Horner evaluation, the packed
  constant sharing, and Lagrange interpolation, whose \<open>expect\<close> on the inverted denominator is a
  \<open>Panic\<close> of the model. The lemmas state evaluation and interpolation over the coefficient lists
  of \<open>Polynomials\<close>.
\<close>

record 'f shamir_poly =
  coeffs :: "'f list"

section \<open>Operations\<close>

primrec rand_list :: "('f, 'g, 'r) k256 \<Rightarrow> nat \<Rightarrow> 'r \<Rightarrow> 'f list \<times> 'r" where
  \<comment> \<open>\<open>n\<close> calls of \<open>Scalar::random\<close>\<close>
  "rand_list E 0 r = ([], r)"
| "rand_list E (Suc n) r =
     (case rnd E r of (x, r') \<Rightarrow> (case rand_list E n r' of (xs, r'') \<Rightarrow> (x # xs, r'')))"

definition shamir_random ::
    "('f, 'g, 'r) k256 \<Rightarrow> 'f \<Rightarrow> nat \<Rightarrow> 'r \<Rightarrow> 'f shamir_poly \<times> 'r" where
  "shamir_random E secret t rng =
     (case rand_list E (t - 1) rng of (cs, rng') \<Rightarrow> (\<lparr>coeffs = secret # cs\<rparr>, rng'))"

definition shamir_eval_at :: "'f::field shamir_poly \<Rightarrow> 'f \<Rightarrow> 'f" where
  "shamir_eval_at p x = foldl (\<lambda>acc c. acc * x + c) 0 (rev (coeffs p))"

definition shamir_eval :: "'f::field shamir_poly \<Rightarrow> party_id \<Rightarrow> 'f" where
  "shamir_eval p j = shamir_eval_at p (of_nat j)"

definition add_at :: "'f::field list \<Rightarrow> nat \<Rightarrow> 'f \<Rightarrow> 'f list" where
  \<comment> \<open>\<open>xs[k] += c\<close>\<close>
  "add_at xs k c = xs[k := xs ! k + c]"

definition vanish_step :: "nat \<Rightarrow> 'f::field list \<Rightarrow> 'f list" where
  \<comment> \<open>multiply the coefficient vector by \<open>X + i\<close>\<close>
  "vanish_step i v =
     foldl (\<lambda>nv (k, c). add_at (add_at nv k (c * of_nat i)) (k + 1) c)
       (replicate (length v + 1) 0) (List.enumerate 0 v)"

definition vanish_poly :: "nat \<Rightarrow> 'f::field list" where
  "vanish_poly b = foldl (\<lambda>v i. vanish_step i v) [1] [0..<b]"

definition shamir_random_packed_const ::
    "('f::field, 'g, 'r) k256 \<Rightarrow> 'f \<Rightarrow> nat \<Rightarrow> nat \<Rightarrow> 'r \<Rightarrow> 'f shamir_poly \<times> 'r" where
  "shamir_random_packed_const E val b t rng =
     (let d = t + b - 2; v = vanish_poly b in
      case rand_list E (t - 1) rng of (r, rng') \<Rightarrow>
        (\<lparr>coeffs =
            foldl (\<lambda>cs (i, c). foldl (\<lambda>cs (l, rc). add_at cs (i + l) (c * rc)) cs (List.enumerate 0 r))
              ((replicate (d + 1) 0)[0 := val]) (List.enumerate 0 v)\<rparr>, rng'))"

definition slot_point :: "nat \<Rightarrow> 'f::field" where
  "slot_point b = 0 - of_nat b"

definition lagrange_one :: "'f::field \<Rightarrow> party_id list \<Rightarrow> nat \<Rightarrow> party_id \<Rightarrow> 'f result" where
  \<comment> \<open>the body of the outer loop: numerator and denominator over the other parties\<close>
  "lagrange_one x ps i pi =
     (let xi = of_nat pi;
          (num, den) = foldl (\<lambda>(num, den) (k, pk).
              if k = i then (num, den) else (num * (x - of_nat pk), den * (xi - of_nat pk)))
            (1, 1) (List.enumerate 0 ps)
      in bindR (of_opt (sc_invert den)) (\<lambda>den_inv. Ok (num * den_inv)))"

definition lagrange_coeffs_at :: "'f::field \<Rightarrow> party_id list \<Rightarrow> 'f list result" where
  "lagrange_coeffs_at x ps = mapR (\<lambda>(i, pi). lagrange_one x ps i pi) (List.enumerate 0 ps)"

definition lagrange_coeffs :: "party_id list \<Rightarrow> 'f::field list result" where
  "lagrange_coeffs ps = lagrange_coeffs_at 0 ps"

definition interpolate_at :: "'f::field \<Rightarrow> party_id list \<Rightarrow> 'f list \<Rightarrow> 'f result" where
  "interpolate_at x ps shares =
     bindR (lagrange_coeffs_at x ps) (\<lambda>lambdas.
       Ok (foldl (\<lambda>acc (l, s). acc + l * s) 0 (zip lambdas shares)))"

definition interpolate_at_zero :: "party_id list \<Rightarrow> 'f::field list \<Rightarrow> 'f result" where
  "interpolate_at_zero ps shares = interpolate_at 0 ps shares"

section \<open>Evaluation\<close>

lemma length_rand_list: "length (fst (rand_list E n r)) = n"
  by (induction n arbitrary: r) (auto split: prod.splits, metis fst_conv)

lemma shamir_random_coeffs:
  "\<exists>cs. coeffs (fst (shamir_random E secret t r)) = secret # cs \<and> length cs = t - 1"
  using length_rand_list [of E "t - 1" r] by (auto simp: shamir_random_def split: prod.splits)

lemma shamir_eval_at_peval [simp]: "shamir_eval_at p x = peval (coeffs p) x"
  by (simp add: shamir_eval_at_def peval_def foldr_conv_foldl)

lemma shamir_eval_peval [simp]: "shamir_eval p j = peval (coeffs p) (of_nat j)"
  by (simp add: shamir_eval_def)

section \<open>Packed constant sharings\<close>

lemma length_add_at [simp]: "length (add_at xs k c) = length xs"
  by (simp add: add_at_def)

lemma peval_add_at:
  assumes "k < length xs"
  shows "peval (add_at xs k c) x = peval xs x + c * x ^ k"
  using assms
proof (induction xs arbitrary: k)
  case Nil
  then show ?case by simp
next
  case (Cons a xs)
  then show ?case
    by (cases k) (auto simp: add_at_def algebra_simps)
qed

lemma vanish_step_fold:
  assumes "m + length v + 1 \<le> length nv"
  shows "length (foldl (\<lambda>nv (k, c). add_at (add_at nv k (c * a)) (k + 1) c) nv (List.enumerate m v)) = length nv
    \<and> peval (foldl (\<lambda>nv (k, c). add_at (add_at nv k (c * a)) (k + 1) c) nv (List.enumerate m v)) x
      = peval nv x + (x + a) * x ^ m * peval v x"
  using assms
proof (induction v arbitrary: m nv)
  case Nil
  then show ?case by simp
next
  case (Cons c v)
  let ?nv = "add_at (add_at nv m (c * a)) (m + 1) c"
  have "peval ?nv x = peval nv x + (x + a) * x ^ m * c"
    using Cons.prems by (simp add: peval_add_at algebra_simps)
  then show ?case
    using Cons.IH [of "Suc m" ?nv] Cons.prems by (simp add: algebra_simps)
qed

lemma vanish_step:
  "length (vanish_step i v) = length v + 1" "peval (vanish_step i v) x = (x + of_nat i) * peval v x"
  using vanish_step_fold [of 0 v "replicate (length v + 1) 0" "of_nat i" x]
  by (simp_all add: vanish_step_def)

lemma length_vanish_poly: "length (vanish_poly b) = b + 1"
  unfolding vanish_poly_def by (induction b) (auto simp: vanish_step)

lemma peval_vanish_poly: "peval (vanish_poly b) x = (\<Prod>i<b. x + of_nat i)"
  unfolding vanish_poly_def by (induction b) (auto simp: vanish_step mult.commute)

lemmas vanish_poly = length_vanish_poly peval_vanish_poly

lemma row_fold:
  assumes "i + m + length r \<le> length cs"
  shows "length (foldl (\<lambda>cs (l, rc). add_at cs (i + l) (c * rc)) cs (List.enumerate m r)) = length cs
    \<and> peval (foldl (\<lambda>cs (l, rc). add_at cs (i + l) (c * rc)) cs (List.enumerate m r)) x
      = peval cs x + c * x ^ (i + m) * peval r x"
  using assms
proof (induction r arbitrary: m cs)
  case Nil
  then show ?case by simp
next
  case (Cons a r)
  then show ?case
    using Cons.IH [of "Suc m" "add_at cs (i + m) (c * a)"] by (simp add: peval_add_at algebra_simps)
qed

lemma mult_fold:
  assumes "m + length v + length r \<le> Suc (length cs)"
  shows "length (foldl (\<lambda>cs (i, c). foldl (\<lambda>cs (l, rc). add_at cs (i + l) (c * rc)) cs (List.enumerate 0 r))
        cs (List.enumerate m v)) = length cs
    \<and> peval (foldl (\<lambda>cs (i, c). foldl (\<lambda>cs (l, rc). add_at cs (i + l) (c * rc)) cs (List.enumerate 0 r))
        cs (List.enumerate m v)) x = peval cs x + x ^ m * peval v x * peval r x"
  using assms
proof (induction v arbitrary: m cs)
  case Nil
  then show ?case by simp
next
  case (Cons a v)
  let ?cs = "foldl (\<lambda>cs (l, rc). add_at cs (m + l) (a * rc)) cs (List.enumerate 0 r)"
  have row: "length ?cs = length cs" "peval ?cs x = peval cs x + a * x ^ m * peval r x"
    using row_fold [of m 0 r cs a x] Cons.prems by simp_all
  then show ?case
    using Cons.IH [of "Suc m" ?cs] Cons.prems by (simp add: algebra_simps)
qed

lemma packed_const_value:
  fixes E :: "('f::field, 'g, 'r) k256"
  assumes "1 \<le> b" "1 \<le> t"
  shows "length (coeffs (fst (shamir_random_packed_const E val b t rng))) = t + b - 1"
    and "peval (coeffs (fst (shamir_random_packed_const E val b t rng))) x
      = val + (\<Prod>i<b. x + of_nat i) * peval (fst (rand_list E (t - 1) rng)) x"
proof -
  obtain r rng' where r: "rand_list E (t - 1) rng = (r, rng')" by (cases "rand_list E (t - 1) rng") auto
  have len: "length r = t - 1" using length_rand_list [of E "t - 1" rng] r by simp
  have start: "peval ((replicate (t + b - 2 + 1) 0)[0 := val]) x = val" for x :: 'f
    by simp
  have "0 + length (vanish_poly b :: 'f list) + length r
      \<le> Suc (length ((replicate (t + b - 2 + 1) (0::'f))[0 := val]))"
    using assms len by (simp add: vanish_poly)
  from mult_fold [OF this] show
    "length (coeffs (fst (shamir_random_packed_const E val b t rng))) = t + b - 1"
    "peval (coeffs (fst (shamir_random_packed_const E val b t rng))) x
      = val + (\<Prod>i<b. x + of_nat i) * peval (fst (rand_list E (t - 1) rng)) x"
    using assms r by (simp_all add: shamir_random_packed_const_def Let_def vanish_poly)
qed

lemma packed_const_slot:
  fixes E :: "('f::field, 'g, 'r) k256"
  assumes "1 \<le> t" "s < b"
  shows "peval (coeffs (fst (shamir_random_packed_const E val b t rng))) (slot_point s) = val"
proof -
  have "(\<Prod>i<b. slot_point s + of_nat i :: 'f) = 0"
    using assms(2) by (intro prod_zero) (auto simp: slot_point_def)
  then show ?thesis using packed_const_value(2) [of b t E val rng] assms by simp
qed

section \<open>Interpolation\<close>

abbreviation pts :: "party_id list \<Rightarrow> 'f::field list" where
  "pts ps \<equiv> map of_nat ps"

lemma lagrange_fold:
  "foldl (\<lambda>(num, den) (k, pk). if k = i then (num, den)
        else (num * (x - of_nat pk), den * (xi - of_nat pk))) (a, b) ks
     = (a * prod_list (map (\<lambda>(k, pk). x - of_nat pk) (filter (\<lambda>(k, _). k \<noteq> i) ks)),
        b * prod_list (map (\<lambda>(k, pk). xi - of_nat pk) (filter (\<lambda>(k, _). k \<noteq> i) ks)))"
  by (induction ks arbitrary: a b) (auto simp: mult.assoc)

lemma prod_list_enumerate:
  fixes f :: "party_id \<Rightarrow> 'f::field"
  shows "prod_list (map (\<lambda>(k, pk). f pk) (filter (\<lambda>(k, _). k \<noteq> i) (List.enumerate 0 ps)))
    = (\<Prod>k \<in> {..<length ps} - {i}. f (ps ! k))"
proof -
  have "map (\<lambda>(k, pk). f pk) (filter (\<lambda>(k, _). k \<noteq> i) (List.enumerate 0 ps))
      = map (\<lambda>k. f (ps ! k)) (filter (\<lambda>k. k \<noteq> i) [0..<length ps])"
    by (simp add: enumerate_conv_nth filter_map o_def)
  moreover have "(\<Prod>k \<in> set (filter (\<lambda>k. k \<noteq> i) [0..<length ps]). f (ps ! k))
      = prod_list (map (\<lambda>k. f (ps ! k)) (filter (\<lambda>k. k \<noteq> i) [0..<length ps]))"
    by (rule prod.distinct_set_conv_list) simp
  moreover have "set (filter (\<lambda>k. k \<noteq> i) [0..<length ps]) = {..<length ps} - {i}" by auto
  ultimately show ?thesis by simp
qed

lemma lagrange_one_value:
  assumes "i < length ps" "distinct (pts ps :: 'f::field list)"
  shows "lagrange_one x ps i (ps ! i) = Ok (lagrange_basis (pts ps) i (x :: 'f))"
proof -
  have "(\<Prod>k \<in> {..<length ps} - {i}. of_nat (ps ! i) - of_nat (ps ! k) :: 'f) \<noteq> 0"
    using assms by (auto simp: distinct_conv_nth)
  then show ?thesis
    by (simp add: lagrange_one_def lagrange_fold prod_list_enumerate sc_invert_def lagrange_basis_def
        divide_inverse assms(1) del: prod_zero_iff)
qed

lemma lagrange_coeffs_at_value:
  assumes "distinct (pts ps :: 'f::field list)"
  shows "lagrange_coeffs_at x ps = Ok (map (\<lambda>i. lagrange_basis (pts ps) i (x :: 'f)) [0..<length ps])"
proof -
  have "lagrange_coeffs_at x ps = mapR (\<lambda>(i, pi). lagrange_one x ps i pi)
      (map (\<lambda>i. (i, ps ! i)) [0..<length ps])"
    by (simp add: lagrange_coeffs_at_def enumerate_conv_nth)
  also have "\<dots> = Ok (map (\<lambda>(i, pi). lagrange_basis (pts ps) i x) (map (\<lambda>i. (i, ps ! i)) [0..<length ps]))"
    using assms by (intro mapR_Ok) (auto simp: lagrange_one_value)
  finally show ?thesis by (simp add: o_def)
qed


lemma foldl_dot:
  fixes c :: "'f::field"
  assumes "length ls = length ss"
  shows "foldl (\<lambda>acc (l, s). acc + l * s) c (zip ls ss) = c + (\<Sum>i<length ls. ls ! i * ss ! i)"
  using assms
proof (induction ls ss arbitrary: c rule: list_induct2)
  case Nil
  then show ?case by simp
next
  case (Cons l ls s ss)
  then show ?case
    by (simp add: sum.lessThan_Suc_shift add.assoc del: sum.lessThan_Suc)
qed

text \<open>Interpolation at any point is exact for shares of a polynomial with enough points.\<close>

lemma interpolate_at_shares:
  fixes x :: "'f::field"
  assumes "distinct (pts ps :: 'f list)" "length cs \<le> length ps"
    and "ss = map (\<lambda>j. peval cs (of_nat j)) ps"
  shows "interpolate_at x ps ss = Ok (peval cs x)"
proof -
  have "foldl (\<lambda>acc (l, s). acc + l * s) 0
        (zip (map (\<lambda>i. lagrange_basis (pts ps) i x) [0..<length ps]) ss)
      = (\<Sum>i<length ps. lagrange_basis (pts ps) i x * peval cs (pts ps ! i))"
    using assms(3) by (subst foldl_dot) auto
  also have "\<dots> = peval cs x"
    using lagrange_exact [OF assms(1), of cs x] assms(2) by (simp add: mult.commute)
  finally show ?thesis by (simp add: interpolate_at_def lagrange_coeffs_at_value [OF assms(1)])
qed

lemma interpolate_at_value:
  fixes x :: "'f::field"
  assumes "distinct (pts ps :: 'f list)" "length ss = length ps"
  shows "interpolate_at x ps ss = Ok (\<Sum>i<length ps. lagrange_basis (pts ps) i x * ss ! i)"
  using assms by (simp add: interpolate_at_def lagrange_coeffs_at_value foldl_dot)

text \<open>The \<open>expect\<close> in the interpolation fires exactly on a repeated party point.\<close>

lemma lagrange_one_panic:
  assumes "i < length ps" "k < length ps" "k \<noteq> i" "(of_nat (ps ! k) :: 'f::field) = of_nat (ps ! i)"
  shows "lagrange_one x ps i (ps ! i) = (Panic :: 'f result)"
proof -
  have "(\<Prod>k \<in> {..<length ps} - {i}. of_nat (ps ! i) - of_nat (ps ! k) :: 'f) = 0"
    using assms by (intro prod_zero) (auto intro!: bexI [of _ k])
  then show ?thesis
    by (simp add: lagrange_one_def lagrange_fold prod_list_enumerate sc_invert_def del: prod_zero_iff)
qed

lemma mapR_not_Err: "(\<And>x e. x \<in> set xs \<Longrightarrow> f x \<noteq> Err e) \<Longrightarrow> mapR f xs \<noteq> Err e"
  by (induction xs) (auto simp: bindR_Err_iff)

lemma mapR_Panic:
  assumes "\<And>x e. x \<in> set xs \<Longrightarrow> f x \<noteq> Err e" "x \<in> set xs" "f x = Panic"
  shows "mapR f xs = Panic"
proof (cases "mapR f xs")
  case (Ok ys)
  then obtain y where "f x = Ok y"
    using assms(2) by (auto simp: mapR_Ok_iff in_set_conv_nth list_all2_conv_all_nth)
  then show ?thesis using assms(3) by simp
next
  case (Err e)
  then show ?thesis using mapR_not_Err [of xs f e, OF assms(1)] by simp
qed simp

lemma lagrange_one_not_Err: "lagrange_one x ps i pi \<noteq> Err e"
  by (auto simp: lagrange_one_def Let_def sc_invert_def split: prod.splits)

lemma lagrange_coeffs_at_panic:
  assumes "\<not> distinct ps"
  shows "lagrange_coeffs_at (x :: 'f::field) ps = (Panic :: 'f list result)"
proof -
  from assms obtain i k where ik: "i < length ps" "k < length ps" "k \<noteq> i" "ps ! i = ps ! k"
    by (auto simp: distinct_conv_nth)
  show ?thesis unfolding lagrange_coeffs_at_def
  proof (rule mapR_Panic)
    show "(i, ps ! i) \<in> set (List.enumerate 0 ps)"
      using ik by (auto simp: enumerate_conv_nth)
    show "(case (i, ps ! i) of (i, pi) \<Rightarrow> lagrange_one x ps i pi) = Panic"
      using lagrange_one_panic [OF ik(1) ik(2) ik(3), of x] ik(4) by simp
  qed (auto simp: lagrange_one_not_Err)
qed

text \<open>The Lagrange weights, as a function of the party.\<close>

lemma lagrange_weights:
  fixes x :: "'f::field"
  assumes "distinct (pts ps :: 'f list)" "distinct ps"
  shows "\<exists>Lam. lagrange_coeffs_at x ps = Ok (map Lam ps)
    \<and> (\<forall>cs. length cs \<le> length ps \<longrightarrow> (\<Sum>j\<leftarrow>ps. Lam j * peval cs (of_nat j)) = peval cs x)"
proof -
  let ?ls = "map (\<lambda>i. lagrange_basis (pts ps) i x) [0..<length ps]"
  have ls: "lagrange_coeffs_at x ps = Ok ?ls" by (rule lagrange_coeffs_at_value [OF assms(1)])
  have "list_all2 (\<lambda>_ _. True) ps ?ls" by (simp add: list_all2_conv_all_nth)
  from list_all2_fun [OF this assms(2)] obtain Lam where Lam: "?ls = map Lam ps" by blast
  have "(\<Sum>j\<leftarrow>ps. Lam j * peval cs (of_nat j)) = peval cs x" if "length cs \<le> length ps" for cs
  proof -
    have dot: "foldl (\<lambda>acc (l, s). acc + l * s) a (map (\<lambda>j. (Lam j, f j)) qs) = a + (\<Sum>j\<leftarrow>qs. Lam j * f j)"
      for a f qs by (induction qs arbitrary: a) (auto simp: add.assoc)
    have "interpolate_at x ps (map (\<lambda>j. peval cs (of_nat j)) ps) = Ok (peval cs x)"
      by (rule interpolate_at_shares [OF assms(1) that refl])
    then show ?thesis
      using ls Lam dot [of 0 "\<lambda>j. peval cs (of_nat j)" ps]
      by (simp add: interpolate_at_def zip_map_both)
  qed
  then show ?thesis using ls Lam by auto
qed

end
