(* ===== verification/Vss.thy ===== *)
theory Vss
  imports Shamir
begin

text \<open>
  Feldman commitments (\<open>src/primitives/vss.rs\<close>). The abstract view of a commitment is the
  polynomial it commits to: \<open>commit E cs\<close> is the vector of \<open>c_l * G\<close>, and every operation on
  commitments is the corresponding operation on coefficient lists (\<open>add\<close> pads, \<open>scale\<close>,
  \<open>add_const\<close>, \<open>sum\<close>). Evaluation is also linear for vectors no polynomial is known for, which is
  what binds the opened value of an adversarial commitment.
\<close>

named_theorems commit_simps "operations on commitments as operations on polynomials"

section \<open>Operations\<close>

definition from_poly :: "('f, 'g, 'r) k256 \<Rightarrow> 'f shamir_poly \<Rightarrow> 'g feldman" where
  "from_poly E p = \<lparr>points = map (\<lambda>c. smul E (gen E) c) (coeffs p)\<rparr>"

definition com_eval_at_point ::
    "('f::field, 'g::ab_group_add, 'r) k256 \<Rightarrow> 'g feldman \<Rightarrow> 'f \<Rightarrow> 'g" where
  "com_eval_at_point E com x =
     fst (foldl (\<lambda>(acc, xpow) a. (acc + smul E a xpow, xpow * x)) (0, 1) (points com))"

definition com_eval_at ::
    "('f::field, 'g::ab_group_add, 'r) k256 \<Rightarrow> 'g feldman \<Rightarrow> party_id \<Rightarrow> 'g" where
  "com_eval_at E com j = com_eval_at_point E com (of_nat j)"

definition verify_share ::
    "('f::field, 'g::ab_group_add, 'r) k256 \<Rightarrow> 'g feldman \<Rightarrow> party_id \<Rightarrow> 'f \<Rightarrow> bool" where
  "verify_share E com j share = (smul E (gen E) share = com_eval_at E com j)"

fun add_prefix :: "'g::ab_group_add list \<Rightarrow> 'g list \<Rightarrow> 'g list" where
  \<comment> \<open>\<open>for (p, s) in points.iter_mut().zip(short) { *p += *s }\<close>\<close>
  "add_prefix (p # ps) (s # ss) = (p + s) # add_prefix ps ss"
| "add_prefix ps _ = ps"

definition com_add :: "'g::ab_group_add feldman \<Rightarrow> 'g feldman \<Rightarrow> 'g feldman" where
  "com_add a b =
     (let (long, short) = (if length (points b) \<le> length (points a) then (a, b) else (b, a))
      in \<lparr>points = add_prefix (points long) (points short)\<rparr>)"

definition com_scale :: "('f, 'g, 'r) k256 \<Rightarrow> 'g feldman \<Rightarrow> 'f \<Rightarrow> 'g feldman" where
  "com_scale E com c = \<lparr>points = map (\<lambda>a. smul E a c) (points com)\<rparr>"

definition com_add_const ::
    "('f, 'g::ab_group_add, 'r) k256 \<Rightarrow> 'g feldman \<Rightarrow> 'f \<Rightarrow> 'g feldman result" where
  \<comment> \<open>\<open>points[0]\<close> of an empty vector panics\<close>
  "com_add_const E com c = (case points com of [] \<Rightarrow> Panic
     | p # ps \<Rightarrow> Ok \<lparr>points = (p + smul E (gen E) c) # ps\<rparr>)"

definition com_sum :: "'g::ab_group_add feldman list \<Rightarrow> 'g feldman result" where
  \<comment> \<open>\<open>expect("at least one commitment")\<close>\<close>
  "com_sum coms = (case coms of [] \<Rightarrow> Panic | first # rest \<Rightarrow> Ok (foldl com_add first rest))"

section \<open>Evaluation is linear\<close>

lemma com_eval_fold:
  assumes "k256_ok E"
  shows "fst (foldl (\<lambda>(acc, xpow) a. (acc + smul E a xpow, xpow * x)) (acc, w) ps)
    = acc + (\<Sum>i<length ps. smul E (ps ! i) (w * x ^ i))"
proof (induction ps arbitrary: acc w)
  case Nil
  then show ?case by simp
next
  case (Cons p ps)
  then show ?case
    by (simp add: sum.lessThan_Suc_shift ac_simps del: sum.lessThan_Suc)
qed

lemma com_eval_sum:
  "k256_ok E \<Longrightarrow> com_eval_at_point E com x = (\<Sum>i<length (points com). smul E (points com ! i) (x ^ i))"
  by (simp add: com_eval_at_point_def com_eval_fold)

lemma com_eval_const: "k256_ok E \<Longrightarrow> points com = p # ps \<Longrightarrow> com_eval_at_point E com 0 = p"
  by (simp add: com_eval_sum sum.lessThan_Suc_shift smul_1 smul_zero del: sum.lessThan_Suc)

lemma com_eval_interpolate:
  \<comment> \<open>Lagrange interpolation in the exponent, for any vector of points\<close>
  assumes "k256_ok E" "distinct (pts ps :: 'f::field list)" "length (points com) \<le> length ps"
  shows "(\<Sum>i<length ps. smul E (com_eval_at E com (ps ! i)) (lagrange_basis (pts ps) i (x :: 'f)))
    = com_eval_at_point E com x"
proof -
  let ?n = "length ps" and ?C = "points com"
  let ?L = "\<lambda>i. lagrange_basis (pts ps) i x"
  have "(\<Sum>i<?n. smul E (com_eval_at E com (ps ! i)) (?L i))
      = (\<Sum>i<?n. \<Sum>l<length ?C. smul E (?C ! l) (of_nat (ps ! i) ^ l * ?L i))"
    using assms(1) by (simp add: com_eval_at_def com_eval_sum smul_sum_pt smul_smul)
  also have "\<dots> = (\<Sum>l<length ?C. smul E (?C ! l) (\<Sum>i<?n. of_nat (ps ! i) ^ l * ?L i))"
    using assms(1) by (simp add: smul_sum sum.swap [of _ "{..<length ?C}"])
  also have "\<dots> = (\<Sum>l<length ?C. smul E (?C ! l) (x ^ l))"
  proof (intro sum.cong refl arg_cong [of _ _ "smul E _"])
    fix l
    assume "l \<in> {..<length ?C}"
    then have "l < length (pts ps :: 'f list)" using assms(3) by simp
    from lagrange_monomial [OF assms(2) this, of x]
    show "(\<Sum>i<?n. of_nat (ps ! i) ^ l * ?L i) = x ^ l" by simp
  qed
  finally show ?thesis using assms(1) by (simp add: com_eval_sum)
qed

section \<open>Commitments to known polynomials\<close>

definition commit :: "('f, 'g, 'r) k256 \<Rightarrow> 'f list \<Rightarrow> 'g feldman" where
  "commit E cs = \<lparr>points = map (smul E (gen E)) cs\<rparr>"

lemma from_poly_commit [commit_simps]: "from_poly E p = commit E (coeffs p)"
  by (simp add: from_poly_def commit_def)

lemma points_commit [simp]: "points (commit E cs) = map (smul E (gen E)) cs"
  by (simp add: commit_def)

lemma com_eval_commit [commit_simps]:
  assumes "k256_ok E"
  shows "com_eval_at_point E (commit E cs) x = smul E (gen E) (peval cs x)"
  using assms by (simp add: com_eval_sum smul_smul peval_sum smul_sum)

lemma com_eval_at_commit [commit_simps]:
  "k256_ok E \<Longrightarrow> com_eval_at E (commit E cs) j = smul E (gen E) (peval cs (of_nat j))"
  by (simp add: com_eval_at_def com_eval_commit)

lemma verify_share_commit [commit_simps]:
  "k256_ok E \<Longrightarrow> verify_share E (commit E cs) j s \<longleftrightarrow> s = peval cs (of_nat j)"
  by (simp add: verify_share_def com_eval_at_commit smul_gen_inject)

lemma add_prefix_padd:
  assumes "k256_ok E" "length ys \<le> length xs"
  shows "add_prefix (map (smul E (gen E)) xs) (map (smul E (gen E)) ys)
    = map (smul E (gen E)) (padd xs ys)"
  using assms(2) by (induction xs ys rule: padd.induct) (auto simp: smul_add [OF assms(1)])

lemma padd_commute: "padd xs ys = padd ys (xs :: 'f::comm_ring_1 list)"
  by (induction xs ys rule: padd.induct) (auto simp: add.commute)

lemma com_add_commit [commit_simps]:
  assumes "k256_ok E"
  shows "com_add (commit E xs) (commit E ys) = commit E (padd xs ys)"
  using add_prefix_padd [OF assms, of ys xs] add_prefix_padd [OF assms, of xs ys]
  by (auto simp: com_add_def commit_def padd_commute [of ys xs])

lemma com_scale_commit [commit_simps]:
  "k256_ok E \<Longrightarrow> com_scale E (commit E cs) c = commit E (pscale c cs)"
  by (simp add: com_scale_def commit_def pscale_def smul_smul)

definition padd_const :: "'f::comm_ring_1 list \<Rightarrow> 'f \<Rightarrow> 'f list" where
  "padd_const cs c = (case cs of [] \<Rightarrow> [] | a # as \<Rightarrow> (a + c) # as)"

lemma length_padd_const [simp]: "length (padd_const cs c) = length cs"
  by (simp add: padd_const_def split: list.splits)

lemma peval_padd_const: "cs \<noteq> [] \<Longrightarrow> peval (padd_const cs c) x = peval cs x + c"
  by (cases cs) (auto simp: padd_const_def)

lemma com_add_const_commit [commit_simps]:
  "k256_ok E \<Longrightarrow> cs \<noteq> [] \<Longrightarrow> com_add_const E (commit E cs) c = Ok (commit E (padd_const cs c))"
  by (cases cs) (auto simp: com_add_const_def commit_def padd_const_def smul_add)

definition psum :: "'f::comm_ring_1 list list \<Rightarrow> 'f list" where
  "psum ps = foldl padd [] ps"

lemma foldl_padd: "foldl padd a (ps :: 'f::comm_ring_1 list list) = padd a (psum ps)"
proof (induction ps arbitrary: a)
  case Nil
  then show ?case by (simp add: psum_def)
next
  case (Cons p ps)
  have assoc: "padd (padd x y) z = padd x (padd y z)" for x y z :: "'f list"
  proof (induction x y arbitrary: z rule: padd.induct)
    case (3 x xs y ys)
    then show ?case by (cases z) (auto simp: add.assoc)
  qed auto
  have "foldl padd a (p # ps) = padd (padd a p) (psum ps)" using Cons.IH by simp
  moreover have "psum (p # ps) = padd p (psum ps)" using Cons.IH [of p] by (simp add: psum_def)
  ultimately show ?case by (simp add: assoc)
qed

lemma psum_simps [simp]: "psum [] = []" "psum (p # ps) = padd p (psum ps)"
  using foldl_padd [of p ps] by (simp_all add: psum_def)

lemma length_psum: "(\<And>p. p \<in> set ps \<Longrightarrow> length p = n) \<Longrightarrow> ps \<noteq> [] \<Longrightarrow> length (psum ps) = n"
proof (induction ps)
  case (Cons p ps)
  then show ?case by (cases ps) auto
qed simp

lemma peval_psum: "peval (psum ps) x = (\<Sum>p\<leftarrow>ps. peval p x)"
  by (induction ps) auto

lemma foldl_com_add_commit:
  "k256_ok E \<Longrightarrow> foldl com_add (commit E a) (map (commit E) ps) = commit E (foldl padd a ps)"
  by (induction ps arbitrary: a) (auto simp: com_add_commit)

lemma com_sum_commit [commit_simps]:
  assumes "k256_ok E" "ps \<noteq> []"
  shows "com_sum (map (commit E) ps) = Ok (commit E (psum ps))"
  using assms by (cases ps) (auto simp: com_sum_def foldl_com_add_commit foldl_padd)

section \<open>Operations on arbitrary commitments\<close>

lemma nth_add_prefix:
  "length ss \<le> length ps \<Longrightarrow> i < length ps \<Longrightarrow>
     add_prefix ps ss ! i = ps ! i + (if i < length ss then ss ! i else 0)"
  by (induction ps ss arbitrary: i rule: add_prefix.induct) (auto simp: nth_Cons split: nat.splits)

lemma length_add_prefix [simp]: "length (add_prefix ps ss) = length ps"
  by (induction ps ss rule: add_prefix.induct) auto

lemma com_eval_add_prefix:
  assumes "k256_ok E" "length ss \<le> length ps"
  shows "com_eval_at_point E \<lparr>points = add_prefix ps ss\<rparr> x
    = com_eval_at_point E \<lparr>points = ps\<rparr> x + com_eval_at_point E \<lparr>points = ss\<rparr> x"
proof -
  have "(\<Sum>i<length ps. smul E (if i < length ss then ss ! i else 0) (x ^ i))
      = (\<Sum>i<length ss. smul E (ss ! i) (x ^ i))"
    using assms by (intro sum.mono_neutral_cong_right) (auto simp: smul_zero_pt)
  then show ?thesis
    using assms by (simp add: com_eval_sum nth_add_prefix smul_add_pt sum.distrib)
qed

lemma com_eval_add:
  assumes "k256_ok E"
  shows "com_eval_at_point E (com_add a b) x = com_eval_at_point E a x + com_eval_at_point E b x"
  using com_eval_add_prefix [OF assms, of "points b" "points a" x]
    com_eval_add_prefix [OF assms, of "points a" "points b" x]
  by (cases a; cases b) (auto simp: com_add_def add.commute)

lemma com_eval_scale:
  assumes "k256_ok E"
  shows "com_eval_at_point E (com_scale E a c) x = smul E (com_eval_at_point E a x) c"
  using assms by (simp add: com_eval_sum com_scale_def smul_sum_pt smul_smul mult.commute)

lemma com_eval_add_const:
  assumes "k256_ok E" "com_add_const E a c = Ok a'"
  shows "com_eval_at_point E a' x = com_eval_at_point E a x + smul E (gen E) c"
  using assms
  by (auto simp: com_add_const_def com_eval_sum sum.lessThan_Suc_shift smul_1 ac_simps
      split: list.splits simp del: sum.lessThan_Suc)

text \<open>The homomorphic checks: shares combine as their commitments do.\<close>

lemma verify_share_add:
  assumes "k256_ok E" "verify_share E a j s" "verify_share E b j t"
  shows "verify_share E (com_add a b) j (s + t)"
  using assms by (simp add: verify_share_def com_eval_at_def com_eval_add smul_add)

lemma verify_share_scale:
  assumes "k256_ok E" "verify_share E a j s"
  shows "verify_share E (com_scale E a c) j (s * c)"
  using assms by (simp add: verify_share_def com_eval_at_def com_eval_scale smul_smul [symmetric])

lemma verify_share_add_const:
  assumes "k256_ok E" "verify_share E a j s" "com_add_const E a c = Ok a'"
  shows "verify_share E a' j (s + c)"
  using assms by (simp add: verify_share_def com_eval_at_def com_eval_add_const smul_add)

lemma verify_share_unique:
  "k256_ok E \<Longrightarrow> verify_share E com j s \<Longrightarrow> verify_share E com j s' \<Longrightarrow> s = s'"
  by (metis smul_gen_inject verify_share_def)

end
