(* ===== verification/Opening.thy ===== *)
theory Opening
  imports Vss
begin

text \<open>
  The verified-opening subprotocol (\<open>src/primitives/open.rs\<close>): \<open>open_com\<close>, \<open>open_at\<close> and the
  robust variant. The lemmas of the last sections are shared by every phase that opens or combines
  shares: the shares that pass the commitment check interpolate to a value bound by the commitment,
  whoever dealt it, and shares of a known polynomial reconstruct it.
\<close>

section \<open>Operations\<close>

definition open_at :: "('f::field, 'g::ab_group_add, 'r) k256 \<Rightarrow> 'f \<Rightarrow> nat \<Rightarrow> 'g feldman
    \<Rightarrow> 'f btree \<Rightarrow> phase \<Rightarrow> 'f result" where
  "open_at E point t com shares phase =
     (let (valid_parties, valid_shares, blamed) = sift (verify_share E com) shares ([], [], [])
      in if blamed \<noteq> [] then abort phase blamed ''share failed commitment check during opening''
      else if length valid_parties < t then Err (NotEnoughShares (length valid_parties) t)
      else if point = 0 then interpolate_at_zero (take t valid_parties) (take t valid_shares)
      else interpolate_at point (take t valid_parties) (take t valid_shares))"

definition open_com :: "('f::field, 'g::ab_group_add, 'r) k256 \<Rightarrow> nat \<Rightarrow> 'g feldman
    \<Rightarrow> 'f btree \<Rightarrow> phase \<Rightarrow> 'f result" where
  "open_com E t com shares phase = open_at E 0 t com shares phase"

definition open_robust :: "('f::field, 'g::ab_group_add, 'r) k256 \<Rightarrow> nat \<Rightarrow> 'g feldman
    \<Rightarrow> 'f btree \<Rightarrow> phase \<Rightarrow> ('f \<times> party_id list) result" where
  "open_robust E t com shares phase =
     (let (valid_parties, valid_shares, blamed) = sift (verify_share E com) shares ([], [], [])
      in if length valid_parties < t then Err (NotEnoughShares (length valid_parties) t)
      else bindR (interpolate_at_zero (take t valid_parties) (take t valid_shares)) (\<lambda>v.
        Ok (v, blamed)))"

section \<open>Sorting shares by their check\<close>

definition good :: "('f::field, 'g::ab_group_add, 'r) k256 \<Rightarrow> 'g feldman \<Rightarrow> (party_id \<times> 'f) list
    \<Rightarrow> (party_id \<times> 'f) list" where
  "good E com shares = filter (\<lambda>(j, s). verify_share E com j s) shares"

definition cheaters :: "('f::field, 'g::ab_group_add, 'r) k256 \<Rightarrow> 'g feldman
    \<Rightarrow> (party_id \<times> 'f) list \<Rightarrow> party_id list" where
  \<comment> \<open>the senders whose share contradicts the commitment\<close>
  "cheaters E com shares = map fst (filter (\<lambda>(j, s). \<not> verify_share E com j s) shares)"

lemma sift_shares:
  "sift (verify_share E com) shares ([], [], []) =
     (map fst (good E com shares), map snd (good E com shares), cheaters E com shares)"
  by (simp add: sift_Nil good_def cheaters_def)

lemma good_all: "cheaters E com shares = [] \<Longrightarrow> good E com shares = shares"
  unfolding cheaters_def good_def by (induction shares) (auto split: if_splits prod.splits)

lemma distinct_pts:
  assumes "k256_ok (E :: ('f::field, 'g::ab_group_add, 'r) k256)" "distinct ps"
    "\<And>j. j \<in> set ps \<Longrightarrow> j < 2 ^ 64"
  shows "distinct (pts ps :: 'f list)"
  using assms of_nat_index_inj [OF assms(1), of "set ps"] by (auto simp: distinct_map)

section \<open>What checked shares interpolate to\<close>

text \<open>Any \<open>t\<close> checked shares under a commitment of at most \<open>t\<close> points are bound by it.\<close>

definition ids_ok :: "(party_id \<times> 'f) list \<Rightarrow> bool" where
  \<comment> \<open>what a map keyed by 64-bit party ids guarantees\<close>
  "ids_ok xs \<longleftrightarrow> distinct (map fst xs) \<and> (\<forall>j \<in> fst ` set xs. j < 2 ^ 64)"

definition checked_set :: "('f::field, 'g::ab_group_add, 'r) k256 \<Rightarrow> 'g feldman
    \<Rightarrow> (party_id \<times> 'f) list \<Rightarrow> bool" where
  "checked_set E com xs \<longleftrightarrow> ids_ok xs \<and> (\<forall>(j, s) \<in> set xs. verify_share E com j s)"

lemma interpolate_checked:
  fixes E :: "('f::field, 'g::ab_group_add, 'r) k256"
  assumes ok: "k256_ok E" and chk: "checked_set E com xs" and len: "length (points com) \<le> length xs"
  shows "\<exists>v. interpolate_at x (map fst xs) (map snd xs) = Ok v
    \<and> smul E (gen E) v = com_eval_at_point E com x"
proof -
  let ?ps = "map fst xs"
  have dp: "distinct (pts ?ps :: 'f list)"
    using chk by (intro distinct_pts [OF ok]) (auto simp: checked_set_def ids_ok_def)
  have share: "smul E (gen E) (map snd xs ! i) = com_eval_at E com (?ps ! i)" if "i < length xs" for i
  proof -
    have "verify_share E com (fst (xs ! i)) (snd (xs ! i))"
      using chk that by (auto simp: checked_set_def split_beta)
    then show ?thesis using that by (simp add: verify_share_def)
  qed
  have "smul E (gen E) (\<Sum>i<length ?ps. lagrange_basis (pts ?ps) i x * map snd xs ! i)
      = (\<Sum>i<length ?ps. smul E (com_eval_at E com (?ps ! i)) (lagrange_basis (pts ?ps) i x))"
    using ok share by (simp add: smul_sum smul_smul [symmetric] mult.commute)
  also have "\<dots> = com_eval_at_point E com x"
    using com_eval_interpolate [OF ok dp, of com x] len by simp
  finally have bound: "smul E (gen E) (\<Sum>i<length ?ps. lagrange_basis (pts ?ps) i x * map snd xs ! i)
      = com_eval_at_point E com x" .
  show ?thesis
    by (intro exI conjI, rule interpolate_at_value [OF dp]) (use bound in simp_all)
qed

lemma interpolate_commit:
  fixes E :: "('f::field, 'g::ab_group_add, 'r) k256"
  assumes "k256_ok E" "checked_set E (commit E cs) xs" "length cs \<le> length xs"
  shows "interpolate_at x (map fst xs) (map snd xs) = Ok (peval cs x)"
  using interpolate_checked [OF assms(1,2), of x] assms(3)
  by (auto simp: com_eval_commit [OF assms(1)] smul_gen_inject [OF assms(1)])

lemma ids_ok_filter: "ids_ok shares \<Longrightarrow> ids_ok (filter P shares)"
  by (auto simp: ids_ok_def distinct_fst_filter)

lemma ids_ok_take: "ids_ok shares \<Longrightarrow> ids_ok (take t shares)"
  by (auto simp: ids_ok_def take_map [symmetric] dest!: in_set_takeD)

lemma take_good: "ids_ok shares \<Longrightarrow> checked_set E com (take t (good E com shares))"
  unfolding checked_set_def good_def
  by (auto intro: ids_ok_take ids_ok_filter dest!: in_set_takeD)

section \<open>The openings\<close>

lemma open_at_cases:
  "open_at E point t com shares ph =
     (if cheaters E com shares \<noteq> []
      then abort ph (cheaters E com shares) ''share failed commitment check during opening''
      else if length shares < t then Err (NotEnoughShares (length shares) t)
      else interpolate_at point (map fst (take t shares)) (map snd (take t shares)))"
  using good_all [of E com shares]
  by (cases "cheaters E com shares = []")
    (auto simp: open_at_def sift_shares interpolate_at_zero_def take_map)

lemma open_robust_cases:
  "open_robust E t com shares ph =
     (let g = good E com shares in
      if length g < t then Err (NotEnoughShares (length g) t)
      else bindR (interpolate_at 0 (map fst (take t g)) (map snd (take t g)))
        (\<lambda>v. Ok (v, cheaters E com shares)))"
  by (simp add: open_robust_def sift_shares interpolate_at_zero_def take_map Let_def)

lemma open_at_binding:
  assumes "k256_ok E" "ids_ok shares"
    and "length (points com) \<le> t"
    and "open_at E point t com shares ph = Ok v"
  shows "smul E (gen E) v = com_eval_at_point E com point"
proof -
  from assms(4) have nochk: "cheaters E com shares = []" and len: "t \<le> length shares"
    and int: "interpolate_at point (map fst (take t shares)) (map snd (take t shares)) = Ok v"
    by (auto simp: open_at_cases abort_def split: if_splits)
  have "good E com shares = shares" using nochk by (rule good_all)
  then show ?thesis
    using assms(3) len int interpolate_checked [OF assms(1) take_good [OF assms(2)], of com t point]
    by auto
qed

lemma open_at_commit:
  assumes "k256_ok E" "ids_ok shares"
    and "\<And>j s. (j, s) \<in> set shares \<Longrightarrow> s = peval cs (of_nat j)"
    and "length cs \<le> t" "t \<le> length shares"
  shows "open_at E point t (commit E cs) shares ph = Ok (peval cs point)"
proof -
  have chk: "verify_share E (commit E cs) j s" if "(j, s) \<in> set shares" for j s
    using assms(3) [OF that] verify_share_commit [OF assms(1)] by blast
  then have "cheaters E (commit E cs) shares = []"
    by (auto simp: cheaters_def filter_empty_conv)
  then show ?thesis
    using assms(4,5) good_all [of E "commit E cs" shares]
      interpolate_commit [OF assms(1) take_good [OF assms(2)], of cs t point]
    by (simp add: open_at_cases)
qed

lemma open_robust_commit:
  assumes "k256_ok E" "ids_ok shares"
    and "length cs \<le> t" "t \<le> length (good E (commit E cs) shares)"
  shows "open_robust E t (commit E cs) shares ph
    = Ok (peval cs 0, cheaters E (commit E cs) shares)"
  using assms(3,4) interpolate_commit [OF assms(1) take_good [OF assms(2)], of cs t 0]
  by (simp add: open_robust_cases Let_def)

end
