(* ===== verification/Dleq.thy ===== *)
theory Dleq
  imports Opening
begin

text \<open>
  Chaum-Pedersen proofs of equal discrete logarithms (\<open>src/primitives/dleq.rs\<close>): the Fiat-Shamir
  challenge, the prover, the verifier and the aggregate verifier. The lemmas show completeness of
  both verifiers, what the aggregate really checks (a linear combination of the residues of the
  single checks), and the extraction of the witness from two accepting answers to one commitment.
\<close>

record ('f, 'g) dleq_proof =
  d_t1 :: 'g
  d_t2 :: 'g
  d_z :: 'f

section \<open>Operations\<close>

definition challenge :: "('f, 'g, 'r) k256 \<Rightarrow> bytes \<Rightarrow> bytes \<Rightarrow> 'g \<Rightarrow> 'g \<Rightarrow> 'g \<Rightarrow> 'g \<Rightarrow> 'g \<Rightarrow> 'g \<Rightarrow> 'f" where
  "challenge E sid tag g1 x1 g2 x2 t1 t2 =
     scalar_from_digest E (sha256 E (tag @ sid @ concat (map (pt_bytes E) [g1, x1, g2, x2, t1, t2])))"

definition dleq_prove :: "('f::field, 'g, 'r) k256 \<Rightarrow> bytes \<Rightarrow> bytes \<Rightarrow> 'f \<Rightarrow> 'g \<Rightarrow> 'g \<Rightarrow> 'r
    \<Rightarrow> ('g \<times> 'g \<times> ('f, 'g) dleq_proof) \<times> 'r" where
  "dleq_prove E sid tag x g1 g2 rng =
     (let x1 = smul E g1 x; x2 = smul E g2 x in
      case rnd E rng of (w, rng') \<Rightarrow>
        let t1 = smul E g1 w; t2 = smul E g2 w;
            c = challenge E sid tag g1 x1 g2 x2 t1 t2;
            z = w + c * x
        in ((x1, x2, \<lparr>d_t1 = t1, d_t2 = t2, d_z = z\<rparr>), rng'))"

definition dleq_verify :: "('f::field, 'g::ab_group_add, 'r) k256 \<Rightarrow> bytes \<Rightarrow> bytes
    \<Rightarrow> 'g \<Rightarrow> 'g \<Rightarrow> 'g \<Rightarrow> 'g \<Rightarrow> ('f, 'g) dleq_proof \<Rightarrow> bool" where
  "dleq_verify E sid tag g1 x1 g2 x2 prf =
     (let c = challenge E sid tag g1 x1 g2 x2 (d_t1 prf) (d_t2 prf)
      in smul E g1 (d_z prf) = d_t1 prf + smul E x1 c \<and> smul E g2 (d_z prf) = d_t2 prf + smul E x2 c)"

type_synonym 'g statement = "'g \<times> 'g \<times> 'g \<times> 'g"

definition batch_base :: "('f, 'g, 'r) k256 \<Rightarrow> bytes \<Rightarrow> party_id \<Rightarrow> 'g statement list
    \<Rightarrow> ('f, 'g) dleq_proof list \<Rightarrow> bytes" where
  \<comment> \<open>the transcript hashed before each weight\<close>
  "batch_base E sid prover sts prfs =
     DLEQ_BATCH_RHO @ sid @ u64_be prover @
     concat (map (\<lambda>((g1, x1, g2, x2), p).
         concat (map (pt_bytes E) [g1, x1, g2, x2, d_t1 p, d_t2 p]) @ sc_bytes E (d_z p))
       (zip sts prfs))"

definition batch_rho :: "('f, 'g, 'r) k256 \<Rightarrow> bytes \<Rightarrow> nat \<Rightarrow> 'f" where
  "batch_rho E base b = scalar_from_digest E (sha256 E (base @ u64_be b))"

definition lincomb :: "('f, 'g::ab_group_add, 'r) k256 \<Rightarrow> ('g \<times> 'f) list \<Rightarrow> 'g" where
  \<comment> \<open>\<open>ProjectivePoint::lincomb_ext\<close>\<close>
  "lincomb E ts = foldl (\<lambda>acc (P, s). acc + smul E P s) 0 ts"

fun batch_step :: "('f::field, 'g::ab_group_add, 'r) k256 \<Rightarrow> bytes \<Rightarrow> bytes \<Rightarrow> bytes
    \<Rightarrow> ('g \<times> 'f) list \<times> ('g \<times> 'f) list \<Rightarrow> nat \<times> 'g statement \<times> ('f, 'g) dleq_proof
    \<Rightarrow> ('g \<times> 'f) list \<times> ('g \<times> 'f) list" where
  "batch_step E sid tag base (eq1, eq2) (b, (g1, x1, g2, x2), p) =
     (let c = challenge E sid tag g1 x1 g2 x2 (d_t1 p) (d_t2 p);
          rho = batch_rho E base b
      in (eq1 @ [(g1, rho * d_z p), (d_t1 p, - rho), (x1, (- rho) * c)],
          eq2 @ [(g2, rho * d_z p), (d_t2 p, - rho), (x2, (- rho) * c)]))"

definition dleq_verify_batch :: "('f::field, 'g::ab_group_add, 'r) k256 \<Rightarrow> bytes \<Rightarrow> bytes \<Rightarrow> party_id
    \<Rightarrow> 'g statement list \<Rightarrow> ('f, 'g) dleq_proof list \<Rightarrow> bool" where
  "dleq_verify_batch E sid tag prover sts prfs =
     (if length sts \<noteq> length prfs then False
      else let base = batch_base E sid prover sts prfs;
        (eq1, eq2) = foldl (batch_step E sid tag base) ([], []) (List.enumerate 0 (zip sts prfs))
      in lincomb E eq1 = 0 \<and> lincomb E eq2 = 0)"

section \<open>Completeness\<close>

lemma dleq_prove_cases:
  "\<exists>w rng'. dleq_prove E sid tag x g1 g2 rng =
    ((smul E g1 x, smul E g2 x,
      \<lparr>d_t1 = smul E g1 w, d_t2 = smul E g2 w,
       d_z = w + challenge E sid tag g1 (smul E g1 x) g2 (smul E g2 x) (smul E g1 w) (smul E g2 w) * x\<rparr>),
     rng')"
  by (auto simp: dleq_prove_def Let_def split: prod.splits)

lemma dleq_complete:
  assumes "k256_ok E" "fst (dleq_prove E sid tag x g1 g2 rng) = (x1, x2, prf)"
  shows "x1 = smul E g1 x \<and> x2 = smul E g2 x \<and> dleq_verify E sid tag g1 x1 g2 x2 prf"
  using dleq_prove_cases [of E sid tag x g1 g2 rng] assms
  by (auto simp: dleq_verify_def Let_def smul_add smul_smul mult.commute)

section \<open>Extraction\<close>

lemma extract_one:
  assumes "k256_ok E" "c \<noteq> c'"
    and "smul E g z = t + smul E x c" "smul E g z' = t + smul E x c'"
  shows "x = smul E g ((z - z') / (c - c'))"
proof -
  have "smul E g (z - z') = smul E x (c - c')"
    using assms by (simp add: smul_diff)
  then have "smul E (smul E g (z - z')) (1 / (c - c')) = smul E (smul E x (c - c')) (1 / (c - c'))"
    by simp
  then show ?thesis using assms(1,2) by (simp add: smul_smul smul_1)
qed

section \<open>The aggregate\<close>

definition residue1 :: "('f::field, 'g::ab_group_add, 'r) k256 \<Rightarrow> bytes \<Rightarrow> bytes
    \<Rightarrow> 'g statement \<times> ('f, 'g) dleq_proof \<Rightarrow> 'g" where
  "residue1 E sid tag sp = (case sp of ((g1, x1, g2, x2), p) \<Rightarrow>
     smul E g1 (d_z p) - d_t1 p - smul E x1 (challenge E sid tag g1 x1 g2 x2 (d_t1 p) (d_t2 p)))"

definition residue2 :: "('f::field, 'g::ab_group_add, 'r) k256 \<Rightarrow> bytes \<Rightarrow> bytes
    \<Rightarrow> 'g statement \<times> ('f, 'g) dleq_proof \<Rightarrow> 'g" where
  "residue2 E sid tag sp = (case sp of ((g1, x1, g2, x2), p) \<Rightarrow>
     smul E g2 (d_z p) - d_t2 p - smul E x2 (challenge E sid tag g1 x1 g2 x2 (d_t1 p) (d_t2 p)))"

lemma dleq_verify_residues:
  "dleq_verify E sid tag g1 x1 g2 x2 p \<longleftrightarrow>
     residue1 E sid tag ((g1, x1, g2, x2), p) = 0 \<and> residue2 E sid tag ((g1, x1, g2, x2), p) = 0"
  by (auto simp: dleq_verify_def residue1_def residue2_def Let_def algebra_simps)

lemma lincomb_foldl: "foldl (\<lambda>acc (P, s). acc + smul E P s) a ts = a + lincomb E ts"
  unfolding lincomb_def
proof (induction ts arbitrary: a)
  case (Cons t ts)
  obtain P s where [simp]: "t = (P, s)" by (cases t)
  show ?case using Cons [of "a + smul E P s"] Cons [of "smul E P s"] by (simp add: add.assoc)
qed simp

lemma lincomb_Nil [simp]: "lincomb E [] = 0"
  by (simp add: lincomb_def)

lemma lincomb_append: "lincomb E (xs @ ys) = lincomb E xs + lincomb E ys"
  using lincomb_foldl [of E "lincomb E xs" ys] by (simp add: lincomb_def)

lemma lincomb_Cons [simp]: "lincomb E ((P, s) # ts) = smul E P s + lincomb E ts"
  using lincomb_append [of E "[(P, s)]" ts] by (simp add: lincomb_def)

lemma residue_scaled:
  assumes "k256_ok E"
  shows "lincomb E [(g, rho * z), (t, - rho), (x, (- rho) * c)] = smul E (smul E g z - t - smul E x c) rho"
  using assms
  by (simp add: smul_diff_pt smul_smul smul_neg mult.commute)

lemma batch_step_lincomb:
  assumes "k256_ok E" "batch_step E sid tag base (e1, e2) (k, sp) = (f1, f2)"
  shows "lincomb E f1 = lincomb E e1 + smul E (residue1 E sid tag sp) (batch_rho E base k)
    \<and> lincomb E f2 = lincomb E e2 + smul E (residue2 E sid tag sp) (batch_rho E base k)"
proof -
  obtain g1 x1 g2 x2 p where sp: "sp = ((g1, x1, g2, x2), p)" by (cases sp) auto
  show ?thesis
    using assms(2) residue_scaled [OF assms(1)]
    by (auto simp: sp residue1_def residue2_def Let_def lincomb_append simp del: lincomb_Cons)
qed

lemma batch_fold:
  assumes "k256_ok E"
    and "foldl (batch_step E sid tag base) (e1, e2) (List.enumerate k xs) = (r1, r2)"
  shows "lincomb E r1 = lincomb E e1 + (\<Sum>i<length xs. smul E (residue1 E sid tag (xs ! i)) (batch_rho E base (k + i)))
    \<and> lincomb E r2 = lincomb E e2 + (\<Sum>i<length xs. smul E (residue2 E sid tag (xs ! i)) (batch_rho E base (k + i)))"
  using assms(2)
proof (induction xs arbitrary: k e1 e2)
  case Nil
  then show ?case by simp
next
  case (Cons sp xs)
  obtain f1 f2 where f: "batch_step E sid tag base (e1, e2) (k, sp) = (f1, f2)"
    by (cases "batch_step E sid tag base (e1, e2) (k, sp)") auto
  then have "foldl (batch_step E sid tag base) (f1, f2) (List.enumerate (Suc k) xs) = (r1, r2)"
    using Cons.prems by simp
  from Cons.IH [OF this] batch_step_lincomb [OF assms(1) f] show ?case
    by (simp add: sum.lessThan_Suc_shift add.assoc del: sum.lessThan_Suc)
qed

lemma verify_batch_iff:
  assumes "k256_ok E" "length sts = length prfs"
  shows "dleq_verify_batch E sid tag prover sts prfs \<longleftrightarrow>
    (\<Sum>i<length prfs. smul E (residue1 E sid tag (sts ! i, prfs ! i))
        (batch_rho E (batch_base E sid prover sts prfs) i)) = 0 \<and>
    (\<Sum>i<length prfs. smul E (residue2 E sid tag (sts ! i, prfs ! i))
        (batch_rho E (batch_base E sid prover sts prfs) i)) = 0"
proof -
  let ?base = "batch_base E sid prover sts prfs"
  obtain r1 r2 where r: "foldl (batch_step E sid tag ?base) ([], []) (List.enumerate 0 (zip sts prfs)) = (r1, r2)"
    by (cases "foldl (batch_step E sid tag ?base) ([], []) (List.enumerate 0 (zip sts prfs))") auto
  show ?thesis
    using assms(2) batch_fold [OF assms(1) r] by (simp add: dleq_verify_batch_def Let_def r)
qed

lemma verify_batch_complete:
  assumes "k256_ok E" "length sts = length prfs"
    and "\<And>b g1 x1 g2 x2. b < length prfs \<Longrightarrow> sts ! b = (g1, x1, g2, x2) \<Longrightarrow>
      dleq_verify E sid tag g1 x1 g2 x2 (prfs ! b)"
  shows "dleq_verify_batch E sid tag prover sts prfs"
proof -
  have "residue1 E sid tag (sts ! b, prfs ! b) = 0 \<and> residue2 E sid tag (sts ! b, prfs ! b) = 0"
    if "b < length prfs" for b
    using assms(3) [OF that] by (cases "sts ! b") (auto simp: dleq_verify_residues)
  then show ?thesis
    using assms(1,2) by (simp add: verify_batch_iff smul_zero_pt)
qed

lemma verify_batch_single_bad:
  assumes "k256_ok E" "length sts = length prfs" "b < length prfs"
    and "\<And>i g1 x1 g2 x2. i < length prfs \<Longrightarrow> i \<noteq> b \<Longrightarrow> sts ! i = (g1, x1, g2, x2) \<Longrightarrow>
      dleq_verify E sid tag g1 x1 g2 x2 (prfs ! i)"
    and "sts ! b = (g1, x1, g2, x2)" "\<not> dleq_verify E sid tag g1 x1 g2 x2 (prfs ! b)"
    and "batch_rho E (batch_base E sid prover sts prfs) b \<noteq> 0"
  shows "\<not> dleq_verify_batch E sid tag prover sts prfs"
proof
  assume acc: "dleq_verify_batch E sid tag prover sts prfs"
  let ?rho = "batch_rho E (batch_base E sid prover sts prfs)"
  have others: "residue1 E sid tag (sts ! i, prfs ! i) = 0 \<and> residue2 E sid tag (sts ! i, prfs ! i) = 0"
    if "i < length prfs" "i \<noteq> b" for i
    using assms(4) [OF that] by (cases "sts ! i") (auto simp: dleq_verify_residues)
  have only: "(\<Sum>i<length prfs. smul E (r (sts ! i, prfs ! i)) (?rho i)) = smul E (r (sts ! b, prfs ! b)) (?rho b)"
    if "\<And>i. i < length prfs \<Longrightarrow> i \<noteq> b \<Longrightarrow> r (sts ! i, prfs ! i) = 0" for r
    using assms(1,3) that by (subst sum.remove [of _ b]) (auto intro!: sum.neutral simp: smul_zero_pt)
  have cancel: "P = 0" if "smul E P (?rho b) = 0" for P
  proof -
    have "smul E (smul E P (?rho b)) (1 / ?rho b) = 0" using that assms(1) by (simp add: smul_zero_pt)
    then show ?thesis using assms(1,7) by (simp add: smul_smul smul_1)
  qed
  have "residue1 E sid tag (sts ! b, prfs ! b) = 0 \<and> residue2 E sid tag (sts ! b, prfs ! b) = 0"
    using acc others only [of "residue1 E sid tag"] only [of "residue2 E sid tag"]
    by (auto simp: verify_batch_iff [OF assms(1,2)] intro: cancel)
  then show False using assms(5,6) by (simp add: dleq_verify_residues)
qed

end
