(* ===== verification/Dkg.thy ===== *)
theory Dkg
  imports Dleq
begin

text \<open>
  The commit-then-reveal DKG (\<open>src/protocol/dkg.rs\<close>): one dealing per party (\<open>dkg_instance\<close>),
  its batch form (\<open>dkg_batch\<close>), the complaint resolution, and the fault-injection fields the code
  carries. Functions keep the code's three rounds: \<open>dkg_start_*\<close>, \<open>dkg_reveal\<close>, \<open>dkg_finalize\<close>.
  The lemmas state what an accepted finalize guarantees against arbitrary messages, whom an abort
  can name, and that honest rounds end in one joint sharing.
\<close>

section \<open>Messages and state\<close>

record dkg_bcast1 =
  b1_from :: party_id
  b1_hash :: bytes

record 'g dkg_bcast2 =
  b2_from :: party_id
  b2_com :: "'g feldman"

record 'f dkg_p2p =
  pp_from :: party_id
  pp_to :: party_id
  pp_share :: 'f

record ('f, 'g) dkg_instance =
  di_committee :: committee
  di_sid :: bytes
  di_tag :: bytes
  di_me :: party_id
  di_poly :: "'f shamir_poly"
  di_com :: "'g feldman"
  di_bad_deal :: "party_id option"
  di_bad_reveal :: bool

record ('f, 'g) dkg_output =
  o_index :: party_id
  o_share :: 'f
  o_com :: "'g feldman"

record dkg_tamper =
  dt_corrupt_share :: "(party_id \<times> party_id) option"
  dt_bad_deal :: "(party_id \<times> party_id) option"
  dt_bad_reveal :: "party_id option"

section \<open>Rounds 1 and 2\<close>

definition dkg_start_with_secret :: "('f, 'g, 'r) k256 \<Rightarrow> committee \<Rightarrow> bytes \<Rightarrow> bytes \<Rightarrow> party_id
    \<Rightarrow> 'f \<Rightarrow> 'r \<Rightarrow> (('f, 'g) dkg_instance \<times> dkg_bcast1) \<times> 'r" where
  "dkg_start_with_secret E c sid tag me secret rng =
     (case shamir_random E secret (c_t c) rng of (poly, rng') \<Rightarrow>
        let com = from_poly E poly; hash = hash_commitment E sid tag me com
        in ((\<lparr>di_committee = c, di_sid = sid, di_tag = tag, di_me = me, di_poly = poly, di_com = com,
              di_bad_deal = None, di_bad_reveal = False\<rparr>, \<lparr>b1_from = me, b1_hash = hash\<rparr>), rng'))"

definition dkg_start_committee :: "('f, 'g, 'r) k256 \<Rightarrow> committee \<Rightarrow> bytes \<Rightarrow> bytes \<Rightarrow> party_id
    \<Rightarrow> 'r \<Rightarrow> (('f, 'g) dkg_instance \<times> dkg_bcast1) \<times> 'r" where
  "dkg_start_committee E c sid tag me rng =
     (case rnd E rng of (s, rng') \<Rightarrow> dkg_start_with_secret E c sid tag me s rng')"

definition dkg_start :: "('f, 'g, 'r) k256 \<Rightarrow> params \<Rightarrow> bytes \<Rightarrow> bytes \<Rightarrow> party_id \<Rightarrow> nat
    \<Rightarrow> ('r list, error, ('f, 'g) dkg_instance \<times> dkg_bcast1) sm" where
  \<comment> \<open>on \<open>&mut rngs[k]\<close>; \<open>Committee::full\<close> comes first and may panic\<close>
  "dkg_start E p sid tag me k =
     bindS (liftR (committee_full p)) (\<lambda>c. with_rng k (dkg_start_committee E c sid tag me))"

definition share_for :: "('f::field, 'g) dkg_instance \<Rightarrow> party_id \<Rightarrow> 'f" where
  "share_for inst to =
     (let s = shamir_eval (di_poly inst) to
      in if di_bad_deal inst = Some to then s + 1 else s)"

definition dkg_defend :: "('f::field, 'g) dkg_instance \<Rightarrow> party_id \<Rightarrow> 'f" where
  "dkg_defend inst to = share_for inst to"

definition dkg_reveal :: "('f::field, 'g::ab_group_add, 'r) k256 \<Rightarrow> ('f, 'g) dkg_instance
    \<Rightarrow> ('g dkg_bcast2 \<times> 'f dkg_p2p list) result" where
  "dkg_reveal E inst =
     bindR (if di_bad_reveal inst then com_add_const E (di_com inst) 1 else Ok (di_com inst)) (\<lambda>com.
       Ok (\<lparr>b2_from = di_me inst, b2_com = com\<rparr>,
           map (\<lambda>j. \<lparr>pp_from = di_me inst, pp_to = j, pp_share = share_for inst j\<rparr>)
             (c_ids (di_committee inst))))"

section \<open>Complaints\<close>

definition resolve_complaint :: "('f::field, 'g::ab_group_add, 'r) k256 \<Rightarrow> phase \<Rightarrow> 'g feldman
    \<Rightarrow> party_id \<Rightarrow> party_id \<Rightarrow> 'f \<Rightarrow> ident_abort" where
  \<comment> \<open>the abort inside the returned \<open>Error::Abort\<close>\<close>
  "resolve_complaint E phase com dealer accuser defense =
     (if verify_share E com accuser defense
      then \<lparr>ab_phase = phase, ab_blamed = [accuser],
            ab_detail = ''false accusation: dealer '' @ dec_str dealer @ [CHR 0x27]
              @ ''s defense share verifies against its commitment''\<rparr>
      else \<lparr>ab_phase = phase, ab_blamed = [dealer],
            ab_detail = ''dealer '' @ dec_str dealer @ [CHR 0x27]
              @ ''s defense share fails verification against its commitment''\<rparr>)"

section \<open>Round 3\<close>

definition finalize_step :: "('f::field, 'g::ab_group_add, 'r) k256 \<Rightarrow> ('f, 'g) dkg_instance \<Rightarrow> phase
    \<Rightarrow> dkg_bcast1 btree \<Rightarrow> 'g dkg_bcast2 btree \<Rightarrow> 'f btree \<Rightarrow> 'f btree
    \<Rightarrow> party_id \<Rightarrow> 'f \<times> 'g feldman list \<Rightarrow> ('f \<times> 'g feldman list) result" where
  "finalize_step E inst phase r1 r2 shares_for_me defenses i acc =
     bindR (of_opt (bt_get r1 i)) (\<lambda>b1.
     bindR (of_opt (bt_get r2 i)) (\<lambda>b2.
       if length (points (b2_com b2)) \<noteq> c_t (di_committee inst)
       then abort phase [i] ''malformed Feldman commitment vector''
       else if hash_commitment E (di_sid inst) (di_tag inst) i (b2_com b2) \<noteq> b1_hash b1
       then abort phase [i] ''commit-reveal hash mismatch''
       else bindR (of_opt (bt_get shares_for_me i)) (\<lambda>s.
         if \<not> verify_share E (b2_com b2) (di_me inst) s
         then bindR (of_opt (bt_get defenses i)) (\<lambda>d.
           Err (Abort (resolve_complaint E phase (b2_com b2) i (di_me inst) d)))
         else Ok (fst acc + s, snd acc @ [b2_com b2]))))"

definition dkg_finalize :: "('f::field, 'g::ab_group_add, 'r) k256 \<Rightarrow> ('f, 'g) dkg_instance \<Rightarrow> phase
    \<Rightarrow> dkg_bcast1 btree \<Rightarrow> 'g dkg_bcast2 btree \<Rightarrow> 'f btree \<Rightarrow> 'f btree
    \<Rightarrow> ('f, 'g) dkg_output result" where
  "dkg_finalize E inst phase r1 r2 shares_for_me defenses =
     (let n = c_n (di_committee inst)
      in if length r1 \<noteq> n \<or> length r2 \<noteq> n \<or> length shares_for_me \<noteq> n \<or> length defenses \<noteq> n
         then Err (InvalidParams ''incomplete message sets'')
         else bindR (foldR (finalize_step E inst phase r1 r2 shares_for_me defenses)
             (c_ids (di_committee inst)) (0, [])) (\<lambda>(share_sum, coms).
           bindR (com_sum coms) (\<lambda>com.
             Ok \<lparr>o_index = di_me inst, o_share = share_sum, o_com = com\<rparr>)))"

text \<open>The maps every driver builds for the final round.\<close>

definition mine_of :: "'f dkg_p2p list \<Rightarrow> party_id \<Rightarrow> 'f btree" where
  "mine_of p2p me =
     bt_of_list (map (\<lambda>m. (pp_from m, pp_share m)) (filter (\<lambda>m. pp_to m = me) p2p))"

definition defenses_of :: "('f::field, 'g) dkg_instance list \<Rightarrow> party_id \<Rightarrow> 'f btree" where
  "defenses_of insts me = bt_of_list (map (\<lambda>d. (di_me d, dkg_defend d me)) insts)"

section \<open>The batch instance\<close>

record 'g dkg_batch_bcast2 =
  bb2_from :: party_id
  bb2_coms :: "'g feldman list"

record 'f dkg_batch_p2p =
  bp_from :: party_id
  bp_to :: party_id
  bp_shares :: "'f list"

record ('f, 'g) dkg_batch =
  db_committee :: committee
  db_sid :: bytes
  db_tag :: bytes
  db_me :: party_id
  db_polys :: "'f shamir_poly list"
  db_coms :: "'g feldman list"
  db_poly_len :: nat

definition batch_start_with_polys :: "('f, 'g, 'r) k256 \<Rightarrow> committee \<Rightarrow> bytes \<Rightarrow> bytes \<Rightarrow> party_id
    \<Rightarrow> 'f shamir_poly list \<Rightarrow> (('f, 'g) dkg_batch \<times> dkg_bcast1) result" where
  \<comment> \<open>\<open>polys[0]\<close> of an empty vector panics\<close>
  "batch_start_with_polys E c sid tag me polys =
     bindR (of_opt (nth_opt polys 0)) (\<lambda>p0.
       let coms = map (from_poly E) polys; hash = hash_commitments E sid tag me coms
       in Ok (\<lparr>db_committee = c, db_sid = sid, db_tag = tag, db_me = me, db_polys = polys,
               db_coms = coms, db_poly_len = length (coeffs p0)\<rparr>, \<lparr>b1_from = me, b1_hash = hash\<rparr>))"

primrec random_polys :: "('f, 'g, 'r) k256 \<Rightarrow> nat \<Rightarrow> nat \<Rightarrow> 'r \<Rightarrow> 'f shamir_poly list \<times> 'r" where
  \<comment> \<open>\<open>count\<close> times a random secret and a random polynomial of \<open>len\<close> coefficients\<close>
  "random_polys E len 0 rng = ([], rng)"
| "random_polys E len (Suc count) rng =
     (case rnd E rng of (s, rng1) \<Rightarrow>
      case shamir_random E s len rng1 of (p, rng2) \<Rightarrow>
      case random_polys E len count rng2 of (ps, rng3) \<Rightarrow> (p # ps, rng3))"

definition batch_start_committee :: "('f, 'g, 'r) k256 \<Rightarrow> committee \<Rightarrow> bytes \<Rightarrow> bytes \<Rightarrow> party_id
    \<Rightarrow> nat \<Rightarrow> nat \<Rightarrow> ('r list, error, ('f, 'g) dkg_batch \<times> dkg_bcast1) sm" where
  "batch_start_committee E c sid tag me count k =
     bindS (with_rng k (random_polys E (c_t c) count)) (\<lambda>polys.
       liftR (batch_start_with_polys E c sid tag me polys))"

definition batch_start_committee_with_degree :: "('f, 'g, 'r) k256 \<Rightarrow> committee \<Rightarrow> bytes \<Rightarrow> bytes
    \<Rightarrow> party_id \<Rightarrow> nat \<Rightarrow> nat \<Rightarrow> nat \<Rightarrow> ('r list, error, ('f, 'g) dkg_batch \<times> dkg_bcast1) sm" where
  "batch_start_committee_with_degree E c sid tag me count degree k =
     bindS (with_rng k (random_polys E (degree + 1) count)) (\<lambda>polys.
       liftR (batch_start_with_polys E c sid tag me polys))"

definition batch_count :: "('f, 'g) dkg_batch \<Rightarrow> nat" where
  "batch_count inst = length (db_polys inst)"

definition batch_defend :: "('f::field, 'g) dkg_batch \<Rightarrow> party_id \<Rightarrow> 'f list" where
  "batch_defend inst to = map (\<lambda>p. shamir_eval p to) (db_polys inst)"

definition batch_reveal :: "('f::field, 'g) dkg_batch \<Rightarrow> 'g dkg_batch_bcast2 \<times> 'f dkg_batch_p2p list" where
  "batch_reveal inst =
     (\<lparr>bb2_from = db_me inst, bb2_coms = db_coms inst\<rparr>,
      map (\<lambda>j. \<lparr>bp_from = db_me inst, bp_to = j,
            bp_shares = map (\<lambda>p. shamir_eval p j) (db_polys inst)\<rparr>)
        (c_ids (db_committee inst)))"

definition batch_check :: "('f::field, 'g::ab_group_add, 'r) k256 \<Rightarrow> ('f, 'g) dkg_batch \<Rightarrow> phase
    \<Rightarrow> party_id \<Rightarrow> 'f list \<Rightarrow> 'f list \<Rightarrow> nat \<times> 'g feldman \<Rightarrow> 'f list \<Rightarrow> 'f list result" where
  \<comment> \<open>part (b) for one index of one dealer: the share check and the running sum\<close>
  "batch_check E inst phase i shares defense bc sums =
     (case bc of (b, com) \<Rightarrow>
       bindR (of_opt (nth_opt shares b)) (\<lambda>s.
         if \<not> verify_share E com (db_me inst) s
         then bindR (of_opt (nth_opt defense b)) (\<lambda>d.
           let a = resolve_complaint E phase com i (db_me inst) d
           in Err (Abort (a\<lparr>ab_detail := ab_detail a @ '' (batch index '' @ dec_str b @ '')''\<rparr>)))
         else bindR (of_opt (nth_opt sums b)) (\<lambda>_. Ok (add_at sums b s))))"

definition batch_finalize_step :: "('f::field, 'g::ab_group_add, 'r) k256 \<Rightarrow> ('f, 'g) dkg_batch \<Rightarrow> phase
    \<Rightarrow> dkg_bcast1 btree \<Rightarrow> 'g dkg_batch_bcast2 btree \<Rightarrow> 'f list btree \<Rightarrow> 'f list btree
    \<Rightarrow> party_id \<Rightarrow> 'f list \<times> 'g feldman list list \<Rightarrow> ('f list \<times> 'g feldman list list) result" where
  "batch_finalize_step E inst phase r1 r2 shares_for_me defenses i acc =
     bindR (of_opt (bt_get r1 i)) (\<lambda>b1.
     bindR (of_opt (bt_get r2 i)) (\<lambda>b2.
     bindR (of_opt (bt_get shares_for_me i)) (\<lambda>shares.
     bindR (of_opt (bt_get defenses i)) (\<lambda>defense.
       if length (bb2_coms b2) \<noteq> batch_count inst
          \<or> (\<exists>c \<in> set (bb2_coms b2). length (points c) \<noteq> db_poly_len inst)
          \<or> length shares \<noteq> batch_count inst
       then abort phase [i] ''malformed batch Feldman commitment vectors''
       else if hash_commitments E (db_sid inst) (db_tag inst) i (bb2_coms b2) \<noteq> b1_hash b1
       then abort phase [i] ''commit-reveal hash mismatch''
       else bindR (foldR (batch_check E inst phase i shares defense)
           (List.enumerate 0 (bb2_coms b2)) (fst acc)) (\<lambda>sums.
         Ok (sums, map (\<lambda>(coms, com). coms @ [com]) (zip (snd acc) (bb2_coms b2))))))))"

definition batch_finalize :: "('f::field, 'g::ab_group_add, 'r) k256 \<Rightarrow> ('f, 'g) dkg_batch \<Rightarrow> phase
    \<Rightarrow> dkg_bcast1 btree \<Rightarrow> 'g dkg_batch_bcast2 btree \<Rightarrow> 'f list btree \<Rightarrow> 'f list btree
    \<Rightarrow> ('f, 'g) dkg_output list result" where
  "batch_finalize E inst phase r1 r2 shares_for_me defenses =
     (let n = c_n (db_committee inst); count = batch_count inst
      in if length r1 \<noteq> n \<or> length r2 \<noteq> n \<or> length shares_for_me \<noteq> n \<or> length defenses \<noteq> n
         then Err (InvalidParams ''incomplete message sets'')
         else bindR (foldR (batch_finalize_step E inst phase r1 r2 shares_for_me defenses)
             (c_ids (db_committee inst)) (replicate count 0, replicate count [])) (\<lambda>(sums, coms_per_index).
           mapR (\<lambda>(share, coms). bindR (com_sum coms) (\<lambda>com.
               Ok \<lparr>o_index = db_me inst, o_share = share, o_com = com\<rparr>))
             (zip sums coms_per_index)))"

section \<open>Complaint resolution\<close>

lemma resolve_complaint_blames:
  "ab_blamed (resolve_complaint E ph com d a x) = [if verify_share E com a x then a else d]"
  "ab_phase (resolve_complaint E ph com d a x) = ph"
  by (simp_all add: resolve_complaint_def)

section \<open>Finalize against arbitrary messages\<close>

lemma finalize_step_Ok:
  "finalize_step E inst ph r1 r2 sh df i acc = Ok acc' \<longleftrightarrow>
    (\<exists>b1 b2 s. bt_get r1 i = Some b1 \<and> bt_get r2 i = Some b2 \<and> bt_get sh i = Some s
      \<and> length (points (b2_com b2)) = c_t (di_committee inst)
      \<and> hash_commitment E (di_sid inst) (di_tag inst) i (b2_com b2) = b1_hash b1
      \<and> verify_share E (b2_com b2) (di_me inst) s \<and> acc' = (fst acc + s, snd acc @ [b2_com b2]))"
  by (auto simp: finalize_step_def bindR_Ok_iff abort_def split: if_splits)

lemma finalize_step_Err:
  assumes "finalize_step E inst ph r1 r2 sh df i acc = Err e"
  shows "\<exists>a. e = Abort a \<and> ab_phase a = ph \<and> (ab_blamed a = [i] \<or>
    ab_blamed a = [di_me inst] \<and> (\<exists>b2 d. bt_get r2 i = Some b2 \<and> bt_get df i = Some d
      \<and> verify_share E (b2_com b2) (di_me inst) d))"
  using assms
  by (auto simp: finalize_step_def bindR_Err_iff abort_def resolve_complaint_blames of_opt_def
      split: if_splits option.splits)

lemma finalize_loop_Ok:
  assumes "foldR (finalize_step E inst ph r1 r2 sh df) ids acc = Ok acc'"
  shows "\<exists>coms ss. acc' = (fst acc + sum_list ss, snd acc @ coms) \<and> length coms = length ids
    \<and> length ss = length ids \<and> (\<forall>k < length ids. bt_get sh (ids ! k) = Some (ss ! k)
      \<and> map_option b2_com (bt_get r2 (ids ! k)) = Some (coms ! k)
      \<and> map_option b1_hash (bt_get r1 (ids ! k))
          = Some (hash_commitment E (di_sid inst) (di_tag inst) (ids ! k) (coms ! k))
      \<and> length (points (coms ! k)) = c_t (di_committee inst)
      \<and> verify_share E (coms ! k) (di_me inst) (ss ! k))"
  using assms
proof (induction ids arbitrary: acc)
  case Nil
  then show ?case by (cases acc) auto
next
  case (Cons i ids)
  from Cons.prems obtain acc1 where
    st: "finalize_step E inst ph r1 r2 sh df i acc = Ok acc1"
    and rest: "foldR (finalize_step E inst ph r1 r2 sh df) ids acc1 = Ok acc'"
    by (auto simp: bindR_Ok_iff)
  from st obtain b1 b2 s where
    b: "bt_get r1 i = Some b1" "bt_get r2 i = Some b2" "bt_get sh i = Some s"
      "length (points (b2_com b2)) = c_t (di_committee inst)"
      "hash_commitment E (di_sid inst) (di_tag inst) i (b2_com b2) = b1_hash b1"
      "verify_share E (b2_com b2) (di_me inst) s" "acc1 = (fst acc + s, snd acc @ [b2_com b2])"
    by (auto simp: finalize_step_Ok)
  from Cons.IH [OF rest] obtain coms ss where
    "acc' = (fst acc1 + sum_list ss, snd acc1 @ coms)" "length coms = length ids" "length ss = length ids"
    and "\<forall>k < length ids. bt_get sh (ids ! k) = Some (ss ! k)
      \<and> map_option b2_com (bt_get r2 (ids ! k)) = Some (coms ! k)
      \<and> map_option b1_hash (bt_get r1 (ids ! k))
          = Some (hash_commitment E (di_sid inst) (di_tag inst) (ids ! k) (coms ! k))
      \<and> length (points (coms ! k)) = c_t (di_committee inst)
      \<and> verify_share E (coms ! k) (di_me inst) (ss ! k)"
    by blast
  then show ?case using b
    by (intro exI [of _ "b2_com b2 # coms"] exI [of _ "s # ss"])
      (auto simp: add.assoc nth_Cons split: nat.splits)
qed

lemma com_eval_sum_coms:
  assumes "k256_ok E"
  shows "com_eval_at_point E (foldl com_add c cs) x
    = com_eval_at_point E c x + sum_list (map (\<lambda>c. com_eval_at_point E c x) cs)"
  using assms by (induction cs arbitrary: c) (auto simp: com_eval_add add.assoc)

lemma verify_share_sum:
  assumes "k256_ok E" "length ss = length coms" "com_sum coms = Ok com"
    and "\<And>k. k < length coms \<Longrightarrow> verify_share E (coms ! k) j (ss ! k)"
  shows "verify_share E com j (sum_list ss)"
proof -
  have "smul E (gen E) (sum_list ss) = sum_list (map (\<lambda>c. com_eval_at_point E c (of_nat j)) coms)"
    using assms(2,4)
  proof (induction ss coms rule: list_induct2)
    case Nil
    then show ?case using assms(1) by (simp add: smul_zero)
  next
    case (Cons s ss c cs)
    have "verify_share E c j s" using Cons.prems [of 0] by simp
    moreover have "smul E (gen E) (sum_list ss) = sum_list (map (\<lambda>c. com_eval_at_point E c (of_nat j)) cs)"
      using Cons.prems [of "Suc _"] by (intro Cons.IH) auto
    ultimately show ?case using assms(1)
      by (simp add: smul_add verify_share_def com_eval_at_def)
  qed
  then show ?thesis using assms(1,3)
    by (cases coms) (auto simp: com_sum_def verify_share_def com_eval_at_def com_eval_sum_coms)
qed

lemma finalize_Ok_share:
  assumes "k256_ok E" "dkg_finalize E inst ph r1 r2 sh df = Ok out"
  shows "o_index out = di_me inst \<and> verify_share E (o_com out) (di_me inst) (o_share out)"
proof -
  from assms(2) obtain ssum coms com where
    loop: "foldR (finalize_step E inst ph r1 r2 sh df) (c_ids (di_committee inst)) (0, []) = Ok (ssum, coms)"
    and com: "com_sum coms = Ok com" and out: "out = \<lparr>o_index = di_me inst, o_share = ssum, o_com = com\<rparr>"
    by (auto simp: dkg_finalize_def Let_def bindR_Ok_iff split: if_splits)
  from finalize_loop_Ok [OF loop] obtain ss where
    "ssum = sum_list ss" "length ss = length coms"
    "\<forall>k < length coms. verify_share E (coms ! k) (di_me inst) (ss ! k)"
    by auto
  then show ?thesis using verify_share_sum [OF assms(1) _ com, of ss] out by simp
qed

lemma foldR_Err:
  assumes "foldR f xs s = Err e"
  shows "\<exists>x s'. x \<in> set xs \<and> f x s' = Err e"
  using assms
proof (induction xs arbitrary: s)
  case (Cons x xs)
  then show ?case by (cases "f x s") (auto, blast)
qed simp

lemma com_sum_not_Err: "com_sum coms \<noteq> Err e"
  by (cases coms) (auto simp: com_sum_def)

lemma finalize_blame:
  assumes "dkg_finalize E inst ph r1 r2 sh df = Err (Abort a)"
  shows "ab_phase a = ph \<and> (\<exists>i \<in> set (c_ids (di_committee inst)). ab_blamed a = [i] \<or>
    ab_blamed a = [di_me inst] \<and> (\<exists>b2 d. bt_get r2 i = Some b2 \<and> bt_get df i = Some d
      \<and> verify_share E (b2_com b2) (di_me inst) d))"
proof -
  have "foldR (finalize_step E inst ph r1 r2 sh df) (c_ids (di_committee inst)) (0, []) = Err (Abort a)"
    using assms by (auto simp: dkg_finalize_def Let_def bindR_Err_iff com_sum_not_Err split: if_splits)
  from foldR_Err [OF this] obtain i acc where "i \<in> set (c_ids (di_committee inst))"
    and "finalize_step E inst ph r1 r2 sh df i acc = Err (Abort a)" by blast
  with finalize_step_Err [OF this(2)] show ?thesis by auto
qed

section \<open>Honest rounds\<close>

text \<open>
  An honest round over a committee is described by one coefficient list \<open>F i\<close> per dealer \<open>i\<close>:
  every message is a function of it, and every party's output is a share of the sum of all of them.
\<close>

definition honest_inst :: "('f, 'g, 'r) k256 \<Rightarrow> committee \<Rightarrow> bytes \<Rightarrow> bytes \<Rightarrow> (party_id \<Rightarrow> 'f list)
    \<Rightarrow> party_id \<Rightarrow> ('f, 'g) dkg_instance" where
  "honest_inst E c sid tag F i =
     \<lparr>di_committee = c, di_sid = sid, di_tag = tag, di_me = i, di_poly = \<lparr>coeffs = F i\<rparr>,
      di_com = commit E (F i), di_bad_deal = None, di_bad_reveal = False\<rparr>"

definition honest_b1 :: "('f, 'g, 'r) k256 \<Rightarrow> bytes \<Rightarrow> bytes \<Rightarrow> (party_id \<Rightarrow> 'f list) \<Rightarrow> party_id
    \<Rightarrow> dkg_bcast1" where
  "honest_b1 E sid tag F i = \<lparr>b1_from = i, b1_hash = hash_commitment E sid tag i (commit E (F i))\<rparr>"

definition dealt :: "committee \<Rightarrow> (party_id \<Rightarrow> 'f::comm_ring_1 list) \<Rightarrow> 'f list" where
  \<comment> \<open>the joint polynomial\<close>
  "dealt c F = psum (map F (c_ids c))"

definition joint_output :: "('f::comm_ring_1, 'g, 'r) k256 \<Rightarrow> 'f list \<Rightarrow> party_id \<Rightarrow> ('f, 'g) dkg_output" where
  "joint_output E cs j = \<lparr>o_index = j, o_share = peval cs (of_nat j), o_com = commit E cs\<rparr>"

lemma dkg_start_honest:
  "\<exists>cs. length cs = c_t c - 1 \<and> fst (dkg_start_with_secret E c sid tag me secret rng)
    = (honest_inst E c sid tag (\<lambda>_. secret # cs) me, honest_b1 E sid tag (\<lambda>_. secret # cs) me)"
proof -
  obtain poly rng' where r: "shamir_random E secret (c_t c) rng = (poly, rng')"
    by (cases "shamir_random E secret (c_t c) rng") auto
  then obtain cs where "coeffs poly = secret # cs" "length cs = c_t c - 1"
    using shamir_random_coeffs [of E secret "c_t c" rng] by auto
  then show ?thesis
    by (intro exI [of _ cs])
      (cases poly, simp add: dkg_start_with_secret_def r honest_inst_def honest_b1_def from_poly_commit Let_def)
qed

lemma honest_inst_simps [simp]:
  "di_me (honest_inst E c sid tag F i) = i" "di_committee (honest_inst E c sid tag F i) = c"
  "di_sid (honest_inst E c sid tag F i) = sid" "di_tag (honest_inst E c sid tag F i) = tag"
  "share_for (honest_inst E c sid tag F i) j = peval (F i) (of_nat j)"
  by (simp_all add: honest_inst_def share_for_def)

lemma reveal_honest:
  "dkg_reveal E (honest_inst E c sid tag F i) =
    Ok (\<lparr>b2_from = i, b2_com = commit E (F i)\<rparr>,
      map (\<lambda>j. \<lparr>pp_from = i, pp_to = j, pp_share = peval (F i) (of_nat j)\<rparr>) (c_ids c))"
  by (simp add: dkg_reveal_def, simp add: honest_inst_def)

lemma committee_map:
  assumes "committee_wf c" "i \<in> set (c_ids c)"
  shows "bt_of_list (map (\<lambda>i. (i, f i)) (c_ids c)) = map (\<lambda>i. (i, f i)) (c_ids c)"
    and "bt_get (map (\<lambda>i. (i, f i)) (c_ids c)) i = Some (f i)"
  using assms
  by (auto simp: bt_get_map_of map_of_map_key committee_wf_def o_def intro!: bt_of_list_sorted)

lemma mine_of_honest:
  assumes "committee_wf c" "j \<in> set (c_ids c)"
  shows "mine_of (concat (map (\<lambda>i. map (\<lambda>j. \<lparr>pp_from = i, pp_to = j, pp_share = s i j\<rparr>) (c_ids c)) (c_ids c))) j
    = map (\<lambda>i. (i, s i j)) (c_ids c)"
proof -
  have "filter (\<lambda>m. pp_to m = j) (map (\<lambda>j. \<lparr>pp_from = i, pp_to = j, pp_share = s i j\<rparr>) (c_ids c))
      = [\<lparr>pp_from = i, pp_to = j, pp_share = s i j\<rparr>]" for i
    using filter_eq_singleton [OF committee_wf_facts(1) [OF assms(1)] assms(2)]
    by (simp add: filter_map o_def)
  then show ?thesis
    using committee_map(1) [OF assms] by (simp add: mine_of_def filter_concat_singleton o_def)
qed

lemma length_dealt:
  assumes "committee_wf c" "\<And>i. i \<in> set (c_ids c) \<Longrightarrow> length (F i) = d"
  shows "length (dealt c F) = d"
  using assms committee_wf_facts(2) [OF assms(1)] unfolding dealt_def by (intro length_psum) auto

lemma finalize_honest:
  assumes "k256_ok E" "committee_wf c" "j \<in> set (c_ids c)"
    and len: "\<And>i. i \<in> set (c_ids c) \<Longrightarrow> length (F i) = c_t c" and df: "length df = c_n c"
  shows "dkg_finalize E (honest_inst E c sid tag F j) ph
      (map (\<lambda>i. (i, honest_b1 E sid tag F i)) (c_ids c))
      (map (\<lambda>i. (i, \<lparr>b2_from = i, b2_com = commit E (F i)\<rparr>)) (c_ids c))
      (map (\<lambda>i. (i, peval (F i) (of_nat j))) (c_ids c)) df = Ok (joint_output E (dealt c F) j)"
    (is "dkg_finalize E ?inst ph ?r1 ?r2 ?mine df = _")
proof -
  have step: "finalize_step E ?inst ph ?r1 ?r2 ?mine df i acc
      = Ok (fst acc + peval (F i) (of_nat j), snd acc @ [commit E (F i)])" if "i \<in> set (c_ids c)" for i acc
    using that len assms(1)
    by (simp add: finalize_step_def committee_map(2) [OF assms(2)] honest_b1_def verify_share_commit)
  have "foldl (\<lambda>acc i. (fst acc + peval (F i) (of_nat j), snd acc @ [commit E (F i)])) (a, b) ids
      = (a + peval (psum (map F ids)) (of_nat j), b @ map (commit E) (map F ids))" for a b ids
    by (induction ids arbitrary: a b) (auto simp: add.assoc)
  then have "foldR (finalize_step E ?inst ph ?r1 ?r2 ?mine df) (c_ids c) (0, [])
      = Ok (peval (dealt c F) (of_nat j), map (commit E) (map F (c_ids c)))"
    by (subst foldR_Ok [OF step]) (simp_all add: dealt_def)
  then show ?thesis
    using assms(1) df committee_wf_facts(2) [OF assms(2)] com_sum_commit [of E "map F (c_ids c)"]
    by (simp add: dkg_finalize_def Let_def c_n_def joint_output_def dealt_def)
qed

section \<open>Honest batch rounds\<close>

text \<open>Here dealer \<open>i\<close> deals the list \<open>F i\<close> of \<open>count\<close> coefficient lists of one length.\<close>

definition honest_batch :: "('f, 'g, 'r) k256 \<Rightarrow> committee \<Rightarrow> bytes \<Rightarrow> bytes \<Rightarrow> nat
    \<Rightarrow> (party_id \<Rightarrow> 'f list list) \<Rightarrow> party_id \<Rightarrow> ('f, 'g) dkg_batch" where
  "honest_batch E c sid tag len F i =
     \<lparr>db_committee = c, db_sid = sid, db_tag = tag, db_me = i,
      db_polys = map (\<lambda>cs. \<lparr>coeffs = cs\<rparr>) (F i), db_coms = map (commit E) (F i), db_poly_len = len\<rparr>"

definition honest_bb1 :: "('f, 'g, 'r) k256 \<Rightarrow> bytes \<Rightarrow> bytes \<Rightarrow> (party_id \<Rightarrow> 'f list list) \<Rightarrow> party_id
    \<Rightarrow> dkg_bcast1" where
  "honest_bb1 E sid tag F i =
     \<lparr>b1_from = i, b1_hash = hash_commitments E sid tag i (map (commit E) (F i))\<rparr>"

lemma honest_batch_simps [simp]:
  "db_me (honest_batch E c sid tag len F i) = i" "db_committee (honest_batch E c sid tag len F i) = c"
  "db_sid (honest_batch E c sid tag len F i) = sid" "db_tag (honest_batch E c sid tag len F i) = tag"
  "db_poly_len (honest_batch E c sid tag len F i) = len"
  "db_coms (honest_batch E c sid tag len F i) = map (commit E) (F i)"
  "batch_count (honest_batch E c sid tag len F i) = length (F i)"
  by (simp_all add: honest_batch_def batch_count_def)

lemma map_shamir_poly [simp]: "map (\<lambda>p. \<lparr>coeffs = coeffs p\<rparr>) polys = polys"
  by (rule map_idI) simp

lemma batch_start_honest:
  assumes "polys \<noteq> []" "\<And>p. p \<in> set polys \<Longrightarrow> length (coeffs p) = len"
  shows "batch_start_with_polys E c sid tag me polys =
    Ok (honest_batch E c sid tag len (\<lambda>_. map coeffs polys) me, honest_bb1 E sid tag (\<lambda>_. map coeffs polys) me)"
  using assms
  by (auto simp: batch_start_with_polys_def Let_def honest_batch_def honest_bb1_def map_shamir_poly
      from_poly_commit o_def hd_conv_nth [symmetric] cong: map_cong)

lemma random_polys:
  assumes "1 \<le> len"
  shows "length (fst (random_polys E len count rng)) = count
    \<and> (\<forall>p \<in> set (fst (random_polys E len count rng)). length (coeffs p) = len)"
proof (induction count arbitrary: rng)
  case (Suc count)
  obtain s r1 where s: "rnd E rng = (s, r1)" by (cases "rnd E rng") auto
  obtain p r2 where p: "shamir_random E s len r1 = (p, r2)" by (cases "shamir_random E s len r1") auto
  then have "length (coeffs p) = len"
    using shamir_random_coeffs [of E s len r1] assms by auto
  then show ?case using Suc [of r2] s p by (auto split: prod.splits)
qed simp

lemma batch_reveal_honest:
  "batch_reveal (honest_batch E c sid tag len F i) =
    (\<lparr>bb2_from = i, bb2_coms = map (commit E) (F i)\<rparr>,
      map (\<lambda>j. \<lparr>bp_from = i, bp_to = j, bp_shares = map (\<lambda>cs. peval cs (of_nat j)) (F i)\<rparr>) (c_ids c))"
  by (simp add: batch_reveal_def, simp add: honest_batch_def o_def)

definition add_shares :: "party_id \<Rightarrow> 'f::comm_ring_1 list list \<Rightarrow> 'f list \<Rightarrow> 'f list" where
  "add_shares j ps sums = map2 (\<lambda>cs s. s + peval cs (of_nat j)) ps sums"

lemma batch_check_honest:
  assumes "k256_ok E" "db_me inst = j" "length pre = k" "length suf = length ps"
    and "length shares = k + length ps" "\<And>i. i < length ps \<Longrightarrow> shares ! (k + i) = peval (ps ! i) (of_nat j)"
  shows "foldR (batch_check E inst ph d shares defense) (List.enumerate k (map (commit E) ps)) (pre @ suf)
    = Ok (pre @ add_shares j ps suf)"
  using assms(3-)
proof (induction ps arbitrary: k pre suf)
  case Nil
  then show ?case by (simp add: add_shares_def)
next
  case (Cons p ps)
  then obtain s suf' where suf: "suf = s # suf'" by (cases suf) auto
  have sh: "shares ! k = peval p (of_nat j)" using Cons.prems(4) [of 0] by simp
  have one: "batch_check E inst ph d shares defense (k, commit E p) (pre @ suf)
      = Ok ((pre @ [s + peval p (of_nat j)]) @ suf')"
    using Cons.prems(1,3) assms(1,2) sh suf
    by (simp add: batch_check_def verify_share_commit add_at_def nth_append list_update_append)
  have "foldR (batch_check E inst ph d shares defense) (List.enumerate (Suc k) (map (commit E) ps))
      ((pre @ [s + peval p (of_nat j)]) @ suf')
    = Ok ((pre @ [s + peval p (of_nat j)]) @ add_shares j ps suf')"
  proof (rule Cons.IH)
    show "shares ! (Suc k + i) = peval (ps ! i) (of_nat j)" if "i < length ps" for i
      using Cons.prems(4) [of "Suc i"] that by simp
  qed (use Cons.prems suf in auto)
  then show ?case using one suf by (simp add: add_shares_def)
qed

lemma add_shares_map:
  "length ps = n \<Longrightarrow> add_shares j ps (map f [0..<n]) = map (\<lambda>b. f b + peval (ps ! b) (of_nat j)) [0..<n]"
  by (rule nth_equalityI) (auto simp: add_shares_def)

lemma append_coms_map:
  "length ps = n \<Longrightarrow> map (\<lambda>(coms, com). coms @ [com]) (zip (map f [0..<n]) (map (commit E) ps))
    = map (\<lambda>b. f b @ [commit E (ps ! b)]) [0..<n]"
  by (rule nth_equalityI) auto

definition dealt_at :: "committee \<Rightarrow> (party_id \<Rightarrow> 'f::comm_ring_1 list list) \<Rightarrow> nat \<Rightarrow> 'f list" where
  \<comment> \<open>the joint polynomial at one batch index\<close>
  "dealt_at c F b = dealt c (\<lambda>i. F i ! b)"

lemma batch_step_honest:
  assumes "k256_ok E" "committee_wf c" "i \<in> set (c_ids c)"
    and "length (F i) = count" "length (F j) = count"
    and "\<And>p. p \<in> set (F i) \<Longrightarrow> length p = len" "bt_get df i \<noteq> None"
  shows "batch_finalize_step E (honest_batch E c sid tag len F j) ph
      (map (\<lambda>i. (i, honest_bb1 E sid tag F i)) (c_ids c))
      (map (\<lambda>i. (i, \<lparr>bb2_from = i, bb2_coms = map (commit E) (F i)\<rparr>)) (c_ids c))
      (map (\<lambda>i. (i, map (\<lambda>cs. peval cs (of_nat j)) (F i))) (c_ids c)) df i
      (map f [0..<count], map g [0..<count])
    = Ok (map (\<lambda>b. f b + peval (F i ! b) (of_nat j)) [0..<count],
          map (\<lambda>b. g b @ [commit E (F i ! b)]) [0..<count])"
proof -
  obtain d where d: "bt_get df i = Some d" using assms(7) by blast
  let ?inst = "honest_batch E c sid tag len F j"
  let ?shares = "map (\<lambda>cs. peval cs (of_nat j)) (F i)"
  have "foldR (batch_check E ?inst ph i ?shares d) (List.enumerate 0 (map (commit E) (F i)))
      ([] @ map f [0..<count]) = Ok ([] @ add_shares j (F i) (map f [0..<count]))"
    by (rule batch_check_honest) (use assms(1,4) in simp_all)
  then have sums: "foldR (batch_check E ?inst ph i ?shares d) (List.enumerate 0 (map (commit E) (F i)))
      (map f [0..<count]) = Ok (map (\<lambda>b. f b + peval (F i ! b) (of_nat j)) [0..<count])"
    using assms(4) by (simp add: add_shares_map)
  have shape: "\<not> (length (map (commit E) (F i)) \<noteq> count
      \<or> (\<exists>c \<in> set (map (commit E) (F i)). length (points c) \<noteq> len) \<or> length ?shares \<noteq> count)"
    using assms(4,6) by auto
  show ?thesis
    unfolding batch_finalize_step_def
    using d assms(3,4,5) shape sums append_coms_map [OF assms(4), of g E]
    by (simp add: committee_map(2) [OF assms(2)] honest_bb1_def del: length_map set_map)
qed

lemma batch_finalize_honest:
  assumes "k256_ok E" "committee_wf c" "j \<in> set (c_ids c)"
    and len: "\<And>i. i \<in> set (c_ids c) \<Longrightarrow> length (F i) = count"
      "\<And>i p. i \<in> set (c_ids c) \<Longrightarrow> p \<in> set (F i) \<Longrightarrow> length p = len"
    and df: "length df = c_n c" "\<And>i. i \<in> set (c_ids c) \<Longrightarrow> bt_get df i \<noteq> None"
  shows "batch_finalize E (honest_batch E c sid tag len F j) ph
      (map (\<lambda>i. (i, honest_bb1 E sid tag F i)) (c_ids c))
      (map (\<lambda>i. (i, \<lparr>bb2_from = i, bb2_coms = map (commit E) (F i)\<rparr>)) (c_ids c))
      (map (\<lambda>i. (i, map (\<lambda>cs. peval cs (of_nat j)) (F i))) (c_ids c)) df
    = Ok (map (\<lambda>b. joint_output E (dealt_at c F b) j) [0..<count])"
    (is "batch_finalize E ?inst ph ?r1 ?r2 ?mine df = _")
proof -
  have loop: "foldR (batch_finalize_step E ?inst ph ?r1 ?r2 ?mine df) ids
      (map f [0..<count], map g [0..<count])
    = Ok (map (\<lambda>b. f b + peval (psum (map (\<lambda>i. F i ! b) ids)) (of_nat j)) [0..<count],
          map (\<lambda>b. g b @ map (commit E) (map (\<lambda>i. F i ! b) ids)) [0..<count])"
    if "set ids \<subseteq> set (c_ids c)" for ids f g
    using that
  proof (induction ids arbitrary: f g)
    case Nil
    then show ?case by simp
  next
    case (Cons i ids)
    then have i: "i \<in> set (c_ids c)" and ids: "set ids \<subseteq> set (c_ids c)" by auto
    have "batch_finalize_step E ?inst ph ?r1 ?r2 ?mine df i (map f [0..<count], map g [0..<count])
      = Ok (map (\<lambda>b. f b + peval (F i ! b) (of_nat j)) [0..<count],
          map (\<lambda>b. g b @ [commit E (F i ! b)]) [0..<count])"
      using i assms(3) len df(2) by (intro batch_step_honest assms(1,2)) auto
    then show ?case by (simp add: Cons.IH [OF ids] add.assoc)
  qed
  have rep: "replicate count x = map (\<lambda>_. x) [0..<count]" for x :: 'x
    by (simp add: map_replicate_const)
  have zip2: "zip (map f [0..<count]) (map g [0..<count]) = map (\<lambda>b. (f b, g b)) [0..<count]" for f g
    by (rule nth_equalityI) auto
  let ?out = "\<lambda>(share, coms). bindR (com_sum coms) (\<lambda>com. Ok \<lparr>o_index = j, o_share = share, o_com = com\<rparr>)"
  have sum: "com_sum (map (commit E) (map (\<lambda>i. F i ! b) (c_ids c))) = Ok (commit E (dealt_at c F b))" for b
    using com_sum_commit [OF assms(1), of "map (\<lambda>i. F i ! b) (c_ids c)"] committee_wf_facts(2) [OF assms(2)]
    by (simp add: dealt_at_def dealt_def)
  have out: "mapR ?out (map (\<lambda>b. (peval (dealt_at c F b) (of_nat j), map (commit E) (map (\<lambda>i. F i ! b) (c_ids c)))) [0..<count])
    = Ok (map (\<lambda>b. joint_output E (dealt_at c F b) j) [0..<count])"
    unfolding mapR_map by (rule mapR_Ok) (simp only: prod.case sum bindR.simps joint_output_def)
  have step: "foldR (batch_finalize_step E ?inst ph ?r1 ?r2 ?mine df) (c_ids c) (replicate count 0, replicate count [])
    = Ok (map (\<lambda>b. peval (dealt_at c F b) (of_nat j)) [0..<count],
        map (\<lambda>b. map (commit E) (map (\<lambda>i. F i ! b) (c_ids c))) [0..<count])"
    using loop [OF order_refl, of "\<lambda>_. 0" "\<lambda>_. []"] by (simp only: rep dealt_at_def dealt_def) simp
  show ?thesis
    using df(1) len(1) [OF assms(3)]
    by (simp add: batch_finalize_def Let_def c_n_def step zip2 out del: map_map)
qed

end
