(* ===== verification/Triple_Factory.thy ===== *)
theory Triple_Factory
  imports Dkg
begin

text \<open>
  The Beaver triple factory (\<open>src/protocol/triples.rs\<close>): joint random dealing in its four forms,
  and the single, robust, batch and packed factories. Per-party generators \<open>rngs[k]\<close> are the state
  of the monad; a dealer's contribution to T2 (commitment, shares by receiver position, statement
  and proof) is one record, where the code keeps three vectors indexed by dealer.
\<close>

record 'f triple_share =
  ts_index :: party_id
  ts_a :: 'f
  ts_b :: 'f
  ts_c :: 'f

record 'g triple_public =
  tp_ca :: "'g feldman"
  tp_cb :: "'g feldman"
  tp_cc :: "'g feldman"

record triple_tamper =
  tt_bad_reshare :: "(party_id \<times> party_id) option"
  tt_bad_product_proof :: "party_id option"
  tt_bad_product_proof_at :: "(party_id \<times> nat) option"

type_synonym ('f, 'g) triple = "'f triple_share \<times> 'g triple_public"
type_synonym ('r, 'a) protocol = "('r list, error, 'a) sm"

section \<open>Joint random dealing\<close>

definition joint_rounds :: "('f::field, 'g::ab_group_add, 'r) k256 \<Rightarrow> phase \<Rightarrow> committee
    \<Rightarrow> (('f, 'g) dkg_instance \<times> dkg_bcast1) list \<Rightarrow> ('f, 'g) dkg_output list result" where
  \<comment> \<open>reveal and finalize for every party, on the messages of all\<close>
  "joint_rounds E phase c started =
     (let r1 = bt_of_list (zip (c_ids c) (map snd started)); insts = map fst started
      in bindR (mapR (dkg_reveal E) insts) (\<lambda>revs.
        let r2 = bt_of_list (zip (map di_me insts) (map fst revs)); p2p = concat (map snd revs)
        in mapR (\<lambda>inst. dkg_finalize E inst phase r1 r2 (mine_of p2p (di_me inst))
              (defenses_of insts (di_me inst))) insts))"

definition joint_random :: "('f::field, 'g::ab_group_add, 'r) k256 \<Rightarrow> committee \<Rightarrow> bytes \<Rightarrow> phase
    \<Rightarrow> ('r, ('f, 'g) dkg_output list) protocol" where
  "joint_random E c sid phase =
     bindS (mapS (\<lambda>(k, i). with_rng k (dkg_start_committee E c sid DKG_COMMIT i))
         (List.enumerate 0 (c_ids c))) (\<lambda>started.
       liftR (joint_rounds E phase c started))"

definition mine_of_batch :: "'f dkg_batch_p2p list \<Rightarrow> party_id \<Rightarrow> 'f list btree" where
  "mine_of_batch p2p me =
     bt_of_list (map (\<lambda>m. (bp_from m, bp_shares m)) (filter (\<lambda>m. bp_to m = me) p2p))"

definition batch_defenses_of :: "('f::field, 'g) dkg_batch list \<Rightarrow> party_id \<Rightarrow> 'f list btree" where
  "batch_defenses_of insts me = bt_of_list (map (\<lambda>d. (db_me d, batch_defend d me)) insts)"

definition batch_rounds :: "('f::field, 'g::ab_group_add, 'r) k256 \<Rightarrow> phase \<Rightarrow> committee
    \<Rightarrow> (('f, 'g) dkg_batch \<times> dkg_bcast1) list
    \<Rightarrow> (('f, 'g) dkg_output list list \<times> 'g dkg_batch_bcast2 btree) result" where
  "batch_rounds E phase c started =
     (let r1 = bt_of_list (zip (c_ids c) (map snd started)); insts = map fst started;
          revs = map batch_reveal insts;
          r2 = bt_of_list (zip (map db_me insts) (map fst revs)); p2p = concat (map snd revs)
      in bindR (mapR (\<lambda>inst. batch_finalize E inst phase r1 r2 (mine_of_batch p2p (db_me inst))
             (batch_defenses_of insts (db_me inst))) insts) (\<lambda>outs. Ok (outs, r2)))"

definition joint_random_batch :: "('f::field, 'g::ab_group_add, 'r) k256 \<Rightarrow> committee \<Rightarrow> bytes
    \<Rightarrow> phase \<Rightarrow> nat \<Rightarrow> ('r, ('f, 'g) dkg_output list list) protocol" where
  "joint_random_batch E c sid phase count =
     bindS (mapS (\<lambda>(k, i). batch_start_committee E c sid DKG_BATCH_COMMIT i count k)
         (List.enumerate 0 (c_ids c))) (\<lambda>started.
       liftR (bindR (batch_rounds E phase c started) (\<lambda>(outs, _). Ok outs)))"

definition joint_deal :: "('f::field, 'g::ab_group_add, 'r) k256 \<Rightarrow> committee \<Rightarrow> bytes \<Rightarrow> phase
    \<Rightarrow> 'f shamir_poly list list \<Rightarrow> (('f, 'g) dkg_output list list \<times> 'g dkg_batch_bcast2 btree) result" where
  "joint_deal E c sid phase polys =
     bindR (mapR (\<lambda>(i, dealer_polys). batch_start_with_polys E c sid DKG_PACKED_COMMIT i dealer_polys)
         (zip (c_ids c) polys)) (\<lambda>started. batch_rounds E phase c started)"

definition joint_random_packed :: "('f::field, 'g::ab_group_add, 'r) k256 \<Rightarrow> committee \<Rightarrow> bytes
    \<Rightarrow> phase \<Rightarrow> nat \<Rightarrow> nat \<Rightarrow> ('r, ('f, 'g) dkg_output list list) protocol" where
  "joint_random_packed E c sid phase count degree =
     bindS (mapS (\<lambda>(k, i). batch_start_committee_with_degree E c sid DKG_PACKED_COMMIT i count degree k)
         (List.enumerate 0 (c_ids c))) (\<lambda>started.
       liftR (bindR (batch_rounds E phase c started) (\<lambda>(outs, _). Ok outs)))"

section \<open>Re-sharing the local products (T2)\<close>

record ('f, 'g) reshare =
  rs_com :: "'g feldman"
  rs_shares :: "'f list"
  rs_x1 :: 'g
  rs_x2 :: 'g
  rs_proof :: "('f, 'g) dleq_proof"

definition reshare_product :: "('f::field, 'g::ab_group_add, 'r) k256 \<Rightarrow> committee \<Rightarrow> bytes
    \<Rightarrow> ('f \<Rightarrow> 'r \<Rightarrow> 'f shamir_poly \<times> 'r) \<Rightarrow> 'g feldman \<Rightarrow> party_id \<Rightarrow> 'f \<Rightarrow> 'f
    \<Rightarrow> 'r \<Rightarrow> ('f, 'g) reshare \<times> 'r" where
  \<comment> \<open>one iteration of T2; \<open>deal\<close> is the sharing the factory re-shares with\<close>
  "reshare_product E c sid deal cb j a b rng =
     (case deal (a * b) rng of (g, rng1) \<Rightarrow>
      let base_b = com_eval_at E cb j in
      case dleq_prove E sid TRIPLE_PRODUCT a (gen E) base_b rng1 of ((x1, x2, prf), rng2) \<Rightarrow>
        (\<lparr>rs_com = from_poly E g, rs_shares = map (shamir_eval g) (c_ids c),
          rs_x1 = x1, rs_x2 = x2, rs_proof = prf\<rparr>, rng2))"

definition bump_proof :: "('f::field, 'g) reshare \<Rightarrow> ('f, 'g) reshare" where
  "bump_proof r = r\<lparr>rs_proof := (rs_proof r)\<lparr>d_z := d_z (rs_proof r) + 1\<rparr>\<rparr>"

definition tamper_reshares :: "committee \<Rightarrow> triple_tamper option \<Rightarrow> ('f::field, 'g) reshare list
    \<Rightarrow> ('f, 'g) reshare list" where
  \<comment> \<open>the fault-injection block between T2 and T3\<close>
  "tamper_reshares c tamper rs = (case tamper of None \<Rightarrow> rs | Some tm \<Rightarrow>
     let rs1 = (case tt_bad_reshare tm of None \<Rightarrow> rs
         | Some (d, v) \<Rightarrow> (case (position c d, position c v) of
             (Some d, Some v) \<Rightarrow> rs[d := (rs ! d)\<lparr>rs_shares := add_at (rs_shares (rs ! d)) v 1\<rparr>]
           | _ \<Rightarrow> rs))
     in (case tt_bad_product_proof tm of None \<Rightarrow> rs1
         | Some j \<Rightarrow> (case position c j of None \<Rightarrow> rs1 | Some p \<Rightarrow> rs1[p := bump_proof (rs1 ! p)])))"

section \<open>Verifying and combining (T3)\<close>

definition product_ok :: "('f::field, 'g::ab_group_add, 'r) k256 \<Rightarrow> bytes \<Rightarrow> 'g feldman \<Rightarrow> 'g feldman
    \<Rightarrow> party_id \<Rightarrow> ('f, 'g) reshare \<Rightarrow> bool result" where
  \<comment> \<open>the negated F3 condition, its disjuncts in order; \<open>points[0]\<close> may panic\<close>
  "product_ok E sid ca cb j r =
     (if rs_x1 r \<noteq> com_eval_at E ca j then Ok False
      else bindR (of_opt (nth_opt (points (rs_com r)) 0)) (\<lambda>p0.
        if rs_x2 r \<noteq> p0 then Ok False
        else Ok (dleq_verify E sid TRIPLE_PRODUCT (gen E) (rs_x1 r) (com_eval_at E cb j) (rs_x2 r)
          (rs_proof r))))"

definition check_product :: "('f::field, 'g::ab_group_add, 'r) k256 \<Rightarrow> bytes \<Rightarrow> 'g feldman
    \<Rightarrow> 'g feldman \<Rightarrow> string \<Rightarrow> party_id \<Rightarrow> ('f, 'g) reshare \<Rightarrow> unit result" where
  "check_product E sid ca cb detail j r =
     bindR (product_ok E sid ca cb j r) (\<lambda>good. if good then Ok () else abort Triples [j] detail)"

definition check_shares :: "('f::field, 'g::ab_group_add, 'r) k256 \<Rightarrow> committee \<Rightarrow> party_id
    \<Rightarrow> ('f, 'g) reshare \<Rightarrow> unit result" where
  "check_shares E c j r =
     foldR (\<lambda>(i, s) _. if verify_share E (rs_com r) i s then Ok ()
         else Err (Abort (resolve_complaint E Triples (rs_com r) j i s)))
       (zip (c_ids c) (rs_shares r)) ()"

definition acc_com :: "('f, 'g::ab_group_add, 'r) k256 \<Rightarrow> 'g feldman option \<Rightarrow> 'g feldman \<Rightarrow> 'f
    \<Rightarrow> 'g feldman option" where
  "acc_com E cc com lam =
     Some (case cc of None \<Rightarrow> com_scale E com lam | Some acc \<Rightarrow> com_add acc (com_scale E com lam))"

definition t3_step :: "('f::field, 'g::ab_group_add, 'r) k256 \<Rightarrow> committee \<Rightarrow> bytes \<Rightarrow> 'g feldman
    \<Rightarrow> 'g feldman \<Rightarrow> (party_id \<times> 'f) \<times> ('f, 'g) reshare \<Rightarrow> 'g feldman option
    \<Rightarrow> 'g feldman option result" where
  "t3_step E c sid ca cb jr cc = (case jr of ((j, lam), r) \<Rightarrow>
     bindR (check_product E sid ca cb ''invalid DLEQ product proof'' j r) (\<lambda>_.
     bindR (check_shares E c j r) (\<lambda>_. Ok (acc_com E cc (rs_com r) lam))))"

definition c_share_of :: "'f::field list \<Rightarrow> ('f, 'g) reshare list \<Rightarrow> nat \<Rightarrow> 'f" where
  "c_share_of lambdas rs k = foldl (\<lambda>acc x. acc + x) 0 (map2 (\<lambda>lam r. lam * rs_shares r ! k) lambdas rs)"

definition triple_records :: "committee \<Rightarrow> 'f::field list \<Rightarrow> ('f, 'g) reshare list \<Rightarrow> 'f list \<Rightarrow> 'f list
    \<Rightarrow> 'g triple_public \<Rightarrow> ('f, 'g) triple list" where
  "triple_records c lambdas rs a_shares b_shares public =
     map (\<lambda>k. (\<lparr>ts_index = c_ids c ! k, ts_a = a_shares ! k, ts_b = b_shares ! k,
                ts_c = c_share_of lambdas rs k\<rparr>, public)) [0..<c_n c]"

section \<open>The single factory\<close>

definition triple_inputs :: "('f::field, 'g::ab_group_add, 'r) k256 \<Rightarrow> committee \<Rightarrow> bytes
    \<Rightarrow> ('r, 'f list \<times> 'f list \<times> 'g feldman \<times> 'g feldman \<times> 'f list \<times> ('f, 'g) reshare list) protocol" where
  \<comment> \<open>T1 and T2, the common prefix of the single and the robust factory\<close>
  "triple_inputs E c sid =
     bindS (joint_random E c (sid @ str_bytes ''/alpha'') Triples) (\<lambda>a_out.
     bindS (joint_random E c (sid @ str_bytes ''/beta'') Triples) (\<lambda>b_out.
     bindS (liftR (of_opt (nth_opt a_out 0))) (\<lambda>a0. bindS (liftR (of_opt (nth_opt b_out 0))) (\<lambda>b0.
     bindS (liftR (lagrange_coeffs (c_ids c))) (\<lambda>lambdas.
       let a_shares = map o_share a_out; b_shares = map o_share b_out; ca = o_com a0; cb = o_com b0
       in bindS (mapS (\<lambda>(k, j, a, b). with_rng k
              (reshare_product E c sid (\<lambda>s. shamir_random E s (c_t c)) cb j a b))
            (List.enumerate 0 (zip (c_ids c) (zip a_shares b_shares)))) (\<lambda>rs.
          retS (a_shares, b_shares, ca, cb, lambdas, rs)))))))"

definition generate_with_committee :: "('f::field, 'g::ab_group_add, 'r) k256 \<Rightarrow> committee \<Rightarrow> bytes
    \<Rightarrow> triple_tamper option \<Rightarrow> ('r, ('f, 'g) triple list) protocol" where
  "generate_with_committee E c sid tamper =
     bindS (triple_inputs E c sid) (\<lambda>(a_shares, b_shares, ca, cb, lambdas, rs0).
       let rs = tamper_reshares c tamper rs0
       in liftR (bindR (foldR (t3_step E c sid ca cb) (zip (zip (c_ids c) lambdas) rs) None) (\<lambda>cc.
            bindR (of_opt cc) (\<lambda>cc.
              Ok (triple_records c lambdas rs a_shares b_shares \<lparr>tp_ca = ca, tp_cb = cb, tp_cc = cc\<rparr>)))))"

definition generate_with_tamper :: "('f::field, 'g::ab_group_add, 'r) k256 \<Rightarrow> params \<Rightarrow> bytes
    \<Rightarrow> triple_tamper option \<Rightarrow> ('r, ('f, 'g) triple list) protocol" where
  "generate_with_tamper E p sid tamper =
     bindS (liftR (committee_full p)) (\<lambda>c. generate_with_committee E c sid tamper)"

definition generate :: "('f::field, 'g::ab_group_add, 'r) k256 \<Rightarrow> params \<Rightarrow> bytes
    \<Rightarrow> ('r, ('f, 'g) triple list) protocol" where
  "generate E p sid = generate_with_tamper E p sid None"

section \<open>The robust factory\<close>

definition repair_shares :: "('f::field, 'g::ab_group_add, 'r) k256 \<Rightarrow> committee \<Rightarrow> party_id list
    \<Rightarrow> 'f list \<Rightarrow> party_id list \<Rightarrow> 'f list \<Rightarrow> 'f list result" where
  \<comment> \<open>recompute every contaminated share from the valid ones\<close>
  "repair_shares E c valid_parties valid_shares victims shares =
     foldR (\<lambda>i shares.
       bindR (of_opt (position c i)) (\<lambda>v.
       bindR (interpolate_at (of_nat i) valid_parties valid_shares) (\<lambda>x. Ok (shares[v := x]))))
       victims shares"

definition t3_robust_step :: "('f::field, 'g::ab_group_add, 'r) k256 \<Rightarrow> committee \<Rightarrow> bytes
    \<Rightarrow> 'g feldman \<Rightarrow> 'g feldman \<Rightarrow> (party_id \<times> 'f) \<times> ('f, 'g) reshare
    \<Rightarrow> party_id list \<times> ('f, 'g) reshare list \<times> 'g feldman option
    \<Rightarrow> (party_id list \<times> ('f, 'g) reshare list \<times> 'g feldman option) result" where
  \<comment> \<open>the accumulator holds the blame list, the dealings after repair, and \<open>cc\<close>\<close>
  "t3_robust_step E c sid ca cb jr acc = (case (jr, acc) of (((j, lam), r), (blamed, rs, cc)) \<Rightarrow>
     bindR (check_product E sid ca cb ''invalid DLEQ product proof'' j r) (\<lambda>_.
       let (valid_parties, valid_shares, victims) =
             sift (verify_share E (rs_com r)) (zip (c_ids c) (rs_shares r)) ([], [], [])
       in if victims \<noteq> [] then
            if length valid_parties < c_t c
            then abort Triples [j] (''fewer than t valid re-shared shares; committed ''
                    @ ''re-sharing polynomial unrecoverable'')
            else bindR (repair_shares E c (take (c_t c) valid_parties) (take (c_t c) valid_shares)
                   victims (rs_shares r)) (\<lambda>shares.
                 Ok (blamed @ [j], rs @ [r\<lparr>rs_shares := shares\<rparr>], acc_com E cc (rs_com r) lam))
          else Ok (blamed, rs @ [r], acc_com E cc (rs_com r) lam)))"

definition generate_robust_with_committee :: "('f::field, 'g::ab_group_add, 'r) k256 \<Rightarrow> committee
    \<Rightarrow> bytes \<Rightarrow> triple_tamper option \<Rightarrow> ('r, ('f, 'g) triple list \<times> party_id list) protocol" where
  "generate_robust_with_committee E c sid tamper =
     bindS (triple_inputs E c sid) (\<lambda>(a_shares, b_shares, ca, cb, lambdas, rs0).
       liftR (bindR (foldR (t3_robust_step E c sid ca cb)
           (zip (zip (c_ids c) lambdas) (tamper_reshares c tamper rs0)) ([], [], None)) (\<lambda>(blamed, rs, cc).
         bindR (of_opt cc) (\<lambda>cc.
           Ok (filter (\<lambda>(s, _). ts_index s \<notin> set blamed)
                (triple_records c lambdas rs a_shares b_shares \<lparr>tp_ca = ca, tp_cb = cb, tp_cc = cc\<rparr>),
              blamed)))))"

definition generate_robust :: "('f::field, 'g::ab_group_add, 'r) k256 \<Rightarrow> params \<Rightarrow> bytes
    \<Rightarrow> triple_tamper option \<Rightarrow> ('r, ('f, 'g) triple list \<times> party_id list) protocol" where
  "generate_robust E p sid tamper =
     bindS (liftR (committee_full p)) (\<lambda>c. generate_robust_with_committee E c sid tamper)"

section \<open>Joint dealing between honest parties\<close>

lemma joint_rounds_honest:
  assumes "k256_ok E" "committee_wf c" "\<And>i. i \<in> set (c_ids c) \<Longrightarrow> length (F i) = c_t c"
  shows "joint_rounds E ph c (map (\<lambda>i. (honest_inst E c sid tag F i, honest_b1 E sid tag F i)) (c_ids c))
    = Ok (map (joint_output E (dealt c F)) (c_ids c))"
proof -
  let ?ids = "c_ids c"
  let ?started = "map (\<lambda>i. (honest_inst E c sid tag F i, honest_b1 E sid tag F i)) ?ids"
  let ?rev = "\<lambda>i. (\<lparr>b2_from = i, b2_com = commit E (F i)\<rparr>,
      map (\<lambda>j. \<lparr>pp_from = i, pp_to = j, pp_share = peval (F i) (of_nat j)\<rparr>) ?ids)"
  obtain i0 where i0: "i0 \<in> set ?ids"
    using committee_wf_facts(2) [OF assms(2)] by (cases ?ids) auto
  have srt: "bt_of_list (map (\<lambda>i. (i, f i)) ?ids) = map (\<lambda>i. (i, f i)) ?ids" for f
    by (rule committee_map(1) [OF assms(2) i0])
  have revs: "mapR (dkg_reveal E) (map (honest_inst E c sid tag F) ?ids) = Ok (map ?rev ?ids)"
    unfolding mapR_map by (rule mapR_Ok) (rule reveal_honest)
  have df: "length (defenses_of (map (honest_inst E c sid tag F) ?ids) j) = c_n c" for j
    by (simp add: defenses_of_def o_def srt c_n_def)
  have fin: "mapR (\<lambda>inst. dkg_finalize E inst ph (map (\<lambda>i. (i, honest_b1 E sid tag F i)) ?ids)
        (map (\<lambda>i. (i, \<lparr>b2_from = i, b2_com = commit E (F i)\<rparr>)) ?ids)
        (mine_of (concat (map (\<lambda>i. map (\<lambda>j. \<lparr>pp_from = i, pp_to = j, pp_share = peval (F i) (of_nat j)\<rparr>) ?ids) ?ids)) (di_me inst))
        (defenses_of (map (honest_inst E c sid tag F) ?ids) (di_me inst)))
      (map (honest_inst E c sid tag F) ?ids) = Ok (map (joint_output E (dealt c F)) ?ids)"
    unfolding mapR_map
    by (rule mapR_Ok) (simp add: mine_of_honest [OF assms(2)] finalize_honest [OF assms(1,2) _ assms(3) df])
  show ?thesis
    using fin by (simp add: joint_rounds_def Let_def o_def revs zip_map_self srt)
qed

lemma honest_inst_const: "honest_inst E c sid tag (\<lambda>_. F i) i = honest_inst E c sid tag F i"
  by (simp add: honest_inst_def)

lemma honest_b1_const: "honest_b1 E sid tag (\<lambda>_. F i) i = honest_b1 E sid tag F i"
  by (simp add: honest_b1_def)

text \<open>Every party starts an honest dealing of its own random polynomial.\<close>

lemma committee_start:
  fixes E :: "('f::field, 'g::ab_group_add, 'r) k256"
  assumes "committee_wf c" "c_n c \<le> length rs"
  shows "\<exists>F rs'. mapS (\<lambda>(k, i). with_rng k (dkg_start_committee E c sid tag i)) (List.enumerate 0 (c_ids c)) rs
      = (Ok (map (\<lambda>i. (honest_inst E c sid tag F i, honest_b1 E sid tag F i)) (c_ids c)) :: _ result, rs')
    \<and> length rs' = length rs \<and> (\<forall>i \<in> set (c_ids c). length (F i) = c_t c)"
proof -
  define P where "P = (\<lambda>i y. \<exists>cs. length cs = c_t c
    \<and> y = (honest_inst E c sid tag (\<lambda>_. cs) i, honest_b1 E sid tag (\<lambda>_. cs) i))"
  have start: "P i (fst (dkg_start_committee E c sid tag i r))" for i r
  proof -
    obtain s r' where s: "rnd E r = (s, r')" by (cases "rnd E r") auto
    from dkg_start_honest [of c E sid tag i s r'] obtain cs where
      cs: "length cs = c_t c - 1" "fst (dkg_start_with_secret E c sid tag i s r')
        = (honest_inst E c sid tag (\<lambda>_. s # cs) i, honest_b1 E sid tag (\<lambda>_. s # cs) i)"
      by blast
    then show ?thesis unfolding P_def
      using s committee_wf_facts(3) [OF assms(1)] by (intro exI [of _ "s # cs"]) (simp add: dkg_start_committee_def)
  qed
  have "0 + length (c_ids c) \<le> length rs" using assms(2) by (simp add: c_n_def)
  from mapS_with_rng [where P = "\<lambda>(i, x) y. P x y" and f = "\<lambda>_. dkg_start_committee E c sid tag", OF this]
  obtain ys rs' where ys: "mapS (\<lambda>(k, i). with_rng k (dkg_start_committee E c sid tag i))
      (List.enumerate 0 (c_ids c)) rs = (Ok ys :: _ result, rs')"
    and P: "list_all2 P (c_ids c) ys" and len: "length rs' = length rs"
    using start by (auto simp: list_all2_enumerate)
  from list_all2_fun [OF P committee_wf_facts(1) [OF assms(1)]] obtain G where
    G: "ys = map G (c_ids c)" "\<forall>i \<in> set (c_ids c). P i (G i)" by blast
  from G(2) obtain F where F: "\<forall>i \<in> set (c_ids c). length (F i) = c_t c
    \<and> G i = (honest_inst E c sid tag F i, honest_b1 E sid tag F i)"
    unfolding P_def by (metis honest_inst_const honest_b1_const)
  then have "ys = map (\<lambda>i. (honest_inst E c sid tag F i, honest_b1 E sid tag F i)) (c_ids c)"
    using G(1) by simp
  then show ?thesis using ys len F by blast
qed

lemma joint_random_honest:
  assumes "k256_ok E" "committee_wf c" "c_n c \<le> length rs"
  shows "\<exists>cs rs'. joint_random E c sid ph rs = (Ok (map (joint_output E cs) (c_ids c)), rs')
    \<and> length cs = c_t c \<and> length rs' = length rs"
proof -
  obtain F rs' where st: "mapS (\<lambda>(k, i). with_rng k (dkg_start_committee E c sid DKG_COMMIT i)) (List.enumerate 0 (c_ids c)) rs
      = (Ok (map (\<lambda>i. (honest_inst E c sid DKG_COMMIT F i, honest_b1 E sid DKG_COMMIT F i)) (c_ids c)) :: _ result, rs')"
    and len: "length rs' = length rs" and F: "\<forall>i \<in> set (c_ids c). length (F i) = c_t c"
    using committee_start [OF assms(2,3)] by blast
  have "joint_random E c sid ph rs = (Ok (map (joint_output E (dealt c F)) (c_ids c)), rs')"
    unfolding joint_random_def bindS_Ok [where m = "mapS _ _", OF st]
    using F by (simp add: joint_rounds_honest [OF assms(1,2)])
  moreover have "length (dealt c F) = c_t c" using F by (intro length_dealt [OF assms(2)]) blast
  ultimately show ?thesis using len by blast
qed

section \<open>What T2 hands to T3\<close>

text \<open>
  \<open>reshare_ok \<dots> j a b g r\<close>: the dealing \<open>r\<close> of party \<open>j\<close> re-shares \<open>a * b\<close> with the polynomial
  \<open>g\<close>, and its proof is valid for the commitment \<open>cb\<close>.
\<close>

definition reshare_ok :: "('f::field, 'g::ab_group_add, 'r) k256 \<Rightarrow> committee \<Rightarrow> bytes \<Rightarrow> 'g feldman
    \<Rightarrow> party_id \<Rightarrow> 'f \<Rightarrow> 'f \<Rightarrow> 'f list \<Rightarrow> ('f, 'g) reshare \<Rightarrow> bool" where
  "reshare_ok E c sid cb j a b g r \<longleftrightarrow> g \<noteq> [] \<and> hd g = a * b \<and> rs_com r = commit E g
     \<and> rs_shares r = map (\<lambda>i. peval g (of_nat i)) (c_ids c)
     \<and> rs_x1 r = smul E (gen E) a \<and> rs_x2 r = smul E (com_eval_at E cb j) a
     \<and> dleq_verify E sid TRIPLE_PRODUCT (gen E) (rs_x1 r) (com_eval_at E cb j) (rs_x2 r) (rs_proof r)"

lemma reshare_product_ok:
  assumes "k256_ok E" "coeffs (fst (deal (a * b) rng)) = g" "g \<noteq> []" "hd g = a * b"
  shows "reshare_ok E c sid cb j a b g (fst (reshare_product E c sid deal cb j a b rng))"
proof -
  obtain p r1 where d: "deal (a * b) rng = (p, r1)" by (cases "deal (a * b) rng") auto
  obtain x1 x2 pf r2 where prv: "dleq_prove E sid TRIPLE_PRODUCT a (gen E) (com_eval_at E cb j) r1 = ((x1, x2, pf), r2)"
    by (cases "dleq_prove E sid TRIPLE_PRODUCT a (gen E) (com_eval_at E cb j) r1") auto
  then have "x1 = smul E (gen E) a \<and> x2 = smul E (com_eval_at E cb j) a
      \<and> dleq_verify E sid TRIPLE_PRODUCT (gen E) x1 (com_eval_at E cb j) x2 pf"
    using dleq_complete [OF assms(1), of sid TRIPLE_PRODUCT a "gen E" "com_eval_at E cb j" r1 x1 x2 pf]
    by auto
  then show ?thesis
    using d prv assms(2-)
    by (auto simp: reshare_product_def reshare_ok_def Let_def from_poly_commit)
qed

lemma shamir_random_hd:
  assumes "1 \<le> t" "coeffs (fst (shamir_random E s t rng)) = g"
  shows "g \<noteq> [] \<and> hd g = s \<and> length g = t"
  using assms shamir_random_coeffs [of E s t rng] by auto

lemma product_ok_honest:
  assumes "k256_ok E" "reshare_ok E c sid (commit E B) j (peval A (of_nat j)) (peval B (of_nat j)) g r"
  shows "product_ok E sid (commit E A) (commit E B) j r = Ok True"
  using assms
  by (cases g) (auto simp: reshare_ok_def product_ok_def com_eval_at_commit smul_smul nth_opt_def mult.commute)

lemma check_shares_honest:
  assumes "k256_ok E" "reshare_ok E c sid cb j a b g r"
  shows "check_shares E c j r = Ok ()"
proof -
  have "foldR (\<lambda>(i, s) _. if verify_share E (rs_com r) i s then Ok ()
      else Err (Abort (resolve_complaint E Triples (rs_com r) j i s))) (zip (c_ids c) (rs_shares r)) ()
    = Ok (foldl (\<lambda>_ _. ()) () (zip (c_ids c) (rs_shares r)))"
    using assms by (intro foldR_Ok) (auto simp: reshare_ok_def zip_map_self verify_share_commit)
  then show ?thesis by (simp add: check_shares_def)
qed

definition wsum :: "('f::comm_ring_1, 'g, 'r) k256 \<Rightarrow> ('j \<Rightarrow> 'f list) \<Rightarrow> 'j list \<Rightarrow> 'g feldman option" where
  \<comment> \<open>the running combination of T3 after the dealers \<open>js\<close>\<close>
  "wsum E W js = (if js = [] then None else Some (commit E (psum (map W js))))"

lemma psum_snoc: "psum (ps @ [p]) = padd (psum ps) p"
  by (simp add: psum_def)

lemma acc_com_wsum:
  assumes "k256_ok E"
  shows "acc_com E (wsum E (\<lambda>j. pscale (Lam j) (G j)) js) (commit E (G j)) (Lam j)
    = wsum E (\<lambda>j. pscale (Lam j) (G j)) (js @ [j])"
  using assms
  by (cases "js = []") (auto simp: wsum_def acc_com_def com_scale_commit com_add_commit psum_snoc)

definition recombine :: "committee \<Rightarrow> (party_id \<Rightarrow> 'f::comm_ring_1) \<Rightarrow> (party_id \<Rightarrow> 'f list) \<Rightarrow> 'f list" where
  \<comment> \<open>the polynomial the triple's third component is shared with\<close>
  "recombine c Lam G = psum (map (\<lambda>j. pscale (Lam j) (G j)) (c_ids c))"

lemma length_recombine:
  assumes "committee_wf c" "\<And>j. j \<in> set (c_ids c) \<Longrightarrow> length (G j) = d"
  shows "length (recombine c Lam G) = d"
  unfolding recombine_def using assms(2) committee_wf_facts(2) [OF assms(1)]
  by (intro length_psum) auto

lemma peval_recombine: "peval (recombine c Lam G) x = (\<Sum>j\<leftarrow>c_ids c. Lam j * peval (G j) x)"
  by (simp add: recombine_def peval_psum o_def mult.commute)

lemma c_share_recombine:
  assumes "\<And>j. j \<in> set (c_ids c) \<Longrightarrow> rs_shares (R j) = map (\<lambda>i. peval (G j) (of_nat i)) (c_ids c)"
    and "k < c_n c"
  shows "c_share_of (map Lam (c_ids c)) (map R (c_ids c)) k = peval (recombine c Lam G) (of_nat (c_ids c ! k))"
proof -
  have "foldl (\<lambda>acc x. acc + x) a (map f js) = a + (\<Sum>j\<leftarrow>js. f j)" for a :: 'a and f and js :: "nat list"
    by (induction js arbitrary: a) (auto simp: add.assoc)
  then have "c_share_of (map Lam (c_ids c)) (map R (c_ids c)) k = (\<Sum>j\<leftarrow>c_ids c. Lam j * rs_shares (R j) ! k)"
    by (simp add: c_share_of_def zip_map_both o_def)
  also have "\<dots> = (\<Sum>j\<leftarrow>c_ids c. Lam j * peval (G j) (of_nat (c_ids c ! k)))"
    using assms by (intro arg_cong [where f = sum_list] map_cong) (auto simp: c_n_def)
  finally show ?thesis by (simp add: peval_recombine)
qed

section \<open>The single factory between honest parties\<close>

definition weights_at :: "committee \<Rightarrow> 'f::comm_ring_1 \<Rightarrow> (party_id \<Rightarrow> 'f) \<Rightarrow> bool" where
  "weights_at c x Lam \<longleftrightarrow>
     (\<forall>cs. length cs \<le> c_n c \<longrightarrow> (\<Sum>j\<leftarrow>c_ids c. Lam j * peval cs (of_nat j)) = peval cs x)"

text \<open>The state of an honest run when T3 starts, with the dealt polynomials made explicit.\<close>

definition dealt_inputs :: "('f::field, 'g::ab_group_add, 'r) k256 \<Rightarrow> committee \<Rightarrow> bytes \<Rightarrow> 'f list \<Rightarrow> 'f list
    \<Rightarrow> (party_id \<Rightarrow> 'f list) \<Rightarrow> (party_id \<Rightarrow> ('f, 'g) reshare) \<Rightarrow> nat \<Rightarrow> bool" where
  "dealt_inputs E c sid A B G R d \<longleftrightarrow> length A = d \<and> length B = d \<and>
     (\<forall>j \<in> set (c_ids c). length (G j) = d \<and>
        reshare_ok E c sid (commit E B) j (peval A (of_nat j)) (peval B (of_nat j)) (G j) (R j))"

lemma committee_pts:
  assumes "k256_ok (E :: ('f::field, 'g::ab_group_add, 'r) k256)" "committee_wf c"
  shows "distinct (pts (c_ids c) :: 'f list)"
  using committee_wf_facts [OF assms(2)] by (intro distinct_pts [OF assms(1)]) auto

lemma committee_weights:
  assumes "k256_ok (E :: ('f::field, 'g::ab_group_add, 'r) k256)" "committee_wf c"
  shows "\<exists>Lam. lagrange_coeffs_at (x :: 'f) (c_ids c) = Ok (map Lam (c_ids c)) \<and> weights_at c x Lam"
  using lagrange_weights [OF committee_pts [OF assms] committee_wf_facts(1) [OF assms(2)], of x]
  by (simp add: weights_at_def c_n_def)

lemma recombine_product:
  assumes "committee_wf c" "weights_at c x Lam" "length A + length B \<le> Suc (c_n c)" "A \<noteq> []" "B \<noteq> []"
    and "\<And>j. j \<in> set (c_ids c) \<Longrightarrow> peval (G j) y = peval A (of_nat j) * peval B (of_nat j)"
  shows "peval (recombine c Lam G) y = peval A x * peval B (x :: 'f::field)"
proof -
  have "peval (recombine c Lam G) y = (\<Sum>j\<leftarrow>c_ids c. Lam j * peval (pmul A B) (of_nat j))"
    using assms(6) by (simp add: peval_recombine cong: map_cong)
  also have "\<dots> = peval (pmul A B) x"
  proof -
    have "length (pmul A B) \<le> c_n c" using assms(3-5) length_pmul [of A B] by simp
    then show ?thesis using assms(2) unfolding weights_at_def by blast
  qed
  finally show ?thesis by simp
qed

lemma reshare_all_honest:
  fixes E :: "('f::field, 'g::ab_group_add, 'r) k256"
  assumes "k256_ok E" "committee_wf c" "c_n c \<le> length rs"
    and deal: "\<And>s r. let g = coeffs (fst (deal s r)) in g \<noteq> [] \<and> hd g = s \<and> Q s g"
  shows "\<exists>G R rs'. mapS (\<lambda>(k, j, a, b). with_rng k (reshare_product E c sid deal cb j a b))
      (List.enumerate 0 (zip (c_ids c) (zip (map fa (c_ids c)) (map fb (c_ids c))))) rs
    = (Ok (map R (c_ids c)) :: _ result, rs') \<and> length rs' = length rs
    \<and> (\<forall>j \<in> set (c_ids c). reshare_ok E c sid cb j (fa j) (fb j) (G j) (R j) \<and> Q (fa j * fb j) (G j))"
proof -
  let ?xs = "zip (c_ids c) (zip (map fa (c_ids c)) (map fb (c_ids c)))"
  define P where "P = (\<lambda>(j, a, b) r. \<exists>g. reshare_ok E c sid cb j a b g r \<and> Q (a * b) g)"
  have one: "P (j, a, b) (fst (reshare_product E c sid deal cb j a b r))" for j a b r
    using deal [of "a * b" r] reshare_product_ok [OF assms(1), of deal a b r _ c sid cb j]
    unfolding P_def by (auto simp: Let_def)
  have "0 + length ?xs \<le> length rs" using assms(3) by (simp add: c_n_def)
  have uncurried: "(\<lambda>(k, j, a, b). with_rng k (reshare_product E c sid deal cb j a b))
      = (\<lambda>(i, x). with_rng i ((\<lambda>_ (j, a, b). reshare_product E c sid deal cb j a b) i x))"
    by (auto simp: fun_eq_iff)
  from mapS_with_rng [where P = "\<lambda>(i, x) y. P x y" and f = "\<lambda>_ (j, a, b). reshare_product E c sid deal cb j a b",
      OF \<open>0 + length ?xs \<le> length rs\<close>]
  obtain ys rs' where ys: "mapS (\<lambda>(k, j, a, b). with_rng k (reshare_product E c sid deal cb j a b))
      (List.enumerate 0 ?xs) rs = (Ok ys :: _ result, rs')"
    and P: "list_all2 P ?xs ys" and len: "length rs' = length rs"
    unfolding uncurried using one by (fastforce simp: list_all2_enumerate)
  have "list_all2 (\<lambda>j y. P (j, fa j, fb j) y) (c_ids c) ys"
    using P by (simp add: zip_map_both zip_map_self list_all2_map1)
  from list_all2_fun [OF this committee_wf_facts(1) [OF assms(2)]] obtain R where
    R: "ys = map R (c_ids c)" "\<forall>j \<in> set (c_ids c). P (j, fa j, fb j) (R j)" by blast
  from R(2) obtain G where "\<forall>j \<in> set (c_ids c). reshare_ok E c sid cb j (fa j) (fb j) (G j) (R j) \<and> Q (fa j * fb j) (G j)"
    unfolding P_def by (simp only: prod.case) metis
  then show ?thesis using ys R(1) len by blast
qed

lemma triple_inputs_honest:
  fixes E :: "('f::field, 'g::ab_group_add, 'r) k256"
  assumes "k256_ok E" "committee_wf c" "c_n c \<le> length rs"
  shows "\<exists>A B Lam G R rs'. triple_inputs E c sid rs =
      (Ok (map (\<lambda>j. peval A (of_nat j)) (c_ids c), map (\<lambda>j. peval B (of_nat j)) (c_ids c),
        commit E A, commit E B, map Lam (c_ids c), map R (c_ids c)), rs')
    \<and> length rs' = length rs \<and> weights_at c 0 Lam \<and> dealt_inputs E c sid A B G R (c_t c)"
proof -
  obtain A r1 where A: "joint_random E c (sid @ str_bytes ''/alpha'') Triples rs
      = (Ok (map (joint_output E A) (c_ids c)), r1)" "length A = c_t c" "length r1 = length rs"
    using joint_random_honest [OF assms, of "sid @ str_bytes ''/alpha''" Triples] by blast
  have "c_n c \<le> length r1" using A(3) assms(3) by simp
  from joint_random_honest [OF assms(1,2) this, of "sid @ str_bytes ''/beta''" Triples]
  obtain B r2 where B: "joint_random E c (sid @ str_bytes ''/beta'') Triples r1
      = (Ok (map (joint_output E B) (c_ids c)), r2)" "length B = c_t c" "length r2 = length rs"
    using A(3) by auto
  obtain Lam where Lam: "lagrange_coeffs (c_ids c) = Ok (map Lam (c_ids c))" "weights_at c (0 :: 'f) Lam"
    using committee_weights [OF assms(1,2), of 0] by (auto simp: lagrange_coeffs_def)
  have "c_n c \<le> length r2" using B(3) assms(3) by simp
  from reshare_all_honest [OF assms(1,2) this, of "\<lambda>s. shamir_random E s (c_t c)" "\<lambda>_ g. length g = c_t c"
      sid "commit E B" "\<lambda>j. peval A (of_nat j)" "\<lambda>j. peval B (of_nat j)"]
  obtain G R r3 where R: "mapS (\<lambda>(k, j, a, b). with_rng k
        (reshare_product E c sid (\<lambda>s. shamir_random E s (c_t c)) (commit E B) j a b))
      (List.enumerate 0 (zip (c_ids c) (zip (map (\<lambda>j. peval A (of_nat j)) (c_ids c))
         (map (\<lambda>j. peval B (of_nat j)) (c_ids c))))) r2 = (Ok (map R (c_ids c)) :: _ result, r3)"
      "length r3 = length r2"
      "\<forall>j \<in> set (c_ids c). reshare_ok E c sid (commit E B) j (peval A (of_nat j)) (peval B (of_nat j)) (G j) (R j)
        \<and> length (G j) = c_t c"
    using shamir_random_hd [of "c_t c" E] committee_wf_facts(3) [OF assms(2)]
    by (auto simp: Let_def Suc_le_eq)
  have ne: "0 < length (c_ids c)" using committee_wf_facts(2) [OF assms(2)] by simp
  have outs: "map o_share (map (joint_output E X) (c_ids c)) = map (\<lambda>j. peval X (of_nat j)) (c_ids c)"
    "nth_opt (map (joint_output E X) (c_ids c)) 0 = Some (joint_output E X (c_ids c ! 0))"
    "o_com (joint_output E X j) = commit E X" for X j
    using ne by (auto simp: joint_output_def)
  have run: "triple_inputs E c sid rs =
      (Ok (map (\<lambda>j. peval A (of_nat j)) (c_ids c), map (\<lambda>j. peval B (of_nat j)) (c_ids c),
        commit E A, commit E B, map Lam (c_ids c), map R (c_ids c)), r3)"
    by (simp add: triple_inputs_def bindS_def A(1) B(1) Lam(1) outs R(1) Let_def del: map_map)
  have "dealt_inputs E c sid A B G R (c_t c)"
    using R(3) A(2) B(2) by (simp add: dealt_inputs_def)
  then show ?thesis
    using run R(2) B(3) Lam(2)
    by (intro exI [of _ A] exI [of _ B] exI [of _ Lam] exI [of _ G] exI [of _ R] exI [of _ r3] conjI) simp_all
qed

section \<open>The triples it outputs\<close>

definition triples_of :: "('f::comm_ring_1, 'g, 'r) k256 \<Rightarrow> committee \<Rightarrow> 'f list \<Rightarrow> 'f list \<Rightarrow> 'f list
    \<Rightarrow> ('f, 'g) triple list" where
  \<comment> \<open>every party's record of the triple shared by \<open>A\<close>, \<open>B\<close>, \<open>C\<close>\<close>
  "triples_of E c A B C = map (\<lambda>j. (\<lparr>ts_index = j, ts_a = peval A (of_nat j), ts_b = peval B (of_nat j),
     ts_c = peval C (of_nat j)\<rparr>, \<lparr>tp_ca = commit E A, tp_cb = commit E B, tp_cc = commit E C\<rparr>)) (c_ids c)"

lemma triple_records_of:
  assumes "\<And>j. j \<in> set (c_ids c) \<Longrightarrow> rs_shares (R j) = map (\<lambda>i. peval (G j) (of_nat i)) (c_ids c)"
  shows "triple_records c (map Lam (c_ids c)) (map R (c_ids c)) (map (\<lambda>j. peval A (of_nat j)) (c_ids c))
      (map (\<lambda>j. peval B (of_nat j)) (c_ids c))
      \<lparr>tp_ca = commit E A, tp_cb = commit E B, tp_cc = commit E (recombine c Lam G)\<rparr>
    = triples_of E c A B (recombine c Lam G)"
  unfolding triple_records_def triples_of_def
  by (rule nth_equalityI) (auto simp: c_n_def c_share_recombine [OF assms])

lemma t3_step_honest:
  assumes "k256_ok E" "dealt_inputs E c sid A B G R d" "j \<in> set (c_ids c)"
  shows "t3_step E c sid (commit E A) (commit E B) ((j, lam), R j) cc = Ok (acc_com E cc (commit E (G j)) lam)"
proof -
  have r: "reshare_ok E c sid (commit E B) j (peval A (of_nat j)) (peval B (of_nat j)) (G j) (R j)"
    using assms(2,3) by (simp add: dealt_inputs_def)
  then have "rs_com (R j) = commit E (G j)" by (simp add: reshare_ok_def)
  then show ?thesis
    using product_ok_honest [OF assms(1) r] check_shares_honest [OF assms(1) r]
    by (simp add: t3_step_def check_product_def)
qed

lemma t3_rows:
  "zip (zip ids (map Lam ids)) (map R ids) = map (\<lambda>j. ((j, Lam j), R j)) ids"
  by (induction ids) auto

lemma recombine_wsum:
  "c_ids c \<noteq> [] \<Longrightarrow> wsum E (\<lambda>j. pscale (Lam j) (G j)) (c_ids c) = Some (commit E (recombine c Lam G))"
  by (simp add: wsum_def recombine_def)

lemma t3_honest:
  assumes "k256_ok E" "committee_wf c" "dealt_inputs E c sid A B G R d"
  shows "foldR (t3_step E c sid (commit E A) (commit E B))
      (zip (zip (c_ids c) (map Lam (c_ids c))) (map R (c_ids c))) None
    = Ok (Some (commit E (recombine c Lam G)))"
proof -
  let ?W = "\<lambda>j. pscale (Lam j) (G j)"
  have "foldR (\<lambda>j. t3_step E c sid (commit E A) (commit E B) ((j, Lam j), R j)) (c_ids c) (wsum E ?W [])
    = Ok (wsum E ?W ([] @ c_ids c))"
    by (rule foldR_prefix) (simp add: t3_step_honest [OF assms(1,3)] acc_com_wsum [OF assms(1)])
  then show ?thesis
    using recombine_wsum [OF committee_wf_facts(2) [OF assms(2)], of E Lam G]
    by (simp add: t3_rows foldR_map wsum_def [of _ _ "[]"])
qed

lemma dealt_product:
  assumes "committee_wf c" "weights_at c 0 Lam" "dealt_inputs E c sid A B G R (c_t c)"
  shows "length (recombine c Lam G) = c_t c"
    "peval (recombine c Lam G) 0 = peval A 0 * peval B (0 :: 'f::field)"
proof -
  have G: "length (G j) = c_t c \<and> peval (G j) 0 = peval A (of_nat j) * peval B (of_nat j)"
    if "j \<in> set (c_ids c)" for j
    using that assms(3) by (auto simp: dealt_inputs_def reshare_ok_def peval_0)
  show "length (recombine c Lam G) = c_t c" using G by (intro length_recombine [OF assms(1)]) auto
  have AB: "length A = c_t c" "length B = c_t c" using assms(3) by (auto simp: dealt_inputs_def)
  then have "A \<noteq> []" "B \<noteq> []" using committee_wf_facts(3) [OF assms(1)] by auto
  then show "peval (recombine c Lam G) 0 = peval A 0 * peval B (0 :: 'f)"
    using AB committee_wf_facts(5) [OF assms(1)] G
    by (intro recombine_product [OF assms(1,2)]) (auto simp: c_n_def)
qed

lemma generate_honest:
  fixes E :: "('f::field, 'g::ab_group_add, 'r) k256"
  assumes "k256_ok E" "committee_wf c" "c_n c \<le> length rs"
  shows "\<exists>A B C rs'. generate_with_committee E c sid None rs = (Ok (triples_of E c A B C), rs')
    \<and> length rs' = length rs \<and> length A = c_t c \<and> length B = c_t c \<and> length C = c_t c
    \<and> peval C 0 = peval A 0 * peval B 0"
proof -
  from triple_inputs_honest [OF assms, of sid] obtain A B Lam G R rs' where
    run: "triple_inputs E c sid rs = (Ok (map (\<lambda>j. peval A (of_nat j)) (c_ids c),
        map (\<lambda>j. peval B (of_nat j)) (c_ids c), commit E A, commit E B, map Lam (c_ids c), map R (c_ids c)), rs')"
    and rest: "length rs' = length rs" "weights_at c 0 Lam" "dealt_inputs E c sid A B G R (c_t c)" by blast
  have shares: "rs_shares (R j) = map (\<lambda>i. peval (G j) (of_nat i)) (c_ids c)" if "j \<in> set (c_ids c)" for j
    using that rest(3) by (simp add: dealt_inputs_def reshare_ok_def)
  have "generate_with_committee E c sid None rs = (Ok (triples_of E c A B (recombine c Lam G)), rs')"
    using t3_honest [OF assms(1,2) rest(3), of Lam] triple_records_of [OF shares, where Lam = Lam and A = A and B = B and E = E]
    by (simp add: generate_with_committee_def bindS_def run tamper_reshares_def)
  then show ?thesis
    using dealt_product [OF assms(2) rest(2,3)] rest by (auto simp: dealt_inputs_def)
qed

section \<open>Cheating dealers\<close>

definition hit_share :: "committee \<Rightarrow> triple_tamper \<Rightarrow> party_id \<Rightarrow> ('f::field, 'g) reshare \<Rightarrow> ('f, 'g) reshare" where
  "hit_share c tm j r = (case tt_bad_reshare tm of None \<Rightarrow> r
     | Some (d, v) \<Rightarrow> (case position c v of None \<Rightarrow> r
         | Some p \<Rightarrow> if j = d then r\<lparr>rs_shares := add_at (rs_shares r) p 1\<rparr> else r))"

definition tampered :: "committee \<Rightarrow> triple_tamper option \<Rightarrow> (party_id \<Rightarrow> ('f::field, 'g) reshare)
    \<Rightarrow> party_id \<Rightarrow> ('f, 'g) reshare" where
  "tampered c tamper R j = (case tamper of None \<Rightarrow> R j
     | Some tm \<Rightarrow> (let r = hit_share c tm j (R j)
         in if tt_bad_product_proof tm = Some j then bump_proof r else r))"

definition cheating :: "triple_tamper option \<Rightarrow> party_id set" where
  \<comment> \<open>the parties a tamper makes deviate in T2\<close>
  "cheating tamper = (case tamper of None \<Rightarrow> {}
     | Some tm \<Rightarrow> (case tt_bad_reshare tm of None \<Rightarrow> {} | Some (d, _) \<Rightarrow> {d})
         \<union> set_option (tt_bad_product_proof tm))"

lemma tampered_honest: "j \<notin> cheating tamper \<Longrightarrow> tampered c tamper R j = R j"
  by (auto simp: tampered_def cheating_def hit_share_def split: option.splits)

lemma committee_update:
  assumes "committee_wf c" "position c d = Some p"
  shows "(map R (c_ids c))[p := f (map R (c_ids c) ! p)] = map (R(d := f (R d))) (c_ids c)"
  using map_update_key [OF committee_wf_facts(1) [OF assms(1)], of p R "f (R d)"] position_Some [OF assms(2)]
  by auto

lemma map_fun_upd_other: "d \<notin> set xs \<Longrightarrow> map (R(d := y)) xs = map R xs"
  by simp

lemma tamper_reshares_map:
  assumes "committee_wf c"
  shows "tamper_reshares c tamper (map R (c_ids c)) = map (tampered c tamper R) (c_ids c)"
proof (cases tamper)
  case None
  then show ?thesis by (simp add: tamper_reshares_def tampered_def)
next
  case (Some tm)
  have one: "(case tt_bad_reshare tm of None \<Rightarrow> map R (c_ids c)
        | Some (d, v) \<Rightarrow> (case (position c d, position c v) of
             (Some d, Some v) \<Rightarrow> (map R (c_ids c))[d := (map R (c_ids c) ! d)\<lparr>rs_shares :=
                add_at (rs_shares (map R (c_ids c) ! d)) v 1\<rparr>] | _ \<Rightarrow> map R (c_ids c)))
      = map (\<lambda>j. hit_share c tm j (R j)) (c_ids c)"
  proof (cases "tt_bad_reshare tm")
    case None
    then show ?thesis by (simp add: hit_share_def)
  next
    case (Some dv)
    obtain d v where dv: "dv = (d, v)" by (cases dv)
    show ?thesis
    proof (cases "position c d")
      case None
      moreover have "d \<notin> set (c_ids c)" using None by (simp add: position_None)
      ultimately show ?thesis using Some dv by (auto simp: hit_share_def split: option.splits)
    next
      case p: (Some p)
      then show ?thesis using Some dv
          committee_update [OF assms p, of R "\<lambda>r. r\<lparr>rs_shares := add_at (rs_shares r) _ 1\<rparr>"]
        by (auto simp: hit_share_def split: option.splits)
    qed
  qed
  show ?thesis
  proof (cases "tt_bad_product_proof tm")
    case None
    then show ?thesis
      using Some by (simp add: tamper_reshares_def one tampered_def Let_def)
  next
    case j: (Some j)
    then show ?thesis
      using Some committee_update [OF assms, of j _ "\<lambda>j. hit_share c tm j (R j)" bump_proof]
      by (auto simp: tamper_reshares_def one tampered_def Let_def position_None split: option.splits)
  qed
qed

lemma bumped_proof_fails:
  assumes "k256_ok E" "dleq_verify E sid tag (gen E) x1 g2 x2 pf"
  shows "\<not> dleq_verify E sid tag (gen E) x1 g2 x2 (pf\<lparr>d_z := d_z pf + 1\<rparr>)"
  using assms gen_nonzero [OF assms(1)]
  by (auto simp: dleq_verify_def Let_def smul_add smul_1)

lemma check_shares_outcomes:
  "check_shares E c j r = Ok () \<or> (\<exists>a. check_shares E c j r = Err (Abort a)
      \<and> ab_phase a = Triples \<and> ab_blamed a = [j])"
proof -
  have "foldR (\<lambda>(i, s) _. if verify_share E (rs_com r) i s then Ok ()
        else Err (Abort (resolve_complaint E Triples (rs_com r) j i s))) xs () = Ok ()
    \<or> (\<exists>a. foldR (\<lambda>(i, s) _. if verify_share E (rs_com r) i s then Ok ()
        else Err (Abort (resolve_complaint E Triples (rs_com r) j i s))) xs () = Err (Abort a)
      \<and> ab_phase a = Triples \<and> ab_blamed a = [j])" for xs
  proof (induction xs)
    case (Cons x xs)
    obtain i s where x: "x = (i, s)" by (cases x)
    show ?case
    proof (cases "verify_share E (rs_com r) i s")
      case True
      then show ?thesis using Cons.IH x by simp
    next
      case False
      then show ?thesis using x resolve_complaint_blames [of E Triples "rs_com r" j i s] by auto
    qed
  qed simp
  then show ?thesis by (simp add: check_shares_def)
qed

lemma t3_step_outcomes:
  \<comment> \<open>a step that does not go through blames its dealer, who must have deviated\<close>
  assumes "k256_ok E" "dealt_inputs E c sid A B G R d" "j \<in> set (c_ids c)"
  shows "(\<exists>cc'. t3_step E c sid (commit E A) (commit E B) ((j, lam), tampered c tamper R j) cc = Ok cc')
    \<or> (\<exists>a. t3_step E c sid (commit E A) (commit E B) ((j, lam), tampered c tamper R j) cc = Err (Abort a)
        \<and> ab_phase a = Triples \<and> ab_blamed a = [j] \<and> j \<in> cheating tamper)"
proof (cases "j \<in> cheating tamper")
  case False
  then show ?thesis using t3_step_honest [OF assms] by (auto simp: tampered_honest)
next
  case True
  let ?r = "tampered c tamper R j"
  have g: "G j \<noteq> []" using assms(2,3) by (auto simp: dealt_inputs_def reshare_ok_def)
  have com: "rs_com ?r = commit E (G j)"
    using assms(2,3) by (auto simp: dealt_inputs_def reshare_ok_def tampered_def hit_share_def
        bump_proof_def Let_def split: option.splits)
  have prod: "\<exists>good. product_ok E sid (commit E A) (commit E B) j ?r = Ok good"
    using g by (auto simp: product_ok_def com nth_opt_def)
  have shares: "check_shares E c j ?r = Ok () \<or> (\<exists>a. check_shares E c j ?r = Err (Abort a)
      \<and> ab_phase a = Triples \<and> ab_blamed a = [j])" by (rule check_shares_outcomes)
  from prod obtain good where "product_ok E sid (commit E A) (commit E B) j ?r = Ok good" by blast
  then show ?thesis
    using shares True by (cases good) (auto simp: t3_step_def check_product_def abort_def)
qed

lemma generate_tampered:
  fixes E :: "('f::field, 'g::ab_group_add, 'r) k256"
  assumes "k256_ok E" "committee_wf c" "c_n c \<le> length rs"
  shows "(\<exists>tr rs'. generate_with_committee E c sid tamper rs = (Ok tr, rs'))
    \<or> (\<exists>a rs'. generate_with_committee E c sid tamper rs = (Err (Abort a), rs')
        \<and> ab_phase a = Triples \<and> (\<exists>j \<in> set (c_ids c) \<inter> cheating tamper. ab_blamed a = [j]))"
proof -
  from triple_inputs_honest [OF assms, of sid] obtain A B Lam G R rs' where
    run: "triple_inputs E c sid rs = (Ok (map (\<lambda>j. peval A (of_nat j)) (c_ids c),
        map (\<lambda>j. peval B (of_nat j)) (c_ids c), commit E A, commit E B, map Lam (c_ids c), map R (c_ids c)), rs')"
    and inp: "dealt_inputs E c sid A B G R (c_t c)" by blast
  let ?R = "tampered c tamper R"
  let ?step = "\<lambda>j. t3_step E c sid (commit E A) (commit E B) ((j, Lam j), ?R j)"
  have some: "cc \<noteq> None" if "foldR ?step (c_ids c) None = Ok cc" for cc
  proof -
    have "foldR ?step js s = Ok cc \<Longrightarrow> js \<noteq> [] \<or> s \<noteq> None \<Longrightarrow> cc \<noteq> None" for js s
    proof (induction js arbitrary: s)
      case (Cons j js)
      then obtain s' where "?step j s = Ok s'" and rest: "foldR ?step js s' = Ok cc"
        by (auto simp: bindR_Ok_iff)
      then have "s' \<noteq> None" by (auto simp: t3_step_def acc_com_def bindR_Ok_iff)
      with Cons.IH [OF rest] show ?case by blast
    qed simp
    then show ?thesis using that committee_wf_facts(2) [OF assms(2)] by blast
  qed
  have gen: "generate_with_committee E c sid tamper rs = (bindR (foldR ?step (c_ids c) None) (\<lambda>cc.
      bindR (of_opt cc) (\<lambda>cc. Ok (triple_records c (map Lam (c_ids c)) (map ?R (c_ids c))
        (map (\<lambda>j. peval A (of_nat j)) (c_ids c)) (map (\<lambda>j. peval B (of_nat j)) (c_ids c))
        \<lparr>tp_ca = commit E A, tp_cb = commit E B, tp_cc = cc\<rparr>))), rs')"
    by (simp add: generate_with_committee_def bindS_def run tamper_reshares_map [OF assms(2)] t3_rows foldR_map)
  have steps: "(\<exists>s'. ?step j s = Ok s') \<or> (\<exists>e. ?step j s = Err e \<and> (\<exists>a. e = Abort a \<and> ab_phase a = Triples
      \<and> ab_blamed a = [j] \<and> j \<in> cheating tamper))" if "j \<in> set (c_ids c)" for j s
    using t3_step_outcomes [OF assms(1) inp that, of "Lam j" tamper s] by auto
  from foldR_cases [of "c_ids c" ?step "\<lambda>j e. \<exists>a. e = Abort a \<and> ab_phase a = Triples \<and> ab_blamed a = [j]
      \<and> j \<in> cheating tamper" None, OF steps]
  consider cc where "foldR ?step (c_ids c) None = Ok cc"
    | j a where "j \<in> set (c_ids c)" "foldR ?step (c_ids c) None = Err (Abort a)" "ab_phase a = Triples"
        "ab_blamed a = [j]" "j \<in> cheating tamper"
    by auto
  then show ?thesis
  proof cases
    case 1
    obtain com where "cc = Some com" using some [OF 1] by blast
    then show ?thesis by (intro disjI1) (simp add: gen 1)
  next
    case 2
    have "generate_with_committee E c sid tamper rs = (Err (Abort a), rs')" by (simp add: gen 2(2))
    then show ?thesis using 2 by blast
  qed
qed

lemma check_shares_Ok_iff:
  "check_shares E c j r = Ok () \<longleftrightarrow> (\<forall>(i, s) \<in> set (zip (c_ids c) (rs_shares r)). verify_share E (rs_com r) i s)"
proof -
  have "foldR (\<lambda>(i, s) _. if verify_share E (rs_com r) i s then Ok ()
        else Err (Abort (resolve_complaint E Triples (rs_com r) j i s))) xs () = Ok ()
    \<longleftrightarrow> (\<forall>(i, s) \<in> set xs. verify_share E (rs_com r) i s)" for xs
    by (induction xs) (auto split: if_splits)
  then show ?thesis by (simp add: check_shares_def)
qed

definition hit_row :: "committee \<Rightarrow> party_id \<Rightarrow> ('f::field, 'g) reshare \<Rightarrow> ('f, 'g) reshare" where
  \<comment> \<open>the share dealt to \<open>v\<close> is off by one\<close>
  "hit_row c v r = r\<lparr>rs_shares := map (\<lambda>(i, s). if i = v then s + 1 else s) (zip (c_ids c) (rs_shares r))\<rparr>"

lemma hit_share_row:
  assumes "committee_wf c" "tt_bad_reshare tm = Some (d, v)" "v \<in> set (c_ids c)"
    and "length (rs_shares r) = c_n c"
  shows "hit_share c tm d r = hit_row c v r"
proof -
  obtain p where p: "position c v = Some p" using assms(3) position_None by (cases "position c v") blast+
  have "add_at (rs_shares r) p 1 = map (\<lambda>(i, s). if i = v then s + 1 else s) (zip (c_ids c) (rs_shares r))"
    using position_Some [OF p] committee_wf_facts(1) [OF assms(1)] assms(4)
    by (intro nth_equalityI) (auto simp: add_at_def nth_list_update nth_eq_iff_index_eq c_n_def)
  then show ?thesis by (simp add: hit_share_def assms(2) p hit_row_def)
qed

lemma hit_row_shares:
  assumes "rs_shares r = map f (c_ids c)"
  shows "rs_shares (hit_row c v r) = map (\<lambda>i. f i + (if i = v then 1 else 0)) (c_ids c)"
  by (simp add: hit_row_def assms zip_map_self o_def)

lemma t3_step_bad_share:
  assumes "k256_ok E" "dealt_inputs E c sid A B G R t" "j \<in> set (c_ids c)" "v \<in> set (c_ids c)"
  shows "\<exists>a. ab_phase a = Triples \<and> ab_blamed a = [j]
    \<and> (\<forall>cc. t3_step E c sid (commit E A) (commit E B) ((j, lam), hit_row c v (R j)) cc = Err (Abort a))"
proof -
  have r: "reshare_ok E c sid (commit E B) j (peval A (of_nat j)) (peval B (of_nat j)) (G j) (R j)"
    using assms(2,3) by (simp add: dealt_inputs_def)
  have sh: "rs_shares (hit_row c v (R j)) = map (\<lambda>i. peval (G j) (of_nat i) + (if i = v then 1 else 0)) (c_ids c)"
    by (rule hit_row_shares) (use r in \<open>simp add: reshare_ok_def\<close>)
  have com: "rs_com (hit_row c v (R j)) = commit E (G j)" using r by (simp add: hit_row_def reshare_ok_def)
  have "check_shares E c j (hit_row c v (R j)) \<noteq> Ok ()"
    unfolding check_shares_Ok_iff sh com using assms(4)
    by (auto simp: zip_map_self verify_share_commit [OF assms(1)])
  with check_shares_outcomes obtain a where
    a: "check_shares E c j (hit_row c v (R j)) = Err (Abort a)" "ab_phase a = Triples" "ab_blamed a = [j]"
    by blast
  have "product_ok E sid (commit E A) (commit E B) j (hit_row c v (R j)) = Ok True"
    using product_ok_honest [OF assms(1) r] by (simp add: product_ok_def hit_row_def cong: if_cong)
  then show ?thesis using a by (auto simp: t3_step_def check_product_def)
qed

lemma t3_step_bad_proof:
  assumes "k256_ok E" "dealt_inputs E c sid A B G R t" "j \<in> set (c_ids c)"
    and "rs_x1 r = rs_x1 (R j)" "rs_x2 r = rs_x2 (R j)" "rs_com r = rs_com (R j)" "rs_proof r = rs_proof (R j)"
  shows "t3_step E c sid (commit E A) (commit E B) ((j, lam), bump_proof r) cc
    = abort Triples [j] ''invalid DLEQ product proof''"
proof -
  have r: "reshare_ok E c sid (commit E B) j (peval A (of_nat j)) (peval B (of_nat j)) (G j) (R j)"
    using assms(2,3) by (simp add: dealt_inputs_def)
  then have "dleq_verify E sid TRIPLE_PRODUCT (gen E) (rs_x1 (R j)) (com_eval_at E (commit E B) j)
      (rs_x2 (R j)) (rs_proof (R j))" unfolding reshare_ok_def by blast
  from bumped_proof_fails [OF assms(1) this]
  have "product_ok E sid (commit E A) (commit E B) j (bump_proof r) = Ok False"
    using product_ok_honest [OF assms(1) r] assms(4-)
    by (auto simp: product_ok_def bump_proof_def bindR_Ok_iff split: if_splits)
  then show ?thesis by (simp add: t3_step_def check_product_def abort_def)
qed

lemma t3_stop:
  assumes "distinct ids" "d \<in> set ids" "\<And>j s. j \<in> set ids \<Longrightarrow> j \<noteq> d \<Longrightarrow> \<exists>s'. f j s = Ok s'"
    and "\<And>s. f d s = Err e"
  shows "foldR f ids s = Err e"
proof -
  obtain ys zs where "ids = ys @ d # zs" using assms(2) by (auto simp: in_set_conv_decomp)
  then show ?thesis using assms by (auto intro!: foldR_stop)
qed

lemma generate_single_cheater:
  fixes E :: "('f::field, 'g::ab_group_add, 'r) k256"
  assumes "k256_ok E" "committee_wf c" "c_n c \<le> length rs" "d \<in> set (c_ids c)"
    and one: "tt_bad_product_proof tm = Some d \<and> (tt_bad_reshare tm = None \<or> (\<exists>v. tt_bad_reshare tm = Some (d, v)))
      \<or> tt_bad_product_proof tm = None \<and> (\<exists>v \<in> set (c_ids c). tt_bad_reshare tm = Some (d, v))"
  shows "\<exists>a rs'. generate_with_committee E c sid (Some tm) rs = (Err (Abort a), rs')
    \<and> ab_phase a = Triples \<and> ab_blamed a = [d]"
proof -
  from triple_inputs_honest [OF assms(1-3), of sid] obtain A B Lam G R rs' where
    run: "triple_inputs E c sid rs = (Ok (map (\<lambda>j. peval A (of_nat j)) (c_ids c),
        map (\<lambda>j. peval B (of_nat j)) (c_ids c), commit E A, commit E B, map Lam (c_ids c), map R (c_ids c)), rs')"
    and inp: "dealt_inputs E c sid A B G R (c_t c)" by blast
  let ?R = "tampered c (Some tm) R"
  let ?step = "\<lambda>j. t3_step E c sid (commit E A) (commit E B) ((j, Lam j), ?R j)"
  have others: "\<exists>s'. ?step j s = Ok s'" if "j \<in> set (c_ids c)" "j \<noteq> d" for j s
  proof -
    have "j \<notin> cheating (Some tm)" using one that by (auto simp: cheating_def)
    then show ?thesis using t3_step_honest [OF assms(1) inp that(1)] by (simp add: tampered_honest)
  qed
  obtain a where a: "ab_phase a = Triples" "ab_blamed a = [d]" and bad: "\<And>s. ?step d s = Err (Abort a)"
  proof (cases "tt_bad_product_proof tm = Some d")
    case True
    have "?R d = bump_proof (hit_share c tm d (R d))" using True by (simp add: tampered_def Let_def)
    then have "?step d s = abort Triples [d] ''invalid DLEQ product proof''" for s
      by (simp only:) (rule t3_step_bad_proof [OF assms(1) inp assms(4)];
          simp add: hit_share_def split: option.splits)
    then show ?thesis
      by (intro that [of "\<lparr>ab_phase = Triples, ab_blamed = [d], ab_detail = ''invalid DLEQ product proof''\<rparr>"])
        (simp_all add: abort_def)
  next
    case False
    then obtain v where v: "v \<in> set (c_ids c)" "tt_bad_reshare tm = Some (d, v)" "tt_bad_product_proof tm = None"
      using one by auto
    have "length (rs_shares (R d)) = c_n c"
      using inp assms(4) by (simp add: dealt_inputs_def reshare_ok_def c_n_def)
    then have "?R d = hit_row c v (R d)"
      using hit_share_row [OF assms(2) v(2,1)] v(3) by (simp add: tampered_def)
    then show ?thesis using t3_step_bad_share [OF assms(1) inp assms(4) v(1), of "Lam d"] that by auto
  qed
  have "foldR ?step (c_ids c) None = Err (Abort a)"
    by (rule t3_stop [where f = ?step, OF committee_wf_facts(1) [OF assms(2)] assms(4) others bad])
  then have "generate_with_committee E c sid (Some tm) rs = (Err (Abort a), rs')"
    by (simp add: generate_with_committee_def bindS_def run tamper_reshares_map [OF assms(2)] t3_rows foldR_map)
  then show ?thesis using a by blast
qed

section \<open>The robust factory repairs a bad re-sharing\<close>

lemma t3_robust_honest:
  assumes "k256_ok E" "dealt_inputs E c sid A B G R d" "j \<in> set (c_ids c)"
  shows "t3_robust_step E c sid (commit E A) (commit E B) ((j, lam), R j) (bl, rs, cc)
    = Ok (bl, rs @ [R j], acc_com E cc (commit E (G j)) lam)"
proof -
  have r: "reshare_ok E c sid (commit E B) j (peval A (of_nat j)) (peval B (of_nat j)) (G j) (R j)"
    using assms(2,3) by (simp add: dealt_inputs_def)
  then have "rs_com (R j) = commit E (G j)"
    and "rs_shares (R j) = map (\<lambda>i. peval (G j) (of_nat i)) (c_ids c)" by (simp_all add: reshare_ok_def)
  then show ?thesis
    using product_ok_honest [OF assms(1) r]
    by (simp add: t3_robust_step_def check_product_def sift_Nil zip_map_self filter_map o_def
        verify_share_commit [OF assms(1)])
qed

lemma repair_restores:
  fixes E :: "('f::field, 'g::ab_group_add, 'r) k256"
  assumes "k256_ok E" "committee_wf c" "v \<in> set (c_ids c)" "length g \<le> c_t c" "c_t c < c_n c"
    and ids: "valid = filter (\<lambda>i. i \<noteq> v) (c_ids c)"
  shows "repair_shares E c (take (c_t c) valid) (take (c_t c) (map (\<lambda>i. peval g (of_nat i)) valid)) [v]
      (map (\<lambda>i. peval g (of_nat i) + (if i = v then 1 else 0)) (c_ids c))
    = Ok (map (\<lambda>i. peval g (of_nat i)) (c_ids c))"
proof -
  note wf = committee_wf_facts [OF assms(2)]
  obtain p where p: "position c v = Some p" using assms(3) position_None by (cases "position c v") blast+
  let ?xs = "take (c_t c) (map (\<lambda>i. (i, peval g (of_nat i))) valid)"
  have "length (filter (\<lambda>i. i = v) (c_ids c)) = 1" using filter_eq_singleton [OF wf(1) assms(3)] by simp
  then have len: "c_t c \<le> length valid"
    using assms(5) sum_length_filter_compl [of "\<lambda>i. i = v" "c_ids c"] by (simp add: ids c_n_def)
  have "ids_ok (map (\<lambda>i. (i, peval g (of_nat i))) valid)"
    using wf(1,6) by (auto simp: ids_ok_def ids o_def)
  then have "checked_set E (commit E g) ?xs"
    by (auto simp: checked_set_def ids_ok_take verify_share_commit [OF assms(1)] dest!: in_set_takeD)
  from interpolate_commit [OF assms(1) this, of "of_nat v"]
  have "interpolate_at (of_nat v) (take (c_t c) valid) (take (c_t c) (map (\<lambda>i. peval g (of_nat i)) valid))
      = Ok (peval g (of_nat v))"
    using len assms(4) by (simp add: take_map o_def)
  then have "repair_shares E c (take (c_t c) valid) (take (c_t c) (map (\<lambda>i. peval g (of_nat i)) valid)) [v]
      (map (\<lambda>i. peval g (of_nat i) + (if i = v then 1 else 0)) (c_ids c))
    = Ok ((map (\<lambda>i. peval g (of_nat i) + (if i = v then 1 else 0)) (c_ids c))[p := peval g (of_nat v)])"
    by (simp add: repair_shares_def p)
  also have "(map (\<lambda>i. peval g (of_nat i) + (if i = v then 1 else 0)) (c_ids c))[p := peval g (of_nat v)]
      = map (\<lambda>i. peval g (of_nat i)) (c_ids c)"
    using position_Some [OF p] map_update_key [OF wf(1), of p "\<lambda>i. peval g (of_nat i) + (if i = v then 1 else 0)"
        "peval g (of_nat v)"] by auto
  finally show ?thesis .
qed

lemma t3_robust_repaired:
  fixes E :: "('f::field, 'g::ab_group_add, 'r) k256"
  assumes "k256_ok E" "committee_wf c" "dealt_inputs E c sid A B G R (c_t c)" "j \<in> set (c_ids c)"
    and "v \<in> set (c_ids c)" "c_t c < c_n c"
  shows "t3_robust_step E c sid (commit E A) (commit E B) ((j, lam), hit_row c v (R j)) (bl, rs, cc)
    = Ok (bl @ [j], rs @ [R j], acc_com E cc (commit E (G j)) lam)"
proof -
  note wf = committee_wf_facts [OF assms(2)]
  let ?r = "hit_row c v (R j)" and ?f = "\<lambda>i. peval (G j) (of_nat i)"
  let ?valid = "filter (\<lambda>i. i \<noteq> v) (c_ids c)"
  have r: "reshare_ok E c sid (commit E B) j (peval A (of_nat j)) (peval B (of_nat j)) (G j) (R j)"
    and g: "length (G j) \<le> c_t c"
    using assms(3,4) by (auto simp: dealt_inputs_def)
  have shR: "rs_shares (R j) = map ?f (c_ids c)" using r by (simp add: reshare_ok_def)
  have sh: "rs_shares ?r = map (\<lambda>i. ?f i + (if i = v then 1 else 0)) (c_ids c)"
    by (rule hit_row_shares) (rule shR)
  have com: "rs_com ?r = commit E (G j)" using r by (simp add: hit_row_def reshare_ok_def)
  have prod: "product_ok E sid (commit E A) (commit E B) j ?r = Ok True"
    using product_ok_honest [OF assms(1) r] by (simp add: product_ok_def hit_row_def cong: if_cong)
  have sifted: "sift (verify_share E (rs_com ?r)) (zip (c_ids c) (rs_shares ?r)) ([], [], [])
      = (?valid, map ?f ?valid, [v])"
    using filter_eq_singleton [OF wf(1) assms(5)]
    by (auto simp: sift_Nil sh com zip_map_self filter_map o_def verify_share_commit [OF assms(1)]
        intro!: map_cong arg_cong [where f = "map ?f"] cong: filter_cong split: if_splits)
  have len: "length ?valid = c_n c - 1"
    using filter_eq_singleton [OF wf(1) assms(5)] sum_length_filter_compl [of "\<lambda>i. i = v" "c_ids c"]
    by (simp add: c_n_def)
  have enough: "\<not> length ?valid < c_t c" using len assms(6) by linarith
  have restored: "?r\<lparr>rs_shares := map ?f (c_ids c)\<rparr> = R j"
    using shR by (cases "R j") (simp add: hit_row_def)
  have rep: "repair_shares E c (take (c_t c) ?valid) (take (c_t c) (map ?f ?valid)) [v] (rs_shares ?r)
      = Ok (map ?f (c_ids c))"
    unfolding sh by (rule repair_restores [OF assms(1,2,5) g assms(6) refl])
  show ?thesis
    using enough unfolding t3_robust_step_def check_product_def prod sifted prod.case
    by (simp add: sifted rep restored com)
qed

lemma generate_robust_continues:
  fixes E :: "('f::field, 'g::ab_group_add, 'r) k256"
  assumes "k256_ok E" "committee_wf c" "c_n c \<le> length rs" "c_t c < c_n c"
    and "d \<in> set (c_ids c)" "v \<in> set (c_ids c)"
    and "tt_bad_reshare tm = Some (d, v)" "tt_bad_product_proof tm = None"
  shows "\<exists>A B C rs'. generate_robust_with_committee E c sid (Some tm) rs
      = (Ok (filter (\<lambda>(s, _). ts_index s \<noteq> d) (triples_of E c A B C), [d]), rs')
    \<and> length A = c_t c \<and> length B = c_t c \<and> length C = c_t c \<and> peval C 0 = peval A 0 * peval B 0"
proof -
  note wf = committee_wf_facts [OF assms(2)]
  from triple_inputs_honest [OF assms(1-3), of sid] obtain A B Lam G R rs' where
    run: "triple_inputs E c sid rs = (Ok (map (\<lambda>j. peval A (of_nat j)) (c_ids c),
        map (\<lambda>j. peval B (of_nat j)) (c_ids c), commit E A, commit E B, map Lam (c_ids c), map R (c_ids c)), rs')"
    and rest: "weights_at c 0 Lam" "dealt_inputs E c sid A B G R (c_t c)" by blast
  let ?R = "tampered c (Some tm) R" and ?W = "\<lambda>j. pscale (Lam j) (G j)"
  let ?step = "\<lambda>j. t3_robust_step E c sid (commit E A) (commit E B) ((j, Lam j), ?R j)"
  let ?I = "\<lambda>js. (filter (\<lambda>j. j = d) js, map R js, wsum E ?W js)"
  have shares: "rs_shares (R j) = map (\<lambda>i. peval (G j) (of_nat i)) (c_ids c)" if "j \<in> set (c_ids c)" for j
    using that rest(2) by (simp add: dealt_inputs_def reshare_ok_def)
  have hit: "?R d = hit_row c v (R d)"
    using hit_share_row [OF assms(2,7,6), of "R d"] shares [OF assms(5)] assms(8)
    by (simp add: tampered_def c_n_def)
  have other: "?R j = R j" if "j \<noteq> d" for j
    using that assms(7,8) by (intro tampered_honest) (simp add: cheating_def)
  have "foldR ?step (c_ids c) (?I []) = Ok (?I ([] @ c_ids c))"
  proof (rule foldR_prefix)
    fix js j
    assume j: "j \<in> set (c_ids c)"
    show "?step j (?I js) = Ok (?I (js @ [j]))"
      using t3_robust_honest [OF assms(1) rest(2) j] other
        t3_robust_repaired [OF assms(1,2) rest(2) assms(5,6,4)] hit
      by (cases "j = d") (simp_all add: acc_com_wsum [OF assms(1)])
  qed
  then have loop: "foldR ?step (c_ids c) ([], [], None)
      = Ok ([d], map R (c_ids c), Some (commit E (recombine c Lam G)))"
    using recombine_wsum [OF wf(2), of E Lam G] filter_eq_singleton [OF wf(1) assms(5)]
    by (simp add: wsum_def [of _ _ "[]"])
  have "generate_robust_with_committee E c sid (Some tm) rs
      = (Ok (filter (\<lambda>(s, _). ts_index s \<noteq> d) (triples_of E c A B (recombine c Lam G)), [d]), rs')"
    using triple_records_of [OF shares, where Lam = Lam and A = A and B = B and E = E] loop
    by (simp add: generate_robust_with_committee_def bindS_def run tamper_reshares_map [OF assms(2)]
        t3_rows foldR_map)
  then show ?thesis
    using dealt_product [OF assms(2) rest] rest(2) unfolding dealt_inputs_def by blast
qed

end
