(* ===== verification/Triple_Batch.thy ===== *)
theory Triple_Batch
  imports Triple_Factory
begin

text \<open>
  The batch and the packed triple factory (\<open>src/protocol/triples.rs\<close>). A batch of \<open>count\<close> triples
  is one dealing session of \<open>2 * count\<close> secrets with one aggregate proof check per prover and a
  per-proof fallback; a packed session deals two sharings of degree \<open>t + B - 2\<close> whose values at the
  slot points \<open>0, -1, ..., -(B - 1)\<close> are the factors of \<open>B\<close> triples.
\<close>

section \<open>The batch factory\<close>

primrec reshare_products :: "('f::field, 'g::ab_group_add, 'r) k256 \<Rightarrow> committee \<Rightarrow> bytes
    \<Rightarrow> ('f \<Rightarrow> 'r \<Rightarrow> 'f shamir_poly \<times> 'r) \<Rightarrow> party_id \<Rightarrow> ('g feldman \<times> 'f \<times> 'f) list
    \<Rightarrow> 'r \<Rightarrow> ('f, 'g) reshare list \<times> 'r" where
  \<comment> \<open>one dealer's loop over the batch\<close>
  "reshare_products E c sid deal j [] rng = ([], rng)"
| "reshare_products E c sid deal j (x # xs) rng =
     (case x of (cb, a, b) \<Rightarrow>
      case reshare_product E c sid deal cb j a b rng of (r, rng1) \<Rightarrow>
      case reshare_products E c sid deal j xs rng1 of (rs, rng2) \<Rightarrow> (r # rs, rng2))"

definition tamper_batch :: "committee \<Rightarrow> triple_tamper option \<Rightarrow> ('f::field, 'g) reshare list list
    \<Rightarrow> ('f, 'g) reshare list list" where
  "tamper_batch c tamper rss = (case tamper of None \<Rightarrow> rss | Some tm \<Rightarrow>
     (case tt_bad_product_proof_at tm of None \<Rightarrow> rss
      | Some (j, idx) \<Rightarrow> (case position c j of None \<Rightarrow> rss
          | Some p \<Rightarrow> if idx < length (rss ! p)
              then rss[p := (rss ! p)[idx := bump_proof (rss ! p ! idx)]] else rss)))"

definition batch_product_ok :: "('f::field, 'g::ab_group_add, 'r) k256 \<Rightarrow> bytes \<Rightarrow> bool \<Rightarrow> 'g feldman
    \<Rightarrow> 'g feldman \<Rightarrow> party_id \<Rightarrow> ('f, 'g) reshare \<Rightarrow> bool result" where
  \<comment> \<open>the single check runs only when the aggregate failed\<close>
  "batch_product_ok E sid aggregate_ok ca cb j r =
     (let proof_ok = (aggregate_ok \<or> dleq_verify E sid TRIPLE_PRODUCT (gen E) (rs_x1 r)
            (com_eval_at E cb j) (rs_x2 r) (rs_proof r))
      in if rs_x1 r \<noteq> com_eval_at E ca j then Ok False
         else bindR (of_opt (nth_opt (points (rs_com r)) 0)) (\<lambda>p0. Ok (rs_x2 r = p0 \<and> proof_ok)))"

definition batch_index_step :: "('f::field, 'g::ab_group_add, 'r) k256 \<Rightarrow> committee \<Rightarrow> bytes
    \<Rightarrow> party_id \<Rightarrow> 'f \<Rightarrow> bool \<Rightarrow> nat \<times> ('g feldman \<times> 'g feldman) \<times> ('f, 'g) reshare
    \<Rightarrow> 'g feldman option list \<Rightarrow> 'g feldman option list result" where
  "batch_index_step E c sid j lam aggregate_ok bx ccs = (case bx of (b, (ca, cb), r) \<Rightarrow>
     bindR (batch_product_ok E sid aggregate_ok ca cb j r) (\<lambda>good.
       if \<not> good
       then abort Triples [j] (''invalid DLEQ product proof (batch index '' @ dec_str b @ '')'')
       else bindR (check_shares E c j r) (\<lambda>_.
         Ok (ccs[b := acc_com E (ccs ! b) (rs_com r) lam]))))"

definition batch_t3_step :: "('f::field, 'g::ab_group_add, 'r) k256 \<Rightarrow> committee \<Rightarrow> bytes
    \<Rightarrow> 'g feldman list \<Rightarrow> 'g feldman list \<Rightarrow> (party_id \<times> 'f) \<times> ('f, 'g) reshare list
    \<Rightarrow> 'g feldman option list \<Rightarrow> 'g feldman option list result" where
  "batch_t3_step E c sid cas cbs jr ccs = (case jr of ((j, lam), rs) \<Rightarrow>
     let statements = map (\<lambda>(r, cb). (gen E, rs_x1 r, com_eval_at E cb j, rs_x2 r)) (zip rs cbs);
         aggregate_ok = dleq_verify_batch E sid TRIPLE_PRODUCT j statements (map rs_proof rs)
     in foldR (batch_index_step E c sid j lam aggregate_ok)
          (List.enumerate 0 (zip (zip cas cbs) rs)) ccs)"

definition batch_records :: "committee \<Rightarrow> nat \<Rightarrow> 'f::field list \<Rightarrow> ('f, 'g) reshare list list
    \<Rightarrow> 'f list list \<Rightarrow> 'f list list \<Rightarrow> 'g triple_public list \<Rightarrow> ('f, 'g) triple list list" where
  "batch_records c count lambdas rss a_shares b_shares publics =
     map (\<lambda>k. map (\<lambda>b. (\<lparr>ts_index = c_ids c ! k, ts_a = a_shares ! k ! b, ts_b = b_shares ! k ! b,
           ts_c = c_share_of lambdas (map (\<lambda>rs. rs ! b) rss) k\<rparr>, publics ! b)) [0..<count]) [0..<c_n c]"

definition generate_batch_with_committee :: "('f::field, 'g::ab_group_add, 'r) k256 \<Rightarrow> committee
    \<Rightarrow> bytes \<Rightarrow> nat \<Rightarrow> triple_tamper option \<Rightarrow> ('r, ('f, 'g) triple list list) protocol" where
  "generate_batch_with_committee E c sid count tamper =
     bindS (joint_random_batch E c sid Triples (wmul 2 count)) (\<lambda>joint.
     bindS (liftR (of_opt (nth_opt joint 0))) (\<lambda>first.
     bindS (liftR (lagrange_coeffs (c_ids c))) (\<lambda>lambdas.
       let a_shares = map (\<lambda>outs. map (\<lambda>b. o_share (outs ! b)) [0..<count]) joint;
           b_shares = map (\<lambda>outs. map (\<lambda>b. o_share (outs ! (count + b))) [0..<count]) joint;
           cas = map (\<lambda>b. o_com (first ! b)) [0..<count];
           cbs = map (\<lambda>b. o_com (first ! (count + b))) [0..<count]
       in bindS (mapS (\<lambda>(k, j, as, bs). with_rng k
              (reshare_products E c sid (\<lambda>s. shamir_random E s (c_t c)) j (zip cbs (zip as bs))))
            (List.enumerate 0 (zip (c_ids c) (zip a_shares b_shares)))) (\<lambda>rss0.
          let rss = tamper_batch c tamper rss0
          in liftR (bindR (foldR (batch_t3_step E c sid cas cbs) (zip (zip (c_ids c) lambdas) rss)
               (replicate count None)) (\<lambda>ccs.
             bindR (mapR (\<lambda>(ca, cb, cc). bindR (of_opt cc) (\<lambda>cc.
                 Ok \<lparr>tp_ca = ca, tp_cb = cb, tp_cc = cc\<rparr>)) (zip cas (zip cbs ccs))) (\<lambda>publics.
               Ok (batch_records c count lambdas rss a_shares b_shares publics))))))))"

definition generate_batch_with_tamper :: "('f::field, 'g::ab_group_add, 'r) k256 \<Rightarrow> params
    \<Rightarrow> bytes \<Rightarrow> nat \<Rightarrow> triple_tamper option \<Rightarrow> ('r, ('f, 'g) triple list list) protocol" where
  "generate_batch_with_tamper E p sid count tamper =
     bindS (liftR (committee_full p)) (\<lambda>c. generate_batch_with_committee E c sid count tamper)"

definition generate_batch :: "('f::field, 'g::ab_group_add, 'r) k256 \<Rightarrow> params \<Rightarrow> bytes \<Rightarrow> nat
    \<Rightarrow> ('r, ('f, 'g) triple list list) protocol" where
  "generate_batch E p sid count = generate_batch_with_tamper E p sid count None"

section \<open>The packed factory\<close>

definition slots_bound :: "('f::field, 'g::ab_group_add, 'r) k256 \<Rightarrow> nat \<Rightarrow> party_id \<Rightarrow> 'g feldman
    \<Rightarrow> unit result" where
  \<comment> \<open>the public slot-point checks of PT3, over \<open>1..b_pack\<close>\<close>
  "slots_bound E b_pack j com =
     foldR (\<lambda>b _. bindR (of_opt (nth_opt (points com) 0)) (\<lambda>p0.
         if com_eval_at_point E com (slot_point b) \<noteq> p0
         then abort Triples [j] (''re-sharing polynomial violates the slot binding (slot '' @ dec_str b @ '')'')
         else Ok ())) [1..<b_pack] ()"

definition packed_t3_step :: "('f::field, 'g::ab_group_add, 'r) k256 \<Rightarrow> committee \<Rightarrow> bytes \<Rightarrow> nat
    \<Rightarrow> 'g feldman \<Rightarrow> 'g feldman \<Rightarrow> (party_id \<times> 'f list) \<times> ('f, 'g) reshare
    \<Rightarrow> 'g feldman option list \<Rightarrow> 'g feldman option list result" where
  \<comment> \<open>\<open>lams\<close> is the dealer's column of \<open>slot_lambdas\<close>, one weight per slot\<close>
  "packed_t3_step E c sid b_pack ca cb jr ccs = (case jr of ((j, lams), r) \<Rightarrow>
     bindR (check_product E sid ca cb ''invalid DLEQ product proof (packed)'' j r) (\<lambda>_.
     bindR (slots_bound E b_pack j (rs_com r)) (\<lambda>_.
     bindR (check_shares E c j r) (\<lambda>_.
       Ok (map2 (\<lambda>cc lam. acc_com E cc (rs_com r) lam) ccs lams)))))"

definition packed_records :: "committee \<Rightarrow> nat \<Rightarrow> 'f::field list list \<Rightarrow> ('f, 'g) reshare list
    \<Rightarrow> 'f list \<Rightarrow> 'f list \<Rightarrow> 'g triple_public list \<Rightarrow> ('f, 'g) triple list list" where
  "packed_records c b_pack slot_lambdas rs a_shares b_shares publics =
     map (\<lambda>k. map (\<lambda>b. (\<lparr>ts_index = c_ids c ! k, ts_a = a_shares ! k, ts_b = b_shares ! k,
           ts_c = c_share_of (slot_lambdas ! b) rs k\<rparr>, publics ! b)) [0..<b_pack]) [0..<c_n c]"

definition packed_lambdas :: "committee \<Rightarrow> nat \<Rightarrow> 'f::field list list result" where
  "packed_lambdas c b_pack = mapR (\<lambda>b. lagrange_coeffs_at (slot_point b) (c_ids c)) [0..<b_pack]"

definition packed_degree :: "nat \<Rightarrow> nat \<Rightarrow> nat" where
  "packed_degree t b_pack = wsub (wadd t b_pack) 2"

definition generate_packed_with_committee :: "('f::field, 'g::ab_group_add, 'r) k256 \<Rightarrow> committee
    \<Rightarrow> bytes \<Rightarrow> nat \<Rightarrow> triple_tamper option \<Rightarrow> ('r, ('f, 'g) triple list list) protocol" where
  "generate_packed_with_committee E c sid b_pack tamper =
     (if b_pack < 1 then liftR (Err (InvalidParams ''packed batch size B must be >= 1''))
      else if c_n c < wsub (wadd (wmul 2 (c_t c)) (wmul 2 b_pack)) 3
      then liftR (Err (InvalidParams (''packed mode requires n >= 2t + 2B - 3 (SPEC '' @ section_sign @ ''7.4.1)'')))
      else
     bindS (joint_random_packed E c sid Triples 2 (packed_degree (c_t c) b_pack)) (\<lambda>joint.
     bindS (liftR (of_opt (nth_opt joint 0))) (\<lambda>first.
       let a_shares = map (\<lambda>outs. o_share (outs ! 0)) joint; b_shares = map (\<lambda>outs. o_share (outs ! 1)) joint;
           ca = o_com (first ! 0); cb = o_com (first ! 1)
       in bindS (mapS (\<lambda>(k, j, a, b). with_rng k
              (reshare_product E c sid (\<lambda>s. shamir_random_packed_const E s b_pack (c_t c)) cb j a b))
            (List.enumerate 0 (zip (c_ids c) (zip a_shares b_shares)))) (\<lambda>rs0.
          let rs = tamper_reshares c tamper rs0
          in liftR (bindR (packed_lambdas c b_pack) (\<lambda>slot_lambdas.
             bindR (foldR (packed_t3_step E c sid b_pack ca cb)
                 (zip (map (\<lambda>k. (c_ids c ! k, map (\<lambda>ls. ls ! k) slot_lambdas)) [0..<c_n c]) rs)
                 (replicate b_pack None)) (\<lambda>ccs.
             bindR (mapR (\<lambda>cc. bindR (of_opt cc) (\<lambda>cc. Ok \<lparr>tp_ca = ca, tp_cb = cb, tp_cc = cc\<rparr>)) ccs)
               (\<lambda>publics. Ok (packed_records c b_pack slot_lambdas rs a_shares b_shares publics)))))))))"

definition generate_packed :: "('f::field, 'g::ab_group_add, 'r) k256 \<Rightarrow> params \<Rightarrow> bytes \<Rightarrow> nat
    \<Rightarrow> triple_tamper option \<Rightarrow> ('r, ('f, 'g) triple list list) protocol" where
  "generate_packed E p sid b_pack tamper =
     bindS (liftR (committee_full p)) (\<lambda>c. generate_packed_with_committee E c sid b_pack tamper)"

section \<open>Batch dealing between honest parties\<close>

lemma mine_of_batch_honest:
  assumes "committee_wf c" "j \<in> set (c_ids c)"
  shows "mine_of_batch (concat (map (\<lambda>i. map (\<lambda>j. \<lparr>bp_from = i, bp_to = j, bp_shares = s i j\<rparr>) (c_ids c)) (c_ids c))) j
    = map (\<lambda>i. (i, s i j)) (c_ids c)"
proof -
  have "filter (\<lambda>m. bp_to m = j) (map (\<lambda>j. \<lparr>bp_from = i, bp_to = j, bp_shares = s i j\<rparr>) (c_ids c))
      = [\<lparr>bp_from = i, bp_to = j, bp_shares = s i j\<rparr>]" for i
    using filter_eq_singleton [OF committee_wf_facts(1) [OF assms(1)] assms(2)]
    by (simp add: filter_map o_def)
  then show ?thesis
    using committee_map(1) [OF assms] by (simp add: mine_of_batch_def filter_concat_singleton o_def)
qed

lemma batch_rounds_honest:
  assumes "k256_ok E" "committee_wf c" "\<And>i. i \<in> set (c_ids c) \<Longrightarrow> length (F i) = count"
    and "\<And>i p. i \<in> set (c_ids c) \<Longrightarrow> p \<in> set (F i) \<Longrightarrow> length p = len"
  shows "batch_rounds E ph c
      (map (\<lambda>i. (honest_batch E c sid tag len F i, honest_bb1 E sid tag F i)) (c_ids c))
    = Ok (map (\<lambda>j. map (\<lambda>b. joint_output E (dealt_at c F b) j) [0..<count]) (c_ids c),
          map (\<lambda>i. (i, \<lparr>bb2_from = i, bb2_coms = map (commit E) (F i)\<rparr>)) (c_ids c))"
proof -
  let ?ids = "c_ids c" and ?inst = "honest_batch E c sid tag len F"
  obtain i0 where i0: "i0 \<in> set ?ids"
    using committee_wf_facts(2) [OF assms(2)] by (cases ?ids) auto
  have srt: "bt_of_list (map (\<lambda>i. (i, f i)) ?ids) = map (\<lambda>i. (i, f i)) ?ids" for f
    by (rule committee_map(1) [OF assms(2) i0])
  have df: "batch_defenses_of (map ?inst ?ids) j = map (\<lambda>i. (i, batch_defend (?inst i) j)) ?ids" for j
    by (simp add: batch_defenses_of_def o_def srt)
  have fin: "mapR (\<lambda>inst. batch_finalize E inst ph (map (\<lambda>i. (i, honest_bb1 E sid tag F i)) ?ids)
        (map (\<lambda>i. (i, \<lparr>bb2_from = i, bb2_coms = map (commit E) (F i)\<rparr>)) ?ids)
        (mine_of_batch (concat (map (\<lambda>i. map (\<lambda>j. \<lparr>bp_from = i, bp_to = j,
            bp_shares = map (\<lambda>cs. peval cs (of_nat j)) (F i)\<rparr>) ?ids) ?ids)) (db_me inst))
        (batch_defenses_of (map ?inst ?ids) (db_me inst))) (map ?inst ?ids)
      = Ok (map (\<lambda>j. map (\<lambda>b. joint_output E (dealt_at c F b) j) [0..<count]) ?ids)"
    unfolding mapR_map
  proof (rule mapR_Ok)
    fix j
    assume j: "j \<in> set ?ids"
    have "batch_finalize E (?inst j) ph (map (\<lambda>i. (i, honest_bb1 E sid tag F i)) ?ids)
        (map (\<lambda>i. (i, \<lparr>bb2_from = i, bb2_coms = map (commit E) (F i)\<rparr>)) ?ids)
        (map (\<lambda>i. (i, map (\<lambda>cs. peval cs (of_nat j)) (F i))) ?ids)
        (map (\<lambda>i. (i, batch_defend (?inst i) j)) ?ids)
      = Ok (map (\<lambda>b. joint_output E (dealt_at c F b) j) [0..<count])"
      by (rule batch_finalize_honest [OF assms(1,2) j assms(3,4)])
        (simp_all add: c_n_def committee_map(2) [OF assms(2)])
    then show "batch_finalize E (?inst j) ph (map (\<lambda>i. (i, honest_bb1 E sid tag F i)) ?ids)
        (map (\<lambda>i. (i, \<lparr>bb2_from = i, bb2_coms = map (commit E) (F i)\<rparr>)) ?ids)
        (mine_of_batch (concat (map (\<lambda>i. map (\<lambda>j. \<lparr>bp_from = i, bp_to = j,
            bp_shares = map (\<lambda>cs. peval cs (of_nat j)) (F i)\<rparr>) ?ids) ?ids)) (db_me (?inst j)))
        (batch_defenses_of (map ?inst ?ids) (db_me (?inst j)))
      = Ok (map (\<lambda>b. joint_output E (dealt_at c F b) j) [0..<count])"
      by (simp add: mine_of_batch_honest [OF assms(2) j] df)
  qed
  show ?thesis
    using fin by (simp add: batch_rounds_def Let_def o_def zip_map_self srt batch_reveal_honest)
qed

lemma honest_batch_const: "honest_batch E c sid tag len (\<lambda>_. F i) i = honest_batch E c sid tag len F i"
  by (simp add: honest_batch_def)

lemma honest_bb1_const: "honest_bb1 E sid tag (\<lambda>_. F i) i = honest_bb1 E sid tag F i"
  by (simp add: honest_bb1_def)

lemma batch_start_with_rng:
  assumes "1 \<le> count" "1 \<le> len"
  shows "bindS (with_rng k (random_polys E len count)) (\<lambda>polys. liftR (batch_start_with_polys E c sid tag i polys))
    = with_rng k (\<lambda>r. case random_polys E len count r of (ps, r') \<Rightarrow>
        ((honest_batch E c sid tag len (\<lambda>_. map coeffs ps) i, honest_bb1 E sid tag (\<lambda>_. map coeffs ps) i), r'))"
proof
  fix rs
  show "bindS (with_rng k (random_polys E len count)) (\<lambda>polys. liftR (batch_start_with_polys E c sid tag i polys)) rs
    = with_rng k (\<lambda>r. case random_polys E len count r of (ps, r') \<Rightarrow>
        ((honest_batch E c sid tag len (\<lambda>_. map coeffs ps) i, honest_bb1 E sid tag (\<lambda>_. map coeffs ps) i), r')) rs"
  proof (cases "k < length rs")
    case True
    obtain ps r' where ps: "random_polys E len count (rs ! k) = (ps, r')"
      by (cases "random_polys E len count (rs ! k)") auto
    then have "length ps = count" "\<forall>p \<in> set ps. length (coeffs p) = len"
      using random_polys [OF assms(2), of E count "rs ! k"] by auto
    then have "batch_start_with_polys E c sid tag i ps
      = Ok (honest_batch E c sid tag len (\<lambda>_. map coeffs ps) i, honest_bb1 E sid tag (\<lambda>_. map coeffs ps) i)"
      using assms(1) by (intro batch_start_honest) auto
    then show ?thesis using True ps by (simp add: bindS_def with_rng_def)
  qed (simp add: bindS_def with_rng_def)
qed

lemma joint_batch_honest:
  fixes E :: "('f::field, 'g::ab_group_add, 'r) k256"
  assumes "k256_ok E" "committee_wf c" "c_n c \<le> length rs" "1 \<le> count" "1 \<le> len"
  shows "\<exists>cs rs'. bindS (mapS (\<lambda>(k, i). bindS (with_rng k (random_polys E len count)) (\<lambda>polys.
          liftR (batch_start_with_polys E c sid tag i polys))) (List.enumerate 0 (c_ids c))) (\<lambda>started.
        liftR (bindR (batch_rounds E ph c started) (\<lambda>(outs, _). Ok outs))) rs
      = (Ok (map (\<lambda>j. map (\<lambda>b. joint_output E (cs b) j) [0..<count]) (c_ids c)), rs')
    \<and> length rs' = length rs \<and> (\<forall>b < count. length (cs b) = len)"
proof -
  define P where "P = (\<lambda>i y. \<exists>ps. length ps = count \<and> (\<forall>p \<in> set ps. length p = len)
    \<and> y = (honest_batch E c sid tag len (\<lambda>_. ps) i, honest_bb1 E sid tag (\<lambda>_. ps) i))"
  let ?f = "\<lambda>i r. case random_polys E len count r of (ps, r') \<Rightarrow>
        ((honest_batch E c sid tag len (\<lambda>_. map coeffs ps) i, honest_bb1 E sid tag (\<lambda>_. map coeffs ps) i), r')"
  have start: "P i (fst (?f i r))" for i r
  proof -
    obtain ps r' where ps: "random_polys E len count r = (ps, r')" by (cases "random_polys E len count r") auto
    then show ?thesis unfolding P_def
      using random_polys [OF assms(5), of E count r] by (intro exI [of _ "map coeffs ps"]) auto
  qed
  have "0 + length (c_ids c) \<le> length rs" using assms(3) by (simp add: c_n_def)
  from mapS_with_rng [where P = "\<lambda>(i, x) y. P x y" and f = "\<lambda>_. ?f", OF this]
  obtain ys rs' where ys: "mapS (\<lambda>(k, i). with_rng k (?f i)) (List.enumerate 0 (c_ids c)) rs
      = (Ok ys :: _ result, rs')"
    and P: "list_all2 P (c_ids c) ys" and len: "length rs' = length rs"
    using start by (fastforce simp: list_all2_enumerate)
  from list_all2_fun [OF P committee_wf_facts(1) [OF assms(2)]] obtain G where
    G: "ys = map G (c_ids c)" "\<forall>i \<in> set (c_ids c). P i (G i)" by blast
  from G(2) obtain F where F: "\<forall>i \<in> set (c_ids c). length (F i) = count \<and> (\<forall>p \<in> set (F i). length p = len)
    \<and> G i = (honest_batch E c sid tag len F i, honest_bb1 E sid tag F i)"
    unfolding P_def by (metis honest_batch_const honest_bb1_const)
  then have ys': "ys = map (\<lambda>i. (honest_batch E c sid tag len F i, honest_bb1 E sid tag F i)) (c_ids c)"
    using G(1) by simp
  have rounds: "batch_rounds E ph c ys
      = Ok (map (\<lambda>j. map (\<lambda>b. joint_output E (dealt_at c F b) j) [0..<count]) (c_ids c),
          map (\<lambda>i. (i, \<lparr>bb2_from = i, bb2_coms = map (commit E) (F i)\<rparr>)) (c_ids c))"
    unfolding ys' using F by (intro batch_rounds_honest [OF assms(1,2)]) auto
  have "length (dealt_at c F b) = len" if "b < count" for b
    unfolding dealt_at_def using F that by (intro length_dealt [OF assms(2)]) auto
  then show ?thesis
    unfolding batch_start_with_rng [OF assms(4,5)]
    by (intro exI [of _ "dealt_at c F"] exI [of _ rs'] conjI, subst bindS_Ok [where m = "mapS _ _", OF ys])
      (simp_all add: rounds len)
qed

section \<open>The batch factory between honest parties\<close>

lemma reshare_products_ok:
  fixes E :: "('f::field, 'g::ab_group_add, 'r) k256"
  assumes "k256_ok E" and deal: "\<And>s r. let g = coeffs (fst (deal s r)) in g \<noteq> [] \<and> hd g = s \<and> Q s g"
  shows "list_all2 (\<lambda>(cb, a, b) r. \<exists>g. reshare_ok E c sid cb j a b g r \<and> Q (a * b) g) xs
    (fst (reshare_products E c sid deal j xs rng))"
proof (induction xs arbitrary: rng)
  case Nil
  then show ?case by simp
next
  case (Cons x xs)
  obtain cb a b where x: "x = (cb, a, b)" by (cases x)
  obtain r r1 where r: "reshare_product E c sid deal cb j a b rng = (r, r1)"
    by (cases "reshare_product E c sid deal cb j a b rng") auto
  have "\<exists>g. reshare_ok E c sid cb j a b g r \<and> Q (a * b) g"
    using deal [of "a * b" rng] reshare_product_ok [OF assms(1), of deal a b rng _ c sid cb j] r
    by (auto simp: Let_def)
  then show ?case using Cons [of r1] r x by (auto split: prod.splits)
qed

lemma reshare_batch_honest:
  fixes E :: "('f::field, 'g::ab_group_add, 'r) k256"
  assumes "k256_ok E" "committee_wf c" "c_n c \<le> length rs"
    and deal: "\<And>s r. let g = coeffs (fst (deal s r)) in g \<noteq> [] \<and> hd g = s \<and> Q s g"
  shows "\<exists>G R rs'. mapS (\<lambda>(k, j, as, bs). with_rng k
        (reshare_products E c sid deal j (zip (map cb [0..<count]) (zip as bs))))
      (List.enumerate 0 (zip (c_ids c) (zip (map (\<lambda>j. map (fa j) [0..<count]) (c_ids c))
        (map (\<lambda>j. map (fb j) [0..<count]) (c_ids c))))) rs
    = (Ok (map (\<lambda>j. map (R j) [0..<count]) (c_ids c)) :: _ result, rs') \<and> length rs' = length rs
    \<and> (\<forall>j \<in> set (c_ids c). \<forall>b < count. reshare_ok E c sid (cb b) j (fa j b) (fb j b) (G j b) (R j b)
          \<and> Q (fa j b * fb j b) (G j b))"
proof -
  let ?xs = "zip (c_ids c) (zip (map (\<lambda>j. map (fa j) [0..<count]) (c_ids c)) (map (\<lambda>j. map (fb j) [0..<count]) (c_ids c)))"
  let ?f = "\<lambda>(j, as, bs). reshare_products E c sid deal j (zip (map cb [0..<count]) (zip as bs))"
  define P where "P = (\<lambda>(j, as, bs) rs. list_all2 (\<lambda>(cb, a, b) r. \<exists>g. reshare_ok E c sid cb j a b g r \<and> Q (a * b) g)
      (zip (map cb [0..<count]) (zip as bs)) rs)"
  have one: "P x (fst (?f x r))" for x r
    unfolding P_def by (cases x) (use reshare_products_ok [OF assms(1), where Q = Q, OF deal] in simp)
  have uncurried: "(\<lambda>(k, j, as, bs). with_rng k
        (reshare_products E c sid deal j (zip (map cb [0..<count]) (zip as bs))))
      = (\<lambda>(i, x). with_rng i ((\<lambda>_. ?f) i x))"
    by (auto simp: fun_eq_iff)
  have "0 + length ?xs \<le> length rs" using assms(3) by (simp add: c_n_def)
  from mapS_with_rng [where P = "\<lambda>(i, x) y. P x y" and f = "\<lambda>_. ?f", OF this]
  obtain ys rs' where ys: "mapS (\<lambda>(k, j, as, bs). with_rng k
        (reshare_products E c sid deal j (zip (map cb [0..<count]) (zip as bs))))
      (List.enumerate 0 ?xs) rs = (Ok ys :: _ result, rs')"
    and P: "list_all2 P ?xs ys" and len: "length rs' = length rs"
    unfolding uncurried using one by (fastforce simp: list_all2_enumerate)
  have "list_all2 (\<lambda>j y. P (j, map (fa j) [0..<count], map (fb j) [0..<count]) y) (c_ids c) ys"
    using P by (simp add: zip_map_both zip_map_self list_all2_map1)
  from list_all2_fun [OF this committee_wf_facts(1) [OF assms(2)]] obtain Y where
    Y: "ys = map Y (c_ids c)" "\<forall>j \<in> set (c_ids c). P (j, map (fa j) [0..<count], map (fb j) [0..<count]) (Y j)"
    by blast
  have "\<exists>R. Y j = map R [0..<count] \<and> (\<forall>b < count. \<exists>g. reshare_ok E c sid (cb b) j (fa j b) (fb j b) g (R b)
      \<and> Q (fa j b * fb j b) g)" if "j \<in> set (c_ids c)" for j
  proof -
    have "list_all2 (\<lambda>(cb, a, b) r. \<exists>g. reshare_ok E c sid cb j a b g r \<and> Q (a * b) g)
        (map (\<lambda>b. (cb b, fa j b, fb j b)) [0..<count]) (Y j)"
      using Y(2) that by (simp add: P_def zip_map_both)
    from list_all2_upt [OF this] show ?thesis by auto
  qed
  then obtain R where R: "\<forall>j \<in> set (c_ids c). Y j = map (R j) [0..<count]"
      "\<forall>j \<in> set (c_ids c). \<forall>b < count. \<exists>g. reshare_ok E c sid (cb b) j (fa j b) (fb j b) g (R j b)
        \<and> Q (fa j b * fb j b) g"
    by metis
  from R(2) obtain G where G: "\<forall>j \<in> set (c_ids c). \<forall>b < count.
      reshare_ok E c sid (cb b) j (fa j b) (fb j b) (G j b) (R j b) \<and> Q (fa j b * fb j b) (G j b)" by metis
  have "ys = map (\<lambda>j. map (R j) [0..<count]) (c_ids c)" using Y(1) R(1) by simp
  then show ?thesis using ys len G by blast
qed

definition batch_inputs :: "('f::field, 'g::ab_group_add, 'r) k256 \<Rightarrow> committee \<Rightarrow> bytes \<Rightarrow> nat
    \<Rightarrow> (nat \<Rightarrow> 'f list) \<Rightarrow> (nat \<Rightarrow> 'f list) \<Rightarrow> (party_id \<Rightarrow> nat \<Rightarrow> 'f list)
    \<Rightarrow> (party_id \<Rightarrow> nat \<Rightarrow> ('f, 'g) reshare) \<Rightarrow> bool" where
  "batch_inputs E c sid count A B G R \<longleftrightarrow>
     (\<forall>b < count. dealt_inputs E c sid (A b) (B b) (\<lambda>j. G j b) (\<lambda>j. R j b) (c_t c))"

lemma batch_reshare_ok:
  assumes "batch_inputs E c sid count A B G R" "j \<in> set (c_ids c)" "b < count"
  shows "reshare_ok E c sid (commit E (B b)) j (peval (A b) (of_nat j)) (peval (B b) (of_nat j)) (G j b) (R j b)"
  using assms by (simp add: batch_inputs_def dealt_inputs_def)

lemma batch_product_ok_honest:
  assumes "k256_ok E" "reshare_ok E c sid (commit E B) j (peval A (of_nat j)) (peval B (of_nat j)) g r"
  shows "batch_product_ok E sid agg (commit E A) (commit E B) j r = Ok True"
  using assms
  by (cases g) (auto simp: reshare_ok_def batch_product_ok_def com_eval_at_commit smul_smul nth_opt_def
      mult.commute Let_def)

lemma aggregate_honest:
  assumes "k256_ok E" "batch_inputs E c sid count A B G R" "j \<in> set (c_ids c)"
  shows "dleq_verify_batch E sid TRIPLE_PRODUCT j
    (map (\<lambda>(r, cb). (gen E, rs_x1 r, com_eval_at E cb j, rs_x2 r))
      (zip (map (R j) [0..<count]) (map (\<lambda>b. commit E (B b)) [0..<count])))
    (map rs_proof (map (R j) [0..<count]))"
proof (rule verify_batch_complete [OF assms(1)])
  fix b g1 x1 g2 x2
  assume "b < length (map rs_proof (map (R j) [0..<count]))"
    and st: "map (\<lambda>(r, cb). (gen E, rs_x1 r, com_eval_at E cb j, rs_x2 r))
      (zip (map (R j) [0..<count]) (map (\<lambda>b. commit E (B b)) [0..<count])) ! b = (g1, x1, g2, x2)"
  then have b: "b < count" by simp
  show "dleq_verify E sid TRIPLE_PRODUCT g1 x1 g2 x2 (map rs_proof (map (R j) [0..<count]) ! b)"
    using st b batch_reshare_ok [OF assms(2,3) b] by (auto simp: reshare_ok_def)
qed simp

lemma batch_index_honest:
  assumes "k256_ok E" "reshare_ok E c sid (commit E B) j (peval A (of_nat j)) (peval B (of_nat j)) g r"
  shows "batch_index_step E c sid j lam agg (b, (commit E A, commit E B), r) ccs
    = Ok (ccs[b := acc_com E (ccs ! b) (commit E g) lam])"
proof -
  have "rs_com r = commit E g" using assms(2) by (simp add: reshare_ok_def)
  then show ?thesis
    using batch_product_ok_honest [OF assms] check_shares_honest [OF assms]
    by (simp add: batch_index_step_def)
qed

lemma batch_t3_honest:
  assumes "k256_ok E" "batch_inputs E c sid count A B G R" "j \<in> set (c_ids c)"
  shows "batch_t3_step E c sid (map (\<lambda>b. commit E (A b)) [0..<count]) (map (\<lambda>b. commit E (B b)) [0..<count])
      ((j, lam), map (R j) [0..<count]) (map f [0..<count])
    = Ok (map (\<lambda>b. acc_com E (f b) (commit E (G j b)) lam) [0..<count])"
proof -
  let ?I = "\<lambda>k. map (\<lambda>b. if b < k then acc_com E (f b) (commit E (G j b)) lam else f b) [0..<count]"
  have step: "batch_index_step E c sid j lam True (b, (commit E (A b), commit E (B b)), R j b) (?I b) = Ok (?I (Suc b))"
    if "b < count" for b
  proof -
    have "(?I b)[b := acc_com E (f b) (commit E (G j b)) lam] = ?I (Suc b)"
      using that by (intro nth_equalityI) (auto simp: nth_list_update)
    then show ?thesis
      using that batch_index_honest [OF assms(1) batch_reshare_ok [OF assms(2,3) that]] by simp
  qed
  have "foldR (\<lambda>b. batch_index_step E c sid j lam True (b, (commit E (A b), commit E (B b)), R j b)) [0..<count] (?I 0)
      = Ok (?I count)"
    by (rule foldR_upt) (rule step)
  moreover have "?I 0 = map f [0..<count]" "?I count = map (\<lambda>b. acc_com E (f b) (commit E (G j b)) lam) [0..<count]"
    by simp_all
  ultimately show ?thesis
    using aggregate_honest [OF assms]
    by (simp add: batch_t3_step_def Let_def zip_map_both enumerate_map_upt foldR_map del: map_map)
qed

definition batch_triples_of :: "('f::comm_ring_1, 'g, 'r) k256 \<Rightarrow> committee \<Rightarrow> nat \<Rightarrow> (nat \<Rightarrow> 'f list)
    \<Rightarrow> (nat \<Rightarrow> 'f list) \<Rightarrow> (nat \<Rightarrow> 'f list) \<Rightarrow> ('f, 'g) triple list list" where
  "batch_triples_of E c count A B C = map (\<lambda>k. map (\<lambda>b. triples_of E c (A b) (B b) (C b) ! k) [0..<count]) [0..<c_n c]"

lemma batch_records_of:
  assumes "\<And>j b. j \<in> set (c_ids c) \<Longrightarrow> b < count \<Longrightarrow>
      rs_shares (R j b) = map (\<lambda>i. peval (G j b) (of_nat i)) (c_ids c)"
  shows "batch_records c count (map Lam (c_ids c)) (map (\<lambda>j. map (R j) [0..<count]) (c_ids c))
      (map (\<lambda>j. map (\<lambda>b. peval (A b) (of_nat j)) [0..<count]) (c_ids c))
      (map (\<lambda>j. map (\<lambda>b. peval (B b) (of_nat j)) [0..<count]) (c_ids c))
      (map (\<lambda>b. \<lparr>tp_ca = commit E (A b), tp_cb = commit E (B b),
          tp_cc = commit E (recombine c Lam (\<lambda>j. G j b))\<rparr>) [0..<count])
    = batch_triples_of E c count A B (\<lambda>b. recombine c Lam (\<lambda>j. G j b))"
proof -
  have sel: "map (\<lambda>rs. rs ! b) (map (\<lambda>j. map (R j) [0..<count]) (c_ids c)) = map (\<lambda>j. R j b) (c_ids c)"
    if "b < count" for b using that by simp
  have "c_share_of (map Lam (c_ids c)) (map (\<lambda>j. R j b) (c_ids c)) k
      = peval (recombine c Lam (\<lambda>j. G j b)) (of_nat (c_ids c ! k))" if "b < count" "k < c_n c" for b k
    using assms that by (intro c_share_recombine) auto
  then show ?thesis
    unfolding batch_records_def batch_triples_of_def triples_of_def
    by (intro map_cong refl) (auto simp: sel c_n_def simp del: map_map)
qed

lemma joint_random_batch_honest:
  fixes E :: "('f::field, 'g::ab_group_add, 'r) k256"
  assumes "k256_ok E" "committee_wf c" "c_n c \<le> length rs" "1 \<le> count"
  shows "\<exists>cs rs'. joint_random_batch E c sid ph count rs
      = (Ok (map (\<lambda>j. map (\<lambda>b. joint_output E (cs b) j) [0..<count]) (c_ids c)), rs')
    \<and> length rs' = length rs \<and> (\<forall>b < count. length (cs b) = c_t c)"
  using joint_batch_honest [OF assms, where len = "c_t c" and sid = sid and tag = DKG_BATCH_COMMIT and ph = ph] committee_wf_facts(3) [OF assms(2)]
  unfolding joint_random_batch_def batch_start_committee_def by (simp add: Suc_le_eq)

lemma joint_random_packed_honest:
  fixes E :: "('f::field, 'g::ab_group_add, 'r) k256"
  assumes "k256_ok E" "committee_wf c" "c_n c \<le> length rs" "1 \<le> count"
  shows "\<exists>cs rs'. joint_random_packed E c sid ph count degree rs
      = (Ok (map (\<lambda>j. map (\<lambda>b. joint_output E (cs b) j) [0..<count]) (c_ids c)), rs')
    \<and> length rs' = length rs \<and> (\<forall>b < count. length (cs b) = degree + 1)"
  using joint_batch_honest [OF assms, where len = "degree + 1" and sid = sid and tag = DKG_PACKED_COMMIT and ph = ph]
  unfolding joint_random_packed_def batch_start_committee_with_degree_def by simp

definition batch_run :: "('f::field, 'g::ab_group_add, 'r) k256 \<Rightarrow> committee \<Rightarrow> bytes \<Rightarrow> nat
    \<Rightarrow> triple_tamper option \<Rightarrow> 'r list \<Rightarrow> (nat \<Rightarrow> 'f list) \<Rightarrow> (nat \<Rightarrow> 'f list) \<Rightarrow> (party_id \<Rightarrow> 'f)
    \<Rightarrow> (party_id \<Rightarrow> nat \<Rightarrow> ('f, 'g) reshare) \<Rightarrow> (error, ('f, 'g) triple list list) res" where
  \<comment> \<open>what remains of a batch session once T1 and T2 are over\<close>
  "batch_run E c sid count tamper rs A B Lam R =
     (let cas = map (\<lambda>b. commit E (A b)) [0..<count]; cbs = map (\<lambda>b. commit E (B b)) [0..<count];
          rss = tamper_batch c tamper (map (\<lambda>j. map (R j) [0..<count]) (c_ids c))
      in bindR (foldR (batch_t3_step E c sid cas cbs) (zip (zip (c_ids c) (map Lam (c_ids c))) rss)
           (replicate count None)) (\<lambda>ccs.
         bindR (mapR (\<lambda>(ca, cb, cc). bindR (of_opt cc) (\<lambda>cc.
             Ok \<lparr>tp_ca = ca, tp_cb = cb, tp_cc = cc\<rparr>)) (zip cas (zip cbs ccs))) (\<lambda>publics.
           Ok (batch_records c count (map Lam (c_ids c)) rss
             (map (\<lambda>j. map (\<lambda>b. peval (A b) (of_nat j)) [0..<count]) (c_ids c))
             (map (\<lambda>j. map (\<lambda>b. peval (B b) (of_nat j)) [0..<count]) (c_ids c)) publics))))"

lemma generate_batch_inputs:
  fixes E :: "('f::field, 'g::ab_group_add, 'r) k256"
  assumes "k256_ok E" "committee_wf c" "c_n c \<le> length rs" "1 \<le> count" "count < 2 ^ 62"
  shows "\<exists>A B Lam G R rs'. weights_at c 0 Lam \<and> batch_inputs E c sid count A B G R
    \<and> length rs' = length rs
    \<and> generate_batch_with_committee E c sid count tamper rs = (batch_run E c sid count tamper rs A B Lam R, rs')"
proof -
  have dbl: "wmul 2 count = 2 * count" using assms(5) by (simp add: wmul_exact)
  have "1 \<le> 2 * count" using assms(4) by simp
  from joint_random_batch_honest [OF assms(1-3) this, of sid Triples] obtain cs r1 where
    T1: "joint_random_batch E c sid Triples (2 * count) rs
      = (Ok (map (\<lambda>j. map (\<lambda>b. joint_output E (cs b) j) [0..<2 * count]) (c_ids c)), r1)"
      "length r1 = length rs" "\<forall>b < 2 * count. length (cs b) = c_t c" by blast
  obtain Lam where Lam: "lagrange_coeffs (c_ids c) = Ok (map Lam (c_ids c))" "weights_at c (0 :: 'f) Lam"
    using committee_weights [OF assms(1,2), of 0] by (auto simp: lagrange_coeffs_def)
  let ?A = "\<lambda>b. cs b" and ?B = "\<lambda>b. cs (count + b)"
  have "c_n c \<le> length r1" using T1(2) assms(3) by simp
  from reshare_batch_honest [OF assms(1,2) this, where deal = "\<lambda>s. shamir_random E s (c_t c)"
      and Q = "\<lambda>_ g. length g = c_t c" and cb = "\<lambda>b. commit E (?B b)" and sid = sid and count = count
      and fa = "\<lambda>j b. peval (?A b) (of_nat j)" and fb = "\<lambda>j b. peval (?B b) (of_nat j)"]
  obtain G R r2 where R: "mapS (\<lambda>(k, j, as, bs). with_rng k
        (reshare_products E c sid (\<lambda>s. shamir_random E s (c_t c)) j (zip (map (\<lambda>b. commit E (?B b)) [0..<count]) (zip as bs))))
      (List.enumerate 0 (zip (c_ids c) (zip (map (\<lambda>j. map (\<lambda>b. peval (?A b) (of_nat j)) [0..<count]) (c_ids c))
        (map (\<lambda>j. map (\<lambda>b. peval (?B b) (of_nat j)) [0..<count]) (c_ids c))))) r1
    = (Ok (map (\<lambda>j. map (R j) [0..<count]) (c_ids c)) :: _ result, r2)" "length r2 = length r1"
    "\<forall>j \<in> set (c_ids c). \<forall>b < count. reshare_ok E c sid (commit E (?B b)) j (peval (?A b) (of_nat j))
          (peval (?B b) (of_nat j)) (G j b) (R j b) \<and> length (G j b) = c_t c"
    using shamir_random_hd [of "c_t c" E] committee_wf_facts(3) [OF assms(2)]
    by (auto simp: Let_def Suc_le_eq)
  have ne: "0 < length (c_ids c)" using committee_wf_facts(2) [OF assms(2)] by simp
  have outs: "nth_opt (map (\<lambda>j. map (\<lambda>b. joint_output E (cs b) j) [0..<2 * count]) (c_ids c)) 0
      = Some (map (\<lambda>b. joint_output E (cs b) (c_ids c ! 0)) [0..<2 * count])"
    "map (\<lambda>outs. map (\<lambda>b. o_share (outs ! b)) [0..<count])
        (map (\<lambda>j. map (\<lambda>b. joint_output E (cs b) j) [0..<2 * count]) (c_ids c))
      = map (\<lambda>j. map (\<lambda>b. peval (?A b) (of_nat j)) [0..<count]) (c_ids c)"
    "map (\<lambda>outs. map (\<lambda>b. o_share (outs ! (count + b))) [0..<count])
        (map (\<lambda>j. map (\<lambda>b. joint_output E (cs b) j) [0..<2 * count]) (c_ids c))
      = map (\<lambda>j. map (\<lambda>b. peval (?B b) (of_nat j)) [0..<count]) (c_ids c)"
    "map (\<lambda>b. o_com (map (\<lambda>b. joint_output E (cs b) j) [0..<2 * count] ! b)) [0..<count]
      = map (\<lambda>b. commit E (?A b)) [0..<count]"
    "map (\<lambda>b. o_com (map (\<lambda>b. joint_output E (cs b) j) [0..<2 * count] ! (count + b))) [0..<count]
      = map (\<lambda>b. commit E (?B b)) [0..<count]" for j
    using ne by (auto simp: joint_output_def simp del: upt_Suc)
  have "generate_batch_with_committee E c sid count tamper rs = (batch_run E c sid count tamper rs ?A ?B Lam R, r2)"
    unfolding generate_batch_with_committee_def dbl
    by (subst bindS_Ok [where m = "joint_random_batch E c sid Triples (2 * count)", OF T1(1)],
        simp only: outs of_opt_simps bindS_liftR Lam(1) Let_def,
        subst bindS_Ok [where m = "mapS _ _", OF R(1)], simp only: liftR_apply batch_run_def Let_def)
  moreover have "batch_inputs E c sid count ?A ?B G R"
    using R(3) T1(3) by (simp add: batch_inputs_def dealt_inputs_def)
  ultimately show ?thesis using Lam(2) R(2) T1(2) by (metis (no_types))
qed

lemma generate_batch_honest:
  fixes E :: "('f::field, 'g::ab_group_add, 'r) k256"
  assumes "k256_ok E" "committee_wf c" "c_n c \<le> length rs" "1 \<le> count" "count < 2 ^ 62"
  shows "\<exists>A B C rs'. generate_batch_with_committee E c sid count None rs
      = (Ok (batch_triples_of E c count A B C), rs') \<and> length rs' = length rs
    \<and> (\<forall>b < count. length (A b) = c_t c \<and> length (B b) = c_t c \<and> length (C b) = c_t c
          \<and> peval (C b) 0 = peval (A b) 0 * peval (B b) 0)"
proof -
  from generate_batch_inputs [OF assms, of sid None] obtain A B Lam G R rs' where
    w: "weights_at c 0 Lam" and inp: "batch_inputs E c sid count A B G R" and len: "length rs' = length rs"
    and run: "generate_batch_with_committee E c sid count None rs = (batch_run E c sid count None rs A B Lam R, rs')"
    by blast
  let ?cas = "map (\<lambda>b. commit E (A b)) [0..<count]" and ?cbs = "map (\<lambda>b. commit E (B b)) [0..<count]"
  let ?C = "\<lambda>b. recombine c Lam (\<lambda>j. G j b)"
  let ?I = "\<lambda>js. map (\<lambda>b. wsum E (\<lambda>j. pscale (Lam j) (G j b)) js) [0..<count]"
  have rows: "zip (zip (c_ids c) (map Lam (c_ids c))) (map (\<lambda>j. map (R j) [0..<count]) (c_ids c))
      = map (\<lambda>j. ((j, Lam j), map (R j) [0..<count])) (c_ids c)" by (rule t3_rows)
  have acc: "acc_com E (wsum E (\<lambda>j. pscale (Lam j) (G j b)) js) (commit E (G j b)) (Lam j)
      = wsum E (\<lambda>j. pscale (Lam j) (G j b)) (js @ [j])" for js j b
    by (rule acc_com_wsum [OF assms(1), where G = "\<lambda>j. G j b"])
  have "foldR (\<lambda>j. batch_t3_step E c sid ?cas ?cbs ((j, Lam j), map (R j) [0..<count])) (c_ids c) (?I [])
      = Ok (?I ([] @ c_ids c))"
    by (rule foldR_prefix) (simp add: batch_t3_honest [OF assms(1) inp] acc)
  moreover have "?I [] = replicate count None" by (simp add: wsum_def map_replicate_const)
  moreover have "?I (c_ids c) = map (\<lambda>b. Some (commit E (?C b))) [0..<count]"
    by (simp add: recombine_wsum [OF committee_wf_facts(2) [OF assms(2)]])
  ultimately have loop: "foldR (batch_t3_step E c sid ?cas ?cbs)
      (zip (zip (c_ids c) (map Lam (c_ids c))) (map (\<lambda>j. map (R j) [0..<count]) (c_ids c))) (replicate count None)
    = Ok (map (\<lambda>b. Some (commit E (?C b))) [0..<count])"
    by (simp add: rows foldR_map)
  have pubs: "mapR (\<lambda>(ca, cb, cc). bindR (of_opt cc) (\<lambda>cc. Ok \<lparr>tp_ca = ca, tp_cb = cb, tp_cc = cc\<rparr>))
      (zip ?cas (zip ?cbs (map (\<lambda>b. Some (commit E (?C b))) [0..<count])))
    = Ok (map (\<lambda>b. \<lparr>tp_ca = commit E (A b), tp_cb = commit E (B b), tp_cc = commit E (?C b)\<rparr>) [0..<count])"
    unfolding zip_map_both mapR_map by (rule mapR_Ok) simp
  have shares: "rs_shares (R j b) = map (\<lambda>i. peval (G j b) (of_nat i)) (c_ids c)"
    if "j \<in> set (c_ids c)" "b < count" for j b
    using batch_reshare_ok [OF inp that] by (simp add: reshare_ok_def)
  have "batch_run E c sid count None rs A B Lam R = Ok (batch_triples_of E c count A B ?C)"
    using batch_records_of [OF shares, where Lam = Lam and A = A and B = B and E = E]
    unfolding batch_run_def Let_def tamper_batch_def option.case loop bindR.simps pubs by simp
  moreover have "length (A b) = c_t c \<and> length (B b) = c_t c \<and> length (?C b) = c_t c
      \<and> peval (?C b) 0 = peval (A b) 0 * peval (B b) 0" if "b < count" for b
    using dealt_product [OF assms(2) w, of E sid "A b" "B b" "\<lambda>j. G j b" "\<lambda>j. R j b"] inp that
    by (simp add: batch_inputs_def dealt_inputs_def)
  ultimately show ?thesis using run len
    by (intro exI [of _ A] exI [of _ B] exI [of _ ?C] exI [of _ rs'] conjI) simp_all
qed

section \<open>The packed factory between honest parties\<close>

lemma packed_const_deal:
  fixes E :: "('f::field, 'g, 'r) k256"
  assumes "1 \<le> t" "1 \<le> b_pack"
  shows "let g = coeffs (fst (shamir_random_packed_const E s b_pack t r)) in g \<noteq> [] \<and> hd g = s
    \<and> length g = t + b_pack - 1 \<and> (\<forall>b < b_pack. peval g (slot_point b) = s)"
proof -
  let ?g = "coeffs (fst (shamir_random_packed_const E s b_pack t r))"
  have len: "length ?g = t + b_pack - 1" using packed_const_value(1) [OF assms(2,1)] .
  then have ne: "?g \<noteq> []" using assms by (cases ?g) auto
  have "peval ?g (slot_point 0) = s" using assms by (intro packed_const_slot) auto
  then have "hd ?g = s" using ne by (simp add: slot_point_def peval_0)
  then show ?thesis using len ne packed_const_slot [OF assms(1), of _ b_pack E s r] by (simp add: Let_def)
qed

lemma slots_bound_honest:
  assumes "k256_ok E" "g \<noteq> []" "hd g = s" "\<forall>b < b_pack. peval g (slot_point b) = s"
  shows "slots_bound E b_pack j (commit E g) = Ok ()"
proof -
  have first: "nth_opt (points (commit E g)) 0 = Some (smul E (gen E) s)"
    using assms(2,3) by (cases g) (auto simp: nth_opt_def)
  have "foldR (\<lambda>b _. bindR (of_opt (nth_opt (points (commit E g)) 0)) (\<lambda>p0.
         if com_eval_at_point E (commit E g) (slot_point b) \<noteq> p0
         then abort Triples [j] (''re-sharing polynomial violates the slot binding (slot '' @ dec_str b @ '')'')
         else Ok ())) [1..<b_pack] () = Ok (foldl (\<lambda>_ _. ()) () [1..<b_pack])"
    using first assms by (intro foldR_Ok) (simp add: com_eval_commit)
  then show ?thesis unfolding slots_bound_def by simp
qed

lemma packed_t3_honest:
  assumes "k256_ok E" "dealt_inputs E c sid A B G R d" "j \<in> set (c_ids c)"
    and "\<forall>b < b_pack. peval (G j) (slot_point b) = hd (G j)"
  shows "packed_t3_step E c sid b_pack (commit E A) (commit E B) ((j, map lam [0..<b_pack]), R j) (map f [0..<b_pack])
    = Ok (map (\<lambda>b. acc_com E (f b) (commit E (G j)) (lam b)) [0..<b_pack])"
proof -
  have r: "reshare_ok E c sid (commit E B) j (peval A (of_nat j)) (peval B (of_nat j)) (G j) (R j)"
    using assms(2,3) by (simp add: dealt_inputs_def)
  then have "rs_com (R j) = commit E (G j)" "G j \<noteq> []" by (simp_all add: reshare_ok_def)
  then show ?thesis
    using product_ok_honest [OF assms(1) r] check_shares_honest [OF assms(1) r]
      slots_bound_honest [OF assms(1) _ refl assms(4)]
    by (simp add: packed_t3_step_def check_product_def zip_map_both o_def)
qed

lemma packed_lambdas_honest:
  assumes "k256_ok (E :: ('f::field, 'g::ab_group_add, 'r) k256)" "committee_wf c"
  shows "\<exists>Lam. packed_lambdas c b_pack = (Ok (map (\<lambda>b. map (Lam b) (c_ids c)) [0..<b_pack]) :: 'f list list result)
    \<and> (\<forall>b. weights_at c (slot_point b) (Lam b))"
proof -
  have "\<forall>b. \<exists>Lam. lagrange_coeffs_at (slot_point b :: 'f) (c_ids c) = Ok (map Lam (c_ids c))
      \<and> weights_at c (slot_point b) Lam"
    using committee_weights [OF assms] by blast
  then obtain Lam where "\<forall>b. lagrange_coeffs_at (slot_point b :: 'f) (c_ids c) = Ok (map (Lam b) (c_ids c))
      \<and> weights_at c (slot_point b) (Lam b)" by metis
  then show ?thesis by (intro exI [of _ Lam]) (simp add: packed_lambdas_def mapR_Ok)
qed

lemma packed_columns:
  "zip (map (\<lambda>k. (ids ! k, map (\<lambda>ls. ls ! k) (map (\<lambda>b. map (Lam b) ids) [0..<m]))) [0..<length ids]) (map R ids)
    = map (\<lambda>j. ((j, map (\<lambda>b. Lam b j) [0..<m]), R j)) ids"
  by (rule nth_equalityI) auto

lemma packed_records_of:
  assumes "\<And>j. j \<in> set (c_ids c) \<Longrightarrow> rs_shares (R j) = map (\<lambda>i. peval (G j) (of_nat i)) (c_ids c)"
  shows "packed_records c m (map (\<lambda>b. map (Lam b) (c_ids c)) [0..<m]) (map R (c_ids c))
      (map (\<lambda>j. peval A (of_nat j)) (c_ids c)) (map (\<lambda>j. peval B (of_nat j)) (c_ids c))
      (map (\<lambda>b. \<lparr>tp_ca = commit E A, tp_cb = commit E B, tp_cc = commit E (recombine c (Lam b) G)\<rparr>) [0..<m])
    = batch_triples_of E c m (\<lambda>_. A) (\<lambda>_. B) (\<lambda>b. recombine c (Lam b) G)"
  unfolding packed_records_def batch_triples_of_def triples_of_def
  by (intro map_cong refl) (auto simp: c_n_def c_share_recombine [OF assms])

lemma generate_packed_honest:
  fixes E :: "('f::field, 'g::ab_group_add, 'r) k256"
  assumes "k256_ok E" "committee_wf c" "c_n c \<le> length rs" "1 \<le> m" "m < 2 ^ 62" "c_t c < 2 ^ 62"
    and "2 * c_t c + 2 * m - 3 \<le> c_n c"
  shows "\<exists>A B C rs'. generate_packed_with_committee E c sid m None rs
      = (Ok (batch_triples_of E c m (\<lambda>_. A) (\<lambda>_. B) C), rs')
    \<and> length rs' = length rs \<and> length A = c_t c + m - 1 \<and> length B = c_t c + m - 1
    \<and> (\<forall>b < m. length (C b) = c_t c + m - 1
        \<and> (\<forall>s < m. peval (C b) (slot_point s) = peval A (slot_point b) * peval B (slot_point b)))"
proof -
  note wf = committee_wf_facts [OF assms(2)]
  let ?d = "c_t c + m - 1"
  have deg: "packed_degree (c_t c) m + 1 = ?d"
    using assms(4-6) wf(3) by (simp add: packed_degree_def wadd_exact wsub_exact)
  have bound: "\<not> c_n c < wsub (wadd (wmul 2 (c_t c)) (wmul 2 m)) 3"
    using assms(4-7) wf(3) by (simp add: wadd_exact wsub_exact wmul_exact)
  have "1 \<le> (2 :: nat)" by simp
  from joint_random_packed_honest [OF assms(1-3) this, of sid Triples "packed_degree (c_t c) m"]
  obtain cs r1 where
    T1: "joint_random_packed E c sid Triples 2 (packed_degree (c_t c) m) rs
      = (Ok (map (\<lambda>j. map (\<lambda>b. joint_output E (cs b) j) [0..<2]) (c_ids c)), r1)"
      "length r1 = length rs" "\<forall>b < 2. length (cs b) = ?d" unfolding deg by blast
  let ?A = "cs 0" and ?B = "cs (Suc 0)"
  obtain Lam where Lam: "packed_lambdas c m = Ok (map (\<lambda>b. map (Lam b) (c_ids c)) [0..<m])"
      "\<forall>b. weights_at c (slot_point b :: 'f) (Lam b)"
    using packed_lambdas_honest [OF assms(1,2)] by blast
  have "c_n c \<le> length r1" using T1(2) assms(3) by simp
  from reshare_all_honest [OF assms(1,2) this, where deal = "\<lambda>s. shamir_random_packed_const E s m (c_t c)"
      and Q = "\<lambda>s g. length g = ?d \<and> (\<forall>b < m. peval g (slot_point b) = s)" and sid = sid and cb = "commit E ?B"
      and fa = "\<lambda>j. peval ?A (of_nat j)" and fb = "\<lambda>j. peval ?B (of_nat j)"]
  obtain G R r2 where R: "mapS (\<lambda>(k, j, a, b). with_rng k
        (reshare_product E c sid (\<lambda>s. shamir_random_packed_const E s m (c_t c)) (commit E ?B) j a b))
      (List.enumerate 0 (zip (c_ids c) (zip (map (\<lambda>j. peval ?A (of_nat j)) (c_ids c))
        (map (\<lambda>j. peval ?B (of_nat j)) (c_ids c))))) r1 = (Ok (map R (c_ids c)) :: _ result, r2)"
      "length r2 = length r1"
    and G0: "\<forall>j \<in> set (c_ids c). reshare_ok E c sid (commit E ?B) j
        (peval ?A (of_nat j)) (peval ?B (of_nat j)) (G j) (R j)
        \<and> length (G j) = ?d \<and> (\<forall>b < m. peval (G j) (slot_point b) = peval ?A (of_nat j) * peval ?B (of_nat j))"
    using packed_const_deal [of "c_t c" m E] wf(3) assms(4) unfolding Suc_le_eq One_nat_def by blast
  have G: "length (G j) = ?d \<and> reshare_ok E c sid (commit E ?B) j
        (peval ?A (of_nat j)) (peval ?B (of_nat j)) (G j) (R j)
        \<and> (\<forall>b < m. peval (G j) (slot_point b) = peval ?A (of_nat j) * peval ?B (of_nat j))"
    if "j \<in> set (c_ids c)" for j using G0 that by blast
  have inp: "dealt_inputs E c sid ?A ?B G R ?d" using T1(3) G by (simp add: dealt_inputs_def)
  have ne: "0 < length (c_ids c)" using wf(2) by simp
  have outs: "nth_opt (map (\<lambda>j. map (\<lambda>b. joint_output E (cs b) j) [0..<2]) (c_ids c)) 0
      = Some (map (\<lambda>b. joint_output E (cs b) (c_ids c ! 0)) [0..<2])"
    "map (\<lambda>outs. o_share (outs ! 0)) (map (\<lambda>j. map (\<lambda>b. joint_output E (cs b) j) [0..<2]) (c_ids c))
      = map (\<lambda>j. peval ?A (of_nat j)) (c_ids c)"
    "map (\<lambda>outs. o_share (outs ! 1)) (map (\<lambda>j. map (\<lambda>b. joint_output E (cs b) j) [0..<2]) (c_ids c))
      = map (\<lambda>j. peval ?B (of_nat j)) (c_ids c)"
    "o_com (map (\<lambda>b. joint_output E (cs b) j) [0..<2] ! 0) = commit E ?A"
    "o_com (map (\<lambda>b. joint_output E (cs b) j) [0..<2] ! 1) = commit E ?B" for j
    using ne by (auto simp: joint_output_def numeral_2_eq_2)
  let ?C = "\<lambda>b. recombine c (Lam b) G"
  let ?I = "\<lambda>js. map (\<lambda>b. wsum E (\<lambda>j. pscale (Lam b j) (G j)) js) [0..<m]"
  have slots: "\<forall>b < m. peval (G j) (slot_point b) = hd (G j)" if "j \<in> set (c_ids c)" for j
    using G [OF that] by (simp add: reshare_ok_def)
  have acc: "acc_com E (wsum E (\<lambda>j. pscale (Lam b j) (G j)) js) (commit E (G j)) (Lam b j)
      = wsum E (\<lambda>j. pscale (Lam b j) (G j)) (js @ [j])" for js j b
    by (rule acc_com_wsum [OF assms(1), where Lam = "Lam b"])
  have "foldR (\<lambda>j. packed_t3_step E c sid m (commit E ?A) (commit E ?B)
        ((j, map (\<lambda>b. Lam b j) [0..<m]), R j)) (c_ids c) (?I []) = Ok (?I ([] @ c_ids c))"
    by (rule foldR_prefix) (simp add: packed_t3_honest [OF assms(1) inp _ slots] acc)
  moreover have "?I [] = replicate m None" by (simp add: wsum_def map_replicate_const)
  moreover have "?I (c_ids c) = map (\<lambda>b. Some (commit E (?C b))) [0..<m]"
    by (simp add: recombine_wsum [OF wf(2)])
  ultimately have loop: "foldR (packed_t3_step E c sid m (commit E ?A) (commit E ?B))
      (zip (map (\<lambda>k. (c_ids c ! k, map (\<lambda>ls. ls ! k) (map (\<lambda>b. map (Lam b) (c_ids c)) [0..<m]))) [0..<c_n c])
        (map R (c_ids c))) (replicate m None) = Ok (map (\<lambda>b. Some (commit E (?C b))) [0..<m])"
    unfolding c_n_def packed_columns by (simp add: foldR_map)
  have pubs: "mapR (\<lambda>cc. bindR (of_opt cc) (\<lambda>cc. Ok \<lparr>tp_ca = commit E ?A, tp_cb = commit E ?B, tp_cc = cc\<rparr>))
      (map (\<lambda>b. Some (commit E (?C b))) [0..<m])
    = Ok (map (\<lambda>b. \<lparr>tp_ca = commit E ?A, tp_cb = commit E ?B, tp_cc = commit E (?C b)\<rparr>) [0..<m])"
    unfolding mapR_map by (rule mapR_Ok) simp
  have shares: "rs_shares (R j) = map (\<lambda>i. peval (G j) (of_nat i)) (c_ids c)" if "j \<in> set (c_ids c)" for j
    using G [OF that] by (simp add: reshare_ok_def)
  have m1: "\<not> m < 1" using assms(4) by simp
  have run: "generate_packed_with_committee E c sid m None rs
      = (Ok (batch_triples_of E c m (\<lambda>_. ?A) (\<lambda>_. ?B) ?C), r2)"
    unfolding generate_packed_with_committee_def if_not_P [OF m1] if_not_P [OF bound]
    by (subst bindS_Ok [where m = "joint_random_packed E c sid Triples 2 (packed_degree (c_t c) m)", OF T1(1)],
        simp only: outs of_opt_simps bindS_liftR Let_def,
        subst bindS_Ok [where m = "mapS _ _", OF R(1)],
        simp only: liftR_apply Lam(1) bindR.simps tamper_reshares_def option.case loop pubs
          packed_records_of [OF shares])
  have prod: "peval (?C b) (slot_point s) = peval ?A (slot_point b) * peval ?B (slot_point b)"
    if "b < m" "s < m" for b s
  proof (rule recombine_product [OF assms(2)])
    show "weights_at c (slot_point b) (Lam b)" using Lam(2) by blast
    show "length ?A + length ?B \<le> Suc (c_n c)" using T1(3) assms(4,7) wf(3) by simp
    have "length ?A = ?d" "length ?B = ?d" "0 < ?d" using T1(3) assms(4) wf(3) by auto
    then show "?A \<noteq> []" "?B \<noteq> []" by (metis list.size(3) less_irrefl)+
  qed (use G that in auto)
  have "length (?C b) = ?d" for b using G by (intro length_recombine [OF assms(2)]) auto
  then show ?thesis using run prod T1 R(2)
    by (intro exI [of _ ?A] exI [of _ ?B] exI [of _ ?C] exI [of _ r2] conjI) simp_all
qed

end
