(* ===== verification/Presigning.thy ===== *)
theory Presigning
  imports Triple_Batch
begin

text \<open>
  Presignatures (\<open>src/protocol/presign.rs\<close>): the base, key-independent, robust, batch and packed
  protocols. The code repeats three blocks in each of them, and the model names them: the Beaver
  multiplication through a triple (\<open>beaver_masks\<close>, \<open>beaver_com\<close>, \<open>beaver_share\<close>), the opening and
  inversion of \<open>v\<close> (\<open>open_v\<close>), and the nonce round (\<open>nonce_points\<close>, \<open>nonce_scalar\<close>).
\<close>

type_synonym ('f, 'g) key_share = "('f, 'g) dkg_output"

record ('f, 'g) presignature =
  ps_id :: nat
  ps_index :: party_id
  ps_r :: 'f
  ps_big_r :: 'g
  ps_u_share :: 'f
  ps_z_share :: 'f
  ps_u_com :: "'g feldman"
  ps_z_com :: "'g feldman"

record ('f, 'g) ki_presignature =
  kp_id :: nat
  kp_index :: party_id
  kp_r :: 'f
  kp_big_r :: 'g
  kp_u_share :: 'f
  kp_u_com :: "'g feldman"

record presign_tamper =
  pt_bad_nonce_point :: "party_id option"
  pt_bad_open_share :: "party_id option"
  pt_triple_tamper :: "triple_tamper option"

definition apply_tweak :: "('f::field, 'g::ab_group_add, 'r) k256 \<Rightarrow> 'f \<Rightarrow> ('f, 'g) presignature
    \<Rightarrow> ('f, 'g) presignature" where
  "apply_tweak E tau p = p\<lparr>ps_z_share := ps_z_share p + tau * ps_u_share p,
     ps_z_com := com_add (ps_z_com p) (com_scale E (ps_u_com p) tau)\<rparr>"

definition check_committee_inputs :: "committee \<Rightarrow> ('f, 'g) key_share list \<Rightarrow> ('r, unit) protocol" where
  "check_committee_inputs c keys = (\<lambda>rngs.
     (if length keys \<noteq> c_n c \<or> length rngs < c_n c
         \<or> (\<exists>(key, i) \<in> set (zip keys (c_ids c)). o_index key \<noteq> i)
      then Err (InvalidParams ''keys/rngs must match the committee positionally (keys[k].index == ids[k])'')
      else Ok (), rngs))"

section \<open>The Beaver multiplication\<close>

definition mask_com :: "('f::field, 'g::ab_group_add, 'r) k256 \<Rightarrow> 'g feldman \<Rightarrow> 'g feldman \<Rightarrow> 'g feldman" where
  "mask_com E x m = com_add x (com_scale E m (- 1))"

definition mask_shares :: "party_id list \<Rightarrow> 'f::field list \<Rightarrow> 'f list \<Rightarrow> 'f btree" where
  "mask_shares ids xs ms = bt_of_list (zip ids (map2 (\<lambda>x m. x - m) xs ms))"

definition beaver_masks :: "('f::field, 'g::ab_group_add, 'r) k256
    \<Rightarrow> ('g feldman \<Rightarrow> 'f btree \<Rightarrow> 'f result) \<Rightarrow> party_id list \<Rightarrow> 'f triple_share list \<Rightarrow> 'g triple_public
    \<Rightarrow> 'g feldman \<Rightarrow> 'f list \<Rightarrow> 'g feldman \<Rightarrow> 'f list \<Rightarrow> ('f \<times> 'f) result" where
  \<comment> \<open>open \<open>x - alpha\<close> and \<open>y - beta\<close>; \<open>opn\<close> is the opening the protocol uses\<close>
  "beaver_masks E opn ids ts pub x_com xs y_com ys =
     bindR (opn (mask_com E x_com (tp_ca pub)) (mask_shares ids xs (map ts_a ts))) (\<lambda>delta.
     bindR (opn (mask_com E y_com (tp_cb pub)) (mask_shares ids ys (map ts_b ts))) (\<lambda>eps.
       Ok (delta, eps)))"

definition beaver_com :: "('f::field, 'g::ab_group_add, 'r) k256 \<Rightarrow> 'g triple_public \<Rightarrow> 'f \<Rightarrow> 'f
    \<Rightarrow> 'g feldman result" where
  "beaver_com E pub delta eps =
     com_add_const E (com_add (com_add (tp_cc pub) (com_scale E (tp_cb pub) delta))
        (com_scale E (tp_ca pub) eps)) (delta * eps)"

definition beaver_share :: "'f::field triple_share \<Rightarrow> 'f \<Rightarrow> 'f \<Rightarrow> 'f" where
  "beaver_share s delta eps = ts_c s + delta * ts_b s + eps * ts_a s + delta * eps"

section \<open>P2: opening v\<close>

definition tamper_share :: "presign_tamper option \<Rightarrow> 'f::field btree \<Rightarrow> 'f btree" where
  "tamper_share tamper shares = (case tamper of None \<Rightarrow> shares
     | Some tm \<Rightarrow> (case pt_bad_open_share tm of None \<Rightarrow> shares
         | Some j \<Rightarrow> (case bt_get shares j of None \<Rightarrow> shares | Some s \<Rightarrow> bt_insert j (s + 1) shares)))"

definition invert_v :: "string \<Rightarrow> 'f::field \<Rightarrow> 'f result" where
  "invert_v msg v = (if v = 0 then Err (ZeroValue msg)
     else case sc_invert v of None \<Rightarrow> Err (ZeroValue msg) | Some i \<Rightarrow> Ok i)"

definition open_v :: "('f::field, 'g::ab_group_add, 'r) k256
    \<Rightarrow> ('g feldman \<Rightarrow> 'f btree \<Rightarrow> 'f result) \<Rightarrow> party_id list \<Rightarrow> presign_tamper option \<Rightarrow> string
    \<Rightarrow> 'f triple_share list \<Rightarrow> 'g triple_public \<Rightarrow> 'f \<Rightarrow> 'f \<Rightarrow> 'f result" where
  \<comment> \<open>returns \<open>v_inv\<close>\<close>
  "open_v E opn ids tamper msg ts pub delta eps =
     bindR (beaver_com E pub delta eps) (\<lambda>v_com.
       let v_shares = bt_of_list (zip ids (map (\<lambda>s. beaver_share s delta eps) ts))
       in bindR (opn v_com (tamper_share tamper v_shares)) (invert_v msg))"

section \<open>P3: the nonce point\<close>

definition nonce_point :: "('f::field, 'g::ab_group_add, 'r) k256 \<Rightarrow> presign_tamper option \<Rightarrow> 'f
    \<Rightarrow> party_id \<Rightarrow> 'f \<Rightarrow> 'g" where
  \<comment> \<open>what party \<open>j\<close> broadcasts\<close>
  "nonce_point E tamper v_inv j a =
     (let r_j = smul E (gen E) (v_inv * a)
      in case tamper of None \<Rightarrow> r_j
         | Some tm \<Rightarrow> if pt_bad_nonce_point tm = Some j then r_j + gen E else r_j)"

definition nonce_points :: "('f::field, 'g::ab_group_add, 'r) k256 \<Rightarrow> committee \<Rightarrow> presign_tamper option
    \<Rightarrow> string \<Rightarrow> 'g feldman \<Rightarrow> 'f list \<Rightarrow> 'f \<Rightarrow> 'g list result" where
  "nonce_points E c tamper detail a_com a_shares v_inv =
     (let k_com = com_scale E a_com v_inv
      in mapR (\<lambda>(j, a). let r_j = nonce_point E tamper v_inv j a
           in if r_j \<noteq> com_eval_at E k_com j then abort Presign [j] detail else Ok r_j)
         (zip (c_ids c) a_shares))"

definition nonce_scalar :: "('f::field, 'g::ab_group_add, 'r) k256 \<Rightarrow> string \<Rightarrow> 'f list \<Rightarrow> 'g list
    \<Rightarrow> ('f \<times> 'g) result" where
  \<comment> \<open>\<open>R\<close> in the exponent and \<open>r\<close>; the identity has no x coordinate, which the code expects\<close>
  "nonce_scalar E msg lambdas r_points =
     (let big_r = foldl (\<lambda>acc (l, rp). acc + smul E rp l) 0 (zip lambdas r_points)
      in bindR (of_opt (x_bytes E big_r)) (\<lambda>x.
        let r = scalar_from_digest E x
        in if r = 0 then Err (ZeroValue msg) else Ok (r, big_r)))"

section \<open>The base and the key-independent protocol\<close>

definition presign_nonce :: "('f::field, 'g::ab_group_add, 'r) k256 \<Rightarrow> committee \<Rightarrow> presign_tamper option
    \<Rightarrow> ('f, 'g) triple list \<Rightarrow> ('f, 'g) dkg_output list \<Rightarrow> ('f, 'g) dkg_output list \<Rightarrow> ('f \<times> 'g) result" where
  \<comment> \<open>P2 and P3, as both protocols have them\<close>
  "presign_nonce E c tamper t1 u_out a_out =
     bindR (of_opt (nth_opt t1 0)) (\<lambda>first1. bindR (of_opt (nth_opt u_out 0)) (\<lambda>u0.
     bindR (of_opt (nth_opt a_out 0)) (\<lambda>a0.
       let opn = (\<lambda>com sh. open_com E (c_t c) com sh Presign);
           pub1 = snd first1; ts = map fst t1;
           u_shares = map o_share u_out; a_shares = map o_share a_out
       in bindR (beaver_masks E opn (c_ids c) ts pub1 (o_com u0) u_shares (o_com a0) a_shares) (\<lambda>(delta, eps).
          bindR (open_v E opn (c_ids c) tamper ''v = 0'' ts pub1 delta eps) (\<lambda>v_inv.
          bindR (nonce_points E c tamper ''invalid nonce point R_j'' (o_com a0) a_shares v_inv) (\<lambda>r_points.
          bindR (lagrange_coeffs (c_ids c)) (\<lambda>lambdas.
            nonce_scalar E ''r = 0'' lambdas r_points)))))))"

definition presign_bind :: "('f::field, 'g::ab_group_add, 'r) k256 \<Rightarrow> committee \<Rightarrow> nat
    \<Rightarrow> ('f, 'g) key_share list \<Rightarrow> ('f, 'g) triple list \<Rightarrow> ('f, 'g) dkg_output list \<Rightarrow> 'f \<times> 'g
    \<Rightarrow> ('f, 'g) presignature list result" where
  \<comment> \<open>P4 and the records\<close>
  "presign_bind E c rid keys t2 u_out nonce =
     bindR (of_opt (nth_opt t2 0)) (\<lambda>first2. bindR (of_opt (nth_opt u_out 0)) (\<lambda>u0.
     bindR (of_opt (nth_opt keys 0)) (\<lambda>key0.
       let opn = (\<lambda>com sh. open_com E (c_t c) com sh Presign);
           pub2 = snd first2; ts = map fst t2; u_shares = map o_share u_out
       in bindR (beaver_masks E opn (c_ids c) ts pub2 (o_com u0) u_shares (o_com key0) (map o_share keys))
          (\<lambda>(d2v, e2v).
          bindR (beaver_com E pub2 d2v e2v) (\<lambda>z_com.
            Ok (map (\<lambda>(j, u, s). \<lparr>ps_id = rid, ps_index = j, ps_r = fst nonce, ps_big_r = snd nonce,
                 ps_u_share = u, ps_z_share = beaver_share s d2v e2v, ps_u_com = o_com u0, ps_z_com = z_com\<rparr>)
               (zip (c_ids c) (zip u_shares ts))))))))"

definition tt_of :: "presign_tamper option \<Rightarrow> triple_tamper option" where
  "tt_of tamper = (case tamper of None \<Rightarrow> None | Some tm \<Rightarrow> pt_triple_tamper tm)"

definition presign_sid :: "nat \<Rightarrow> bytes" where
  "presign_sid rid = str_bytes (''ohm-ecdsa/presign/'' @ dec_str rid)"

definition presign_ki_sid :: "nat \<Rightarrow> bytes" where
  "presign_ki_sid rid = str_bytes (''ohm-ecdsa/presign-ki/'' @ dec_str rid)"

definition presign_with_committee :: "('f::field, 'g::ab_group_add, 'r) k256 \<Rightarrow> committee
    \<Rightarrow> ('f, 'g) key_share list \<Rightarrow> nat \<Rightarrow> presign_tamper option \<Rightarrow> ('r, ('f, 'g) presignature list) protocol" where
  "presign_with_committee E c keys rid tamper =
     bindS (check_committee_inputs c keys) (\<lambda>_.
     let sid = presign_sid rid in
     bindS (generate_with_committee E c (sid @ str_bytes ''/t1'') (tt_of tamper)) (\<lambda>t1.
     bindS (generate_with_committee E c (sid @ str_bytes ''/t2'') None) (\<lambda>t2.
     bindS (joint_random E c (sid @ str_bytes ''/u'') Presign) (\<lambda>u_out.
     bindS (joint_random E c (sid @ str_bytes ''/a'') Presign) (\<lambda>a_out.
       liftR (bindR (presign_nonce E c tamper t1 u_out a_out) (\<lambda>nonce.
         presign_bind E c rid keys t2 u_out nonce)))))))"

definition presign :: "('f::field, 'g::ab_group_add, 'r) k256 \<Rightarrow> params \<Rightarrow> ('f, 'g) key_share list
    \<Rightarrow> nat \<Rightarrow> presign_tamper option \<Rightarrow> ('r, ('f, 'g) presignature list) protocol" where
  "presign E p keys rid tamper =
     bindS (liftR (committee_full p)) (\<lambda>c. presign_with_committee E c keys rid tamper)"

definition presign_ki_with_committee :: "('f::field, 'g::ab_group_add, 'r) k256 \<Rightarrow> committee \<Rightarrow> nat
    \<Rightarrow> presign_tamper option \<Rightarrow> ('r, ('f, 'g) ki_presignature list) protocol" where
  "presign_ki_with_committee E c rid tamper =
     bindS (\<lambda>rngs. (if length rngs < c_n c then Err (InvalidParams ''rngs must cover the committee'')
         else Ok (), rngs)) (\<lambda>_.
     let sid = presign_ki_sid rid in
     bindS (generate_with_committee E c (sid @ str_bytes ''/t1'') (tt_of tamper)) (\<lambda>t1.
     bindS (joint_random E c (sid @ str_bytes ''/u'') Presign) (\<lambda>u_out.
     bindS (joint_random E c (sid @ str_bytes ''/a'') Presign) (\<lambda>a_out.
       liftR (bindR (presign_nonce E c tamper t1 u_out a_out) (\<lambda>(r, big_r).
         bindR (of_opt (nth_opt u_out 0)) (\<lambda>u0.
           Ok (map (\<lambda>(j, u). \<lparr>kp_id = rid, kp_index = j, kp_r = r, kp_big_r = big_r,
               kp_u_share = o_share u, kp_u_com = o_com u0\<rparr>) (zip (c_ids c) u_out)))))))))"

definition presign_ki :: "('f::field, 'g::ab_group_add, 'r) k256 \<Rightarrow> params \<Rightarrow> nat
    \<Rightarrow> presign_tamper option \<Rightarrow> ('r, ('f, 'g) ki_presignature list) protocol" where
  "presign_ki E p rid tamper =
     bindS (liftR (committee_full p)) (\<lambda>c. presign_ki_with_committee E c rid tamper)"

section \<open>Openings of honestly shared values\<close>

abbreviation shares_of :: "committee \<Rightarrow> 'f::comm_ring_1 list \<Rightarrow> 'f list" where
  "shares_of c cs \<equiv> map (\<lambda>j. peval cs (of_nat j)) (c_ids c)"

lemma zip_committee:
  assumes "committee_wf c"
  shows "bt_of_list (zip (c_ids c) (map f (c_ids c))) = map (\<lambda>j. (j, f j)) (c_ids c)"
  using assms by (auto simp: zip_map_self committee_wf_def o_def intro!: bt_of_list_sorted)

lemma ids_ok_committee: "committee_wf c \<Longrightarrow> ids_ok (map (\<lambda>j. (j, f j)) (c_ids c))"
  using committee_wf_facts [of c] by (auto simp: ids_ok_def o_def)

lemma open_honest:
  assumes "k256_ok E" "committee_wf c" "length cs \<le> q" "q \<le> c_n c"
  shows "open_at E x q (commit E cs) (map (\<lambda>j. (j, peval cs (of_nat j))) (c_ids c)) ph = Ok (peval cs x)"
  using assms(3,4) by (intro open_at_commit [OF assms(1) ids_ok_committee [OF assms(2)]]) (auto simp: c_n_def)

lemma mask_honest:
  assumes "k256_ok E"
  shows "mask_com E (commit E X) (commit E A) = commit E (padd X (pscale (- 1) A))"
  using assms by (simp add: mask_com_def com_scale_commit com_add_commit)

lemma mask_shares_honest:
  assumes "committee_wf c"
  shows "mask_shares (c_ids c) (shares_of c X) (shares_of c A)
    = map (\<lambda>j. (j, peval (padd X (pscale (- 1) A)) (of_nat j))) (c_ids c)"
  using zip_committee [OF assms, of "\<lambda>j. peval X (of_nat j) - peval A (of_nat j)"]
  by (simp add: mask_shares_def zip_map_both o_def)

lemma triples_of_parts:
  "map ts_a (map fst (triples_of E c A B C)) = shares_of c A"
  "map ts_b (map fst (triples_of E c A B C)) = shares_of c B"
  "map (\<lambda>s. beaver_share s d e) (map fst (triples_of E c A B C)) = map (\<lambda>j. peval C (of_nat j)
      + d * peval B (of_nat j) + e * peval A (of_nat j) + d * e) (c_ids c)"
  by (simp_all add: triples_of_def beaver_share_def o_def)

definition public_of :: "('f, 'g, 'r) k256 \<Rightarrow> 'f list \<Rightarrow> 'f list \<Rightarrow> 'f list \<Rightarrow> 'g triple_public" where
  "public_of E A B C = \<lparr>tp_ca = commit E A, tp_cb = commit E B, tp_cc = commit E C\<rparr>"

lemma triples_of_first:
  "committee_wf c \<Longrightarrow> \<exists>s. nth_opt (triples_of E c A B C) 0 = Some (s, public_of E A B C)"
  using committee_wf_facts(2) [of c] by (auto simp: triples_of_def nth_opt_def public_of_def)

lemma outputs_first:
  "committee_wf c \<Longrightarrow> \<exists>j. nth_opt (map (joint_output E X) (c_ids c)) 0 = Some (joint_output E X j)"
  using committee_wf_facts(2) [of c] by (auto simp: nth_opt_def)

lemma joint_output_simps [simp]:
  "o_share (joint_output E X j) = peval X (of_nat j)" "o_com (joint_output E X j) = commit E X"
  "o_index (joint_output E X j) = j"
  by (simp_all add: joint_output_def)

lemma beaver_masks_honest:
  assumes "k256_ok E" "committee_wf c" "q \<le> c_n c"
    and "length X \<le> q" "length A \<le> q" "length Y \<le> q" "length B \<le> q"
  shows "beaver_masks E (\<lambda>com sh. open_at E x q com sh ph) (c_ids c) (map fst (triples_of E c A B C))
      (public_of E A B C) (commit E X) (shares_of c X) (commit E Y) (shares_of c Y)
    = Ok (peval X x - peval A x, peval Y x - peval B x)"
  using assms open_honest [OF assms(1,2), of "padd X (pscale (- 1) A)" q x ph]
    open_honest [OF assms(1,2), of "padd Y (pscale (- 1) B)" q x ph]
  by (simp add: beaver_masks_def public_of_def mask_honest mask_shares_honest triples_of_parts del: map_map)

section \<open>The product the triple computes\<close>

definition beaver_poly :: "'f::comm_ring_1 list \<Rightarrow> 'f list \<Rightarrow> 'f list \<Rightarrow> 'f \<Rightarrow> 'f \<Rightarrow> 'f list" where
  "beaver_poly A B C d e = padd_const (padd (padd C (pscale d B)) (pscale e A)) (d * e)"

lemma beaver_poly:
  assumes "C \<noteq> []"
  shows "peval (beaver_poly A B C d e) x = peval C x + d * peval B x + e * peval A x + d * e"
    and "length (beaver_poly A B C d e) = max (max (length C) (length B)) (length A)"
proof -
  have "padd (padd C (pscale d B)) (pscale e A) \<noteq> []" using assms by simp
  then show "peval (beaver_poly A B C d e) x = peval C x + d * peval B x + e * peval A x + d * e"
    by (simp add: beaver_poly_def peval_padd_const mult.commute)
qed (simp add: beaver_poly_def)

lemma beaver_product:
  assumes "C \<noteq> []" "peval C x = peval A x * peval B (x :: 'f::comm_ring_1)"
    and "d = peval X x - peval A x" "e = peval Y x - peval B x"
  shows "peval (beaver_poly A B C d e) x = peval X x * peval Y x"
  unfolding beaver_poly(1) [OF assms(1)] assms(2-4) by (simp add: algebra_simps)

lemma beaver_com_honest:
  assumes "k256_ok E" "C \<noteq> []"
  shows "beaver_com E (public_of E A B C) d e = Ok (commit E (beaver_poly A B C d e))"
proof -
  have "padd (padd C (pscale d B)) (pscale e A) \<noteq> []" using assms(2) by simp
  then show ?thesis
    using assms(1) by (simp add: beaver_com_def public_of_def beaver_poly_def commit_simps)
qed

lemma beaver_shares_honest:
  assumes "committee_wf c" "C \<noteq> []"
  shows "bt_of_list (zip (c_ids c) (map (\<lambda>s. beaver_share s d e) (map fst (triples_of E c A B C))))
    = map (\<lambda>j. (j, peval (beaver_poly A B C d e) (of_nat j))) (c_ids c)"
  unfolding triples_of_parts zip_committee [OF assms(1)] by (simp add: beaver_poly(1) [OF assms(2)])

lemma open_v_honest:
  assumes "k256_ok E" "committee_wf c" "q \<le> c_n c" "C \<noteq> []"
    and "length A \<le> q" "length B \<le> q" "length C \<le> q"
  shows "open_v E (\<lambda>com sh. open_at E x q com sh ph) (c_ids c) None msg (map fst (triples_of E c A B C))
      (public_of E A B C) d e = invert_v msg (peval (beaver_poly A B C d e) x)"
  using open_honest [OF assms(1,2), of "beaver_poly A B C d e" q x ph] assms
  by (simp add: open_v_def beaver_com_honest beaver_shares_honest tamper_share_def beaver_poly(2) Let_def
      del: map_map)

section \<open>The nonce round between honest parties\<close>

lemma nonce_points_honest:
  assumes "k256_ok E"
  shows "nonce_points E c None detail (commit E A) (shares_of c A) v_inv
    = Ok (map (\<lambda>j. smul E (gen E) (v_inv * peval A (of_nat j))) (c_ids c))"
  unfolding nonce_points_def Let_def zip_map_self mapR_map
  by (rule mapR_Ok) (simp add: nonce_point_def com_scale_commit com_eval_at_commit assms mult.commute)

lemma nonce_point_sum:
  assumes "k256_ok E" "(\<Sum>j\<leftarrow>ps. Lam j * peval A (of_nat j)) = peval A x"
  shows "foldl (\<lambda>acc (l, rp). acc + smul E rp l) 0
      (zip (map Lam ps) (map (\<lambda>j. smul E (gen E) (v_inv * peval A (of_nat j))) ps))
    = smul E (gen E) (v_inv * peval A x)"
proof -
  have "foldl (\<lambda>acc (l, rp). acc + smul E rp l) (smul E (gen E) a)
      (map (\<lambda>j. (Lam j, smul E (gen E) (v_inv * peval A (of_nat j)))) js)
    = smul E (gen E) (a + v_inv * (\<Sum>j\<leftarrow>js. Lam j * peval A (of_nat j)))" for a js
    by (induction js arbitrary: a) (simp_all add: smul_smul [OF assms(1)] smul_add [OF assms(1), symmetric] algebra_simps)
  from this [of 0 ps] show ?thesis
    using assms by (simp add: zip_map_both smul_zero)
qed

definition nonce_of :: "('f::field, 'g::ab_group_add, 'r) k256 \<Rightarrow> string \<Rightarrow> 'f \<Rightarrow> ('f \<times> 'g) result" where
  \<comment> \<open>what the nonce round computes for the nonce \<open>k\<close>\<close>
  "nonce_of E msg k = (case x_bytes E (smul E (gen E) k) of None \<Rightarrow> Panic
     | Some x \<Rightarrow> if reduce E x = 0 then Err (ZeroValue msg) else Ok (reduce E x, smul E (gen E) k))"

lemma nonce_scalar_list:
  assumes "k256_ok E" "(\<Sum>j\<leftarrow>ps. Lam j * peval A (of_nat j)) = peval A x"
  shows "nonce_scalar E msg (map Lam ps) (map (\<lambda>j. smul E (gen E) (v_inv * peval A (of_nat j))) ps)
    = nonce_of E msg (v_inv * peval A x)"
  using nonce_point_sum [OF assms, of v_inv]
  by (simp add: nonce_scalar_def nonce_of_def scalar_from_digest_def Let_def split: option.split)

lemma nonce_scalar_honest:
  assumes "k256_ok E" "weights_at c x Lam" "length A \<le> c_n c"
  shows "nonce_scalar E msg (map Lam (c_ids c)) (map (\<lambda>j. smul E (gen E) (v_inv * peval A (of_nat j))) (c_ids c))
    = nonce_of E msg (v_inv * peval A x)"
  using assms(2,3) by (intro nonce_scalar_list [OF assms(1)]) (simp add: weights_at_def)

lemma nonce_of_cases:
  assumes "k256_ok E" "k \<noteq> 0"
  shows "nonce_of E msg k = Err (ZeroValue msg)
    \<or> (\<exists>x. x_bytes E (smul E (gen E) k) = Some x \<and> reduce E x \<noteq> 0
        \<and> nonce_of E msg k = Ok (reduce E x, smul E (gen E) k))"
proof -
  have "smul E (gen E) k \<noteq> 0" using assms smul_gen_inject [OF assms(1), of k 0] by (simp add: smul_zero)
  then obtain x where "x_bytes E (smul E (gen E) k) = Some x" using x_bytes_Some [OF assms(1)] by blast
  then show ?thesis by (cases "reduce E x = 0") (simp_all add: nonce_of_def)
qed

section \<open>The base protocol between honest parties\<close>

text \<open>The triple shared by \<open>A\<close>, \<open>B\<close>, \<open>C\<close> multiplies at the point \<open>x\<close>, with sharings of length at most \<open>q\<close>.\<close>

definition multiplies :: "nat \<Rightarrow> 'f::comm_ring_1 \<Rightarrow> 'f list \<Rightarrow> 'f list \<Rightarrow> 'f list \<Rightarrow> bool" where
  "multiplies q x A B C \<longleftrightarrow> length A \<le> q \<and> length B \<le> q \<and> length C \<le> q \<and> C \<noteq> []
     \<and> peval C x = peval A x * peval B x"

lemma open_com_at: "open_com E t = open_at E 0 t"
  by (simp add: open_com_def fun_eq_iff)

lemma invert_v_value: "invert_v msg v = (if v = 0 then Err (ZeroValue msg) else Ok (inverse v))"
  by (simp add: invert_v_def sc_invert_def)

lemma presign_nonce_honest:
  fixes E :: "('f::field, 'g::ab_group_add, 'r) k256"
  assumes "k256_ok E" "committee_wf c" "multiplies (c_t c) 0 A B C" "length U \<le> c_t c" "length V \<le> c_t c"
  shows "presign_nonce E c None (triples_of E c A B C) (map (joint_output E U) (c_ids c))
      (map (joint_output E V) (c_ids c))
    = (if peval U 0 = 0 \<or> peval V 0 = 0 then Err (ZeroValue ''v = 0'')
       else nonce_of E ''r = 0'' (inverse (peval U 0)))"
proof -
  note wf = committee_wf_facts [OF assms(2)]
  have tn: "c_t c \<le> c_n c" using wf(4) by (simp add: c_n_def)
  let ?d = "peval U 0 - peval A 0" and ?e = "peval V 0 - peval B 0"
  let ?v = "peval U 0 * peval V 0"
  have mult: "length A \<le> c_t c" "length B \<le> c_t c" "length C \<le> c_t c" "C \<noteq> []"
    "peval C 0 = peval A 0 * peval B 0"
    using assms(3) by (simp_all add: multiplies_def)
  obtain s where first: "nth_opt (triples_of E c A B C) 0 = Some (s, public_of E A B C)"
    using triples_of_first [OF assms(2)] by blast
  obtain j where ju: "nth_opt (map (joint_output E U) (c_ids c)) 0 = Some (joint_output E U j)"
    using outputs_first [OF assms(2)] by blast
  obtain j' where jv: "nth_opt (map (joint_output E V) (c_ids c)) 0 = Some (joint_output E V j')"
    using outputs_first [OF assms(2)] by blast
  have sh: "map o_share (map (joint_output E X) (c_ids c)) = shares_of c X" for X by simp
  obtain Lam where Lam: "lagrange_coeffs (c_ids c) = Ok (map Lam (c_ids c))" "weights_at c (0 :: 'f) Lam"
    using committee_weights [OF assms(1,2), of 0] by (auto simp: lagrange_coeffs_def)
  have v: "peval (beaver_poly A B C ?d ?e) 0 = ?v" by (rule beaver_product [OF mult(4,5) refl refl])
  have nonce: "nonce_scalar E ''r = 0'' (map Lam (c_ids c)) (map (\<lambda>j. smul E (gen E)
      (inverse ?v * peval V (of_nat j))) (c_ids c)) = nonce_of E ''r = 0'' (inverse ?v * peval V 0)"
    by (rule nonce_scalar_honest [OF assms(1) Lam(2)]) (use assms(5) tn in simp)
  have k: "inverse ?v * peval V 0 = inverse (peval U 0)" if "peval V 0 \<noteq> 0"
    using that by (simp add: field_simps)
  show ?thesis
    unfolding presign_nonce_def first ju jv of_opt_simps bindR.simps sh joint_output_simps snd_conv
      open_com_at Let_def beaver_masks_honest [OF assms(1,2) tn assms(4) mult(1) assms(5) mult(2)] prod.case
      open_v_honest [OF assms(1,2) tn mult(4,1,2,3)] v invert_v_value
    by (auto simp: nonce_points_honest [OF assms(1)] Lam(1) nonce k simp del: inverse_mult_distrib)
qed

definition presigs_of :: "('f::comm_ring_1, 'g, 'r) k256 \<Rightarrow> committee \<Rightarrow> nat \<Rightarrow> 'f \<times> 'g \<Rightarrow> 'f list \<Rightarrow> 'f list
    \<Rightarrow> ('f, 'g) presignature list" where
  \<comment> \<open>the records of all parties when \<open>u\<close> and \<open>z\<close> are shared by \<open>U\<close> and \<open>Z\<close>\<close>
  "presigs_of E c rid nonce U Z = map (\<lambda>j. \<lparr>ps_id = rid, ps_index = j, ps_r = fst nonce,
     ps_big_r = snd nonce, ps_u_share = peval U (of_nat j), ps_z_share = peval Z (of_nat j),
     ps_u_com = commit E U, ps_z_com = commit E Z\<rparr>) (c_ids c)"

lemma presign_bind_honest:
  fixes E :: "('f::field, 'g::ab_group_add, 'r) k256"
  assumes "k256_ok E" "committee_wf c" "multiplies (c_t c) 0 A B C" "length U \<le> c_t c" "length X \<le> c_t c"
  shows "\<exists>Z. length Z \<le> c_t c \<and> peval Z 0 = peval U 0 * peval X 0 \<and>
    presign_bind E c rid (map (joint_output E X) (c_ids c)) (triples_of E c A B C)
      (map (joint_output E U) (c_ids c)) nonce = Ok (presigs_of E c rid nonce U Z)"
proof -
  note wf = committee_wf_facts [OF assms(2)]
  have tn: "c_t c \<le> c_n c" using wf(4) by (simp add: c_n_def)
  let ?d = "peval U 0 - peval A 0" and ?e = "peval X 0 - peval B 0"
  let ?Z = "beaver_poly A B C ?d ?e"
  have mult: "length A \<le> c_t c" "length B \<le> c_t c" "length C \<le> c_t c" "C \<noteq> []"
    "peval C 0 = peval A 0 * peval B 0"
    using assms(3) by (simp_all add: multiplies_def)
  obtain s where first: "nth_opt (triples_of E c A B C) 0 = Some (s, public_of E A B C)"
    using triples_of_first [OF assms(2)] by blast
  obtain j where ju: "nth_opt (map (joint_output E U) (c_ids c)) 0 = Some (joint_output E U j)"
    using outputs_first [OF assms(2)] by blast
  obtain j' where jx: "nth_opt (map (joint_output E X) (c_ids c)) 0 = Some (joint_output E X j')"
    using outputs_first [OF assms(2)] by blast
  have sh: "map o_share (map (joint_output E X) (c_ids c)) = shares_of c X" for X by simp
  have recs: "map (\<lambda>(j, u, s). \<lparr>ps_id = rid, ps_index = j, ps_r = fst nonce, ps_big_r = snd nonce,
        ps_u_share = u, ps_z_share = beaver_share s ?d ?e, ps_u_com = commit E U, ps_z_com = commit E ?Z\<rparr>)
      (zip (c_ids c) (zip (shares_of c U) (map fst (triples_of E c A B C)))) = presigs_of E c rid nonce U ?Z"
    unfolding presigs_of_def triples_of_def map_map
    by (simp add: zip_map_both zip_map_self o_def beaver_share_def beaver_poly(1) [OF mult(4)])
  have "presign_bind E c rid (map (joint_output E X) (c_ids c)) (triples_of E c A B C)
      (map (joint_output E U) (c_ids c)) nonce = Ok (presigs_of E c rid nonce U ?Z)"
    unfolding presign_bind_def first ju jx of_opt_simps bindR.simps sh joint_output_simps snd_conv
      open_com_at Let_def beaver_masks_honest [OF assms(1,2) tn assms(4) mult(1) assms(5) mult(2)] prod.case
      beaver_com_honest [OF assms(1) mult(4)] recs ..
  moreover have "peval ?Z 0 = peval U 0 * peval X 0" by (rule beaver_product [OF mult(4,5) refl refl])
  moreover have "length ?Z \<le> c_t c" using mult by (simp add: beaver_poly(2))
  ultimately show ?thesis by blast
qed

text \<open>
  What a set of presignatures for the secret \<open>x\<close> must be: \<open>Z\<close> shares \<open>u * x\<close>, and the nonce point
  is that of \<open>1 / u\<close>. The values sit at the point \<open>s\<close>: zero for the base mode, a slot for packed ones.
\<close>

definition presig_ok :: "('f::field, 'g::ab_group_add, 'r) k256 \<Rightarrow> nat \<Rightarrow> 'f \<Rightarrow> 'f \<Rightarrow> 'f list \<Rightarrow> 'f list
    \<Rightarrow> 'f \<times> 'g \<Rightarrow> bool" where
  "presig_ok E q s x U Z nonce \<longleftrightarrow> length U \<le> q \<and> length Z \<le> q \<and> peval U s \<noteq> 0
     \<and> peval Z s = peval U s * x \<and> snd nonce = smul E (gen E) (inverse (peval U s))
     \<and> x_bytes E (snd nonce) \<noteq> None \<and> fst nonce = reduce E (the (x_bytes E (snd nonce))) \<and> fst nonce \<noteq> 0"

lemma triples_multiply:
  assumes "committee_wf c" "length A = c_t c" "length B = c_t c" "length C = c_t c"
    "peval C 0 = peval A 0 * peval B 0"
  shows "multiplies (c_t c) 0 A B C"
  using assms committee_wf_facts(3) [OF assms(1)] by (auto simp: multiplies_def)

lemma generate_multiplies:
  fixes E :: "('f::field, 'g::ab_group_add, 'r) k256"
  assumes "k256_ok E" "committee_wf c" "c_n c \<le> length rs"
  shows "\<exists>A B C rs'. generate_with_committee E c sid None rs = (Ok (triples_of E c A B C), rs')
    \<and> length rs' = length rs \<and> multiplies (c_t c) 0 A B C"
  using generate_honest [OF assms, of sid] triples_multiply [OF assms(2)] by blast

lemma check_inputs_honest:
  "c_n c \<le> length rs \<Longrightarrow> check_committee_inputs c (map (joint_output E X) (c_ids c)) rs = (Ok (), rs)"
  by (auto simp: check_committee_inputs_def c_n_def in_set_zip)

text \<open>The dealing phases, whose result does not depend on the later deviations.\<close>

lemma presign_dealt:
  fixes E :: "('f::field, 'g::ab_group_add, 'r) k256"
  assumes "k256_ok E" "committee_wf c" "c_n c \<le> length rs" "tt_of tamper = None"
  shows "\<exists>A B C A2 B2 C2 U V rs'. presign_with_committee E c (map (joint_output E X) (c_ids c)) rid tamper rs
      = (bindR (presign_nonce E c tamper (triples_of E c A B C) (map (joint_output E U) (c_ids c))
          (map (joint_output E V) (c_ids c))) (\<lambda>nonce.
        presign_bind E c rid (map (joint_output E X) (c_ids c)) (triples_of E c A2 B2 C2)
          (map (joint_output E U) (c_ids c)) nonce), rs') \<and> length rs' = length rs
    \<and> multiplies (c_t c) 0 A B C \<and> multiplies (c_t c) 0 A2 B2 C2 \<and> length U = c_t c \<and> length V = c_t c"
proof -
  let ?sid = "presign_sid rid" and ?keys = "map (joint_output E X) (c_ids c)"
  from generate_multiplies [OF assms(1-3), of "?sid @ str_bytes ''/t1''"] obtain A B C r1 where
    t1: "generate_with_committee E c (?sid @ str_bytes ''/t1'') None rs = (Ok (triples_of E c A B C), r1)"
      "length r1 = length rs" "multiplies (c_t c) 0 A B C" by blast
  then have "c_n c \<le> length r1" using assms(3) by simp
  from generate_multiplies [OF assms(1,2) this, of "?sid @ str_bytes ''/t2''"] obtain A2 B2 C2 r2 where
    t2: "generate_with_committee E c (?sid @ str_bytes ''/t2'') None r1 = (Ok (triples_of E c A2 B2 C2), r2)"
      "length r2 = length rs" "multiplies (c_t c) 0 A2 B2 C2"
    using t1(2) by metis
  then have "c_n c \<le> length r2" using assms(3) by simp
  from joint_random_honest [OF assms(1,2) this, of "?sid @ str_bytes ''/u''" Presign] obtain U r3 where
    u: "joint_random E c (?sid @ str_bytes ''/u'') Presign r2 = (Ok (map (joint_output E U) (c_ids c)), r3)"
      "length U = c_t c" "length r3 = length rs" using t2(2) by metis
  then have "c_n c \<le> length r3" using assms(3) by simp
  from joint_random_honest [OF assms(1,2) this, of "?sid @ str_bytes ''/a''" Presign] obtain V r4 where
    a: "joint_random E c (?sid @ str_bytes ''/a'') Presign r3 = (Ok (map (joint_output E V) (c_ids c)), r4)"
      "length V = c_t c" "length r4 = length rs" using u(3) by metis
  have "presign_with_committee E c ?keys rid tamper rs = (bindR (presign_nonce E c tamper (triples_of E c A B C)
      (map (joint_output E U) (c_ids c)) (map (joint_output E V) (c_ids c))) (\<lambda>nonce.
      presign_bind E c rid ?keys (triples_of E c A2 B2 C2) (map (joint_output E U) (c_ids c)) nonce), r4)"
    using t1(1) t2(1) u(1) a(1)
    by (simp add: presign_with_committee_def Let_def assms(4) bindS_def check_inputs_honest [OF assms(3)])
  with t1(3) t2(3) u(2) a(2,3) show ?thesis by blast
qed

lemma presign_honest:
  fixes E :: "('f::field, 'g::ab_group_add, 'r) k256"
  assumes "k256_ok E" "committee_wf c" "c_n c \<le> length rs" "length X \<le> c_t c"
  shows "\<exists>res rs'. presign_with_committee E c (map (joint_output E X) (c_ids c)) rid None rs = (res, rs')
    \<and> length rs' = length rs
    \<and> ((\<exists>U Z nonce. res = Ok (presigs_of E c rid nonce U Z) \<and> presig_ok E (c_t c) 0 (peval X 0) U Z nonce)
        \<or> res = Err (ZeroValue ''v = 0'') \<or> res = Err (ZeroValue ''r = 0''))"
proof -
  let ?keys = "map (joint_output E X) (c_ids c)"
  have "tt_of None = None" by (simp add: tt_of_def)
  from presign_dealt [OF assms(1-3) this, of X rid] obtain A B C A2 B2 C2 U V rs' where
    run: "presign_with_committee E c ?keys rid None rs = (bindR (presign_nonce E c None (triples_of E c A B C)
        (map (joint_output E U) (c_ids c)) (map (joint_output E V) (c_ids c))) (\<lambda>nonce.
        presign_bind E c rid ?keys (triples_of E c A2 B2 C2) (map (joint_output E U) (c_ids c)) nonce), rs')"
      "length rs' = length rs"
    and mult: "multiplies (c_t c) 0 A B C" "multiplies (c_t c) 0 A2 B2 C2" and len: "length U = c_t c" "length V = c_t c"
    by blast
  have lU: "length U \<le> c_t c" "length V \<le> c_t c" using len by simp_all
  note nonce = presign_nonce_honest [OF assms(1,2) mult(1) lU]
  show ?thesis
  proof (cases "peval U 0 = 0 \<or> peval V 0 = 0")
    case True
    then show ?thesis using run nonce by auto
  next
    case False
    then have k: "inverse (peval U 0) \<noteq> 0" by simp
    from nonce_of_cases [OF assms(1) k, of "''r = 0''"]
    show ?thesis
    proof (elim disjE exE conjE)
      assume "nonce_of E ''r = 0'' (inverse (peval U 0)) = Err (ZeroValue ''r = 0'')"
      then show ?thesis using run nonce False by auto
    next
      fix xb
      assume xb: "x_bytes E (smul E (gen E) (inverse (peval U 0))) = Some xb" "reduce E xb \<noteq> 0"
        "nonce_of E ''r = 0'' (inverse (peval U 0)) = Ok (reduce E xb, smul E (gen E) (inverse (peval U 0)))"
      let ?nc = "(reduce E xb, smul E (gen E) (inverse (peval U 0)))"
      from presign_bind_honest [OF assms(1,2) mult(2) lU(1) assms(4), of rid ?nc] obtain Z where
        Z: "length Z \<le> c_t c" "peval Z 0 = peval U 0 * peval X 0"
          "presign_bind E c rid ?keys (triples_of E c A2 B2 C2) (map (joint_output E U) (c_ids c)) ?nc
            = Ok (presigs_of E c rid ?nc U Z)" by blast
      have "presig_ok E (c_t c) 0 (peval X 0) U Z ?nc"
        using Z xb lU False by (simp add: presig_ok_def)
      then show ?thesis using run nonce False xb(3) Z(3)
        by (intro exI [of _ "Ok (presigs_of E c rid ?nc U Z)"] exI [of _ rs']) auto
    qed
  qed
qed

section \<open>Tweaks\<close>

lemma apply_tweak_records:
  "k256_ok E \<Longrightarrow> map (apply_tweak E tau) (presigs_of E c rid nonce U Z)
    = presigs_of E c rid nonce U (padd Z (pscale tau U))"
  by (simp add: presigs_of_def apply_tweak_def com_scale_commit com_add_commit mult.commute)

lemma apply_tweak_ok:
  "presig_ok E q s x U Z nonce \<Longrightarrow> presig_ok E q s (x + tau) U (padd Z (pscale tau U)) nonce"
  by (auto simp: presig_ok_def algebra_simps)

section \<open>The key-independent protocol between honest parties\<close>

definition ki_presigs_of :: "('f::comm_ring_1, 'g, 'r) k256 \<Rightarrow> committee \<Rightarrow> nat \<Rightarrow> 'f \<times> 'g \<Rightarrow> 'f list
    \<Rightarrow> ('f, 'g) ki_presignature list" where
  "ki_presigs_of E c rid nonce U = map (\<lambda>j. \<lparr>kp_id = rid, kp_index = j, kp_r = fst nonce,
     kp_big_r = snd nonce, kp_u_share = peval U (of_nat j), kp_u_com = commit E U\<rparr>) (c_ids c)"

lemma presign_ki_honest:
  fixes E :: "('f::field, 'g::ab_group_add, 'r) k256"
  assumes "k256_ok E" "committee_wf c" "c_n c \<le> length rs"
  shows "\<exists>res rs'. presign_ki_with_committee E c rid None rs = (res, rs') \<and> length rs' = length rs
    \<and> ((\<exists>U nonce. res = Ok (ki_presigs_of E c rid nonce U) \<and> presig_ok E (c_t c) 0 x U (pscale x U) nonce)
        \<or> res = Err (ZeroValue ''v = 0'') \<or> res = Err (ZeroValue ''r = 0''))"
proof -
  let ?sid = "presign_ki_sid rid"
  from generate_multiplies [OF assms(1-3), of "?sid @ str_bytes ''/t1''"] obtain A B C r1 where
    t1: "generate_with_committee E c (?sid @ str_bytes ''/t1'') None rs = (Ok (triples_of E c A B C), r1)"
      "length r1 = length rs" "multiplies (c_t c) 0 A B C" by blast
  then have "c_n c \<le> length r1" using assms(3) by simp
  from joint_random_honest [OF assms(1,2) this, of "?sid @ str_bytes ''/u''" Presign] obtain U r2 where
    u: "joint_random E c (?sid @ str_bytes ''/u'') Presign r1 = (Ok (map (joint_output E U) (c_ids c)), r2)"
      "length U = c_t c" "length r2 = length rs" using t1(2) by metis
  then have "c_n c \<le> length r2" using assms(3) by simp
  from joint_random_honest [OF assms(1,2) this, of "?sid @ str_bytes ''/a''" Presign] obtain V r3 where
    a: "joint_random E c (?sid @ str_bytes ''/a'') Presign r2 = (Ok (map (joint_output E V) (c_ids c)), r3)"
      "length V = c_t c" "length r3 = length rs" using u(3) by metis
  obtain j where ju: "nth_opt (map (joint_output E U) (c_ids c)) 0 = Some (joint_output E U j)"
    using outputs_first [OF assms(2)] by blast
  let ?nonce = "presign_nonce E c None (triples_of E c A B C) (map (joint_output E U) (c_ids c))
      (map (joint_output E V) (c_ids c))"
  have run: "presign_ki_with_committee E c rid None rs
      = (bindR ?nonce (\<lambda>nonce. Ok (ki_presigs_of E c rid nonce U)), r3)"
    using t1(1) u(1) a(1) assms(3) ju
    by (simp add: presign_ki_with_committee_def Let_def tt_of_def bindS_def ki_presigs_of_def zip_map_self
        o_def case_prod_unfold)
  have nonce: "?nonce = (if peval U 0 = 0 \<or> peval V 0 = 0 then Err (ZeroValue ''v = 0'')
       else nonce_of E ''r = 0'' (inverse (peval U 0)))"
    using u(2) a(2) by (intro presign_nonce_honest [OF assms(1,2) t1(3)]) simp_all
  show ?thesis
  proof (cases "peval U 0 = 0 \<or> peval V 0 = 0")
    case True
    then show ?thesis using run nonce a(3) by auto
  next
    case False
    then have k: "inverse (peval U 0) \<noteq> 0" by simp
    have "presig_ok E (c_t c) 0 x U (pscale x U) (reduce E xb, smul E (gen E) (inverse (peval U 0)))"
      if "x_bytes E (smul E (gen E) (inverse (peval U 0))) = Some xb" "reduce E xb \<noteq> 0" for xb
      using that u(2) False by (simp add: presig_ok_def)
    then show ?thesis using nonce_of_cases [OF assms(1) k, of "''r = 0''"] run nonce False a(3) by auto
  qed
qed

section \<open>Cheating in the openings and the nonce round\<close>

lemma bt_insert_keyed:
  assumes "sorted_wrt (<) ids" "j \<in> set ids"
  shows "bt_insert j v (map (\<lambda>i. (i, f i)) ids) = map (\<lambda>i. (i, if i = j then v else f i)) ids"
  using assms
proof (induction ids)
  case (Cons a ids)
  then show ?case
    by (cases "j = a") (auto simp: less_not_sym dest: less_not_refl3 intro!: map_cong)
qed simp

lemma tamper_share_hit:
  assumes "committee_wf c" "pt_bad_open_share tm = Some j" "j \<in> set (c_ids c)"
  shows "tamper_share (Some tm) (map (\<lambda>i. (i, f i)) (c_ids c))
    = map (\<lambda>i. (i, f i + (if i = j then 1 else 0))) (c_ids c)"
  using assms committee_map(2) [OF assms(1,3), of f] bt_insert_keyed [of "c_ids c" j "f j + 1" f]
  by (auto simp: tamper_share_def committee_wf_def intro!: map_cong)

lemma cheaters_hit:
  assumes "k256_ok E" "committee_wf c" "j \<in> set (c_ids c)"
  shows "cheaters E (commit E W) (map (\<lambda>i. (i, peval W (of_nat i) + (if i = j then 1 else 0))) (c_ids c)) = [j]"
  using filter_eq_singleton [OF committee_wf_facts(1) [OF assms(2)] assms(3)]
  by (simp add: cheaters_def filter_map o_def verify_share_commit [OF assms(1)])

lemma open_v_cheater:
  assumes "k256_ok E" "committee_wf c" "C \<noteq> []" "pt_bad_open_share tm = Some j" "j \<in> set (c_ids c)"
  shows "open_v E (\<lambda>com sh. open_at E x q com sh Presign) (c_ids c) (Some tm) msg (map fst (triples_of E c A B C))
      (public_of E A B C) d e = abort Presign [j] ''share failed commitment check during opening''"
  unfolding open_v_def beaver_com_honest [OF assms(1,3)] bindR.simps Let_def
    beaver_shares_honest [OF assms(2,3)] tamper_share_hit [OF assms(2,4,5)]
  by (simp add: open_at_cases cheaters_hit [OF assms(1,2,5)] abort_def)

lemma nonce_points_cheater:
  assumes "k256_ok E" "committee_wf c" "pt_bad_nonce_point tm = Some j" "j \<in> set (c_ids c)"
  shows "nonce_points E c (Some tm) detail (commit E A) (shares_of c A) v_inv = abort Presign [j] detail"
proof -
  let ?f = "\<lambda>i. let r_i = nonce_point E (Some tm) v_inv i (peval A (of_nat i))
      in if r_i \<noteq> com_eval_at E (com_scale E (commit E A) v_inv) i then abort Presign [i] detail else Ok r_i"
  have eval: "com_eval_at E (com_scale E (commit E A) v_inv) i = smul E (gen E) (v_inv * peval A (of_nat i))" for i
    by (simp add: com_scale_commit com_eval_at_commit assms(1) mult.commute)
  have bad: "?f j = abort Presign [j] detail"
    using assms(3) gen_nonzero [OF assms(1)] by (simp add: nonce_point_def eval)
  have good: "\<exists>y. ?f i = Ok y" if "i \<noteq> j" for i
    using that assms(3) by (simp add: nonce_point_def eval)
  have "mapR ?f ids = abort Presign [j] detail" if "j \<in> set ids" for ids
    using that
  proof (induction ids)
    case (Cons i ids)
    show ?case
    proof (cases "i = j")
      case True
      then show ?thesis using bad by (simp add: abort_def)
    next
      case False
      then obtain y where "?f i = Ok y" using good by blast
      moreover have "j \<in> set ids" using Cons.prems False by simp
      ultimately show ?thesis using Cons.IH by (simp add: abort_def)
    qed
  qed simp
  then show ?thesis
    using assms(4) by (simp add: nonce_points_def Let_def zip_map_self mapR_map)
qed

lemma presign_nonce_cheater:
  fixes E :: "('f::field, 'g::ab_group_add, 'r) k256"
  assumes "k256_ok E" "committee_wf c" "multiplies (c_t c) 0 A B C" "length U \<le> c_t c" "length V \<le> c_t c"
    and "j \<in> set (c_ids c)"
    and "pt_bad_open_share tm = Some j \<or> pt_bad_open_share tm = None \<and> pt_bad_nonce_point tm = Some j"
  shows "\<exists>d. presign_nonce E c (Some tm) (triples_of E c A B C) (map (joint_output E U) (c_ids c))
      (map (joint_output E V) (c_ids c)) \<in> {abort Presign [j] d, Err (ZeroValue ''v = 0'')}"
proof -
  note wf = committee_wf_facts [OF assms(2)]
  have tn: "c_t c \<le> c_n c" using wf(4) by (simp add: c_n_def)
  let ?d = "peval U 0 - peval A 0" and ?e = "peval V 0 - peval B 0"
  have mult: "length A \<le> c_t c" "length B \<le> c_t c" "length C \<le> c_t c" "C \<noteq> []"
    using assms(3) by (simp_all add: multiplies_def)
  obtain s where first: "nth_opt (triples_of E c A B C) 0 = Some (s, public_of E A B C)"
    using triples_of_first [OF assms(2)] by blast
  obtain i where ju: "nth_opt (map (joint_output E U) (c_ids c)) 0 = Some (joint_output E U i)"
    using outputs_first [OF assms(2)] by blast
  obtain i' where jv: "nth_opt (map (joint_output E V) (c_ids c)) 0 = Some (joint_output E V i')"
    using outputs_first [OF assms(2)] by blast
  have sh: "map o_share (map (joint_output E X) (c_ids c)) = shares_of c X" for X by simp
  note masks = beaver_masks_honest [OF assms(1,2) tn assms(4) mult(1) assms(5) mult(2)]
  note start = presign_nonce_def first ju jv of_opt_simps bindR.simps sh joint_output_simps snd_conv
      open_com_at Let_def masks prod.case
  show ?thesis
  proof (cases "pt_bad_open_share tm = Some j")
    case True
    show ?thesis
      unfolding start open_v_cheater [OF assms(1,2) mult(4) True assms(6)]
      by (auto simp: abort_def)
  next
    case False
    then have bad: "pt_bad_open_share tm = None" "pt_bad_nonce_point tm = Some j" using assms(7) by auto
    have same: "tamper_share (Some tm) = tamper_share None" using bad(1) by (simp add: tamper_share_def fun_eq_iff)
    have "open_v E opn ids (Some tm) = open_v E opn ids None" for opn ids
      by (intro ext) (simp only: open_v_def same)
    then show ?thesis
      unfolding start open_v_honest [OF assms(1,2) tn mult(4,1,2,3)] invert_v_value
      by (simp add: open_v_honest [OF assms(1,2) tn mult(4,1,2,3)] invert_v_value
          nonce_points_cheater [OF assms(1,2) bad(2) assms(6)] abort_def)
  qed
qed

lemma presign_cheater:
  fixes E :: "('f::field, 'g::ab_group_add, 'r) k256"
  assumes "k256_ok E" "committee_wf c" "c_n c \<le> length rs" "pt_triple_tamper tm = None" "j \<in> set (c_ids c)"
    and "pt_bad_open_share tm = Some j \<or> pt_bad_open_share tm = None \<and> pt_bad_nonce_point tm = Some j"
  shows "\<exists>d rs'. presign_with_committee E c (map (joint_output E X) (c_ids c)) rid (Some tm) rs
    \<in> {(abort Presign [j] d, rs'), (Err (ZeroValue ''v = 0''), rs')}"
proof -
  have "tt_of (Some tm) = None" using assms(4) by (simp add: tt_of_def)
  from presign_dealt [OF assms(1-3) this, of X rid] obtain A B C A2 B2 C2 U V rs' where
    run: "presign_with_committee E c (map (joint_output E X) (c_ids c)) rid (Some tm) rs
      = (bindR (presign_nonce E c (Some tm) (triples_of E c A B C)
        (map (joint_output E U) (c_ids c)) (map (joint_output E V) (c_ids c))) (\<lambda>nonce.
        presign_bind E c rid (map (joint_output E X) (c_ids c)) (triples_of E c A2 B2 C2)
          (map (joint_output E U) (c_ids c)) nonce), rs')"
    and mult: "multiplies (c_t c) 0 A B C" and len: "length U = c_t c" "length V = c_t c"
    by blast
  have "length U \<le> c_t c" "length V \<le> c_t c" using len by simp_all
  from presign_nonce_cheater [OF assms(1,2) mult this assms(5,6)] obtain d where
    "presign_nonce E c (Some tm) (triples_of E c A B C) (map (joint_output E U) (c_ids c))
      (map (joint_output E V) (c_ids c)) \<in> {abort Presign [j] d, Err (ZeroValue ''v = 0'')}" by blast
  then show ?thesis
    unfolding run by (intro exI [of _ d] exI [of _ rs']) (auto simp: abort_def)
qed

end
