(* ===== verification/Presign_Variants.thy ===== *)
theory Presign_Variants
  imports Presigning
begin

text \<open>
  The robust, batch and packed presign protocols (\<open>src/protocol/presign.rs\<close>). The robust one keeps
  a blame list and an active set; the other two run the blocks of \<open>Presigning\<close> per batch item or
  per slot, all items of one round before the next round.
\<close>

section \<open>The robust protocol\<close>

definition expel :: "party_id list \<times> party_id list \<Rightarrow> party_id list \<Rightarrow> party_id list \<times> party_id list" where
  \<comment> \<open>on \<open>(blamed, active)\<close>\<close>
  "expel st new = foldl (\<lambda>(blamed, active) j.
     (if j \<in> set blamed then blamed else blamed @ [j], filter (\<lambda>p. p \<noteq> j) active)) st new"

definition active_shares :: "committee \<Rightarrow> party_id list \<Rightarrow> (nat \<Rightarrow> 'f) \<Rightarrow> 'f btree result" where
  "active_shares c active pick =
     bindR (mapR (\<lambda>j. bindR (of_opt (position c j)) (\<lambda>k. Ok (j, pick k))) active) (\<lambda>xs.
       Ok (bt_of_list xs))"

definition nonce_filter :: "('f::field, 'g::ab_group_add, 'r) k256 \<Rightarrow> committee \<Rightarrow> presign_tamper option
    \<Rightarrow> 'g feldman \<Rightarrow> 'f list \<Rightarrow> 'f \<Rightarrow> party_id list \<Rightarrow> (party_id list \<times> 'g list \<times> party_id list) result" where
  \<comment> \<open>the P3 loop: valid senders, their points, and the senders of bad points\<close>
  "nonce_filter E c tamper a_com a_shares v_inv active =
     (let k_com = com_scale E a_com v_inv
      in foldR (\<lambda>j (valid, pts, bad).
           bindR (of_opt (position c j)) (\<lambda>k.
             let r_j = nonce_point E tamper v_inv j (a_shares ! k)
             in if r_j = com_eval_at E k_com j then Ok (valid @ [j], pts @ [r_j], bad)
                else Ok (valid, pts, bad @ [j]))) active ([], [], []))"

definition robust_masks :: "('f::field, 'g::ab_group_add, 'r) k256 \<Rightarrow> committee
    \<Rightarrow> party_id list \<times> party_id list \<Rightarrow> ('f, 'g) triple list \<Rightarrow> 'g triple_public
    \<Rightarrow> 'g feldman \<Rightarrow> 'f list \<Rightarrow> 'g feldman \<Rightarrow> 'f list
    \<Rightarrow> ('f \<times> 'f \<times> (party_id list \<times> party_id list)) result" where
  \<comment> \<open>two openings riding in one round, then one expulsion step\<close>
  "robust_masks E c st tr pub x_com xs y_com ys =
     bindR (active_shares c (snd st) (\<lambda>k. xs ! k - ts_a (fst (tr ! k)))) (\<lambda>ds.
     bindR (active_shares c (snd st) (\<lambda>k. ys ! k - ts_b (fst (tr ! k)))) (\<lambda>es.
     bindR (open_robust E (c_t c) (mask_com E x_com (tp_ca pub)) ds Presign) (\<lambda>(d, b_d).
     bindR (open_robust E (c_t c) (mask_com E y_com (tp_cb pub)) es Presign) (\<lambda>(e, b_e).
       Ok (d, e, expel (expel st b_d) b_e)))))"

definition robust_nonce :: "('f::field, 'g::ab_group_add, 'r) k256 \<Rightarrow> committee \<Rightarrow> presign_tamper option
    \<Rightarrow> ('f, 'g) triple list \<Rightarrow> 'g triple_public \<Rightarrow> 'g feldman \<Rightarrow> 'f list \<Rightarrow> 'g feldman \<Rightarrow> 'f list
    \<Rightarrow> (('f \<times> 'g) \<times> (party_id list \<times> party_id list)) result" where
  \<comment> \<open>P2 and P3\<close>
  "robust_nonce E c tamper t1 pub1 u_com u_shares a_com a_shares =
     bindR (robust_masks E c ([], c_ids c) t1 pub1 u_com u_shares a_com a_shares) (\<lambda>(delta, eps, st1).
     bindR (beaver_com E pub1 delta eps) (\<lambda>v_com.
     bindR (active_shares c (snd st1) (\<lambda>k. beaver_share (fst (t1 ! k)) delta eps)) (\<lambda>v_shares.
     bindR (open_robust E (c_t c) v_com (tamper_share tamper v_shares) Presign) (\<lambda>(v, b_v).
       let st2 = expel st1 b_v
       in bindR (invert_v ''v = 0'' v) (\<lambda>v_inv.
          bindR (nonce_filter E c tamper a_com a_shares v_inv (snd st2)) (\<lambda>(valid, pts, bad).
            let st3 = expel st2 bad
            in if length valid < c_t c then Err (NotEnoughShares (length valid) (c_t c))
               else bindR (lagrange_coeffs valid) (\<lambda>lambdas.
                    bindR (nonce_scalar E ''r = 0'' lambdas pts) (\<lambda>nonce. Ok (nonce, st3)))))))))"

definition robust_bind :: "('f::field, 'g::ab_group_add, 'r) k256 \<Rightarrow> committee \<Rightarrow> nat
    \<Rightarrow> ('f, 'g) key_share list \<Rightarrow> ('f, 'g) triple list \<Rightarrow> 'g triple_public \<Rightarrow> 'g feldman \<Rightarrow> 'f list
    \<Rightarrow> ('f \<times> 'g) \<times> (party_id list \<times> party_id list)
    \<Rightarrow> (('f, 'g) presignature list \<times> party_id list) result" where
  \<comment> \<open>P4 and the records of the survivors\<close>
  "robust_bind E c rid keys t2 pub2 u_com u_shares nst = (case nst of (nonce, st) \<Rightarrow>
     bindR (of_opt (nth_opt keys 0)) (\<lambda>key0.
     bindR (robust_masks E c st t2 pub2 u_com u_shares (o_com key0) (map o_share keys)) (\<lambda>(d2v, e2v, st').
     bindR (beaver_com E pub2 d2v e2v) (\<lambda>z_com.
     bindR (mapR (\<lambda>j. bindR (of_opt (position c j)) (\<lambda>k.
         Ok \<lparr>ps_id = rid, ps_index = j, ps_r = fst nonce, ps_big_r = snd nonce, ps_u_share = u_shares ! k,
             ps_z_share = beaver_share (fst (t2 ! k)) d2v e2v, ps_u_com = u_com, ps_z_com = z_com\<rparr>))
         (snd st')) (\<lambda>presigs. Ok (presigs, sort (fst st')))))))"

definition presign_robust_with_committee :: "('f::field, 'g::ab_group_add, 'r) k256 \<Rightarrow> committee
    \<Rightarrow> ('f, 'g) key_share list \<Rightarrow> nat \<Rightarrow> presign_tamper option
    \<Rightarrow> ('r, ('f, 'g) presignature list \<times> party_id list) protocol" where
  "presign_robust_with_committee E c keys rid tamper =
     bindS (check_committee_inputs c keys) (\<lambda>_.
     let sid = presign_sid rid in
     bindS (generate_with_committee E c (sid @ str_bytes ''/t1'') (tt_of tamper)) (\<lambda>t1.
     bindS (generate_with_committee E c (sid @ str_bytes ''/t2'') None) (\<lambda>t2.
     bindS (liftR (of_opt (nth_opt t1 0))) (\<lambda>first1. bindS (liftR (of_opt (nth_opt t2 0))) (\<lambda>first2.
     bindS (joint_random E c (sid @ str_bytes ''/u'') Presign) (\<lambda>u_out.
     bindS (joint_random E c (sid @ str_bytes ''/a'') Presign) (\<lambda>a_out.
     bindS (liftR (of_opt (nth_opt u_out 0))) (\<lambda>u0. bindS (liftR (of_opt (nth_opt a_out 0))) (\<lambda>a0.
       let u_shares = map o_share u_out; a_shares = map o_share a_out
       in liftR (bindR (robust_nonce E c tamper t1 (snd first1) (o_com u0) u_shares (o_com a0) a_shares)
            (robust_bind E c rid keys t2 (snd first2) (o_com u0) u_shares)))))))))))"

definition presign_robust :: "('f::field, 'g::ab_group_add, 'r) k256 \<Rightarrow> params \<Rightarrow> ('f, 'g) key_share list
    \<Rightarrow> nat \<Rightarrow> presign_tamper option \<Rightarrow> ('r, ('f, 'g) presignature list \<times> party_id list) protocol" where
  "presign_robust E p keys rid tamper =
     bindS (liftR (committee_full p)) (\<lambda>c. presign_robust_with_committee E c keys rid tamper)"

section \<open>The batch protocol\<close>

definition tamper_at :: "nat \<Rightarrow> presign_tamper option \<Rightarrow> presign_tamper option" where
  \<comment> \<open>the hooks apply to item 0\<close>
  "tamper_at b tamper = (if b = 0 then tamper else None)"

definition batch_sid :: "string \<Rightarrow> nat list \<Rightarrow> bytes" where
  "batch_sid prefix rids = str_bytes prefix @ concat (map u64_be rids)"

definition batch_records_of_items :: "committee \<Rightarrow> nat list \<Rightarrow> ('f \<times> 'g) list \<Rightarrow> (nat \<Rightarrow> nat \<Rightarrow> 'f)
    \<Rightarrow> (nat \<Rightarrow> 'g feldman) \<Rightarrow> (nat \<Rightarrow> nat \<Rightarrow> 'f triple_share) \<Rightarrow> ('f \<times> 'f \<times> 'g feldman) list
    \<Rightarrow> ('f::field, 'g) presignature list list" where
  \<comment> \<open>the final double loop: parties outside, items inside\<close>
  "batch_records_of_items c rids nonces u_share u_com t2s p4 =
     map (\<lambda>k. map (\<lambda>b. case p4 ! b of (d2v, e2v, z_com) \<Rightarrow>
         \<lparr>ps_id = rids ! b, ps_index = c_ids c ! k, ps_r = fst (nonces ! b), ps_big_r = snd (nonces ! b),
          ps_u_share = u_share k b, ps_z_share = beaver_share (t2s k b) d2v e2v, ps_u_com = u_com b,
          ps_z_com = z_com\<rparr>) [0..<length rids]) [0..<c_n c]"

definition batch_rounds_p2_p4 :: "('f::field, 'g::ab_group_add, 'r) k256 \<Rightarrow> committee
    \<Rightarrow> ('f, 'g) key_share list \<Rightarrow> nat list \<Rightarrow> presign_tamper option \<Rightarrow> ('f, 'g) triple list list
    \<Rightarrow> ('f, 'g) dkg_output list list \<Rightarrow> ('f, 'g) presignature list list result" where
  "batch_rounds_p2_p4 E c keys rids tamper triples joint =
     (let count = length rids;
          opn = (\<lambda>com sh. open_com E (c_t c) com sh Presign);
          u_shares = (\<lambda>b. map (\<lambda>outs. o_share (outs ! b)) joint);
          a_shares = (\<lambda>b. map (\<lambda>outs. o_share (outs ! (count + b))) joint);
          ts = (\<lambda>i. map (\<lambda>row. fst (row ! i)) triples)
      in bindR (of_opt (nth_opt triples 0)) (\<lambda>row0. bindR (of_opt (nth_opt joint 0)) (\<lambda>outs0.
         bindR (of_opt (nth_opt keys 0)) (\<lambda>key0. bindR (lagrange_coeffs (c_ids c)) (\<lambda>lambdas.
         bindR (mapR (\<lambda>b.
             bindR (beaver_masks E opn (c_ids c) (ts (2 * b)) (snd (row0 ! (2 * b)))
                 (o_com (outs0 ! b)) (u_shares b) (o_com (outs0 ! (count + b))) (a_shares b)) (\<lambda>(delta, eps).
               open_v E opn (c_ids c) (tamper_at b tamper) (''v = 0 at batch index '' @ dec_str b)
                 (ts (2 * b)) (snd (row0 ! (2 * b))) delta eps)) [0..<count]) (\<lambda>v_invs.
         bindR (mapR (\<lambda>b.
             bindR (nonce_points E c (tamper_at b tamper)
                 (''invalid nonce point R_j (batch index '' @ dec_str b @ '')'')
                 (o_com (outs0 ! (count + b))) (a_shares b) (v_invs ! b)) (\<lambda>r_points.
               nonce_scalar E (''r = 0 at batch index '' @ dec_str b) lambdas r_points)) [0..<count]) (\<lambda>nonces.
         bindR (mapR (\<lambda>b.
             bindR (beaver_masks E opn (c_ids c) (ts (2 * b + 1)) (snd (row0 ! (2 * b + 1)))
                 (o_com (outs0 ! b)) (u_shares b) (o_com key0) (map o_share keys)) (\<lambda>(d2v, e2v).
             bindR (beaver_com E (snd (row0 ! (2 * b + 1))) d2v e2v) (\<lambda>z_com.
               Ok (d2v, e2v, z_com)))) [0..<count]) (\<lambda>p4.
           Ok (batch_records_of_items c rids nonces (\<lambda>k b. o_share (joint ! k ! b)) (\<lambda>b. o_com (outs0 ! b))
             (\<lambda>k b. fst (triples ! k ! (2 * b + 1))) p4)))))))))"

definition presign_batch_with_committee :: "('f::field, 'g::ab_group_add, 'r) k256 \<Rightarrow> committee
    \<Rightarrow> ('f, 'g) key_share list \<Rightarrow> nat list \<Rightarrow> presign_tamper option
    \<Rightarrow> ('r, ('f, 'g) presignature list list) protocol" where
  "presign_batch_with_committee E c keys rids tamper =
     bindS (check_committee_inputs c keys) (\<lambda>_.
       if length rids = 0 then liftR (Err (InvalidParams ''empty presignature batch''))
       else let sid = batch_sid ''ohm-ecdsa/presign-batch'' rids in
       bindS (generate_batch_with_committee E c (sid @ str_bytes ''/triples'') (wmul 2 (length rids)) None) (\<lambda>triples.
       bindS (joint_random_batch E c (sid @ str_bytes ''/ua'') Presign (wmul 2 (length rids))) (\<lambda>joint.
         liftR (batch_rounds_p2_p4 E c keys rids tamper triples joint))))"

definition presign_batch :: "('f::field, 'g::ab_group_add, 'r) k256 \<Rightarrow> params \<Rightarrow> ('f, 'g) key_share list
    \<Rightarrow> nat list \<Rightarrow> presign_tamper option \<Rightarrow> ('r, ('f, 'g) presignature list list) protocol" where
  "presign_batch E p keys rids tamper =
     bindS (liftR (committee_full p)) (\<lambda>c. presign_batch_with_committee E c keys rids tamper)"

section \<open>The packed protocol\<close>

definition deal_uax :: "('f::field, 'g, 'r) k256 \<Rightarrow> nat \<Rightarrow> nat \<Rightarrow> nat \<Rightarrow> 'f \<Rightarrow> 'r \<Rightarrow> 'f shamir_poly list \<times> 'r" where
  \<comment> \<open>one party's three polynomials of P1\<close>
  "deal_uax E d b_pack t val rng =
     (case rnd E rng of (s1, r1) \<Rightarrow> case shamir_random E s1 (d + 1) r1 of (p1, r2) \<Rightarrow>
      case rnd E r2 of (s2, r3) \<Rightarrow> case shamir_random E s2 (d + 1) r3 of (p2, r4) \<Rightarrow>
      case shamir_random_packed_const E val b_pack t r4 of (p3, r5) \<Rightarrow> ([p1, p2, p3], r5))"

definition key_bound :: "('f::field, 'g::ab_group_add, 'r) k256 \<Rightarrow> nat \<Rightarrow> 'g feldman
    \<Rightarrow> 'g dkg_batch_bcast2 btree \<Rightarrow> party_id \<times> 'f \<Rightarrow> unit result" where
  \<comment> \<open>the public slot binding of one dealer's key re-sharing\<close>
  "key_bound E b_pack key_com revealed jl = (case jl of (j, lam) \<Rightarrow>
     bindR (of_opt (bt_get revealed j)) (\<lambda>b2. bindR (of_opt (nth_opt (bb2_coms b2) 2)) (\<lambda>com.
       let bound = smul E (com_eval_at E key_com j) lam
       in if \<exists>b \<in> set [0..<b_pack]. com_eval_at_point E com (slot_point b) \<noteq> bound
          then abort Presign [j] ''packed key re-sharing violates the slot binding'' else Ok ())))"

definition packed_rounds_p2_p4 :: "('f::field, 'g::ab_group_add, 'r) k256 \<Rightarrow> committee \<Rightarrow> nat list
    \<Rightarrow> nat \<Rightarrow> presign_tamper option \<Rightarrow> ('f, 'g) triple list list \<Rightarrow> ('f, 'g) triple list list
    \<Rightarrow> ('f, 'g) dkg_output list list \<Rightarrow> ('f, 'g) presignature list list result" where
  "packed_rounds_p2_p4 E c rids quorum tamper t1 t2 joint =
     (let count = length rids;
          opn = (\<lambda>b com sh. open_at E (slot_point b) quorum com sh Presign);
          u_shares = map (\<lambda>outs. o_share (outs ! 0)) joint;
          a_shares = map (\<lambda>outs. o_share (outs ! 1)) joint;
          x_shares = map (\<lambda>outs. o_share (outs ! 2)) joint;
          ts1 = (\<lambda>b. map (\<lambda>row. fst (row ! b)) t1); ts2 = (\<lambda>b. map (\<lambda>row. fst (row ! b)) t2)
      in bindR (of_opt (nth_opt joint 0)) (\<lambda>outs0. bindR (of_opt (nth_opt t1 0)) (\<lambda>row1.
         bindR (of_opt (nth_opt t2 0)) (\<lambda>row2. bindR (packed_lambdas c count) (\<lambda>slot_lambdas.
         let u_com = o_com (outs0 ! 0); a_com = o_com (outs0 ! 1); x_com = o_com (outs0 ! 2);
             delta_com = mask_com E u_com (tp_ca (snd (row1 ! 0)));
             eps_com = mask_com E a_com (tp_cb (snd (row1 ! 0)));
             delta_shares = mask_shares (c_ids c) u_shares (map ts_a (ts1 0));
             eps_shares = mask_shares (c_ids c) a_shares (map ts_b (ts1 0));
             d2_com = mask_com E u_com (tp_ca (snd (row2 ! 0)));
             e2_com = mask_com E x_com (tp_cb (snd (row2 ! 0)));
             d2_shares = mask_shares (c_ids c) u_shares (map ts_a (ts2 0));
             e2_shares = mask_shares (c_ids c) x_shares (map ts_b (ts2 0))
         in
         bindR (mapR (\<lambda>b. opn b delta_com delta_shares) [0..<count]) (\<lambda>deltas.
         bindR (mapR (\<lambda>b. opn b eps_com eps_shares) [0..<count]) (\<lambda>epsilons.
         bindR (mapR (\<lambda>b. open_v E (opn b) (c_ids c) (tamper_at b tamper)
               (''v = 0 at packed slot '' @ dec_str b) (ts1 b) (snd (row1 ! b)) (deltas ! b) (epsilons ! b))
             [0..<count]) (\<lambda>v_invs.
         bindR (mapR (\<lambda>b.
             bindR (nonce_points E c (tamper_at b tamper)
                 (''invalid nonce point R_j (packed slot '' @ dec_str b @ '')'') a_com a_shares (v_invs ! b)) (\<lambda>r_points.
               nonce_scalar E (''r = 0 at packed slot '' @ dec_str b) (slot_lambdas ! b) r_points)) [0..<count]) (\<lambda>nonces.
         bindR (mapR (\<lambda>b. opn b d2_com d2_shares) [0..<count]) (\<lambda>d2s.
         bindR (mapR (\<lambda>b. opn b e2_com e2_shares) [0..<count]) (\<lambda>e2s.
         bindR (mapR (\<lambda>b. bindR (beaver_com E (snd (row2 ! b)) (d2s ! b) (e2s ! b)) (\<lambda>z_com.
             Ok (d2s ! b, e2s ! b, z_com))) [0..<count]) (\<lambda>p4.
           Ok (batch_records_of_items c rids nonces (\<lambda>k b. u_shares ! k) (\<lambda>b. u_com)
             (\<lambda>k b. fst (t2 ! k ! b)) p4)))))))))))))"

definition presign_packed_with_committee :: "('f::field, 'g::ab_group_add, 'r) k256 \<Rightarrow> committee
    \<Rightarrow> ('f, 'g) key_share list \<Rightarrow> nat list \<Rightarrow> nat \<Rightarrow> presign_tamper option
    \<Rightarrow> ('r, ('f, 'g) presignature list list) protocol" where
  "presign_packed_with_committee E c keys rids b_pack tamper =
     bindS (check_committee_inputs c keys) (\<lambda>_.
       if length rids = 0 then liftR (Err (InvalidParams ''empty presignature batch''))
       else if length rids \<noteq> b_pack
       then liftR (Err (InvalidParams ''ids must match the packed batch size B''))
       else if c_n c < wsub (wadd (wmul 2 (c_t c)) (wmul 2 b_pack)) 3
       then liftR (Err (InvalidParams (''packed mode requires n >= 2t + 2B - 3 (SPEC '' @ section_sign @ ''7.4.1)'')))
       else let d = packed_degree (c_t c) b_pack; sid = batch_sid ''ohm-ecdsa/presign-packed'' rids in
       bindS (generate_packed_with_committee E c (sid @ str_bytes ''/t1'') b_pack (tt_of tamper)) (\<lambda>t1.
       bindS (generate_packed_with_committee E c (sid @ str_bytes ''/t2'') b_pack None) (\<lambda>t2.
       bindS (liftR (lagrange_coeffs (c_ids c))) (\<lambda>key_lambdas.
       bindS (mapS (\<lambda>(k, lam, key). with_rng k (deal_uax E d b_pack (c_t c) (lam * o_share key)))
           (List.enumerate 0 (zip key_lambdas keys))) (\<lambda>polys.
       bindS (liftR (joint_deal E c (sid @ str_bytes ''/uax'') Presign polys)) (\<lambda>(joint, revealed).
       bindS (liftR (of_opt (nth_opt keys 0))) (\<lambda>key0.
       bindS (liftR (foldR (\<lambda>jl _. key_bound E b_pack (o_com key0) revealed jl) (zip (c_ids c) key_lambdas) ())) (\<lambda>_.
         liftR (packed_rounds_p2_p4 E c rids (d + 1) tamper t1 t2 joint)))))))))"

definition presign_packed :: "('f::field, 'g::ab_group_add, 'r) k256 \<Rightarrow> params \<Rightarrow> ('f, 'g) key_share list
    \<Rightarrow> nat list \<Rightarrow> presign_tamper option \<Rightarrow> ('r, ('f, 'g) presignature list list) protocol" where
  "presign_packed E p keys rids tamper =
     bindS (liftR (committee_full p)) (\<lambda>c. presign_packed_with_committee E c keys rids (length rids) tamper)"

section \<open>One item of a batch, at one evaluation point\<close>

lemma item_v_honest:
  fixes E :: "('f::field, 'g::ab_group_add, 'r) k256"
  assumes "k256_ok E" "committee_wf c" "q \<le> c_n c" "multiplies q x A B C" "length U \<le> q" "length V \<le> q"
  shows "bindR (beaver_masks E (\<lambda>com sh. open_at E x q com sh ph) (c_ids c) (map fst (triples_of E c A B C))
        (public_of E A B C) (commit E U) (shares_of c U) (commit E V) (shares_of c V)) (\<lambda>(delta, eps).
      open_v E (\<lambda>com sh. open_at E x q com sh ph) (c_ids c) None msg (map fst (triples_of E c A B C))
        (public_of E A B C) delta eps)
    = (if peval U x * peval V x = 0 then Err (ZeroValue msg) else Ok (inverse (peval U x * peval V x)))"
proof -
  have mult: "length A \<le> q" "length B \<le> q" "length C \<le> q" "C \<noteq> []" "peval C x = peval A x * peval B x"
    using assms(4) by (simp_all add: multiplies_def)
  show ?thesis
    unfolding beaver_masks_honest [OF assms(1-3,5) mult(1) assms(6) mult(2)] bindR.simps prod.case
      open_v_honest [OF assms(1-3) mult(4,1,2,3)] beaver_product [OF mult(4,5) refl refl] invert_v_value ..
qed

lemma item_nonce_honest:
  fixes E :: "('f::field, 'g::ab_group_add, 'r) k256"
  assumes "k256_ok E" "weights_at c x Lam" "length V \<le> c_n c" "peval U x * peval V x \<noteq> 0"
  shows "bindR (nonce_points E c None detail (commit E V) (shares_of c V) (inverse (peval U x * peval V x)))
      (\<lambda>r_points. nonce_scalar E msg (map Lam (c_ids c)) r_points) = nonce_of E msg (inverse (peval U x))"
proof -
  have k: "inverse (peval U x * peval V x) * peval V x = inverse (peval U x)"
    using assms(4) by (simp add: field_simps)
  show ?thesis
    unfolding nonce_points_honest [OF assms(1)] bindR.simps nonce_scalar_honest [OF assms(1-3)] k ..
qed

lemma item_z_honest:
  fixes E :: "('f::field, 'g::ab_group_add, 'r) k256"
  assumes "k256_ok E" "committee_wf c" "q \<le> c_n c" "multiplies q x A B C" "length U \<le> q" "length X \<le> q"
  shows "bindR (beaver_masks E (\<lambda>com sh. open_at E x q com sh ph) (c_ids c) (map fst (triples_of E c A B C))
        (public_of E A B C) (commit E U) (shares_of c U) (commit E X) (shares_of c X)) (\<lambda>(d2v, e2v).
      bindR (beaver_com E (public_of E A B C) d2v e2v) (\<lambda>z_com. Ok (d2v, e2v, z_com)))
    = Ok (peval U x - peval A x, peval X x - peval B x,
        commit E (beaver_poly A B C (peval U x - peval A x) (peval X x - peval B x)))"
proof -
  have mult: "length A \<le> q" "length B \<le> q" "C \<noteq> []" using assms(4) by (simp_all add: multiplies_def)
  show ?thesis
    unfolding beaver_masks_honest [OF assms(1-3,5) mult(1) assms(6) mult(2)] bindR.simps prod.case
      beaver_com_honest [OF assms(1) mult(3)] ..
qed

lemma item_z_poly:
  assumes "multiplies q x A B C"
    and "Z = beaver_poly A B C (peval U x - peval A x) (peval X x - peval (B :: 'f::comm_ring_1 list) x)"
  shows "length Z \<le> q" "peval Z x = peval U x * peval X x"
  using assms beaver_product [of C x A B _ U _ X] by (auto simp: multiplies_def beaver_poly(2))

section \<open>The batch protocol between honest parties\<close>

lemma batch_rows:
  assumes "i < count"
  shows "map (\<lambda>row. fst (row ! i)) (batch_triples_of E c count A B C) = map fst (triples_of E c (A i) (B i) (C i))"
    and "k < c_n c \<Longrightarrow> batch_triples_of E c count A B C ! k ! i = triples_of E c (A i) (B i) (C i) ! k"
  using assms by (auto simp: batch_triples_of_def triples_of_def c_n_def intro!: nth_equalityI)

lemma triples_public: "k < c_n c \<Longrightarrow> snd (triples_of E c A B C ! k) = public_of E A B C"
  by (simp add: triples_of_def public_of_def c_n_def)

lemma batch_outputs:
  assumes "i < count"
  shows "map (\<lambda>outs. o_share (outs ! i)) (map (\<lambda>j. map (\<lambda>b. joint_output E (cs b) j) [0..<count]) (c_ids c))
    = shares_of c (cs i)"
  using assms by simp

definition batch_presigs_of :: "('f::comm_ring_1, 'g, 'r) k256 \<Rightarrow> committee \<Rightarrow> nat list \<Rightarrow> (nat \<Rightarrow> 'f \<times> 'g)
    \<Rightarrow> (nat \<Rightarrow> 'f list) \<Rightarrow> (nat \<Rightarrow> 'f list) \<Rightarrow> ('f, 'g) presignature list list" where
  "batch_presigs_of E c rids nonce U Z =
     map (\<lambda>k. map (\<lambda>b. presigs_of E c (rids ! b) (nonce b) (U b) (Z b) ! k) [0..<length rids]) [0..<c_n c]"

lemma batch_records_of_items:
  assumes "\<And>b. b < length rids \<Longrightarrow> p4 ! b = (d b, e b, commit E (beaver_poly (A b) (B b) (C b) (d b) (e b)))"
    and "\<And>b. b < length rids \<Longrightarrow> C b \<noteq> []" and "\<And>b. b < length rids \<Longrightarrow> nonces ! b = nonce b"
    and "\<And>k b. k < c_n c \<Longrightarrow> b < length rids \<Longrightarrow> u_share k b = peval (U b) (of_nat (c_ids c ! k))"
    and "\<And>b. b < length rids \<Longrightarrow> u_com b = commit E (U b)"
    and "\<And>k b. k < c_n c \<Longrightarrow> b < length rids \<Longrightarrow> t2s k b = fst (triples_of E c (A b) (B b) (C b) ! k)"
  shows "batch_records_of_items c rids nonces u_share u_com t2s p4
    = batch_presigs_of E c rids nonce U (\<lambda>b. beaver_poly (A b) (B b) (C b) (d b) (e b))"
  unfolding batch_records_of_items_def batch_presigs_of_def presigs_of_def
  using assms
  by (intro map_cong refl) (auto simp: c_n_def triples_of_def beaver_share_def beaver_poly(1))

text \<open>What the three rounds return, given what each does for one item.\<close>

lemma rounds_cases:
  assumes P2: "\<And>b. b < count \<Longrightarrow> pv b = (if u b * v b = 0 then Err (ZeroValue (mv b)) else Ok (inverse (u b * v b)))"
    and P3: "\<And>b. b < count \<Longrightarrow> u b * v b \<noteq> 0 \<Longrightarrow> pn b (inverse (u b * v b)) = nonce_of E (mn b) (inverse (u b))"
    and ok: "k256_ok (E :: ('f::field, 'g::ab_group_add, 'r) k256)"
  shows "(\<exists>nonce. (\<forall>b < count. u b \<noteq> 0 \<and> snd (nonce b) = smul E (gen E) (inverse (u b))
          \<and> x_bytes E (snd (nonce b)) \<noteq> None \<and> fst (nonce b) = reduce E (the (x_bytes E (snd (nonce b))))
          \<and> fst (nonce b) \<noteq> 0)
        \<and> bindR (mapR pv [0..<count]) (\<lambda>v_invs. bindR (mapR (\<lambda>b. pn b (v_invs ! b)) [0..<count]) K)
          = K (map nonce [0..<count]))
    \<or> (\<exists>msg. bindR (mapR pv [0..<count]) (\<lambda>v_invs. bindR (mapR (\<lambda>b. pn b (v_invs ! b)) [0..<count]) K)
          = Err (ZeroValue msg))"
proof -
  have "(pv b = Ok (inverse (u b * v b)) \<and> u b * v b \<noteq> 0) \<or> (\<exists>e. pv b = Err e \<and> (\<exists>m. e = ZeroValue m))"
    if "b \<in> set [0..<count]" for b
    using P2 [of b] that by (cases "u b * v b = 0") simp_all
  from mapR_stop [where f = pv and xs = "[0..<count]" and g = "\<lambda>b. inverse (u b * v b)" and P = "\<lambda>b. u b * v b \<noteq> 0"
      and Q = "\<lambda>_ e. \<exists>m. e = ZeroValue m", OF this]
  consider (v) "mapR pv [0..<count] = Ok (map (\<lambda>b. inverse (u b * v b)) [0..<count])" "\<forall>b < count. u b * v b \<noteq> 0"
    | (zero) m where "mapR pv [0..<count] = Err (ZeroValue m)" by fastforce
  then show ?thesis
  proof cases
    case zero
    then show ?thesis by auto
  next
    case v
    let ?pn = "\<lambda>b. pn b (map (\<lambda>b. inverse (u b * v b)) [0..<count] ! b)"
    define nonce where "nonce b = (reduce E (the (x_bytes E (smul E (gen E) (inverse (u b))))),
        smul E (gen E) (inverse (u b)))" for b
    have "(?pn b = Ok (nonce b) \<and> x_bytes E (snd (nonce b)) \<noteq> None \<and> fst (nonce b) \<noteq> 0)
        \<or> (\<exists>e. ?pn b = Err e \<and> (\<exists>m. e = ZeroValue m))" if "b \<in> set [0..<count]" for b
    proof -
      have b: "b < count" "u b * v b \<noteq> 0" using that v(2) by auto
      then have "?pn b = nonce_of E (mn b) (inverse (u b))" using P3 by simp
      moreover have "inverse (u b) \<noteq> 0" using b(2) by simp
      ultimately show ?thesis
        using nonce_of_cases [OF ok, of "inverse (u b)" "mn b"] by (auto simp: nonce_def)
    qed
    from mapR_stop [where f = ?pn and xs = "[0..<count]" and g = nonce and P = "\<lambda>b. x_bytes E (snd (nonce b)) \<noteq> None \<and> fst (nonce b) \<noteq> 0"
        and Q = "\<lambda>_ e. \<exists>m. e = ZeroValue m", OF this]
    consider (r) "mapR ?pn [0..<count] = Ok (map nonce [0..<count])"
        "\<forall>b < count. x_bytes E (snd (nonce b)) \<noteq> None \<and> fst (nonce b) \<noteq> 0"
      | (zero) m where "mapR ?pn [0..<count] = Err (ZeroValue m)" by fastforce
    then show ?thesis
    proof cases
      case zero
      then show ?thesis using v(1) by auto
    next
      case r
      have "u b \<noteq> 0 \<and> snd (nonce b) = smul E (gen E) (inverse (u b)) \<and> x_bytes E (snd (nonce b)) \<noteq> None
          \<and> fst (nonce b) = reduce E (the (x_bytes E (snd (nonce b)))) \<and> fst (nonce b) \<noteq> 0" if "b < count" for b
        using r(2) v(2) that by (auto simp: nonce_def)
      then show ?thesis
        by (intro disjI1 exI [of _ nonce] conjI) (blast, simp only: v(1) r(1) bindR.simps)
    qed
  qed
qed

definition batch_presigs_ok :: "('f::field, 'g::ab_group_add, 'r) k256 \<Rightarrow> nat \<Rightarrow> (nat \<Rightarrow> 'f) \<Rightarrow> 'f \<Rightarrow> nat
    \<Rightarrow> (nat \<Rightarrow> 'f list) \<Rightarrow> (nat \<Rightarrow> 'f list) \<Rightarrow> (nat \<Rightarrow> 'f \<times> 'g) \<Rightarrow> bool" where
  "batch_presigs_ok E q at x count U Z nonce \<longleftrightarrow> (\<forall>b < count. presig_ok E q (at b) x (U b) (Z b) (nonce b))"

lemma batch_p2_p4_honest:
  fixes E :: "('f::field, 'g::ab_group_add, 'r) k256"
  assumes "k256_ok E" "committee_wf c" "length X \<le> c_t c"
    and tr: "\<And>i. i < 2 * length rids \<Longrightarrow> multiplies (c_t c) 0 (A i) (B i) (C i)"
    and cs: "\<And>b. b < 2 * length rids \<Longrightarrow> length (cs b) \<le> c_t c"
  shows "(\<exists>Z nonce. batch_rounds_p2_p4 E c (map (joint_output E X) (c_ids c)) rids None
        (batch_triples_of E c (2 * length rids) A B C)
        (map (\<lambda>j. map (\<lambda>b. joint_output E (cs b) j) [0..<2 * length rids]) (c_ids c))
      = Ok (batch_presigs_of E c rids nonce cs Z)
      \<and> batch_presigs_ok E (c_t c) (\<lambda>_. 0) (peval X 0) (length rids) cs Z nonce)
    \<or> (\<exists>msg. batch_rounds_p2_p4 E c (map (joint_output E X) (c_ids c)) rids None
        (batch_triples_of E c (2 * length rids) A B C)
        (map (\<lambda>j. map (\<lambda>b. joint_output E (cs b) j) [0..<2 * length rids]) (c_ids c)) = Err (ZeroValue msg))"
proof -
  note wf = committee_wf_facts [OF assms(2)]
  have tn: "c_t c \<le> c_n c" and n0: "0 < c_n c" using wf(2,4) by (simp_all add: c_n_def)
  let ?n = "length rids"
  let ?keys = "map (joint_output E X) (c_ids c)" and ?tr = "batch_triples_of E c (2 * ?n) A B C"
  let ?joint = "map (\<lambda>j. map (\<lambda>b. joint_output E (cs b) j) [0..<2 * ?n]) (c_ids c)"
  let ?opn = "\<lambda>com sh. open_at E 0 (c_t c) com sh Presign"
  obtain Lam where Lam: "lagrange_coeffs (c_ids c) = Ok (map Lam (c_ids c))" "weights_at c (0 :: 'f) Lam"
    using committee_weights [OF assms(1,2), of 0] by (auto simp: lagrange_coeffs_def)
  have rows: "nth_opt ?tr 0 = Some (?tr ! 0)" "nth_opt ?joint 0 = Some (?joint ! 0)"
    using n0 by (simp_all add: batch_triples_of_def c_n_def)
  obtain i0 where key: "nth_opt ?keys 0 = Some (joint_output E X i0)" using outputs_first [OF assms(2)] by blast
  have pubs: "snd (?tr ! 0 ! i) = public_of E (A i) (B i) (C i)" if "i < 2 * ?n" for i
    by (simp add: batch_rows(2) [OF that n0] triples_public n0)
  have first: "o_com (?joint ! 0 ! b) = commit E (cs b)" if "b < 2 * ?n" for b
    using that n0 by (simp add: c_n_def)
  let ?p2 = "\<lambda>b. bindR (beaver_masks E ?opn (c_ids c) (map (\<lambda>row. fst (row ! (2 * b))) ?tr) (snd (?tr ! 0 ! (2 * b)))
         (o_com (?joint ! 0 ! b)) (map (\<lambda>outs. o_share (outs ! b)) ?joint) (o_com (?joint ! 0 ! (?n + b)))
         (map (\<lambda>outs. o_share (outs ! (?n + b))) ?joint)) (\<lambda>(delta, eps).
       open_v E ?opn (c_ids c) (tamper_at b None) (''v = 0 at batch index '' @ dec_str b)
         (map (\<lambda>row. fst (row ! (2 * b))) ?tr) (snd (?tr ! 0 ! (2 * b))) delta eps)"
  let ?p3 = "\<lambda>b vi. bindR (nonce_points E c (tamper_at b None)
         (''invalid nonce point R_j (batch index '' @ dec_str b @ '')'')
         (o_com (?joint ! 0 ! (?n + b))) (map (\<lambda>outs. o_share (outs ! (?n + b))) ?joint) vi) (\<lambda>r_points.
       nonce_scalar E (''r = 0 at batch index '' @ dec_str b) (map Lam (c_ids c)) r_points)"
  let ?p4 = "\<lambda>b. bindR (beaver_masks E ?opn (c_ids c) (map (\<lambda>row. fst (row ! (2 * b + 1))) ?tr)
         (snd (?tr ! 0 ! (2 * b + 1))) (o_com (?joint ! 0 ! b)) (map (\<lambda>outs. o_share (outs ! b)) ?joint)
         (commit E X) (map o_share ?keys)) (\<lambda>(d2v, e2v).
       bindR (beaver_com E (snd (?tr ! 0 ! (2 * b + 1))) d2v e2v) (\<lambda>z_com. Ok (d2v, e2v, z_com)))"
  let ?d = "\<lambda>b. peval (cs b) 0 - peval (A (2 * b + 1)) 0" and ?e = "\<lambda>b. peval X 0 - peval (B (2 * b + 1)) 0"
  let ?Z = "\<lambda>b. beaver_poly (A (2 * b + 1)) (B (2 * b + 1)) (C (2 * b + 1)) (?d b) (?e b)"
  have sh: "map o_share ?keys = shares_of c X" by simp
  have none: "tamper_at b None = None" for b by (simp add: tamper_at_def)
  let ?u = "\<lambda>b. peval (cs b) 0" and ?v = "\<lambda>b. peval (cs (?n + b)) 0"
  have P2: "?p2 b = (if ?u b * ?v b = 0 then Err (ZeroValue (''v = 0 at batch index '' @ dec_str b))
      else Ok (inverse (?u b * ?v b)))" if "b < ?n" for b
  proof -
    have i: "2 * b < 2 * ?n" "b < 2 * ?n" "?n + b < 2 * ?n" using that by simp_all
    show ?thesis
      unfolding batch_rows(1) [OF i(1)] pubs [OF i(1)] first [OF i(2)] first [OF i(3)] batch_outputs [OF i(2)]
        batch_outputs [OF i(3)] none
      by (rule item_v_honest [OF assms(1,2) tn tr [OF i(1)] cs [OF i(2)] cs [OF i(3)]])
  qed
  have P3: "?p3 b (inverse (?u b * ?v b)) = nonce_of E (''r = 0 at batch index '' @ dec_str b) (inverse (?u b))"
    if "b < ?n" "?u b * ?v b \<noteq> 0" for b
  proof -
    have i: "?n + b < 2 * ?n" using that(1) by simp
    have "length (cs (?n + b)) \<le> c_n c" using cs [OF i] tn by simp
    then show ?thesis unfolding first [OF i] batch_outputs [OF i] none
      by (rule item_nonce_honest [OF assms(1) Lam(2) _ that(2)])
  qed
  have P4: "mapR ?p4 [0..<?n] = Ok (map (\<lambda>b. (?d b, ?e b, commit E (?Z b))) [0..<?n])"
  proof (rule mapR_Ok)
    fix b
    assume "b \<in> set [0..<?n]"
    then have i: "2 * b + 1 < 2 * ?n" "b < 2 * ?n" by auto
    show "?p4 b = Ok (?d b, ?e b, commit E (?Z b))"
      unfolding batch_rows(1) [OF i(1)] pubs [OF i(1)] first [OF i(2)] batch_outputs [OF i(2)] sh
      by (rule item_z_honest [OF assms(1,2) tn tr [OF i(1)] cs [OF i(2)] assms(3)])
  qed
  have recs: "batch_records_of_items c rids (map nonce [0..<?n]) (\<lambda>k b. o_share (?joint ! k ! b))
        (\<lambda>b. o_com (?joint ! 0 ! b)) (\<lambda>k b. fst (?tr ! k ! (2 * b + 1)))
        (map (\<lambda>b. (?d b, ?e b, commit E (?Z b))) [0..<?n])
      = batch_presigs_of E c rids nonce cs ?Z" for nonce
  proof (rule batch_records_of_items)
    fix k b
    assume kb: "k < c_n c" "b < ?n"
    then have "2 * b + 1 < 2 * ?n" by simp
    then show "fst (?tr ! k ! (2 * b + 1)) = fst (triples_of E c (A (2 * b + 1)) (B (2 * b + 1)) (C (2 * b + 1)) ! k)"
      by (simp add: batch_rows(2) [OF _ kb(1)])
    show "o_share (?joint ! k ! b) = peval (cs b) (of_nat (c_ids c ! k))" using kb by (simp add: c_n_def)
  next
    fix b
    assume b: "b < ?n"
    then have "multiplies (c_t c) 0 (A (2 * b + 1)) (B (2 * b + 1)) (C (2 * b + 1))" by (intro tr) simp
    then show "C (2 * b + 1) \<noteq> []" by (simp add: multiplies_def)
    show "o_com (?joint ! 0 ! b) = commit E (cs b)" using b by (intro first) simp
  qed simp_all
  have run: "batch_rounds_p2_p4 E c ?keys rids None ?tr ?joint
      = bindR (mapR ?p2 [0..<?n]) (\<lambda>v_invs. bindR (mapR (\<lambda>b. ?p3 b (v_invs ! b)) [0..<?n]) (\<lambda>nonces.
          Ok (batch_records_of_items c rids nonces (\<lambda>k b. o_share (?joint ! k ! b))
        (\<lambda>b. o_com (?joint ! 0 ! b)) (\<lambda>k b. fst (?tr ! k ! (2 * b + 1)))
        (map (\<lambda>b. (?d b, ?e b, commit E (?Z b))) [0..<?n]))))"
    unfolding batch_rounds_p2_p4_def Let_def open_com_at rows key of_opt_simps bindR.simps Lam(1)
      joint_output_simps P4 ..
  let ?run = "batch_rounds_p2_p4 E c ?keys rids None ?tr ?joint"
  have "(\<exists>nonce. (\<forall>b < ?n. ?u b \<noteq> 0 \<and> snd (nonce b) = smul E (gen E) (inverse (?u b))
          \<and> x_bytes E (snd (nonce b)) \<noteq> None \<and> fst (nonce b) = reduce E (the (x_bytes E (snd (nonce b))))
          \<and> fst (nonce b) \<noteq> 0)
        \<and> ?run = Ok (batch_records_of_items c rids (map nonce [0..<?n]) (\<lambda>k b. o_share (?joint ! k ! b))
            (\<lambda>b. o_com (?joint ! 0 ! b)) (\<lambda>k b. fst (?tr ! k ! (2 * b + 1)))
            (map (\<lambda>b. (?d b, ?e b, commit E (?Z b))) [0..<?n])))
      \<or> (\<exists>msg. ?run = Err (ZeroValue msg))"
    unfolding run
  proof (rule rounds_cases)
    show "?p2 b = (if ?u b * ?v b = 0 then Err (ZeroValue (''v = 0 at batch index '' @ dec_str b))
        else Ok (inverse (?u b * ?v b)))" if "b < ?n" for b by (rule P2 [OF that])
    show "?p3 b (inverse (?u b * ?v b)) = nonce_of E (''r = 0 at batch index '' @ dec_str b) (inverse (?u b))"
      if "b < ?n" "?u b * ?v b \<noteq> 0" for b by (rule P3 [OF that])
    show "k256_ok E" by (rule assms(1))
  qed
  then show ?thesis
  proof (elim disjE exE conjE, goal_cases)
    case (1 nonce)
    have "presig_ok E (c_t c) 0 (peval X 0) (cs b) (?Z b) (nonce b)" if b: "b < ?n" for b
    proof -
      have i: "2 * b + 1 < 2 * ?n" "b < 2 * ?n" using b by simp_all
      note item_z_poly [OF tr [OF i(1)] refl, of "cs b" X]
      with 1(1) b cs [OF i(2)] show ?thesis unfolding presig_ok_def by blast
    qed
    then show ?case using 1(2) recs by (intro disjI1 exI [of _ ?Z] exI [of _ nonce]) (simp add: batch_presigs_ok_def)
  next
    case (2 msg)
    then show ?case by blast
  qed
qed

lemma presign_batch_honest:
  fixes E :: "('f::field, 'g::ab_group_add, 'r) k256"
  assumes "k256_ok E" "committee_wf c" "c_n c \<le> length rs" "length X \<le> c_t c"
    and "rids \<noteq> []" "length rids < 2 ^ 61"
  shows "\<exists>res rs'. presign_batch_with_committee E c (map (joint_output E X) (c_ids c)) rids None rs = (res, rs')
    \<and> ((\<exists>U Z nonce. res = Ok (batch_presigs_of E c rids nonce U Z)
          \<and> batch_presigs_ok E (c_t c) (\<lambda>_. 0) (peval X 0) (length rids) U Z nonce)
        \<or> (\<exists>msg. res = Err (ZeroValue msg)))"
proof -
  let ?n = "length rids" and ?sid = "batch_sid ''ohm-ecdsa/presign-batch'' rids"
  have n: "wmul 2 ?n = 2 * ?n" "1 \<le> 2 * ?n" "2 * ?n < 2 ^ 62"
  proof -
    have "0 < ?n" using assms(5) by simp
    then show "wmul 2 ?n = 2 * ?n" "1 \<le> 2 * ?n" "2 * ?n < 2 ^ 62"
      using assms(6) by (simp_all add: wmul_exact Suc_le_eq)
  qed
  from generate_batch_honest [OF assms(1-3) n(2,3), of "?sid @ str_bytes ''/triples''"] obtain A B C r1 where
    T: "generate_batch_with_committee E c (?sid @ str_bytes ''/triples'') (2 * ?n) None rs
      = (Ok (batch_triples_of E c (2 * ?n) A B C), r1)" "length r1 = length rs"
    and m: "\<forall>b < 2 * ?n. length (A b) = c_t c \<and> length (B b) = c_t c \<and> length (C b) = c_t c
          \<and> peval (C b) 0 = peval (A b) 0 * peval (B b) 0" by blast
  have "c_n c \<le> length r1" using T(2) assms(3) by simp
  from joint_random_batch_honest [OF assms(1,2) this n(2), of "?sid @ str_bytes ''/ua''" Presign] obtain cs r2 where
    J: "joint_random_batch E c (?sid @ str_bytes ''/ua'') Presign (2 * ?n) r1
      = (Ok (map (\<lambda>j. map (\<lambda>b. joint_output E (cs b) j) [0..<2 * ?n]) (c_ids c)), r2)"
    and cs: "\<forall>b < 2 * ?n. length (cs b) = c_t c" by blast
  have mult: "multiplies (c_t c) 0 (A i) (B i) (C i)" if "i < 2 * ?n" for i
    using m that by (intro triples_multiply [OF assms(2)]) auto
  have cs': "length (cs b) \<le> c_t c" if "b < 2 * ?n" for b using cs that by simp
  let ?out = "batch_rounds_p2_p4 E c (map (joint_output E X) (c_ids c)) rids None
        (batch_triples_of E c (2 * ?n) A B C) (map (\<lambda>j. map (\<lambda>b. joint_output E (cs b) j) [0..<2 * ?n]) (c_ids c))"
  have ne: "?n \<noteq> 0" using assms(5) by simp
  have run: "presign_batch_with_committee E c (map (joint_output E X) (c_ids c)) rids None rs = (?out, r2)"
    unfolding presign_batch_with_committee_def Let_def n(1)
    by (simp add: bindS_def check_inputs_honest [OF assms(3)] assms(5) T(1) J)
  from batch_p2_p4_honest [OF assms(1,2,4), where rids = rids and A = A and B = B and C = C and cs = cs] mult cs'
  obtain Z nonce msg where "?out = Ok (batch_presigs_of E c rids nonce cs Z)
      \<and> batch_presigs_ok E (c_t c) (\<lambda>_. 0) (peval X 0) ?n cs Z nonce \<or> ?out = Err (ZeroValue msg)" by blast
  then show ?thesis unfolding run by (intro exI [of _ ?out] exI [of _ r2] conjI refl) blast
qed

section \<open>The packed protocol between honest parties\<close>

lemma deal_uax_polys:
  fixes E :: "('f::field, 'g, 'r) k256"
  assumes "1 \<le> t" "1 \<le> m" "t + m = d + 2"
  shows "\<exists>p1 p2 p3. map coeffs (fst (deal_uax E d m t val rng)) = [p1, p2, p3]
    \<and> length p1 = d + 1 \<and> length p2 = d + 1 \<and> length p3 = d + 1 \<and> (\<forall>b < m. peval p3 (slot_point b) = val)"
proof -
  obtain s1 r1 where s1: "rnd E rng = (s1, r1)" by (cases "rnd E rng") auto
  obtain p1 r2 where p1: "shamir_random E s1 (d + 1) r1 = (p1, r2)" by (cases "shamir_random E s1 (d + 1) r1") auto
  obtain s2 r3 where s2: "rnd E r2 = (s2, r3)" by (cases "rnd E r2") auto
  obtain p2 r4 where p2: "shamir_random E s2 (d + 1) r3 = (p2, r4)" by (cases "shamir_random E s2 (d + 1) r3") auto
  obtain p3 r5 where p3: "shamir_random_packed_const E val m t r4 = (p3, r5)"
    by (cases "shamir_random_packed_const E val m t r4") auto
  have "length (coeffs p1) = d + 1" "length (coeffs p2) = d + 1"
    using shamir_random_hd [of "d + 1" E s1 r1] shamir_random_hd [of "d + 1" E s2 r3] p1 p2 by auto
  moreover have "length (coeffs p3) = d + 1" "\<forall>b < m. peval (coeffs p3) (slot_point b) = val"
    using packed_const_deal [OF assms(1,2), of E val r4] p3 assms(3) by (auto simp: Let_def)
  ultimately show ?thesis using s1 p1 s2 p2 p3 by (simp add: deal_uax_def)
qed

text \<open>
  The joint dealing of P1: \<open>U\<close>, \<open>V\<close> random, and a sharing of the key that has the key's value at
  every slot, with the public slot binding satisfied by every dealer.
\<close>

lemma joint_deal_honest:
  fixes E :: "('f::field, 'g::ab_group_add, 'r) k256"
  assumes "k256_ok E" "committee_wf c"
    and "\<And>i. i \<in> set (c_ids c) \<Longrightarrow> length (F i) = count \<and> count \<noteq> 0"
    and "\<And>i p. i \<in> set (c_ids c) \<Longrightarrow> p \<in> set (F i) \<Longrightarrow> length p = len"
  shows "joint_deal E c sid ph (map (\<lambda>i. map (\<lambda>cs. \<lparr>coeffs = cs\<rparr>) (F i)) (c_ids c))
    = Ok (map (\<lambda>j. map (\<lambda>b. joint_output E (dealt_at c F b) j) [0..<count]) (c_ids c),
          map (\<lambda>i. (i, \<lparr>bb2_from = i, bb2_coms = map (commit E) (F i)\<rparr>)) (c_ids c))"
proof -
  let ?start = "\<lambda>i. (honest_batch E c sid DKG_PACKED_COMMIT len F i, honest_bb1 E sid DKG_PACKED_COMMIT F i)"
  have "mapR (\<lambda>(i, ps). batch_start_with_polys E c sid DKG_PACKED_COMMIT i ps)
      (zip (c_ids c) (map (\<lambda>i. map (\<lambda>cs. \<lparr>coeffs = cs\<rparr>) (F i)) (c_ids c))) = Ok (map ?start (c_ids c))"
    unfolding zip_map_self mapR_map
  proof (rule mapR_Ok)
    fix i
    assume i: "i \<in> set (c_ids c)"
    have len: "length (coeffs p) = len" if "p \<in> set (map (\<lambda>cs. \<lparr>coeffs = cs\<rparr>) (F i))" for p
      using that assms(4) [OF i] by auto
    have "map coeffs (map (\<lambda>cs. \<lparr>coeffs = cs\<rparr>) (F i)) = F i" by (simp add: o_def)
    moreover have "F i \<noteq> []" using assms(3) [OF i] by auto
    ultimately have "batch_start_with_polys E c sid DKG_PACKED_COMMIT i (map (\<lambda>cs. \<lparr>coeffs = cs\<rparr>) (F i))
        = Ok (honest_batch E c sid DKG_PACKED_COMMIT len (\<lambda>_. map coeffs (map (\<lambda>cs. \<lparr>coeffs = cs\<rparr>) (F i))) i,
            honest_bb1 E sid DKG_PACKED_COMMIT (\<lambda>_. map coeffs (map (\<lambda>cs. \<lparr>coeffs = cs\<rparr>) (F i))) i)"
      by (intro batch_start_honest len) simp_all
    then show "(case (i, map (\<lambda>cs. \<lparr>coeffs = cs\<rparr>) (F i)) of
        (i, ps) \<Rightarrow> batch_start_with_polys E c sid DKG_PACKED_COMMIT i ps) = Ok (?start i)"
      by (simp add: o_def honest_batch_def honest_bb1_def)
  qed
  moreover have "batch_rounds E ph c (map ?start (c_ids c))
    = Ok (map (\<lambda>j. map (\<lambda>b. joint_output E (dealt_at c F b) j) [0..<count]) (c_ids c),
          map (\<lambda>i. (i, \<lparr>bb2_from = i, bb2_coms = map (commit E) (F i)\<rparr>)) (c_ids c))"
    using assms(3,4) by (intro batch_rounds_honest [OF assms(1,2)]) auto
  ultimately show ?thesis by (simp add: joint_deal_def)
qed

lemma mask_open_honest:
  assumes "k256_ok E" "committee_wf c" "q \<le> c_n c" "length X \<le> q" "length A \<le> q"
  shows "open_at E x q (mask_com E (commit E X) (commit E A)) (mask_shares (c_ids c) (shares_of c X) (shares_of c A)) ph
    = Ok (peval X x - peval A x)"
  using assms open_honest [OF assms(1,2), of "padd X (pscale (- 1) A)" q x ph]
  by (simp add: mask_honest mask_shares_honest)

lemma uax_outputs:
  "map (\<lambda>outs. o_share (outs ! 0)) (map (\<lambda>j. map (\<lambda>b. joint_output E (cs b) j) [0..<3]) ids) = map (\<lambda>j. peval (cs 0) (of_nat j)) ids"
  "map (\<lambda>outs. o_share (outs ! 1)) (map (\<lambda>j. map (\<lambda>b. joint_output E (cs b) j) [0..<3]) ids) = map (\<lambda>j. peval (cs 1) (of_nat j)) ids"
  "map (\<lambda>outs. o_share (outs ! 2)) (map (\<lambda>j. map (\<lambda>b. joint_output E (cs b) j) [0..<3]) ids) = map (\<lambda>j. peval (cs 2) (of_nat j)) ids"
  by (simp_all add: numeral_3_eq_3 numeral_2_eq_2)

lemma packed_p2_p4_honest:
  fixes E :: "('f::field, 'g::ab_group_add, 'r) k256"
  assumes "k256_ok E" "committee_wf c" "q \<le> c_n c" "rids \<noteq> []"
    and t1: "\<And>b. b < length rids \<Longrightarrow> multiplies q (slot_point b) A B (C b)"
    and t2: "\<And>b. b < length rids \<Longrightarrow> multiplies q (slot_point b) A2 B2 (C2 b)"
    and cs: "\<And>i. i < 3 \<Longrightarrow> length (cs i) \<le> q"
    and key: "\<And>b. b < length rids \<Longrightarrow> peval (cs 2) (slot_point b) = x"
  shows "(\<exists>Z nonce. packed_rounds_p2_p4 E c rids q None
        (batch_triples_of E c (length rids) (\<lambda>_. A) (\<lambda>_. B) C)
        (batch_triples_of E c (length rids) (\<lambda>_. A2) (\<lambda>_. B2) C2)
        (map (\<lambda>j. map (\<lambda>b. joint_output E (cs b) j) [0..<3]) (c_ids c))
      = Ok (batch_presigs_of E c rids nonce (\<lambda>_. cs 0) Z)
      \<and> batch_presigs_ok E q slot_point x (length rids) (\<lambda>_. cs 0) Z nonce)
    \<or> (\<exists>msg. packed_rounds_p2_p4 E c rids q None
        (batch_triples_of E c (length rids) (\<lambda>_. A) (\<lambda>_. B) C)
        (batch_triples_of E c (length rids) (\<lambda>_. A2) (\<lambda>_. B2) C2)
        (map (\<lambda>j. map (\<lambda>b. joint_output E (cs b) j) [0..<3]) (c_ids c)) = Err (ZeroValue msg))"
proof -
  let ?n = "length rids" and ?ids = "c_ids c" and ?s = "slot_point :: nat \<Rightarrow> 'f"
  have n0: "0 < c_n c" using committee_wf_facts(2) [OF assms(2)] by (simp add: c_n_def)
  have r0: "0 < ?n" using assms(4) by simp
  let ?t1 = "batch_triples_of E c ?n (\<lambda>_. A) (\<lambda>_. B) C" and ?t2 = "batch_triples_of E c ?n (\<lambda>_. A2) (\<lambda>_. B2) C2"
  let ?joint = "map (\<lambda>j. map (\<lambda>b. joint_output E (cs b) j) [0..<3]) ?ids"
  let ?opn = "\<lambda>b com sh. open_at E (slot_point b) q com sh Presign"
  obtain Lam where Lam: "packed_lambdas c ?n = Ok (map (\<lambda>b. map (Lam b) ?ids) [0..<?n])"
      "\<forall>b. weights_at c (?s b) (Lam b)"
    using packed_lambdas_honest [OF assms(1,2)] by blast
  have rows: "nth_opt ?t1 0 = Some (?t1 ! 0)" "nth_opt ?t2 0 = Some (?t2 ! 0)" "nth_opt ?joint 0 = Some (?joint ! 0)"
    using n0 by (simp_all add: batch_triples_of_def c_n_def)
  have pub1: "snd (?t1 ! 0 ! b) = public_of E A B (C b)" and pub2: "snd (?t2 ! 0 ! b) = public_of E A2 B2 (C2 b)"
    if "b < ?n" for b
    by (simp_all add: batch_rows(2) [OF that n0] triples_public n0)
  have tp: "tp_ca (public_of E X Y W) = commit E X" "tp_cb (public_of E X Y W) = commit E Y" for X Y W
    by (simp_all add: public_of_def)
  have coms: "o_com (?joint ! 0 ! 0) = commit E (cs 0)" "o_com (?joint ! 0 ! 1) = commit E (cs 1)"
    "o_com (?joint ! 0 ! 2) = commit E (cs 2)"
    using n0 by (simp_all add: c_n_def numeral_3_eq_3 numeral_2_eq_2)
  have l1: "length A \<le> q" "length B \<le> q" and l2: "length A2 \<le> q" "length B2 \<le> q"
    using t1 [OF r0] t2 [OF r0] by (simp_all add: multiplies_def)
  have lc: "length (cs 0) \<le> q" "length (cs 1) \<le> q" "length (cs 2) \<le> q" using cs by auto
  note masks = mask_open_honest [OF assms(1-3)]
  let ?u = "\<lambda>b. peval (cs 0) (?s b)" and ?v = "\<lambda>b. peval (cs 1) (?s b)"
  let ?D = "map (\<lambda>b. ?u b - peval A (?s b)) [0..<?n]" and ?E = "map (\<lambda>b. ?v b - peval B (?s b)) [0..<?n]"
  let ?d = "\<lambda>b. ?u b - peval A2 (?s b)" and ?e = "\<lambda>b. peval (cs 2) (?s b) - peval B2 (?s b)"
  let ?Z = "\<lambda>b. beaver_poly A2 B2 (C2 b) (?d b) (?e b)"
  have open_all: "mapR (\<lambda>b. ?opn b (mask_com E (commit E X) (commit E Y))
      (mask_shares ?ids (shares_of c X) (shares_of c Y))) [0..<?n]
    = Ok (map (\<lambda>b. peval X (?s b) - peval Y (?s b)) [0..<?n])" if "length X \<le> q" "length Y \<le> q" for X Y
    by (rule mapR_Ok) (rule masks [OF that])
  let ?pv = "\<lambda>b. open_v E (?opn b) ?ids (tamper_at b None) (''v = 0 at packed slot '' @ dec_str b)
      (map (\<lambda>row. fst (row ! b)) ?t1) (snd (?t1 ! 0 ! b)) (?D ! b) (?E ! b)"
  let ?pn = "\<lambda>b vi. bindR (nonce_points E c (tamper_at b None)
         (''invalid nonce point R_j (packed slot '' @ dec_str b @ '')'') (commit E (cs 1)) (shares_of c (cs 1)) vi)
      (\<lambda>r_points. nonce_scalar E (''r = 0 at packed slot '' @ dec_str b)
         (map (\<lambda>b. map (Lam b) ?ids) [0..<?n] ! b) r_points)"
  have none: "tamper_at b None = None" for b by (simp add: tamper_at_def)
  have P2: "?pv b = (if ?u b * ?v b = 0 then Err (ZeroValue (''v = 0 at packed slot '' @ dec_str b))
      else Ok (inverse (?u b * ?v b)))" if b: "b < ?n" for b
  proof -
    have mult: "length A \<le> q" "length B \<le> q" "length (C b) \<le> q" "C b \<noteq> []"
      "peval (C b) (?s b) = peval A (?s b) * peval B (?s b)"
      using t1 [OF b] by (simp_all add: multiplies_def)
    have nths: "?D ! b = ?u b - peval A (?s b)" "?E ! b = ?v b - peval B (?s b)" using b by simp_all
    show ?thesis
      unfolding nths none batch_rows(1) [OF b] pub1 [OF b] open_v_honest [OF assms(1-3) mult(4,1,2,3)]
        beaver_product [OF mult(4,5) refl refl] invert_v_value ..
  qed
  have P3: "?pn b (inverse (?u b * ?v b)) = nonce_of E (''r = 0 at packed slot '' @ dec_str b) (inverse (?u b))"
    if "b < ?n" "?u b * ?v b \<noteq> 0" for b
  proof -
    have nth: "map (\<lambda>b. map (Lam b) ?ids) [0..<?n] ! b = map (Lam b) ?ids" using that(1) by simp
    have "length (cs 1) \<le> c_n c" using lc(2) assms(3) by simp
    then show ?thesis unfolding nth none using Lam(2) that(2) by (intro item_nonce_honest [OF assms(1)]) auto
  qed
  have P4: "mapR (\<lambda>b. bindR (beaver_com E (snd (?t2 ! 0 ! b)) (map ?d [0..<?n] ! b) (map ?e [0..<?n] ! b)) (\<lambda>z_com.
      Ok (map ?d [0..<?n] ! b, map ?e [0..<?n] ! b, z_com))) [0..<?n]
    = Ok (map (\<lambda>b. (?d b, ?e b, commit E (?Z b))) [0..<?n])"
  proof (rule mapR_Ok)
    fix b
    assume "b \<in> set [0..<?n]"
    then have b: "b < ?n" by simp
    have "C2 b \<noteq> []" using t2 [OF b] by (simp add: multiplies_def)
    then show "bindR (beaver_com E (snd (?t2 ! 0 ! b)) (map ?d [0..<?n] ! b) (map ?e [0..<?n] ! b)) (\<lambda>z_com.
        Ok (map ?d [0..<?n] ! b, map ?e [0..<?n] ! b, z_com)) = Ok (?d b, ?e b, commit E (?Z b))"
      using b by (simp add: pub2 beaver_com_honest [OF assms(1)])
  qed
  have recs: "batch_records_of_items c rids (map nonce [0..<?n]) (\<lambda>k b. shares_of c (cs 0) ! k)
        (\<lambda>b. commit E (cs 0)) (\<lambda>k b. fst (?t2 ! k ! b)) (map (\<lambda>b. (?d b, ?e b, commit E (?Z b))) [0..<?n])
      = batch_presigs_of E c rids nonce (\<lambda>_. cs 0) ?Z" for nonce
  proof (rule batch_records_of_items)
    fix k b
    assume kb: "k < c_n c" "b < ?n"
    show "fst (?t2 ! k ! b) = fst (triples_of E c A2 B2 (C2 b) ! k)" by (simp add: batch_rows(2) [OF kb(2,1)])
    show "shares_of c (cs 0) ! k = peval (cs 0) (of_nat (c_ids c ! k))" using kb by (simp add: c_n_def)
  next
    fix b
    assume b: "b < ?n"
    then show "C2 b \<noteq> []" using t2 [OF b] by (simp add: multiplies_def)
  qed simp_all
  let ?run = "packed_rounds_p2_p4 E c rids q None ?t1 ?t2 ?joint"
  have run: "?run = bindR (mapR ?pv [0..<?n]) (\<lambda>v_invs. bindR (mapR (\<lambda>b. ?pn b (v_invs ! b)) [0..<?n]) (\<lambda>nonces.
      Ok (batch_records_of_items c rids nonces (\<lambda>k b. shares_of c (cs 0) ! k) (\<lambda>b. commit E (cs 0))
        (\<lambda>k b. fst (?t2 ! k ! b)) (map (\<lambda>b. (?d b, ?e b, commit E (?Z b))) [0..<?n]))))"
    unfolding packed_rounds_p2_p4_def Let_def rows of_opt_simps bindR.simps Lam(1) coms uax_outputs
      pub1 [OF r0] pub2 [OF r0] tp batch_rows(1) [OF r0] triples_of_parts
      open_all [OF lc(1) l1(1)] open_all [OF lc(2) l1(2)] open_all [OF lc(1) l2(1)] open_all [OF lc(3) l2(2)] P4 ..
  have "(\<exists>nonce. (\<forall>b < ?n. ?u b \<noteq> 0 \<and> snd (nonce b) = smul E (gen E) (inverse (?u b))
          \<and> x_bytes E (snd (nonce b)) \<noteq> None \<and> fst (nonce b) = reduce E (the (x_bytes E (snd (nonce b))))
          \<and> fst (nonce b) \<noteq> 0)
        \<and> ?run = Ok (batch_records_of_items c rids (map nonce [0..<?n]) (\<lambda>k b. shares_of c (cs 0) ! k)
            (\<lambda>b. commit E (cs 0)) (\<lambda>k b. fst (?t2 ! k ! b)) (map (\<lambda>b. (?d b, ?e b, commit E (?Z b))) [0..<?n])))
      \<or> (\<exists>msg. ?run = Err (ZeroValue msg))"
    unfolding run
  proof (rule rounds_cases)
    show "?pv b = (if ?u b * ?v b = 0 then Err (ZeroValue (''v = 0 at packed slot '' @ dec_str b))
        else Ok (inverse (?u b * ?v b)))" if "b < ?n" for b by (rule P2 [OF that])
    show "?pn b (inverse (?u b * ?v b)) = nonce_of E (''r = 0 at packed slot '' @ dec_str b) (inverse (?u b))"
      if "b < ?n" "?u b * ?v b \<noteq> 0" for b by (rule P3 [OF that])
    show "k256_ok E" by (rule assms(1))
  qed
  then show ?thesis
  proof (elim disjE exE conjE, goal_cases)
    case (1 nonce)
    have "presig_ok E q (?s b) x (cs 0) (?Z b) (nonce b)" if b: "b < ?n" for b
    proof -
      note item_z_poly [OF t2 [OF b] refl, of "cs 0" "cs 2", unfolded key [OF b]]
      with 1(1) b lc(1) key [OF b] show ?thesis unfolding presig_ok_def by metis
    qed
    then show ?case using 1(2) recs by (intro disjI1 exI [of _ ?Z] exI [of _ nonce]) (simp add: batch_presigs_ok_def)
  next
    case (2 msg)
    then show ?case by blast
  qed
qed

lemma deal_uax_all:
  fixes E :: "('f::field, 'g::ab_group_add, 'r) k256"
  assumes "committee_wf c" "c_n c \<le> length rs" "1 \<le> c_t c" "1 \<le> m" "c_t c + m = d + 2"
  shows "\<exists>F rs'. mapS (\<lambda>(k, lam, key). with_rng k (deal_uax E d m (c_t c) (lam * o_share key)))
        (List.enumerate 0 (zip (map Lam (c_ids c)) (map (joint_output E X) (c_ids c)))) rs
      = (Ok (map (\<lambda>i. map (\<lambda>cs. \<lparr>coeffs = cs\<rparr>) (F i)) (c_ids c)) :: _ result, rs')
    \<and> (\<forall>i \<in> set (c_ids c). length (F i) = 3 \<and> (\<forall>p \<in> set (F i). length p = d + 1)
        \<and> (\<forall>b < m. peval (F i ! 2) (slot_point b) = Lam i * peval X (of_nat i)))"
proof -
  let ?xs = "zip (map Lam (c_ids c)) (map (joint_output E X) (c_ids c))"
  let ?f = "\<lambda>(lam, key). deal_uax E d m (c_t c) (lam * o_share key)"
  define P where "P = (\<lambda>(lam, key :: ('f, 'g) dkg_output) (ps :: 'f shamir_poly list). \<exists>p1 p2 p3. map coeffs ps = [p1, p2, p3]
    \<and> length p1 = d + 1 \<and> length p2 = d + 1 \<and> length p3 = d + 1
    \<and> (\<forall>b < m. peval p3 (slot_point b) = lam * o_share key))"
  have one: "P x (fst (?f x r))" for x r
    unfolding P_def by (cases x) (use deal_uax_polys [OF assms(3-5), of E _ r] in simp)
  have uncurried: "(\<lambda>(k, lam, key). with_rng k (deal_uax E d m (c_t c) (lam * o_share key)))
      = (\<lambda>(i, x). with_rng i ((\<lambda>_. ?f) i x))"
    by (auto simp: fun_eq_iff)
  have "0 + length ?xs \<le> length rs" using assms(2) by (simp add: c_n_def)
  from mapS_with_rng [where P = "\<lambda>(i, x) y. P x y" and f = "\<lambda>_. ?f", OF this]
  obtain ys rs' where ys: "mapS (\<lambda>(k, lam, key). with_rng k (deal_uax E d m (c_t c) (lam * o_share key)))
      (List.enumerate 0 ?xs) rs = (Ok ys :: _ result, rs')" and P: "list_all2 P ?xs ys"
    unfolding uncurried using one by (fastforce simp: list_all2_enumerate)
  have "list_all2 (\<lambda>i y. P (Lam i, joint_output E X i) y) (c_ids c) ys"
    using P by (simp add: zip_map_both list_all2_map1)
  from list_all2_fun [OF this committee_wf_facts(1) [OF assms(1)]] obtain Y where
    Y: "ys = map Y (c_ids c)" "\<forall>i \<in> set (c_ids c). P (Lam i, joint_output E X i) (Y i)" by blast
  let ?F = "\<lambda>i. map coeffs (Y i)"
  have ys': "ys = map (\<lambda>i. map (\<lambda>cs. \<lparr>coeffs = cs\<rparr>) (?F i)) (c_ids c)"
    using Y(1) by (simp add: o_def)
  have "length (?F i) = 3 \<and> (\<forall>p \<in> set (?F i). length p = d + 1)
        \<and> (\<forall>b < m. peval (?F i ! 2) (slot_point b) = Lam i * peval X (of_nat i))" if "i \<in> set (c_ids c)" for i
  proof -
    from Y(2) that obtain p1 p2 p3 where "?F i = [p1, p2, p3]" "length p1 = d + 1" "length p2 = d + 1"
      "length p3 = d + 1" "\<forall>b < m. peval p3 (slot_point b) = Lam i * peval X (of_nat i)"
      by (auto simp: P_def)
    then show ?thesis by simp
  qed
  then have all: "\<forall>i \<in> set (c_ids c). length (?F i) = 3 \<and> (\<forall>p \<in> set (?F i). length p = d + 1)
        \<and> (\<forall>b < m. peval (?F i ! 2) (slot_point b) = Lam i * peval X (of_nat i))" by blast
  show ?thesis by (rule exI [of _ ?F], rule exI [of _ rs'], rule conjI, rule ys [unfolded ys'], rule all)
qed

lemma key_bound_honest:
  fixes E :: "('f::field, 'g::ab_group_add, 'r) k256"
  assumes "k256_ok E" "committee_wf c" "i \<in> set (c_ids c)" "length (F i) = 3"
    and "\<forall>b < m. peval (F i ! 2) (slot_point b) = Lam i * peval X (of_nat i)"
  shows "key_bound E m (commit E X) (map (\<lambda>i. (i, \<lparr>bb2_from = i, bb2_coms = map (commit E) (F i)\<rparr>)) (c_ids c))
      (i, Lam i) = Ok ()"
  using assms(4,5) com_eval_commit [OF assms(1)] com_eval_at_commit [OF assms(1)]
  by (simp add: key_bound_def committee_map(2) [OF assms(2,3)] smul_smul [OF assms(1)] mult.commute)

lemma presign_packed_honest:
  fixes E :: "('f::field, 'g::ab_group_add, 'r) k256"
  assumes "k256_ok E" "committee_wf c" "c_n c \<le> length rs" "length X \<le> c_t c"
    and "rids \<noteq> []" "length rids < 2 ^ 62" "c_t c < 2 ^ 62" "2 * c_t c + 2 * length rids - 3 \<le> c_n c"
  shows "\<exists>res rs'. presign_packed_with_committee E c (map (joint_output E X) (c_ids c)) rids (length rids) None rs
      = (res, rs')
    \<and> ((\<exists>U Z nonce. res = Ok (batch_presigs_of E c rids nonce (\<lambda>_. U) Z)
          \<and> batch_presigs_ok E (c_t c + length rids - 1) slot_point (peval X 0) (length rids) (\<lambda>_. U) Z nonce)
        \<or> (\<exists>msg. res = Err (ZeroValue msg)))"
proof -
  note wf = committee_wf_facts [OF assms(2)]
  let ?m = "length rids" and ?sid = "batch_sid ''ohm-ecdsa/presign-packed'' rids"
  let ?q = "c_t c + ?m - 1" and ?d = "packed_degree (c_t c) ?m" and ?keys = "map (joint_output E X) (c_ids c)"
  have m1: "1 \<le> ?m" using assms(5) by (simp add: Suc_le_eq)
  have t1: "1 \<le> c_t c" using wf(3) by simp
  have d: "?d + 1 = ?q" "c_t c + ?m = ?d + 2"
    using assms(6,7) m1 t1 by (simp_all add: packed_degree_def wadd_exact wsub_exact)
  have bound: "\<not> c_n c < wsub (wadd (wmul 2 (c_t c)) (wmul 2 ?m)) 3"
    using assms(6-8) m1 t1 by (simp add: wadd_exact wsub_exact wmul_exact)
  have qn: "?q \<le> c_n c" using assms(8) m1 t1 by linarith
  from generate_packed_honest [OF assms(1-3) m1 assms(6-8), of "?sid @ str_bytes ''/t1''"] obtain A B C r1 where
    T1: "generate_packed_with_committee E c (?sid @ str_bytes ''/t1'') ?m None rs
        = (Ok (batch_triples_of E c ?m (\<lambda>_. A) (\<lambda>_. B) C), r1)" "length r1 = length rs"
    and M1: "length A = ?q" "length B = ?q" "\<forall>b < ?m. length (C b) = ?q
        \<and> (\<forall>s < ?m. peval (C b) (slot_point s) = peval A (slot_point b) * peval B (slot_point b))"
    by blast
  have n1: "c_n c \<le> length r1" using T1(2) assms(3) by simp
  from generate_packed_honest [OF assms(1,2) n1 m1 assms(6-8), of "?sid @ str_bytes ''/t2''"] obtain A2 B2 C2 r2 where
    T2: "generate_packed_with_committee E c (?sid @ str_bytes ''/t2'') ?m None r1
        = (Ok (batch_triples_of E c ?m (\<lambda>_. A2) (\<lambda>_. B2) C2), r2)" "length r2 = length r1"
    and M2: "length A2 = ?q" "length B2 = ?q" "\<forall>b < ?m. length (C2 b) = ?q
        \<and> (\<forall>s < ?m. peval (C2 b) (slot_point s) = peval A2 (slot_point b) * peval B2 (slot_point b))"
    by blast
  have n2: "c_n c \<le> length r2" using T2(2) n1 by simp
  obtain Lam where Lam: "lagrange_coeffs (c_ids c) = Ok (map Lam (c_ids c))" "weights_at c (0 :: 'f) Lam"
    using committee_weights [OF assms(1,2), of 0] by (auto simp: lagrange_coeffs_def)
  from deal_uax_all [OF assms(2) n2 t1 m1 d(2), of E Lam X] obtain F r3 where
    D: "mapS (\<lambda>(k, lam, key). with_rng k (deal_uax E ?d ?m (c_t c) (lam * o_share key)))
        (List.enumerate 0 (zip (map Lam (c_ids c)) ?keys)) r2
      = (Ok (map (\<lambda>i. map (\<lambda>cs. \<lparr>coeffs = cs\<rparr>) (F i)) (c_ids c)) :: _ result, r3)"
    and F: "\<forall>i \<in> set (c_ids c). length (F i) = 3 \<and> (\<forall>p \<in> set (F i). length p = ?d + 1)
        \<and> (\<forall>b < ?m. peval (F i ! 2) (slot_point b) = Lam i * peval X (of_nat i))" by blast
  let ?cs = "dealt_at c F"
  have deal: "joint_deal E c (?sid @ str_bytes ''/uax'') Presign (map (\<lambda>i. map (\<lambda>cs. \<lparr>coeffs = cs\<rparr>) (F i)) (c_ids c))
    = Ok (map (\<lambda>j. map (\<lambda>b. joint_output E (?cs b) j) [0..<3]) (c_ids c),
          map (\<lambda>i. (i, \<lparr>bb2_from = i, bb2_coms = map (commit E) (F i)\<rparr>)) (c_ids c))"
    by (rule joint_deal_honest [OF assms(1,2), of F 3 "?d + 1"]) (use F in auto)
  obtain i0 where key0: "nth_opt ?keys 0 = Some (joint_output E X i0)" using outputs_first [OF assms(2)] by blast
  let ?rev = "map (\<lambda>i. (i, \<lparr>bb2_from = i, bb2_coms = map (commit E) (F i)\<rparr>)) (c_ids c)"
  have bounds: "foldR (\<lambda>jl _. key_bound E ?m (commit E X) ?rev jl) (zip (c_ids c) (map Lam (c_ids c))) () = Ok ()"
  proof -
    have "foldR (\<lambda>jl _. key_bound E ?m (commit E X) ?rev jl) (map (\<lambda>i. (i, Lam i)) (c_ids c)) ()
      = Ok (foldl (\<lambda>_ _. ()) () (map (\<lambda>i. (i, Lam i)) (c_ids c)))"
      using F key_bound_honest [OF assms(1,2)] by (intro foldR_Ok) auto
    then show ?thesis by (simp add: zip_map_self)
  qed
  have len: "length (?cs b) \<le> ?q" if "b < 3" for b
  proof -
    have "length (?cs b) = ?d + 1"
      unfolding dealt_at_def using F that by (intro length_dealt [OF assms(2)]) auto
    then show ?thesis using d(1) by simp
  qed
  have xkey: "peval (?cs 2) (slot_point b) = peval X 0" if "b < ?m" for b
  proof -
    have "peval (?cs 2) (slot_point b) = (\<Sum>i\<leftarrow>c_ids c. Lam i * peval X (of_nat i))"
      using F that by (simp add: dealt_at_def dealt_def peval_psum o_def cong: map_cong)
    then show ?thesis using Lam(2) assms(4) wf(4) by (simp add: weights_at_def c_n_def)
  qed
  have q0: "?q \<noteq> 0" using m1 t1 by simp
  have mult: "multiplies ?q (slot_point b) A B (C b)" "multiplies ?q (slot_point b) A2 B2 (C2 b)"
    if "b < ?m" for b
    using M1 M2 that q0 unfolding multiplies_def by (metis list.size(3) order_refl)+
  let ?out = "packed_rounds_p2_p4 E c rids (?d + 1) None (batch_triples_of E c ?m (\<lambda>_. A) (\<lambda>_. B) C)
      (batch_triples_of E c ?m (\<lambda>_. A2) (\<lambda>_. B2) C2) (map (\<lambda>j. map (\<lambda>b. joint_output E (?cs b) j) [0..<3]) (c_ids c))"
  have run: "presign_packed_with_committee E c ?keys rids ?m None rs = (?out, r3)"
    unfolding presign_packed_with_committee_def Let_def
    by (simp add: bindS_def check_inputs_honest [OF assms(3)] assms(5) bound T1(1) T2(1) Lam(1) D deal key0 bounds
        tt_of_def del: map_map)
  from packed_p2_p4_honest [OF assms(1,2) qn assms(5), where A = A and B = B and C = C and ?A2.0 = A2
      and ?B2.0 = B2 and ?C2.0 = C2 and cs = ?cs and x = "peval X 0"] mult len xkey
  obtain Z nonce msg where "?out = Ok (batch_presigs_of E c rids nonce (\<lambda>_. ?cs 0) Z)
      \<and> batch_presigs_ok E ?q slot_point (peval X 0) ?m (\<lambda>_. ?cs 0) Z nonce \<or> ?out = Err (ZeroValue msg)"
    unfolding d(1) by blast
  then show ?thesis unfolding run by (intro exI [of _ ?out] exI [of _ r3] conjI refl) blast
qed

section \<open>The robust protocol with cheaters\<close>

definition bad_open :: "presign_tamper option \<Rightarrow> party_id option" where
  "bad_open tamper = (case tamper of None \<Rightarrow> None | Some tm \<Rightarrow> pt_bad_open_share tm)"

definition bad_nonce :: "presign_tamper option \<Rightarrow> party_id option" where
  "bad_nonce tamper = (case tamper of None \<Rightarrow> None | Some tm \<Rightarrow> pt_bad_nonce_point tm)"

abbreviation remaining :: "committee \<Rightarrow> party_id set \<Rightarrow> party_id list" where
  \<comment> \<open>the active set after the parties \<open>D\<close> are expelled\<close>
  "remaining c D \<equiv> filter (\<lambda>j. j \<notin> D) (c_ids c)"

lemma sorted_remaining:
  assumes "committee_wf c"
  shows "sorted_wrt (<) (remaining c D)" "distinct (remaining c D)"
  using assms by (auto simp: committee_wf_def strict_sorted_iff sorted_wrt_filter)

lemma length_remaining:
  assumes "committee_wf c" "finite D" "t + card D \<le> c_n c"
  shows "t \<le> length (remaining c D)"
proof -
  have "length (remaining c D) = card (set (c_ids c) - D)"
    using distinct_card [OF sorted_remaining(2) [OF assms(1), of D]] by (simp add: set_diff_eq Collect_conj_eq [symmetric] conj_commute)
  moreover have "c_n c = card (set (c_ids c))"
    using distinct_card [OF committee_wf_facts(1) [OF assms(1)]] by (simp add: c_n_def)
  ultimately show ?thesis using diff_card_le_card_Diff [OF assms(2), of "set (c_ids c)"] assms(3) by linarith
qed

lemma active_shares_remaining:
  assumes "committee_wf c" "\<And>k. k < c_n c \<Longrightarrow> pick k = f (c_ids c ! k)"
  shows "active_shares c (remaining c D) pick = Ok (map (\<lambda>j. (j, f j)) (remaining c D))"
proof -
  have "mapR (\<lambda>j. bindR (of_opt (position c j)) (\<lambda>k. Ok (j, pick k))) (remaining c D)
      = (Ok (map (\<lambda>j. (j, f j)) (remaining c D)) :: _ result)"
  proof (rule mapR_Ok)
    fix j
    assume "j \<in> set (remaining c D)"
    then obtain k where k: "position c j = Some k" using position_None by (cases "position c j") auto
    from position_Some [OF k] have "pick k = f j" using assms(2) by (auto simp: c_n_def)
    then show "bindR (of_opt (position c j)) (\<lambda>k. Ok (j, pick k)) = Ok (j, f j)" by (simp add: k)
  qed
  moreover have "bt_of_list (map (\<lambda>j. (j, f j)) (remaining c D)) = map (\<lambda>j. (j, f j)) (remaining c D)"
    using sorted_remaining(1) [OF assms(1)] by (intro bt_of_list_sorted) (simp add: o_def)
  ultimately show ?thesis by (simp add: active_shares_def)
qed

lemma tamper_share_active:
  assumes "sorted_wrt (<) ids"
  shows "tamper_share tamper (map (\<lambda>i. (i, f i)) ids)
    = map (\<lambda>i. (i, f i + (if bad_open tamper = Some i then 1 else 0))) ids"
proof (cases "bad_open tamper")
  case None
  then show ?thesis by (auto simp: tamper_share_def bad_open_def split: option.splits)
next
  case (Some j)
  then obtain tm where tm: "tamper = Some tm" "pt_bad_open_share tm = Some j"
    by (auto simp: bad_open_def split: option.splits)
  show ?thesis
  proof (cases "j \<in> set ids")
    case True
    then show ?thesis
      using Some tm bt_insert_keyed [OF assms True, of "f j + 1" f]
      by (auto simp: tamper_share_def bt_get_map_of map_of_map_key intro!: map_cong)
  next
    case False
    then have "bt_get (map (\<lambda>i. (i, f i)) ids) j = None"
      by (auto simp: bt_get_map_of map_of_eq_None_iff)
    then show ?thesis using Some tm False by (auto simp: tamper_share_def intro!: map_cong)
  qed
qed

lemma open_robust_active:
  assumes "k256_ok E" "committee_wf c" "length W \<le> t"
    and "t \<le> length (filter (\<lambda>i. bad \<noteq> Some i) (remaining c D))"
  shows "open_robust E t (commit E W)
      (map (\<lambda>i. (i, peval W (of_nat i) + (if bad = Some i then 1 else 0))) (remaining c D)) ph
    = Ok (peval W 0, filter (\<lambda>i. bad = Some i) (remaining c D))"
proof -
  let ?sh = "map (\<lambda>i. (i, peval W (of_nat i) + (if bad = Some i then 1 else 0))) (remaining c D)"
  have ids: "ids_ok ?sh"
    using committee_wf_facts [OF assms(2)] by (auto simp: ids_ok_def o_def)
  have ch: "cheaters E (commit E W) ?sh = filter (\<lambda>i. bad = Some i) (remaining c D)"
    by (auto simp: cheaters_def filter_map o_def verify_share_commit [OF assms(1)] intro!: filter_cong)
  have gd: "length (good E (commit E W) ?sh) = length (filter (\<lambda>i. bad \<noteq> Some i) (remaining c D))"
    by (auto simp: good_def filter_map o_def verify_share_commit [OF assms(1)]
        intro!: arg_cong [where f = length] filter_cong)
  show ?thesis
    using open_robust_commit [OF assms(1) ids assms(3), of ph] assms(4) by (simp add: ch gd)
qed

lemma expel_Nil [simp]: "expel st [] = st"
  by (simp add: expel_def)

lemma expel_single:
  "j \<notin> set bl \<Longrightarrow> expel (bl, remaining c D) [j] = (bl @ [j], remaining c (insert j D))"
  by (simp add: expel_def conj_commute)

lemma filter_option: "distinct xs \<Longrightarrow> filter (\<lambda>i. o1 = Some i) xs = (case o1 of None \<Rightarrow> [] | Some j \<Rightarrow> if j \<in> set xs then [j] else [])"
proof (induction xs)
  case (Cons x xs)
  then show ?case by (cases o1) auto
qed (auto split: option.splits)

text \<open>One expulsion step over the sender of a bad value, if there is one.\<close>

lemma expel_option:
  assumes "committee_wf c" "set bl \<subseteq> D"
  shows "expel (bl, remaining c D) (filter (\<lambda>i. bad = Some i) (remaining c D))
    = (bl @ filter (\<lambda>i. bad = Some i) (remaining c D), remaining c (D \<union> set_option bad))"
proof (cases bad)
  case None
  then show ?thesis by simp
next
  case (Some j)
  show ?thesis
  proof (cases "j \<in> set (remaining c D)")
    case True
    then have "filter (\<lambda>i. bad = Some i) (remaining c D) = [j]"
      using filter_option [OF sorted_remaining(2) [OF assms(1)], of bad D] Some by simp
    moreover have "j \<notin> set bl" using True assms(2) by auto
    ultimately show ?thesis using Some by (simp add: expel_single)
  next
    case False
    then have "filter (\<lambda>i. bad = Some i) (remaining c D) = []"
      using filter_option [OF sorted_remaining(2) [OF assms(1)], of bad D] Some by simp
    moreover have "remaining c (D \<union> set_option bad) = remaining c D"
      using False Some by (intro filter_cong) auto
    ultimately show ?thesis by simp
  qed
qed

lemma robust_masks_active:
  fixes E :: "('f::field, 'g::ab_group_add, 'r) k256"
  assumes "k256_ok E" "committee_wf c" "c_t c \<le> length (remaining c D)" "multiplies (c_t c) 0 A B C"
    and "length X \<le> c_t c" "length Y \<le> c_t c"
  shows "robust_masks E c (bl, remaining c D) (triples_of E c A B C) (public_of E A B C)
      (commit E X) (shares_of c X) (commit E Y) (shares_of c Y)
    = Ok (peval X 0 - peval A 0, peval Y 0 - peval B 0, (bl, remaining c D))"
proof -
  have mask: "active_shares c (remaining c D) (\<lambda>k. shares_of c P ! k - f (fst (triples_of E c A B C ! k)))
      = Ok (map (\<lambda>j. (j, peval (padd P (pscale (- 1) Q)) (of_nat j))) (remaining c D))"
    if "\<And>k. k < c_n c \<Longrightarrow> f (fst (triples_of E c A B C ! k)) = peval Q (of_nat (c_ids c ! k))" for P Q f
    using that by (intro active_shares_remaining [OF assms(2)]) (simp add: c_n_def)
  have ta: "ts_a (fst (triples_of E c A B C ! k)) = peval A (of_nat (c_ids c ! k))"
    and tb: "ts_b (fst (triples_of E c A B C ! k)) = peval B (of_nat (c_ids c ! k))" if "k < c_n c" for k
    using that by (simp_all add: triples_of_def c_n_def)
  have opn: "open_robust E (c_t c) (commit E W) (map (\<lambda>j. (j, peval W (of_nat j))) (remaining c D)) ph
      = Ok (peval W 0, [])" if "length W \<le> c_t c" for W ph
    using open_robust_active [OF assms(1,2) that, of None D ph] assms(3) by simp
  have pubs: "tp_ca (public_of E A B C) = commit E A" "tp_cb (public_of E A B C) = commit E B"
    by (simp_all add: public_of_def)
  have lens: "length (padd X (pscale (- 1) A)) \<le> c_t c" "length (padd Y (pscale (- 1) B)) \<le> c_t c"
    using assms(4-6) by (simp_all add: multiplies_def)
  have ma: "active_shares c (remaining c D) (\<lambda>k. shares_of c X ! k - ts_a (fst (triples_of E c A B C ! k)))
      = Ok (map (\<lambda>j. (j, peval (padd X (pscale (- 1) A)) (of_nat j))) (remaining c D))"
    by (rule mask) (rule ta)
  have mb: "active_shares c (remaining c D) (\<lambda>k. shares_of c Y ! k - ts_b (fst (triples_of E c A B C ! k)))
      = Ok (map (\<lambda>j. (j, peval (padd Y (pscale (- 1) B)) (of_nat j))) (remaining c D))"
    by (rule mask) (rule tb)
  show ?thesis
    unfolding robust_masks_def snd_conv ma mb bindR.simps pubs
      mask_honest [OF assms(1)] opn [OF lens(1)] opn [OF lens(2)] prod.case expel_Nil
    by simp
qed

lemma nonce_filter_active:
  assumes "k256_ok E" "committee_wf c"
  shows "nonce_filter E c tamper (commit E V) (shares_of c V) v_inv (remaining c D)
    = Ok (filter (\<lambda>i. bad_nonce tamper \<noteq> Some i) (remaining c D),
          map (\<lambda>j. smul E (gen E) (v_inv * peval V (of_nat j))) (filter (\<lambda>i. bad_nonce tamper \<noteq> Some i) (remaining c D)),
          filter (\<lambda>i. bad_nonce tamper = Some i) (remaining c D))"
proof -
  let ?bad = "\<lambda>i. bad_nonce tamper = Some i" and ?pt = "\<lambda>j. smul E (gen E) (v_inv * peval V (of_nat j))"
  let ?I = "\<lambda>js. (filter (\<lambda>i. \<not> ?bad i) js, map ?pt (filter (\<lambda>i. \<not> ?bad i) js), filter ?bad js)"
  have eval: "com_eval_at E (com_scale E (commit E V) v_inv) j = ?pt j" for j
    by (simp add: com_scale_commit com_eval_at_commit assms(1) mult.commute)
  have point: "nonce_point E tamper v_inv j (peval V (of_nat j)) = (if ?bad j then ?pt j + gen E else ?pt j)" for j
    by (auto simp: nonce_point_def bad_nonce_def split: option.splits)
  let ?f = "\<lambda>j (valid, pts, bad). bindR (of_opt (position c j)) (\<lambda>k.
      let r_j = nonce_point E tamper v_inv j (shares_of c V ! k)
      in if r_j = com_eval_at E (com_scale E (commit E V) v_inv) j then Ok (valid @ [j], pts @ [r_j], bad)
         else Ok (valid, pts, bad @ [j]))"
  have "foldR ?f (remaining c D) (?I []) = Ok (?I ([] @ remaining c D))"
  proof (rule foldR_prefix)
    fix js j
    assume "j \<in> set (remaining c D)"
    then obtain k where k: "position c j = Some k" using position_None by (cases "position c j") auto
    from position_Some [OF k] have "shares_of c V ! k = peval V (of_nat j)" by auto
    then show "?f j (?I js) = Ok (?I (js @ [j]))"
      using gen_nonzero [OF assms(1)] by (simp add: k point eval)
  qed
  then show ?thesis by (simp add: nonce_filter_def)
qed

definition deviators :: "presign_tamper option \<Rightarrow> party_id set" where
  "deviators tamper = set_option (bad_open tamper) \<union> set_option (bad_nonce tamper)"

lemma remaining_full: "remaining c {} = c_ids c"
  by simp

lemma remaining_filter: "filter (\<lambda>i. bad \<noteq> Some i) (remaining c D) = remaining c (D \<union> set_option bad)"
  by (cases bad) (auto intro!: filter_cong)

lemma robust_nonce_active:
  fixes E :: "('f::field, 'g::ab_group_add, 'r) k256"
  assumes "k256_ok E" "committee_wf c" "c_t c \<le> length (remaining c (deviators tamper))"
    and "multiplies (c_t c) 0 A B C" "length U \<le> c_t c" "length V \<le> c_t c"
  shows "\<exists>bl. set bl = set (c_ids c) \<inter> deviators tamper \<and> distinct bl \<and>
    robust_nonce E c tamper (triples_of E c A B C) (public_of E A B C) (commit E U) (shares_of c U)
      (commit E V) (shares_of c V)
    = (if peval U 0 = 0 \<or> peval V 0 = 0 then Err (ZeroValue ''v = 0'')
       else bindR (nonce_of E ''r = 0'' (inverse (peval U 0)))
         (\<lambda>nonce. Ok (nonce, (bl, remaining c (deviators tamper)))))"
proof -
  note wf = committee_wf_facts [OF assms(2)]
  let ?D1 = "set_option (bad_open tamper)" and ?D2 = "deviators tamper"
  let ?b1 = "filter (\<lambda>i. bad_open tamper = Some i) (remaining c {})"
  let ?b2 = "filter (\<lambda>i. bad_nonce tamper = Some i) (remaining c ?D1)"
  let ?d = "peval U 0 - peval A 0" and ?e = "peval V 0 - peval B 0"
  have sub: "length (remaining c D') \<le> length (remaining c D)" if "D \<subseteq> D'" for D D'
  proof -
    have "remaining c D' = filter (\<lambda>j. j \<notin> D') (remaining c D)" using that by (auto intro!: filter_cong)
    then show ?thesis by (metis length_filter_le)
  qed
  have t0: "c_t c \<le> length (remaining c {})" using sub [of "{}" ?D2, OF empty_subsetI] assms(3) by linarith
  have t1: "c_t c \<le> length (filter (\<lambda>i. bad_open tamper \<noteq> Some i) (remaining c {}))"
  proof -
    have "{} \<union> ?D1 \<subseteq> ?D2" by (auto simp: deviators_def)
    from sub [OF this] assms(3) show ?thesis unfolding remaining_filter by linarith
  qed
  have mult: "length A \<le> c_t c" "length B \<le> c_t c" "length C \<le> c_t c" "C \<noteq> []" "peval C 0 = peval A 0 * peval B 0"
    using assms(4) by (simp_all add: multiplies_def)
  let ?W = "beaver_poly A B C ?d ?e"
  have W: "length ?W \<le> c_t c" "peval ?W 0 = peval U 0 * peval V 0"
    using mult beaver_product [OF mult(4,5) refl refl] by (simp_all add: beaver_poly(2))
  have vsh: "active_shares c (remaining c {}) (\<lambda>k. beaver_share (fst (triples_of E c A B C ! k)) ?d ?e)
      = Ok (map (\<lambda>j. (j, peval ?W (of_nat j))) (remaining c {}))"
    by (rule active_shares_remaining [OF assms(2)])
      (simp add: triples_of_def beaver_share_def c_n_def beaver_poly(1) [OF mult(4)])
  have vopen: "open_robust E (c_t c) (commit E ?W) (tamper_share tamper (map (\<lambda>j. (j, peval ?W (of_nat j))) (remaining c {}))) Presign
      = Ok (peval U 0 * peval V 0, ?b1)"
    unfolding tamper_share_active [OF sorted_remaining(1) [OF assms(2)]]
    using open_robust_active [OF assms(1,2) W(1) t1] W(2) by simp
  note masks = robust_masks_active [OF assms(1,2) t0 assms(4-6), of "[]"]
  have e1: "expel ([], remaining c {}) ?b1 = (?b1, remaining c ?D1)"
    using expel_option [OF assms(2), of "[]" "{}" "bad_open tamper"] by simp
  have e2: "expel (?b1, remaining c ?D1) ?b2 = (?b1 @ ?b2, remaining c ?D2)"
    using expel_option [OF assms(2), of ?b1 ?D1 "bad_nonce tamper"] by (auto simp: deviators_def)
  have valid: "filter (\<lambda>i. bad_nonce tamper \<noteq> Some i) (remaining c ?D1) = remaining c ?D2"
    unfolding remaining_filter deviators_def ..
  have dp: "distinct (pts (remaining c ?D2) :: 'f list)"
    using wf by (intro distinct_pts [OF assms(1)]) auto
  obtain Lam where Lam: "lagrange_coeffs (remaining c ?D2) = Ok (map Lam (remaining c ?D2))"
      "\<forall>cs. length cs \<le> length (remaining c ?D2) \<longrightarrow> (\<Sum>j\<leftarrow>remaining c ?D2. Lam j * peval cs (of_nat j)) = peval cs (0 :: 'f)"
    using lagrange_weights [OF dp sorted_remaining(2) [OF assms(2)], of 0] by (auto simp: lagrange_coeffs_def)
  have ns: "nonce_scalar E ''r = 0'' (map Lam (remaining c ?D2))
      (map (\<lambda>j. smul E (gen E) (inverse (peval U 0 * peval V 0) * peval V (of_nat j))) (remaining c ?D2))
    = nonce_of E ''r = 0'' (inverse (peval U 0 * peval V 0) * peval V 0)"
    using Lam(2) assms(3,6) by (intro nonce_scalar_list [OF assms(1)]) auto
  have k: "inverse (peval U 0 * peval V 0) * peval V 0 = inverse (peval U 0)" if "peval V 0 \<noteq> 0"
    using that by (simp add: field_simps)
  have enough: "\<not> length (remaining c ?D2) < c_t c" using assms(3) by simp
  have set_bl: "set (?b1 @ ?b2) = set (c_ids c) \<inter> ?D2" "distinct (?b1 @ ?b2)"
    using wf(1) by (auto simp: deviators_def)
  have start: "robust_nonce E c tamper (triples_of E c A B C) (public_of E A B C) (commit E U) (shares_of c U)
      (commit E V) (shares_of c V) = bindR (invert_v ''v = 0'' (peval U 0 * peval V 0)) (\<lambda>v_inv.
        bindR (nonce_filter E c tamper (commit E V) (shares_of c V) v_inv (remaining c ?D1)) (\<lambda>(valid, pts, bad).
          if length valid < c_t c then Err (NotEnoughShares (length valid) (c_t c))
          else bindR (lagrange_coeffs valid) (\<lambda>lambdas.
               bindR (nonce_scalar E ''r = 0'' lambdas pts) (\<lambda>nonce. Ok (nonce, expel (?b1, remaining c ?D1) bad)))))"
    unfolding robust_nonce_def masks [unfolded remaining_full] bindR.simps prod.case snd_conv
      beaver_com_honest [OF assms(1) mult(4)] vsh [unfolded remaining_full] vopen [unfolded remaining_full]
      Let_def e1 [unfolded remaining_full] remaining_full ..
  have run: "robust_nonce E c tamper (triples_of E c A B C) (public_of E A B C) (commit E U) (shares_of c U)
      (commit E V) (shares_of c V)
    = (if peval U 0 = 0 \<or> peval V 0 = 0 then Err (ZeroValue ''v = 0'')
       else bindR (nonce_of E ''r = 0'' (inverse (peval U 0)))
         (\<lambda>nonce. Ok (nonce, (?b1 @ ?b2, remaining c ?D2))))"
  proof (cases "peval U 0 = 0 \<or> peval V 0 = 0")
    case True
    then have z: "peval U 0 * peval V 0 = 0" by simp
    show ?thesis
      unfolding start bindR.simps invert_v_value if_P [OF z] if_P [OF True] ..
  next
    case False
    then have nz: "peval U 0 * peval V 0 \<noteq> 0" and V: "peval V 0 \<noteq> 0" by simp_all
    show ?thesis
      unfolding start bindR.simps invert_v_value if_not_P [OF nz] if_not_P [OF False]
        nonce_filter_active [OF assms(1,2)] prod.case snd_conv valid e2
        if_not_P [OF enough] Lam(1) ns k [OF V] ..
  qed
  show ?thesis using run set_bl by blast
qed

text \<open>The nonce phase leaves the survivors' records; the second opening round expels nobody.\<close>

lemma robust_bind_active:
  fixes E :: "('f::field, 'g::ab_group_add, 'r) k256"
  assumes "k256_ok E" "committee_wf c" "c_t c \<le> length (remaining c D)" "multiplies (c_t c) 0 A B C"
    and "length U \<le> c_t c" "length X \<le> c_t c"
  shows "robust_bind E c rid (map (joint_output E X) (c_ids c)) (triples_of E c A B C) (public_of E A B C)
      (commit E U) (shares_of c U) (nonce, (bl, remaining c D))
    = Ok (map (\<lambda>j. \<lparr>ps_id = rid, ps_index = j, ps_r = fst nonce, ps_big_r = snd nonce, ps_u_share = peval U (of_nat j),
          ps_z_share = peval (beaver_poly A B C (peval U 0 - peval A 0) (peval X 0 - peval B 0)) (of_nat j),
          ps_u_com = commit E U,
          ps_z_com = commit E (beaver_poly A B C (peval U 0 - peval A 0) (peval X 0 - peval B 0))\<rparr>) (remaining c D), sort bl)"
proof -
  let ?d = "peval U 0 - peval A 0" and ?e = "peval X 0 - peval B 0"
  have C: "C \<noteq> []" using assms(4) by (simp add: multiplies_def)
  have key0: "nth_opt (map (joint_output E X) (c_ids c)) 0 = Some (joint_output E X (hd (c_ids c)))"
    using committee_wf_facts(2) [OF assms(2)] by (simp add: nth_opt_def hd_conv_nth)
  have shares: "map o_share (map (joint_output E X) (c_ids c)) = shares_of c X"
    by (simp add: joint_output_def)
  have com: "o_com (joint_output E X j) = commit E X" for j by (simp add: joint_output_def)
  let ?rec = "\<lambda>j. \<lparr>ps_id = rid, ps_index = j, ps_r = fst nonce, ps_big_r = snd nonce, ps_u_share = peval U (of_nat j),
          ps_z_share = peval (beaver_poly A B C ?d ?e) (of_nat j),
          ps_u_com = commit E U, ps_z_com = commit E (beaver_poly A B C ?d ?e)\<rparr>"
  have records: "mapR (\<lambda>j. bindR (of_opt (position c j)) (\<lambda>k.
         Ok \<lparr>ps_id = rid, ps_index = j, ps_r = fst nonce, ps_big_r = snd nonce, ps_u_share = shares_of c U ! k,
             ps_z_share = beaver_share (fst (triples_of E c A B C ! k)) ?d ?e, ps_u_com = commit E U,
             ps_z_com = commit E (beaver_poly A B C ?d ?e)\<rparr>)) (remaining c D) = Ok (map ?rec (remaining c D))"
  proof (rule mapR_Ok)
    fix j
    assume "j \<in> set (remaining c D)"
    then obtain k where k: "position c j = Some k" using position_None by (cases "position c j") auto
    from position_Some [OF k] have "k < length (c_ids c)" "c_ids c ! k = j" by auto
    then show "bindR (of_opt (position c j)) (\<lambda>k.
         Ok \<lparr>ps_id = rid, ps_index = j, ps_r = fst nonce, ps_big_r = snd nonce, ps_u_share = shares_of c U ! k,
             ps_z_share = beaver_share (fst (triples_of E c A B C ! k)) ?d ?e, ps_u_com = commit E U,
             ps_z_com = commit E (beaver_poly A B C ?d ?e)\<rparr>) = Ok (?rec j)"
      by (auto simp: k triples_of_def beaver_share_def beaver_poly(1) [OF C])
  qed
  show ?thesis
    unfolding robust_bind_def prod.case key0 of_opt_simps bindR.simps shares com
      robust_masks_active [OF assms(1-6)] beaver_com_honest [OF assms(1) C] fst_conv snd_conv records ..
qed

text \<open>
  Blame and continue: while at least \<open>t\<close> parties do not deviate, the robust protocol returns valid
  records of exactly the parties that did not deviate, and blames exactly those that did.
\<close>

lemma presign_robust_honest:
  fixes E :: "('f::field, 'g::ab_group_add, 'r) k256"
  assumes "k256_ok E" "committee_wf c" "c_n c \<le> length rs" "length X \<le> c_t c" "tt_of tamper = None"
    and "c_t c \<le> length (remaining c (deviators tamper))"
  shows "\<exists>res rs'. presign_robust_with_committee E c (map (joint_output E X) (c_ids c)) rid tamper rs = (res, rs')
    \<and> ((\<exists>U Z nonce. res = Ok (map (\<lambda>j. \<lparr>ps_id = rid, ps_index = j, ps_r = fst nonce, ps_big_r = snd nonce,
            ps_u_share = peval U (of_nat j), ps_z_share = peval Z (of_nat j), ps_u_com = commit E U,
            ps_z_com = commit E Z\<rparr>) (remaining c (deviators tamper)),
            filter (\<lambda>j. j \<in> deviators tamper) (c_ids c))
          \<and> presig_ok E (c_t c) 0 (peval X 0) U Z nonce)
        \<or> res = Err (ZeroValue ''v = 0'') \<or> res = Err (ZeroValue ''r = 0''))"
proof -
  let ?sid = "presign_sid rid" and ?keys = "map (joint_output E X) (c_ids c)" and ?D = "deviators tamper"
  from generate_multiplies [OF assms(1-3), of "?sid @ str_bytes ''/t1''"] obtain A B C r1 where
    t1: "generate_with_committee E c (?sid @ str_bytes ''/t1'') None rs = (Ok (triples_of E c A B C), r1)"
      "length r1 = length rs" "multiplies (c_t c) 0 A B C" by blast
  then have "c_n c \<le> length r1" using assms(3) by simp
  from generate_multiplies [OF assms(1,2) this, of "?sid @ str_bytes ''/t2''"] obtain A2 B2 C2 r2 where
    t2: "generate_with_committee E c (?sid @ str_bytes ''/t2'') None r1 = (Ok (triples_of E c A2 B2 C2), r2)"
      "length r2 = length rs" "multiplies (c_t c) 0 A2 B2 C2"
    using t1(2) by metis
  then have "c_n c \<le> length r2" using assms(3) by simp
  from joint_random_honest [OF assms(1,2) this, of "?sid @ str_bytes ''/u''" Presign] obtain U r3 where
    u: "joint_random E c (?sid @ str_bytes ''/u'') Presign r2 = (Ok (map (joint_output E U) (c_ids c)), r3)"
      "length U = c_t c" "length r3 = length rs" using t2(2) by metis
  then have "c_n c \<le> length r3" using assms(3) by simp
  from joint_random_honest [OF assms(1,2) this, of "?sid @ str_bytes ''/a''" Presign] obtain V r4 where
    a: "joint_random E c (?sid @ str_bytes ''/a'') Presign r3 = (Ok (map (joint_output E V) (c_ids c)), r4)"
      "length V = c_t c" using u(3) by metis
  have lens: "length U \<le> c_t c" "length V \<le> c_t c" using u(2) a(2) by simp_all
  obtain k0 kr where ids: "c_ids c = k0 # kr" using committee_wf_facts(2) [OF assms(2)] by (cases "c_ids c") auto
  have first: "nth_opt (map f (c_ids c)) 0 = Some (f k0)" for f :: "party_id \<Rightarrow> 'x"
    by (simp add: ids nth_opt_def)
  have tri: "\<exists>x. nth_opt (triples_of E c A B C) 0 = Some x \<and> snd x = public_of E A B C" for A B C
    by (simp add: triples_of_def public_of_def ids nth_opt_def)
  obtain x1 x2 where x: "nth_opt (triples_of E c A B C) 0 = Some x1" "snd x1 = public_of E A B C"
    "nth_opt (triples_of E c A2 B2 C2) 0 = Some x2" "snd x2 = public_of E A2 B2 C2"
    using tri by meson
  have outs: "map o_share (map (joint_output E W) (c_ids c)) = shares_of c W" "o_com (joint_output E W i) = commit E W" for W i
    by (simp_all add: joint_output_def)
  have start: "presign_robust_with_committee E c ?keys rid tamper rs =
      (bindR (robust_nonce E c tamper (triples_of E c A B C) (public_of E A B C) (commit E U) (shares_of c U)
          (commit E V) (shares_of c V))
        (robust_bind E c rid ?keys (triples_of E c A2 B2 C2) (public_of E A2 B2 C2) (commit E U) (shares_of c U)), r4)"
    using t1(1) t2(1) u(1) a(1)
    by (simp add: presign_robust_with_committee_def Let_def assms(5) bindS_def check_inputs_honest [OF assms(3)]
        x first outs del: map_map)
  from robust_nonce_active [OF assms(1,2,6) t1(3) lens] obtain bl where
    bl: "set bl = set (c_ids c) \<inter> ?D" "distinct bl" and
    nonce: "robust_nonce E c tamper (triples_of E c A B C) (public_of E A B C) (commit E U) (shares_of c U)
      (commit E V) (shares_of c V)
    = (if peval U 0 = 0 \<or> peval V 0 = 0 then Err (ZeroValue ''v = 0'')
       else bindR (nonce_of E ''r = 0'' (inverse (peval U 0)))
         (\<lambda>nonce. Ok (nonce, (bl, remaining c ?D))))" by blast
  have sorted_bl: "sort bl = filter (\<lambda>j. j \<in> ?D) (c_ids c)"
  proof (rule sorted_distinct_set_unique)
    show "sorted (filter (\<lambda>j. j \<in> ?D) (c_ids c))"
      using assms(2) by (intro sorted_wrt_filter) (auto simp: committee_wf_def strict_sorted_iff)
  qed (use bl committee_wf_facts(1) [OF assms(2)] in auto)
  let ?Z = "beaver_poly A2 B2 C2 (peval U 0 - peval A2 0) (peval X 0 - peval B2 0)"
  have mult2: "length A2 \<le> c_t c" "length B2 \<le> c_t c" "length C2 \<le> c_t c" "C2 \<noteq> []" "peval C2 0 = peval A2 0 * peval B2 0"
    using t2(3) by (simp_all add: multiplies_def)
  have Z: "length ?Z \<le> c_t c" "peval ?Z 0 = peval U 0 * peval X 0"
    using mult2 beaver_product [OF mult2(4,5) refl refl] by (simp_all add: beaver_poly(2))
  note bound = robust_bind_active [OF assms(1,2,6) t2(3) lens(1) assms(4)]
  show ?thesis
  proof (cases "peval U 0 = 0 \<or> peval V 0 = 0")
    case True
    then show ?thesis using start nonce by auto
  next
    case False
    then have k: "inverse (peval U 0) \<noteq> 0" by simp
    from nonce_of_cases [OF assms(1) k, of "''r = 0''"]
    show ?thesis
    proof (elim disjE exE conjE)
      assume "nonce_of E ''r = 0'' (inverse (peval U 0)) = Err (ZeroValue ''r = 0'')"
      then show ?thesis using start nonce False by auto
    next
      fix xb
      assume xb: "x_bytes E (smul E (gen E) (inverse (peval U 0))) = Some xb" "reduce E xb \<noteq> 0"
        "nonce_of E ''r = 0'' (inverse (peval U 0)) = Ok (reduce E xb, smul E (gen E) (inverse (peval U 0)))"
      let ?nc = "(reduce E xb, smul E (gen E) (inverse (peval U 0)))"
      have "presig_ok E (c_t c) 0 (peval X 0) U ?Z ?nc"
        using Z xb lens False by (simp add: presig_ok_def)
      moreover have "presign_robust_with_committee E c ?keys rid tamper rs =
        (robust_bind E c rid ?keys (triples_of E c A2 B2 C2) (public_of E A2 B2 C2) (commit E U) (shares_of c U)
           (?nc, (bl, remaining c ?D)), r4)"
        unfolding start nonce if_not_P [OF False] xb(3) bindR.simps ..
      ultimately show ?thesis unfolding bound sorted_bl by blast
    qed
  qed
qed

end
