(* ===== verification/Signing.thy ===== *)
theory Signing
  imports Presign_Variants
begin

text \<open>
  Online signing (\<open>src/protocol/sign.rs\<close>): local signature shares, the verified combine with its
  packed, key-independent, re-randomised and robust variants. The abstract contract of the component is
  \<open>ecdsa_verifies\<close>, the verification equation of ECDSA: whatever list of shares the combine
  accepts, the scalar it returns is the one the nonce and the key determine, and it verifies.
\<close>

section \<open>Shares and their verified combination\<close>

record 'f sign_share =
  sg_from :: party_id
  sg_s :: 'f

definition sign_share :: "('f::field, 'g) presignature \<Rightarrow> 'f \<Rightarrow> 'f sign_share" where
  "sign_share p m = \<lparr>sg_from = ps_index p, sg_s = m * ps_u_share p + ps_r p * ps_z_share p\<rparr>"

definition wire :: "'f sign_share list \<Rightarrow> (party_id \<times> 'f) list" where
  "wire shares = map (\<lambda>sh. (sg_from sh, sg_s sh)) shares"

definition combine_verified :: "('f::field, 'g::ab_group_add, 'r) k256 \<Rightarrow> nat \<Rightarrow> 'f \<Rightarrow> 'f \<Rightarrow> 'g feldman
    \<Rightarrow> 'f sign_share list \<Rightarrow> ('f \<times> 'f) result" where
  "combine_verified E quorum point r s_com shares =
     (let (valid_parties, valid_shares, blamed) = sift (verify_share E s_com) (wire shares) ([], [], [])
      in if blamed \<noteq> [] then abort Sign blamed ''signature share failed commitment check''
      else if length valid_parties < quorum then Err (NotEnoughShares (length valid_parties) quorum)
      else if point = 0
      then bindR (interpolate_at_zero (take quorum valid_parties) (take quorum valid_shares)) (\<lambda>s. Ok (r, s))
      else bindR (interpolate_at point (take quorum valid_parties) (take quorum valid_shares)) (\<lambda>s. Ok (r, s)))"

definition sign_com :: "('f, 'g::ab_group_add, 'r) k256 \<Rightarrow> 'g feldman \<Rightarrow> 'g feldman \<Rightarrow> 'f \<Rightarrow> 'f \<Rightarrow> 'g feldman" where
  \<comment> \<open>\<open>A[s] = m A[u] + r A[z]\<close>\<close>
  "sign_com E u_com z_com m r = com_add (com_scale E u_com m) (com_scale E z_com r)"

definition combine_at :: "('f::field, 'g::ab_group_add, 'r) k256 \<Rightarrow> nat \<Rightarrow> 'f \<Rightarrow> ('f, 'g) presignature \<Rightarrow> 'f
    \<Rightarrow> 'f sign_share list \<Rightarrow> ('f \<times> 'f) result" where
  "combine_at E quorum point meta m shares =
     combine_verified E quorum point (ps_r meta) (sign_com E (ps_u_com meta) (ps_z_com meta) m (ps_r meta)) shares"

definition combine :: "('f::field, 'g::ab_group_add, 'r) k256 \<Rightarrow> params \<Rightarrow> ('f, 'g) presignature \<Rightarrow> 'f
    \<Rightarrow> 'f sign_share list \<Rightarrow> ('f \<times> 'f) result" where
  "combine E p meta m shares = combine_at E (p_t p) 0 meta m shares"

definition combine_robust_verified :: "('f::field, 'g::ab_group_add, 'r) k256 \<Rightarrow> nat \<Rightarrow> 'f \<Rightarrow> 'g feldman
    \<Rightarrow> 'f sign_share list \<Rightarrow> (('f \<times> 'f) \<times> party_id list) result" where
  "combine_robust_verified E quorum r s_com shares =
     (let (valid_parties, valid_shares, blamed) = sift (verify_share E s_com) (wire shares) ([], [], [])
      in if length valid_parties < quorum then Err (NotEnoughShares (length valid_parties) quorum)
      else bindR (interpolate_at_zero (take quorum valid_parties) (take quorum valid_shares)) (\<lambda>s.
        Ok ((r, s), blamed)))"

definition combine_robust :: "('f::field, 'g::ab_group_add, 'r) k256 \<Rightarrow> params \<Rightarrow> ('f, 'g) presignature \<Rightarrow> 'f
    \<Rightarrow> 'f sign_share list \<Rightarrow> (('f \<times> 'f) \<times> party_id list) result" where
  "combine_robust E p meta m shares = combine_robust_verified E (p_t p) (ps_r meta)
     (sign_com E (ps_u_com meta) (ps_z_com meta) m (ps_r meta)) shares"

section \<open>Key-independent signing\<close>

record 'f ki_sign_tamper =
  ks_bad_open_share :: "party_id option"
  ks_bad_sign_share :: "(party_id \<times> 'f) option"

definition ki_z_share :: "'f::field triple_share \<Rightarrow> 'f \<Rightarrow> 'f \<Rightarrow> 'f" where
  "ki_z_share triple delta eps = ts_c triple + delta * ts_b triple + eps * ts_a triple + delta * eps"

definition ki_z_com :: "('f::field, 'g::ab_group_add, 'r) k256 \<Rightarrow> 'g triple_public \<Rightarrow> 'f \<Rightarrow> 'f
    \<Rightarrow> 'g feldman result" where
  "ki_z_com E triple delta eps =
     com_add_const E (com_add (com_add (tp_cc triple) (com_scale E (tp_cb triple) delta))
       (com_scale E (tp_ca triple) eps)) (delta * eps)"

definition sign_share_ki :: "('f::field, 'g) ki_presignature \<Rightarrow> 'f \<Rightarrow> 'f \<Rightarrow> 'f sign_share" where
  "sign_share_ki p z_share m = \<lparr>sg_from = kp_index p, sg_s = m * kp_u_share p + kp_r p * z_share\<rparr>"

definition combine_ki :: "('f::field, 'g::ab_group_add, 'r) k256 \<Rightarrow> params \<Rightarrow> ('f, 'g) ki_presignature
    \<Rightarrow> 'g feldman \<Rightarrow> 'f \<Rightarrow> 'f sign_share list \<Rightarrow> ('f \<times> 'f) result" where
  "combine_ki E p meta z_com m shares = combine_verified E (p_t p) 0 (kp_r meta)
     (sign_com E (kp_u_com meta) z_com m (kp_r meta)) shares"

definition combine_ki_robust :: "('f::field, 'g::ab_group_add, 'r) k256 \<Rightarrow> params \<Rightarrow> ('f, 'g) ki_presignature
    \<Rightarrow> 'g feldman \<Rightarrow> 'f \<Rightarrow> 'f sign_share list \<Rightarrow> (('f \<times> 'f) \<times> party_id list) result" where
  "combine_ki_robust E p meta z_com m shares = combine_robust_verified E (p_t p) (kp_r meta)
     (sign_com E (kp_u_com meta) z_com m (kp_r meta)) shares"

section \<open>Re-randomised signing\<close>

definition rerand_digest :: "('f, 'g, 'r) k256 \<Rightarrow> bytes \<Rightarrow> nat \<Rightarrow> 'f \<Rightarrow> 'f option \<Rightarrow> 'g \<Rightarrow> 8 word \<Rightarrow> bytes" where
  "rerand_digest E sid i m tweak x_point counter =
     sha256 E (RERAND_GAMMA @ [counter] @ u64_be (length sid) @ sid @ u64_be i @ sc_bytes E m
       @ (case tweak of Some tau \<Rightarrow> [1] @ sc_bytes E tau | None \<Rightarrow> [0]) @ pt_bytes E x_point)"

partial_function (option) rerand_loop :: "('f::field, 'g, 'r) k256 \<Rightarrow> bytes \<Rightarrow> nat \<Rightarrow> 'f \<Rightarrow> 'f option \<Rightarrow> 'g
    \<Rightarrow> 8 word \<Rightarrow> 'f option" where
  \<comment> \<open>the loop re-hashes with the next counter byte, which wraps around\<close>
  [code]: "rerand_loop E sid i m tweak x_point counter =
     (let gamma = scalar_from_digest E (rerand_digest E sid i m tweak x_point counter)
      in if gamma \<noteq> 0 then Some gamma else rerand_loop E sid i m tweak x_point (counter + 1))"

definition rerand_gamma :: "('f::field, 'g, 'r) k256 \<Rightarrow> bytes \<Rightarrow> nat \<Rightarrow> 'f \<Rightarrow> 'f option \<Rightarrow> 'g \<Rightarrow> 'f option" where
  "rerand_gamma E sid i m tweak x_point = rerand_loop E sid i m tweak x_point 0"

definition rerand_factors :: "('f::field, 'g, 'r) k256 \<Rightarrow> 'g \<Rightarrow> 'f \<Rightarrow> ('f \<times> 'f) result" where
  \<comment> \<open>both \<open>expect\<close> calls are panics\<close>
  "rerand_factors E big_r gamma =
     bindR (of_opt (sc_invert gamma)) (\<lambda>gamma_inv.
     bindR (of_opt (x_bytes E (smul E big_r gamma))) (\<lambda>x. Ok (gamma_inv, scalar_from_digest E x)))"

definition sign_share_rerand :: "('f::field, 'g, 'r) k256 \<Rightarrow> ('f, 'g) presignature \<Rightarrow> 'f \<Rightarrow> 'f \<Rightarrow> 'f option
    \<Rightarrow> 'f sign_share result" where
  "sign_share_rerand E p m gamma tweak =
     bindR (rerand_factors E (ps_big_r p) gamma) (\<lambda>(gamma_inv, r_prime).
       let u_prime = gamma_inv * ps_u_share p;
           z_prime = (case tweak of Some tau \<Rightarrow> gamma_inv * (ps_z_share p + tau * ps_u_share p)
                      | None \<Rightarrow> gamma_inv * ps_z_share p)
       in Ok \<lparr>sg_from = ps_index p, sg_s = m * u_prime + r_prime * z_prime\<rparr>)"

definition combine_rerand :: "('f::field, 'g::ab_group_add, 'r) k256 \<Rightarrow> params \<Rightarrow> ('f, 'g) presignature \<Rightarrow> 'f
    \<Rightarrow> 'f \<Rightarrow> 'f option \<Rightarrow> 'f sign_share list \<Rightarrow> ('f \<times> 'f) result" where
  "combine_rerand E p meta m gamma tweak shares =
     bindR (rerand_factors E (ps_big_r meta) gamma) (\<lambda>(gamma_inv, r_prime).
       let u_prime_com = com_scale E (ps_u_com meta) gamma_inv;
           z_prime_com = (case tweak of
               Some tau \<Rightarrow> com_scale E (com_add (ps_z_com meta) (com_scale E (ps_u_com meta) tau)) gamma_inv
             | None \<Rightarrow> com_scale E (ps_z_com meta) gamma_inv);
           s_com = sign_com E u_prime_com z_prime_com m r_prime
       in combine_verified E (p_t p) 0 r_prime s_com shares)"

section \<open>The verified combine\<close>

lemma map_wire [simp]: "map fst (wire shares) = map sg_from shares" "map snd (wire shares) = map sg_s shares"
  by (simp_all add: wire_def o_def)

lemma length_wire [simp]: "length (wire shares) = length shares"
  by (simp add: wire_def)

lemma take_wire [simp]: "take q (wire shares) = wire (take q shares)"
  by (simp add: wire_def take_map)

lemma combine_verified_cases:
  "combine_verified E q point r com shares =
     (if cheaters E com (wire shares) \<noteq> []
      then abort Sign (cheaters E com (wire shares)) ''signature share failed commitment check''
      else if length shares < q then Err (NotEnoughShares (length shares) q)
      else bindR (interpolate_at point (map fst (take q (wire shares))) (map snd (take q (wire shares)))) (\<lambda>s. Ok (r, s)))"
  using good_all [of E com "wire shares"]
  by (cases "cheaters E com (wire shares) = []")
    (auto simp: combine_verified_def sift_shares interpolate_at_zero_def take_map)

lemma combine_robust_verified_cases:
  "combine_robust_verified E q r com shares =
     (let g = good E com (wire shares) in
      if length g < q then Err (NotEnoughShares (length g) q)
      else bindR (interpolate_at 0 (map fst (take q g)) (map snd (take q g)))
        (\<lambda>s. Ok ((r, s), cheaters E com (wire shares))))"
  by (simp add: combine_robust_verified_def sift_shares interpolate_at_zero_def take_map Let_def)

definition senders_ok :: "'f sign_share list \<Rightarrow> bool" where
  \<comment> \<open>one share per sender, 64-bit ids\<close>
  "senders_ok shares \<longleftrightarrow> ids_ok (wire shares)"

lemma combine_verified_commit:
  assumes "k256_ok E" "senders_ok shares" "length S \<le> q"
  shows "combine_verified E q point r (commit E S) shares =
     (if \<exists>sh \<in> set shares. sg_s sh \<noteq> peval S (of_nat (sg_from sh))
      then abort Sign (map sg_from (filter (\<lambda>sh. sg_s sh \<noteq> peval S (of_nat (sg_from sh))) shares))
        ''signature share failed commitment check''
      else if length shares < q then Err (NotEnoughShares (length shares) q)
      else Ok (r, peval S point))"
proof -
  let ?bad = "\<lambda>sh. sg_s sh \<noteq> peval S (of_nat (sg_from sh))"
  have ch: "cheaters E (commit E S) (wire shares) = map sg_from (filter ?bad shares)"
    by (simp add: cheaters_def wire_def filter_map o_def verify_share_commit [OF assms(1)])
  have "interpolate_at point (map fst (take q (wire shares))) (map snd (take q (wire shares))) = Ok (peval S point)"
    if "cheaters E (commit E S) (wire shares) = []" "q \<le> length shares"
    using interpolate_commit [OF assms(1) take_good, of "wire shares" S q point] assms(2,3) that
    by (simp add: good_all senders_ok_def)
  then show ?thesis unfolding combine_verified_cases ch
    by (auto simp: filter_empty_conv)
qed

lemma combine_robust_verified_commit:
  assumes "k256_ok E" "senders_ok shares" "length S \<le> q"
  shows "combine_robust_verified E q r (commit E S) shares =
     (let honest = filter (\<lambda>sh. sg_s sh = peval S (of_nat (sg_from sh))) shares in
      if length honest < q then Err (NotEnoughShares (length honest) q)
      else Ok ((r, peval S 0), map sg_from (filter (\<lambda>sh. sg_s sh \<noteq> peval S (of_nat (sg_from sh))) shares)))"
proof -
  let ?g = "good E (commit E S) (wire shares)"
  have ch: "cheaters E (commit E S) (wire shares)
      = map sg_from (filter (\<lambda>sh. sg_s sh \<noteq> peval S (of_nat (sg_from sh))) shares)"
    by (simp add: cheaters_def wire_def filter_map o_def verify_share_commit [OF assms(1)])
  have g: "?g = wire (filter (\<lambda>sh. sg_s sh = peval S (of_nat (sg_from sh))) shares)"
    by (simp add: good_def wire_def filter_map o_def verify_share_commit [OF assms(1)])
  have "interpolate_at 0 (map fst (take q ?g)) (map snd (take q ?g)) = Ok (peval S 0)" if "q \<le> length ?g"
    using interpolate_commit [OF assms(1) take_good, of "wire shares" S q 0] assms(2,3) that
    by (simp add: senders_ok_def)
  then show ?thesis unfolding combine_robust_verified_cases Let_def ch by (auto simp: g)
qed

text \<open>A repeated sender within the quorum reaches the \<open>expect\<close> of the interpolation.\<close>

lemma combine_verified_panics:
  assumes "cheaters E com (wire shares) = []" "q \<le> length shares" "\<not> distinct (take q (map sg_from shares))"
  shows "combine_verified E q point r com shares = Panic"
  using assms lagrange_coeffs_at_panic [of "take q (map sg_from shares)" point]
  by (simp add: combine_verified_cases interpolate_at_def take_map [symmetric])

section \<open>Verification of signatures\<close>

definition ecdsa_verifies :: "('f::field, 'g::ab_group_add, 'r) k256 \<Rightarrow> 'g \<Rightarrow> 'f \<Rightarrow> 'f \<times> 'f \<Rightarrow> bool" where
  \<comment> \<open>the ECDSA verification equation for the public key \<open>X\<close> and the hashed message \<open>m\<close>\<close>
  "ecdsa_verifies E X m sig = (case sig of (r, s) \<Rightarrow> r \<noteq> 0 \<and> s \<noteq> 0 \<and>
     (case x_bytes E (smul E (gen E) (m * inverse s) + smul E X (r * inverse s)) of
        None \<Rightarrow> False | Some xb \<Rightarrow> reduce E xb = r))"

definition sign_poly :: "'f::comm_ring_1 list \<Rightarrow> 'f list \<Rightarrow> 'f \<Rightarrow> 'f \<Rightarrow> 'f list" where
  \<comment> \<open>the sharing of the signature scalar\<close>
  "sign_poly U Z m r = padd (pscale m U) (pscale r Z)"

lemma sign_com_commit: "k256_ok E \<Longrightarrow> sign_com E (commit E U) (commit E Z) m r = commit E (sign_poly U Z m r)"
  by (simp add: sign_com_def sign_poly_def com_scale_commit com_add_commit)

lemma length_sign_poly: "length U \<le> q \<Longrightarrow> length Z \<le> q \<Longrightarrow> length (sign_poly U Z m r) \<le> q"
  by (simp add: sign_poly_def)

lemma peval_sign_poly: "peval (sign_poly U Z m r) x = m * peval U x + r * peval Z x"
  by (simp add: sign_poly_def mult.commute)

lemma presig_ok_verifies:
  fixes E :: "('f::field, 'g::ab_group_add, 'r) k256"
  assumes "k256_ok E" "presig_ok E q pt x U Z nonce" "peval (sign_poly U Z m (fst nonce)) pt \<noteq> 0"
  shows "ecdsa_verifies E (smul E (gen E) x) m (fst nonce, peval (sign_poly U Z m (fst nonce)) pt)"
proof -
  let ?r = "fst nonce" and ?u = "peval U pt"
  have ok: "?u \<noteq> 0" "peval Z pt = ?u * x" "snd nonce = smul E (gen E) (inverse ?u)"
    "x_bytes E (snd nonce) \<noteq> None" "?r = reduce E (the (x_bytes E (snd nonce)))" "?r \<noteq> 0"
    using assms(2) by (auto simp: presig_ok_def)
  let ?s = "peval (sign_poly U Z m ?r) pt"
  have s: "?s = ?u * (m + ?r * x)" using ok(2) by (simp add: peval_sign_poly algebra_simps)
  have "m * inverse ?s + x * (?r * inverse ?s) = (m + ?r * x) * inverse ?s" by (simp add: algebra_simps)
  also have "\<dots> = inverse ?u" using assms(3) ok(1) unfolding s by (simp add: field_simps)
  finally have "smul E (gen E) (m * inverse ?s) + smul E (smul E (gen E) x) (?r * inverse ?s) = snd nonce"
    using ok(3) by (simp add: smul_smul [OF assms(1)] smul_add [OF assms(1), symmetric])
  then show ?thesis using assms(3) ok(4-6) by (auto simp: ecdsa_verifies_def)
qed

definition meta_of :: "('f, 'g, 'r) k256 \<Rightarrow> ('f, 'g) presignature \<Rightarrow> 'f list \<Rightarrow> 'f list \<Rightarrow> 'f \<times> 'g \<Rightarrow> bool" where
  \<comment> \<open>the public fields of a record of this presignature\<close>
  "meta_of E p U Z nonce \<longleftrightarrow> ps_r p = fst nonce \<and> ps_big_r p = snd nonce \<and> ps_u_com p = commit E U \<and> ps_z_com p = commit E Z"

definition holds :: "('f::comm_ring_1, 'g, 'r) k256 \<Rightarrow> ('f, 'g) presignature \<Rightarrow> 'f list \<Rightarrow> 'f list \<Rightarrow> 'f \<times> 'g \<Rightarrow> bool" where
  \<comment> \<open>a party's record: the public fields and its shares\<close>
  "holds E p U Z nonce \<longleftrightarrow> meta_of E p U Z nonce \<and> ps_u_share p = peval U (of_nat (ps_index p))
     \<and> ps_z_share p = peval Z (of_nat (ps_index p))"

lemma presigs_hold: "p \<in> set (presigs_of E c rid nonce U Z) \<Longrightarrow> holds E p U Z nonce"
  by (auto simp: presigs_of_def holds_def meta_of_def)

lemma sign_share_poly:
  "holds E p U Z nonce \<Longrightarrow> sg_s (sign_share p m) = peval (sign_poly U Z m (fst nonce)) (of_nat (sg_from (sign_share p m)))"
  by (auto simp: holds_def meta_of_def sign_share_def peval_sign_poly)

lemma combine_at_commit:
  assumes "k256_ok E" "presig_ok E q pt x U Z nonce" "meta_of E meta U Z nonce" "senders_ok shares"
  shows "combine_at E q point meta m shares =
     (if \<exists>sh \<in> set shares. sg_s sh \<noteq> peval (sign_poly U Z m (fst nonce)) (of_nat (sg_from sh))
      then abort Sign (map sg_from (filter (\<lambda>sh. sg_s sh \<noteq> peval (sign_poly U Z m (fst nonce)) (of_nat (sg_from sh))) shares))
        ''signature share failed commitment check''
      else if length shares < q then Err (NotEnoughShares (length shares) q)
      else Ok (fst nonce, peval (sign_poly U Z m (fst nonce)) point))"
  using assms combine_verified_commit [OF assms(1,4) length_sign_poly, of U q Z]
  by (auto simp: combine_at_def meta_of_def presig_ok_def sign_com_commit)

text \<open>Whatever shares the combine accepts, the signature it returns verifies, unless \<open>s = 0\<close>.\<close>

lemma combine_at_sound:
  fixes E :: "('f::field, 'g::ab_group_add, 'r) k256"
  assumes "k256_ok E" "presig_ok E q pt x U Z nonce" "meta_of E meta U Z nonce" "senders_ok shares"
    and "combine_at E q pt meta m shares = Ok (r, s)" "s \<noteq> 0"
  shows "ecdsa_verifies E (smul E (gen E) x) m (r, s)"
proof -
  have "r = fst nonce \<and> s = peval (sign_poly U Z m (fst nonce)) pt"
    using assms(5) unfolding combine_at_commit [OF assms(1-4)] by (auto simp: abort_def split: if_splits)
  then show ?thesis using presig_ok_verifies [OF assms(1,2)] assms(6) by auto
qed

definition signers_ok :: "('f, 'g) presignature list \<Rightarrow> bool" where
  "signers_ok ps \<longleftrightarrow> distinct (map ps_index ps) \<and> (\<forall>p \<in> set ps. ps_index p < 2 ^ 64)"

lemma signers_senders: "signers_ok ps \<Longrightarrow> senders_ok (map (\<lambda>p. sign_share p m) ps)"
  by (auto simp: signers_ok_def senders_ok_def ids_ok_def wire_def sign_share_def o_def)

lemma signers_presigs: "committee_wf c \<Longrightarrow> signers_ok (presigs_of E c rid nonce U Z)"
  using committee_wf_facts by (auto simp: signers_ok_def presigs_of_def o_def)

text \<open>At least a quorum of honest shares combine to \<open>u (m + r x)\<close>, the scalar of the signature.\<close>

lemma combine_at_honest:
  fixes E :: "('f::field, 'g::ab_group_add, 'r) k256"
  assumes "k256_ok E" "presig_ok E q pt x U Z nonce" "meta_of E meta U Z nonce"
    and "signers_ok ps" "\<And>p. p \<in> set ps \<Longrightarrow> holds E p U Z nonce" "q \<le> length ps"
  shows "combine_at E q pt meta m (map (\<lambda>p. sign_share p m) ps)
    = Ok (fst nonce, peval U pt * (m + fst nonce * x))"
proof -
  have "peval (sign_poly U Z m (fst nonce)) pt = peval U pt * (m + fst nonce * x)"
    using assms(2) by (simp add: presig_ok_def peval_sign_poly algebra_simps)
  then show ?thesis
    using assms(6) sign_share_poly [OF assms(5)]
    by (auto simp: combine_at_commit [OF assms(1-3) signers_senders [OF assms(4)]])
qed

text \<open>Robust combination delivers as long as a quorum of shares is honest.\<close>

lemma combine_robust_delivers:
  fixes E :: "('f::field, 'g::ab_group_add, 'r) k256"
  assumes "k256_ok E" "presig_ok E (p_t p) 0 x U Z nonce" "meta_of E meta U Z nonce" "senders_ok shares"
    and "p_t p \<le> length (filter (\<lambda>sh. sg_s sh = peval (sign_poly U Z m (fst nonce)) (of_nat (sg_from sh))) shares)"
  shows "combine_robust E p meta m shares = Ok ((fst nonce, peval U 0 * (m + fst nonce * x)),
      map sg_from (filter (\<lambda>sh. sg_s sh \<noteq> peval (sign_poly U Z m (fst nonce)) (of_nat (sg_from sh))) shares))"
proof -
  have "peval (sign_poly U Z m (fst nonce)) 0 = peval U 0 * (m + fst nonce * x)"
    using assms(2) by (simp add: presig_ok_def peval_sign_poly algebra_simps)
  then show ?thesis
    using assms combine_robust_verified_commit [OF assms(1,4) length_sign_poly, of U "p_t p" Z]
    by (auto simp: combine_robust_def meta_of_def presig_ok_def sign_com_commit Let_def)
qed

section \<open>Re-randomisation\<close>

lemma rerand_loop_Some:
  assumes "rerand_loop E sid i m tweak X counter = Some gamma"
  shows "gamma \<noteq> 0 \<and> (\<exists>n. gamma = scalar_from_digest E (rerand_digest E sid i m tweak X n))"
proof (rule rerand_loop.raw_induct [OF _ assms, where P = "\<lambda>E sid i m tweak X counter gamma.
    gamma \<noteq> 0 \<and> (\<exists>n. gamma = scalar_from_digest E (rerand_digest E sid i m tweak X n))"])
qed (auto simp: Let_def split: if_splits)

lemma rerand_loop_step:
  "scalar_from_digest E (rerand_digest E sid i m tweak X (of_nat k)) = 0 \<Longrightarrow>
   rerand_loop E sid i m tweak X (of_nat k) = rerand_loop E sid i m tweak X (of_nat (Suc k))"
  by (subst rerand_loop.simps) (simp add: add.commute)

lemma rerand_loop_stop:
  "scalar_from_digest E (rerand_digest E sid i m tweak X n) \<noteq> 0 \<Longrightarrow>
   rerand_loop E sid i m tweak X n = Some (scalar_from_digest E (rerand_digest E sid i m tweak X n))"
  by (subst rerand_loop.simps) simp

lemma rerand_loop_from:
  assumes "\<And>l. k \<le> l \<Longrightarrow> l < k + d \<Longrightarrow> scalar_from_digest E (rerand_digest E sid i m tweak X (of_nat l)) = 0"
  shows "rerand_loop E sid i m tweak X (of_nat k) = rerand_loop E sid i m tweak X (of_nat (k + d))"
  using assms
proof (induction d)
  case (Suc d)
  then show ?case using rerand_loop_step [of E sid i m tweak X "k + d"] by (metis add_Suc_right le_add1 lessI less_Suc_eq)
qed simp

text \<open>
  The loop ends exactly when one of the 256 counter bytes gives a nonzero digest, and returns the first
  such digest.
\<close>

lemma rerand_gamma_value:
  "rerand_gamma E sid i m tweak X =
     map_option (\<lambda>k. scalar_from_digest E (rerand_digest E sid i m tweak X (of_nat k)))
       (find (\<lambda>k. scalar_from_digest E (rerand_digest E sid i m tweak X (of_nat k)) \<noteq> 0) [0..<256])"
proof -
  let ?f = "\<lambda>k. scalar_from_digest E (rerand_digest E sid i m tweak X (of_nat k))"
  show ?thesis
  proof (cases "find (\<lambda>k. ?f k \<noteq> 0) [0..<256]")
    case None
    have zero: "scalar_from_digest E (rerand_digest E sid i m tweak X n) = 0" for n
    proof -
      have "unat n < 256" using unsigned_less [of n] by simp
      then have "?f (unat n) = 0" using None by (auto simp: find_None_iff)
      then show ?thesis by simp
    qed
    have "rerand_gamma E sid i m tweak X = None"
      using rerand_loop_Some [of E sid i m tweak X 0] zero
      by (cases "rerand_loop E sid i m tweak X 0") (auto simp: rerand_gamma_def)
    then show ?thesis using None by simp
  next
    case (Some k)
    then have k: "?f k \<noteq> 0" "\<And>l. l < k \<Longrightarrow> ?f l = 0" by (auto simp: find_Some_iff)
    have "rerand_loop E sid i m tweak X (of_nat 0) = rerand_loop E sid i m tweak X (of_nat (0 + k))"
      using k(2) by (intro rerand_loop_from) simp
    then show ?thesis using Some rerand_loop_stop [OF k(1)] by (simp add: rerand_gamma_def)
  qed
qed

lemma presig_ok_rerand:
  fixes E :: "('f::field, 'g::ab_group_add, 'r) k256"
  assumes "k256_ok E" "presig_ok E q pt x U Z nonce" "gamma \<noteq> 0"
    and "rerand_factors E (snd nonce) gamma = Ok (gamma_inv, r')" "r' \<noteq> 0"
  shows "gamma_inv = inverse gamma"
    and "presig_ok E q pt x (pscale gamma_inv U) (pscale gamma_inv Z) (r', smul E (snd nonce) gamma)"
proof -
  have f: "gamma_inv = inverse gamma" "x_bytes E (smul E (snd nonce) gamma) \<noteq> None"
    "r' = reduce E (the (x_bytes E (smul E (snd nonce) gamma)))"
    using assms(3,4) by (auto simp: rerand_factors_def sc_invert_def scalar_from_digest_def of_opt_def
        split: option.splits)
  show "gamma_inv = inverse gamma" by (rule f(1))
  have "inverse (peval U pt) * gamma = inverse (peval U pt * inverse gamma)"
    using assms(3) by simp
  then show "presig_ok E q pt x (pscale gamma_inv U) (pscale gamma_inv Z) (r', smul E (snd nonce) gamma)"
    using assms(2,3,5) f by (simp add: presig_ok_def smul_smul [OF assms(1)] mult.commute mult.left_commute)
qed

lemma rerand_factors_total:
  fixes E :: "('f::field, 'g::ab_group_add, 'r) k256"
  assumes "k256_ok E" "presig_ok E q pt x U Z nonce" "gamma \<noteq> 0"
  shows "\<exists>r'. rerand_factors E (snd nonce) gamma = Ok (inverse gamma, r')"
proof -
  have "smul E (snd nonce) gamma = smul E (gen E) (inverse (peval U pt) * gamma)"
    using assms(2) by (simp add: presig_ok_def smul_smul [OF assms(1)])
  moreover have "inverse (peval U pt) * gamma \<noteq> 0" using assms(2,3) by (simp add: presig_ok_def)
  ultimately have "smul E (snd nonce) gamma \<noteq> 0"
    using smul_gen_inject [OF assms(1), of _ 0] smul_zero [OF assms(1)] by metis
  then show ?thesis using x_bytes_Some [OF assms(1), of "smul E (snd nonce) gamma"] assms(3)
    by (auto simp: rerand_factors_def sc_invert_def)
qed

definition tweaked :: "'f::comm_ring_1 list \<Rightarrow> 'f list \<Rightarrow> 'f option \<Rightarrow> 'f list" where
  "tweaked U Z tweak = (case tweak of None \<Rightarrow> Z | Some tau \<Rightarrow> padd Z (pscale tau U))"

lemma presig_ok_tweaked:
  "presig_ok E q pt x U Z nonce \<Longrightarrow>
   presig_ok E q pt (x + (case tweak of None \<Rightarrow> 0 | Some tau \<Rightarrow> tau)) U (tweaked U Z tweak) nonce"
  by (auto simp: tweaked_def apply_tweak_ok split: option.splits)

text \<open>
  Re-randomised signing is ordinary signing with the scaled presignature: the local share is the share
  of the scaled sharing and the combine checks against its commitment.
\<close>

lemma sign_share_rerand_poly:
  assumes "holds E p U Z nonce" "rerand_factors E (snd nonce) gamma = Ok (gamma_inv, r')"
  shows "\<exists>sh. sign_share_rerand E p m gamma tweak = Ok sh \<and> sg_from sh = ps_index p
    \<and> sg_s sh = peval (sign_poly (pscale gamma_inv U) (pscale gamma_inv (tweaked U Z tweak)) m r') (of_nat (ps_index p))"
  using assms
  by (auto simp: sign_share_rerand_def holds_def meta_of_def tweaked_def peval_sign_poly algebra_simps
      split: option.splits)

lemma combine_rerand_commit:
  fixes E :: "('f::field, 'g::ab_group_add, 'r) k256"
  assumes "k256_ok E" "meta_of E meta U Z nonce" "rerand_factors E (snd nonce) gamma = Ok (gamma_inv, r')"
  shows "combine_rerand E p meta m gamma tweak shares = combine_verified E (p_t p) 0 r'
      (commit E (sign_poly (pscale gamma_inv U) (pscale gamma_inv (tweaked U Z tweak)) m r')) shares"
  using assms
  by (auto simp: combine_rerand_def meta_of_def tweaked_def com_scale_commit com_add_commit sign_com_commit
      split: option.splits)

lemma combine_rerand_sound:
  fixes E :: "('f::field, 'g::ab_group_add, 'r) k256"
  assumes "k256_ok E" "presig_ok E (p_t p) 0 x U Z nonce" "meta_of E meta U Z nonce" "senders_ok shares"
    and "gamma \<noteq> 0" "combine_rerand E p meta m gamma tweak shares = Ok (r', s)" "r' \<noteq> 0" "s \<noteq> 0"
  shows "ecdsa_verifies E (smul E (gen E) (x + (case tweak of None \<Rightarrow> 0 | Some tau \<Rightarrow> tau))) m (r', s)"
proof -
  from rerand_factors_total [OF assms(1,2,5)] obtain r1 where
    rf: "rerand_factors E (snd nonce) gamma = Ok (inverse gamma, r1)" by blast
  let ?U = "pscale (inverse gamma) U" and ?Z = "pscale (inverse gamma) (tweaked U Z tweak)"
  have len: "length (sign_poly ?U ?Z m r1) \<le> p_t p"
    using presig_ok_tweaked [OF assms(2), of tweak] by (intro length_sign_poly) (simp_all add: presig_ok_def)
  have "r' = r1 \<and> s = peval (sign_poly ?U ?Z m r1) 0"
    using assms(6) unfolding combine_rerand_commit [OF assms(1,3) rf]
      combine_verified_commit [OF assms(1,4) len] by (auto simp: abort_def split: if_splits)
  then show ?thesis
    using presig_ok_verifies [OF assms(1) presig_ok_rerand(2) [OF assms(1) presig_ok_tweaked [OF assms(2), of tweak] assms(5) rf]]
      assms(7,8) by auto
qed

section \<open>Key-independent signing\<close>

lemma ki_z_com_honest:
  "k256_ok E \<Longrightarrow> C \<noteq> [] \<Longrightarrow> ki_z_com E (public_of E A B C) delta eps = Ok (commit E (beaver_poly A B C delta eps))"
  using beaver_com_honest [of E C A B delta eps]
  by (simp add: ki_z_com_def beaver_com_def)

lemma ki_z_share_honest:
  "C \<noteq> [] \<Longrightarrow> k < c_n c \<Longrightarrow> ki_z_share (fst (triples_of E c A B C ! k)) delta eps
    = peval (beaver_poly A B C delta eps) (of_nat (c_ids c ! k))"
  by (simp add: ki_z_share_def triples_of_def c_n_def beaver_poly(1))

lemma combine_ki_sound:
  fixes E :: "('f::field, 'g::ab_group_add, 'r) k256"
  assumes "k256_ok E" "presig_ok E (p_t p) 0 x U Z nonce" "kp_r meta = fst nonce" "kp_u_com meta = commit E U"
    and "senders_ok shares" "combine_ki E p meta (commit E Z) m shares = Ok (r, s)" "s \<noteq> 0"
  shows "ecdsa_verifies E (smul E (gen E) x) m (r, s)"
proof -
  have len: "length (sign_poly U Z m (fst nonce)) \<le> p_t p"
    using assms(2) by (intro length_sign_poly) (simp_all add: presig_ok_def)
  have "r = fst nonce \<and> s = peval (sign_poly U Z m (fst nonce)) 0"
    using assms(3,4,6) unfolding combine_ki_def
    by (auto simp: sign_com_commit [OF assms(1)] combine_verified_commit [OF assms(1,5) len] abort_def split: if_splits)
  then show ?thesis using presig_ok_verifies [OF assms(1,2)] assms(7) by auto
qed

end
