(* ===== verification/Store.thy ===== *)
theory Store
  imports Signing
begin

text \<open>
  The single-use stores (\<open>src/runtime/store.rs\<close>): \<open>PresigStore\<close>, bound to one public key, and the
  key-free \<open>KiPool\<close>. Both keep the same promise, the locale \<open>single_use_store\<close>: a record is delivered
  at most once per insertion, and what is delivered is what was inserted. \<open>epoch_store\<close> adds the
  \<open>clear\<close> of an epoch change. Every history of calls is an explicit list of operations.
\<close>

section \<open>The stores\<close>

record ('f, 'g) presig_store =
  st_public_key :: 'g
  st_records :: "('f, 'g) presignature btree"

record ('f, 'g) ki_pool =
  kl_records :: "('f, 'g) ki_presignature btree"

definition store_new :: "'g \<Rightarrow> ('f, 'g) presig_store" where
  "store_new X = \<lparr>st_public_key = X, st_records = []\<rparr>"

definition store_insert :: "('f, 'g) presignature \<Rightarrow> ('f, 'g) presig_store \<Rightarrow> unit result \<times> ('f, 'g) presig_store" where
  "store_insert p st =
     (if bt_contains (st_records st) (ps_id p) then (Err (PresigStore ''duplicate presignature id''), st)
      else (Ok (), st\<lparr>st_records := bt_insert (ps_id p) p (st_records st)\<rparr>))"

definition store_consume :: "nat \<Rightarrow> ('f, 'g) presig_store \<Rightarrow> ('f, 'g) presignature result \<times> ('f, 'g) presig_store" where
  "store_consume i st =
     (case bt_get (st_records st) i of
        None \<Rightarrow> (Err (PresigStore ''unknown or consumed presignature id''), st)
      | Some p \<Rightarrow> (Ok p, st\<lparr>st_records := bt_remove i (st_records st)\<rparr>))"

definition store_len :: "('f, 'g) presig_store \<Rightarrow> nat" where
  "store_len st = length (st_records st)"

definition store_clear :: "('f, 'g) presig_store \<Rightarrow> ('f, 'g) presig_store" where
  "store_clear st = st\<lparr>st_records := []\<rparr>"

definition store_is_empty :: "('f, 'g) presig_store \<Rightarrow> bool" where
  "store_is_empty st = (st_records st = [])"

definition store_contains :: "('f, 'g) presig_store \<Rightarrow> nat \<Rightarrow> bool" where
  "store_contains st i = bt_contains (st_records st) i"

definition pool_new :: "('f, 'g) ki_pool" where
  "pool_new = \<lparr>kl_records = []\<rparr>"

definition pool_insert :: "('f, 'g) ki_presignature \<Rightarrow> ('f, 'g) ki_pool \<Rightarrow> unit result \<times> ('f, 'g) ki_pool" where
  "pool_insert p st =
     (if bt_contains (kl_records st) (kp_id p) then (Err (PresigStore ''duplicate presignature id''), st)
      else (Ok (), st\<lparr>kl_records := bt_insert (kp_id p) p (kl_records st)\<rparr>))"

definition pool_consume :: "nat \<Rightarrow> ('f, 'g) ki_pool \<Rightarrow> ('f, 'g) ki_presignature result \<times> ('f, 'g) ki_pool" where
  "pool_consume i st =
     (case bt_get (kl_records st) i of
        None \<Rightarrow> (Err (PresigStore ''unknown or consumed presignature id''), st)
      | Some p \<Rightarrow> (Ok p, st\<lparr>kl_records := bt_remove i (kl_records st)\<rparr>))"

definition pool_len :: "('f, 'g) ki_pool \<Rightarrow> nat" where
  "pool_len st = length (kl_records st)"

definition pool_is_empty :: "('f, 'g) ki_pool \<Rightarrow> bool" where
  "pool_is_empty st = (kl_records st = [])"

definition pool_contains :: "('f, 'g) ki_pool \<Rightarrow> nat \<Rightarrow> bool" where
  "pool_contains st i = bt_contains (kl_records st) i"

section \<open>Histories of calls\<close>

datatype 'v store_call = Insert 'v | Consume nat

datatype 'v store_event = Inserted 'v | Rejected 'v | Delivered 'v | Missed nat

fun store_step :: "('v \<Rightarrow> 's \<Rightarrow> unit result \<times> 's) \<Rightarrow> (nat \<Rightarrow> 's \<Rightarrow> 'v result \<times> 's) \<Rightarrow> 'v store_call \<Rightarrow> 's
    \<Rightarrow> 'v store_event \<times> 's" where
  "store_step ins con (Insert v) s =
     (case ins v s of (Ok _, s') \<Rightarrow> (Inserted v, s') | (_, s') \<Rightarrow> (Rejected v, s'))"
| "store_step ins con (Consume i) s =
     (case con i s of (Ok v, s') \<Rightarrow> (Delivered v, s') | (_, s') \<Rightarrow> (Missed i, s'))"

fun store_run :: "('v \<Rightarrow> 's \<Rightarrow> unit result \<times> 's) \<Rightarrow> (nat \<Rightarrow> 's \<Rightarrow> 'v result \<times> 's) \<Rightarrow> 'v store_call list \<Rightarrow> 's
    \<Rightarrow> 'v store_event list \<times> 's" where
  "store_run ins con [] s = ([], s)"
| "store_run ins con (c # cs) s =
     (case store_step ins con c s of (e, s') \<Rightarrow>
      case store_run ins con cs s' of (es, s'') \<Rightarrow> (e # es, s''))"

fun is_insertion :: "('v \<Rightarrow> nat) \<Rightarrow> nat \<Rightarrow> 'v store_event \<Rightarrow> bool" where
  "is_insertion key i (Inserted v) = (key v = i)"
| "is_insertion key i _ = False"

fun is_delivery :: "('v \<Rightarrow> nat) \<Rightarrow> nat \<Rightarrow> 'v store_event \<Rightarrow> bool" where
  "is_delivery key i (Delivered v) = (key v = i)"
| "is_delivery key i _ = False"

definition count_if :: "('a \<Rightarrow> bool) \<Rightarrow> 'a list \<Rightarrow> nat" where
  "count_if P xs = length (filter P xs)"

lemma count_if_simps [simp]: "count_if P [] = 0" "count_if P (x # xs) = (if P x then 1 else 0) + count_if P xs"
  by (simp_all add: count_if_def)

fun replay :: "('v \<Rightarrow> nat) \<Rightarrow> 'v store_event list \<Rightarrow> (nat \<Rightarrow> 'v option) \<Rightarrow> (nat \<Rightarrow> 'v option)" where
  \<comment> \<open>the abstract store after a history of events\<close>
  "replay key [] m = m"
| "replay key (Inserted v # es) m = replay key es (m(key v \<mapsto> v))"
| "replay key (Delivered v # es) m = replay key es (m(key v := None))"
| "replay key (_ # es) m = replay key es m"

fun faithful :: "('v \<Rightarrow> nat) \<Rightarrow> 'v store_event list \<Rightarrow> (nat \<Rightarrow> 'v option) \<Rightarrow> bool" where
  \<comment> \<open>the answers an ideal single-use store gives\<close>
  "faithful key [] m = True"
| "faithful key (Inserted v # es) m = (m (key v) = None \<and> faithful key es (m(key v \<mapsto> v)))"
| "faithful key (Rejected v # es) m = (m (key v) \<noteq> None \<and> faithful key es m)"
| "faithful key (Delivered v # es) m = (m (key v) = Some v \<and> faithful key es (m(key v := None)))"
| "faithful key (Missed i # es) m = (m i = None \<and> faithful key es m)"

lemma faithful_balance:
  assumes "faithful key es m" "\<forall>v. m i = Some v \<longrightarrow> key v = i"
  shows "count_if (is_delivery key i) es + (if replay key es m i = None then 0 else 1)
    = count_if (is_insertion key i) es + (if m i = None then 0 else 1)"
  using assms
proof (induction key es m rule: faithful.induct)
  case (2 key v es m)
  have fits: "\<forall>w. (m(key v \<mapsto> v)) i = Some w \<longrightarrow> key w = i" using 2(3) by auto
  have "m (key v) = None" "faithful key es (m(key v \<mapsto> v))" using 2(2) by simp_all
  with 2(1) [OF this(2) fits] show ?case by (cases "key v = i") (simp_all add: fun_upd_same fun_upd_other del: fun_upd_apply)
next
  case (4 key v es m)
  have fits: "\<forall>w. (m(key v := None)) i = Some w \<longrightarrow> key w = i" using 4(3) by auto
  have "m (key v) = Some v" "faithful key es (m(key v := None))" using 4(2) by simp_all
  with 4(1) [OF this(2) fits] show ?case by (cases "key v = i") (simp_all add: fun_upd_same fun_upd_other del: fun_upd_apply)
qed simp_all

lemma faithful_append: "faithful key (es @ es') m \<longleftrightarrow> faithful key es m \<and> faithful key es' (replay key es m)"
  by (induction key es m rule: faithful.induct) (simp_all del: fun_upd_apply)

section \<open>The contract\<close>

locale single_use_store =
  fixes key :: "'v \<Rightarrow> nat"
    and insert :: "'v \<Rightarrow> 's \<Rightarrow> unit result \<times> 's"
    and consume :: "nat \<Rightarrow> 's \<Rightarrow> 'v result \<times> 's"
    and contents :: "'s \<Rightarrow> nat \<Rightarrow> 'v option"
    and wf :: "'s \<Rightarrow> bool"
  assumes insert_new: "wf s \<Longrightarrow> contents s (key v) = None \<Longrightarrow>
        \<exists>s'. insert v s = (Ok (), s') \<and> wf s' \<and> contents s' = (contents s)(key v \<mapsto> v)"
    and insert_dup: "wf s \<Longrightarrow> contents s (key v) \<noteq> None \<Longrightarrow> \<exists>e. insert v s = (Err e, s)"
    and consume_hit: "wf s \<Longrightarrow> contents s i = Some v \<Longrightarrow>
        \<exists>s'. consume i s = (Ok v, s') \<and> wf s' \<and> contents s' = (contents s)(i := None)"
    and consume_miss: "wf s \<Longrightarrow> contents s i = None \<Longrightarrow> \<exists>e. consume i s = (Err e, s)"
    and contents_key: "wf s \<Longrightarrow> contents s i = Some v \<Longrightarrow> key v = i"
begin

lemma step_faithful:
  assumes "wf s" "store_step insert consume c s = (e, s')"
  shows "wf s' \<and> faithful key [e] (contents s) \<and> contents s' = replay key [e] (contents s)"
proof (cases c)
  case (Insert v)
  then show ?thesis using assms insert_new [of s v] insert_dup [of s v]
    by (cases "contents s (key v)") auto
next
  case (Consume i)
  then show ?thesis using assms consume_hit [of s i] consume_miss [of s i] contents_key [of s i]
    by (cases "contents s i") auto
qed

lemma run_faithful:
  assumes "wf s" "store_run insert consume cs s = (es, s')"
  shows "wf s' \<and> faithful key es (contents s) \<and> contents s' = replay key es (contents s)"
  using assms
proof (induction cs arbitrary: s es)
  case (Cons c cs)
  obtain e t where e: "store_step insert consume c s = (e, t)" by fastforce
  obtain fs t' where fs: "store_run insert consume cs t = (fs, t')" by fastforce
  have es: "es = e # fs" "s' = t'" using Cons.prems(2) e fs by auto
  have step: "wf t" "faithful key [e] (contents s)" "contents t = replay key [e] (contents s)"
    using step_faithful [OF Cons.prems(1) e] by auto
  from Cons.IH [OF step(1), of fs] fs es(2)
  have rest: "wf s'" "faithful key fs (contents t)" "contents s' = replay key fs (contents t)" by auto
  show ?case using step rest faithful_append [of key "[e]" fs "contents s"]
    by (cases e) (simp_all add: es(1))
qed simp

lemma run_balance:
  assumes "wf s" "store_run insert consume cs s = (es, s')" "contents s i = None"
  shows "count_if (is_delivery key i) es + (if contents s' i = None then 0 else 1) = count_if (is_insertion key i) es"
  using run_faithful [OF assms(1,2)] faithful_balance [of key es "contents s" i] contents_key [OF assms(1)] assms(3)
  by simp

end

locale epoch_store = single_use_store +
  fixes clear :: "'b \<Rightarrow> 'b"
  assumes clear_wf: "wf s \<Longrightarrow> wf (clear s)"
    and clear_contents: "wf s \<Longrightarrow> contents (clear s) i = None"
begin

lemma clear_then_miss:
  assumes "wf s"
  shows "\<exists>e. consume i (clear s) = (Err e, clear s)"
  by (rule consume_miss [OF clear_wf [OF assms] clear_contents [OF assms]])

text \<open>After a clear nothing that was stored before is ever delivered.\<close>

lemma run_after_clear:
  assumes "wf s" "store_run insert consume cs (clear s) = (es, s')"
  shows "count_if (is_delivery key i) es \<le> count_if (is_insertion key i) es"
  using run_balance [OF clear_wf [OF assms(1)] assms(2) clear_contents [OF assms(1)], of i]
  by (auto split: if_splits)

end

section \<open>Both stores keep it\<close>

definition records_ok :: "('v \<Rightarrow> nat) \<Rightarrow> 'v btree \<Rightarrow> bool" where
  "records_ok key m \<longleftrightarrow> bt_wf m \<and> (\<forall>(i, v) \<in> set m. key v = i)"

lemma records_ok_Nil [simp]: "records_ok key []"
  by (simp add: records_ok_def bt_wf_def)

lemma records_ok_get: "records_ok key m \<Longrightarrow> bt_get m i = Some v \<Longrightarrow> key v = i"
  using bt_entries_get [of m i v] by (auto simp: records_ok_def)

lemma records_ok_insert: "records_ok key m \<Longrightarrow> records_ok key (bt_insert (key v) v m)"
proof -
  assume ok: "records_ok key m"
  have "key w = i" if "(i, w) \<in> set (bt_insert (key v) v m)" for i w
    using that bt_entries_get [OF bt_wf_insert, of m i w "key v" v] records_ok_get [OF ok] ok
    by (auto simp: records_ok_def bt_get_insert split: if_splits)
  then show ?thesis using ok bt_wf_insert by (auto simp: records_ok_def)
qed

lemma records_ok_remove: "records_ok key m \<Longrightarrow> records_ok key (bt_remove i m)"
  using set_bt_remove [of i m] bt_wf_remove [of m i] by (fastforce simp: records_ok_def)

definition store_ok :: "('f, 'g) presig_store \<Rightarrow> bool" where
  "store_ok st = records_ok ps_id (st_records st)"

definition pool_ok :: "('f, 'g) ki_pool \<Rightarrow> bool" where
  "pool_ok st = records_ok kp_id (kl_records st)"

interpretation presigs: epoch_store ps_id store_insert store_consume "\<lambda>st. bt_get (st_records st)" store_ok store_clear
proof unfold_locales
  fix s :: "('f, 'g) presig_store" and v i
  assume ok: "store_ok s"
  then have wf: "bt_wf (st_records s)" by (simp add: store_ok_def records_ok_def)
  show "\<exists>s'. store_insert v s = (Ok (), s') \<and> store_ok s' \<and> bt_get (st_records s') = (bt_get (st_records s))(ps_id v \<mapsto> v)"
    if "bt_get (st_records s) (ps_id v) = None"
    using ok that records_ok_insert [of ps_id "st_records s" v]
    by (auto simp: store_insert_def bt_contains_def store_ok_def bt_get_insert)
  show "\<exists>e. store_insert v s = (Err e, s)" if "bt_get (st_records s) (ps_id v) \<noteq> None"
    using that by (simp add: store_insert_def bt_contains_def)
  show "\<exists>s'. store_consume i s = (Ok v, s') \<and> store_ok s' \<and> bt_get (st_records s') = (bt_get (st_records s))(i := None)"
    if "bt_get (st_records s) i = Some v"
    using ok that records_ok_remove [of ps_id "st_records s" i] wf
    by (auto simp: store_consume_def store_ok_def bt_get_remove)
  show "\<exists>e. store_consume i s = (Err e, s)" if "bt_get (st_records s) i = None"
    using that by (simp add: store_consume_def)
  show "ps_id v = i" if "bt_get (st_records s) i = Some v"
    using ok that records_ok_get by (auto simp: store_ok_def)
  show "store_ok (store_clear s)" "bt_get (st_records (store_clear s)) i = None"
    by (simp_all add: store_clear_def store_ok_def)
qed

interpretation pool: single_use_store kp_id pool_insert pool_consume "\<lambda>st. bt_get (kl_records st)" pool_ok
proof unfold_locales
  fix s :: "('f, 'g) ki_pool" and v i
  assume ok: "pool_ok s"
  then have wf: "bt_wf (kl_records s)" by (simp add: pool_ok_def records_ok_def)
  show "\<exists>s'. pool_insert v s = (Ok (), s') \<and> pool_ok s' \<and> bt_get (kl_records s') = (bt_get (kl_records s))(kp_id v \<mapsto> v)"
    if "bt_get (kl_records s) (kp_id v) = None"
    using ok that records_ok_insert [of kp_id "kl_records s" v]
    by (auto simp: pool_insert_def bt_contains_def pool_ok_def bt_get_insert)
  show "\<exists>e. pool_insert v s = (Err e, s)" if "bt_get (kl_records s) (kp_id v) \<noteq> None"
    using that by (simp add: pool_insert_def bt_contains_def)
  show "\<exists>s'. pool_consume i s = (Ok v, s') \<and> pool_ok s' \<and> bt_get (kl_records s') = (bt_get (kl_records s))(i := None)"
    if "bt_get (kl_records s) i = Some v"
    using ok that records_ok_remove [of kp_id "kl_records s" i] wf
    by (auto simp: pool_consume_def pool_ok_def bt_get_remove)
  show "\<exists>e. pool_consume i s = (Err e, s)" if "bt_get (kl_records s) i = None"
    using that by (simp add: pool_consume_def)
  show "kp_id v = i" if "bt_get (kl_records s) i = Some v"
    using ok that records_ok_get by (auto simp: pool_ok_def)
qed

lemma store_new_ok [simp]: "store_ok (store_new X)" "bt_get (st_records (store_new X)) i = None"
  by (simp_all add: store_ok_def store_new_def)

lemma pool_new_ok [simp]: "pool_ok pool_new" "bt_get (kl_records pool_new) i = None"
  by (simp_all add: pool_ok_def pool_new_def)

end
