(* ===== verification/Committee_Refresh.thy ===== *)
theory Committee_Refresh
  imports Store
begin

text \<open>
  Committee maintenance (\<open>src/protocol/refresh.rs\<close>): the proactive refresh of the shares over the same
  committee and the re-sharing to another one. Both must keep the public key; the lemmas show it for
  honest runs, and that a run with a cheating dealer names it. The rounds with the fault-injection hooks
  (\<open>dealing_rounds\<close>) are those the transport-driven DKG runs too.
\<close>

section \<open>A DKG with its fault-injection hooks\<close>

definition fault_inst :: "dkg_tamper option \<Rightarrow> ('f, 'g) dkg_instance \<Rightarrow> ('f, 'g) dkg_instance" where
  \<comment> \<open>the cheating dealer of a fault: a wrong share for one party, or a wrong reveal\<close>
  "fault_inst tamper inst = (case tamper of None \<Rightarrow> inst | Some tm \<Rightarrow>
     let inst1 = (case dt_bad_deal tm of
           Some (d, v) \<Rightarrow> if d = di_me inst then inst\<lparr>di_bad_deal := Some v\<rparr> else inst
         | None \<Rightarrow> inst)
     in if dt_bad_reveal tm = Some (di_me inst) then inst1\<lparr>di_bad_reveal := True\<rparr> else inst1)"

definition corrupt_p2p :: "dkg_tamper option \<Rightarrow> 'f::field dkg_p2p list \<Rightarrow> 'f dkg_p2p list" where
  \<comment> \<open>a share corrupted in transit\<close>
  "corrupt_p2p tamper p2p = (case tamper of None \<Rightarrow> p2p | Some tm \<Rightarrow>
     (case dt_corrupt_share tm of None \<Rightarrow> p2p | Some (from, to) \<Rightarrow>
       map (\<lambda>m. if pp_from m = from \<and> pp_to m = to then m\<lparr>pp_share := pp_share m + 1\<rparr> else m) p2p))"

definition dealing_rounds :: "('f::field, 'g::ab_group_add, 'r) k256 \<Rightarrow> phase \<Rightarrow> committee \<Rightarrow> dkg_tamper option
    \<Rightarrow> (('f, 'g) dkg_instance \<times> dkg_bcast1) list
    \<Rightarrow> (('f, 'g) dkg_output list \<times> 'g dkg_bcast2 btree) result" where
  "dealing_rounds E phase c tamper started =
     (let r1 = bt_of_list (zip (c_ids c) (map snd started)); insts = map (fault_inst tamper \<circ> fst) started
      in bindR (mapR (dkg_reveal E) insts) (\<lambda>revs.
        let r2 = bt_of_list (zip (map di_me insts) (map fst revs));
            p2p = corrupt_p2p tamper (concat (map snd revs))
        in bindR (mapR (\<lambda>inst. dkg_finalize E inst phase r1 r2 (mine_of p2p (di_me inst))
              (defenses_of insts (di_me inst))) insts) (\<lambda>outs. Ok (outs, r2))))"

section \<open>Refresh\<close>

definition check_inputs :: "committee \<Rightarrow> ('f, 'g) key_share list \<Rightarrow> nat \<Rightarrow> unit result" where
  "check_inputs c keys rngs_len =
     (if length keys \<noteq> c_n c \<or> rngs_len < c_n c \<or> (\<exists>(key, i) \<in> set (zip keys (c_ids c)). o_index key \<noteq> i)
      then Err (InvalidParams ''keys/rngs must match the committee positionally (keys[k].index == ids[k])'')
      else Ok ())"

definition deal_fixed_secrets :: "('f::field, 'g::ab_group_add, 'r) k256 \<Rightarrow> committee \<Rightarrow> bytes \<Rightarrow> bytes
    \<Rightarrow> 'f list \<Rightarrow> dkg_tamper option \<Rightarrow> ('r, ('f, 'g) dkg_output list \<times> 'g dkg_bcast2 btree) protocol" where
  "deal_fixed_secrets E c sid tag secrets tamper =
     bindS (liftR (if length secrets \<noteq> c_n c
         then Err (InvalidParams ''secrets must match the committee'') else Ok ())) (\<lambda>_.
     bindS (mapS (\<lambda>(k, i). with_rng k (dkg_start_with_secret E c sid tag i (secrets ! k)))
         (List.enumerate 0 (c_ids c))) (\<lambda>started.
       liftR (dealing_rounds E Refresh c tamper started)))"

definition check_zero :: "'g::ab_group_add dkg_bcast2 btree \<Rightarrow> party_id \<Rightarrow> unit \<Rightarrow> unit result" where
  "check_zero reveals i _ =
     bindR (of_opt (bt_get reveals i)) (\<lambda>b2.
     bindR (of_opt (nth_opt (points (b2_com b2)) 0)) (\<lambda>p0.
       if p0 \<noteq> 0 then abort Refresh [i] ''refresh dealer committed to a non-zero constant term'' else Ok ()))"

definition refresh_key :: "('f::field, 'g::ab_group_add) key_share list \<Rightarrow> nat \<times> ('f, 'g) dkg_output
    \<Rightarrow> ('f, 'g) key_share result" where
  \<comment> \<open>the \<open>assert_eq!\<close> on the public key is a panic\<close>
  "refresh_key keys kz = (case kz of (k, z) \<Rightarrow>
     bindR (of_opt (nth_opt keys k)) (\<lambda>key.
       let com = com_add (o_com key) (o_com z) in
       bindR (of_opt (nth_opt (points com) 0)) (\<lambda>p. bindR (of_opt (nth_opt (points (o_com key)) 0)) (\<lambda>q.
         if p \<noteq> q then Panic
         else Ok \<lparr>o_index = o_index key, o_share = o_share key + o_share z, o_com = com\<rparr>))))"

definition refresh :: "('f::field, 'g::ab_group_add, 'r) k256 \<Rightarrow> committee \<Rightarrow> ('f, 'g) key_share list \<Rightarrow> bytes
    \<Rightarrow> dkg_tamper option \<Rightarrow> ('r, ('f, 'g) key_share list) protocol" where
  "refresh E c keys sid tamper = (\<lambda>rngs.
     bindS (liftR (check_inputs c keys (length rngs))) (\<lambda>_.
     bindS (deal_fixed_secrets E c sid REFRESH_COMMIT (replicate (c_n c) 0) tamper) (\<lambda>(z_outs, reveals).
     liftR (bindR (foldR (check_zero reveals) (c_ids c) ()) (\<lambda>_.
       mapR (refresh_key keys) (List.enumerate 0 z_outs))))) rngs)"

section \<open>Re-sharing\<close>

record reshare_tamper =
  ht_bad_deal :: "(party_id \<times> party_id) option"
  ht_bad_commitment :: "party_id option"

record ('f, 'g) reshare_dealer =
  rd_from :: party_id
  rd_poly :: "'f shamir_poly"
  rd_com :: "'g feldman"
  rd_bad_deal :: "party_id option"

definition dealer_share_for :: "('f::field, 'g) reshare_dealer \<Rightarrow> party_id \<Rightarrow> 'f" where
  "dealer_share_for d to =
     (let s = shamir_eval (rd_poly d) to in if rd_bad_deal d = Some to then s + 1 else s)"

definition reshare_deal :: "('f::field, 'g::ab_group_add, 'r) k256 \<Rightarrow> committee \<Rightarrow> ('f, 'g) key_share list \<Rightarrow> bytes
    \<Rightarrow> reshare_tamper option \<Rightarrow> nat \<times> party_id \<Rightarrow> ('r, ('f, 'g) reshare_dealer \<times> dkg_bcast1) protocol" where
  \<comment> \<open>round 1 of one old party\<close>
  "reshare_deal E new old_keys sid tamper kj = (case kj of (k, j) \<Rightarrow>
     bindS (liftR (of_opt (nth_opt old_keys k))) (\<lambda>key.
     bindS (with_rng k (shamir_random E (o_share key) (c_t new))) (\<lambda>poly.
     liftR (bindR (case tamper of
           Some tm \<Rightarrow> if ht_bad_commitment tm = Some j then com_add_const E (from_poly E poly) 1
             else Ok (from_poly E poly)
         | None \<Rightarrow> Ok (from_poly E poly)) (\<lambda>com.
       let bad = (case tamper of None \<Rightarrow> None | Some tm \<Rightarrow> (case ht_bad_deal tm of None \<Rightarrow> None
             | Some (d, v) \<Rightarrow> if d = j then Some v else None))
       in Ok (\<lparr>rd_from = j, rd_poly = poly, rd_com = com, rd_bad_deal = bad\<rparr>,
              \<lparr>b1_from = j, b1_hash = hash_commitment E sid RESHARE_COMMIT j com\<rparr>))))))"

definition reshare_step :: "('f::field, 'g::ab_group_add, 'r) k256 \<Rightarrow> committee \<Rightarrow> bytes \<Rightarrow> 'g feldman
    \<Rightarrow> ('f, 'g) reshare_dealer list \<Rightarrow> 'f list \<Rightarrow> dkg_bcast1 btree \<Rightarrow> 'g dkg_bcast2 btree \<Rightarrow> party_id \<Rightarrow> 'f btree
    \<Rightarrow> nat \<times> party_id \<Rightarrow> 'f \<times> 'g feldman \<Rightarrow> ('f \<times> 'g feldman) result" where
  \<comment> \<open>one dealer's sub-share, as the new member \<open>m\<close> checks and accumulates it\<close>
  "reshare_step E new sid x_com dealers lambdas commits reveals m mine pj acc = (case pj of (pos, j) \<Rightarrow>
     bindR (of_opt (bt_get commits j)) (\<lambda>b1. bindR (of_opt (bt_get reveals j)) (\<lambda>b2.
       if length (points (b2_com b2)) \<noteq> c_t new
       then abort Refresh [j] ''malformed Feldman commitment vector''
       else if hash_commitment E sid RESHARE_COMMIT j (b2_com b2) \<noteq> b1_hash b1
       then abort Refresh [j] ''commit-reveal hash mismatch''
       else bindR (of_opt (nth_opt (points (b2_com b2)) 0)) (\<lambda>p0.
         if p0 \<noteq> com_eval_at E x_com j
         then abort Refresh [j] ''re-sharing commitment does not bind to the dealer's old share''
         else bindR (of_opt (bt_get mine j)) (\<lambda>s.
           if \<not> verify_share E (b2_com b2) m s
           then bindR (of_opt (nth_opt dealers pos)) (\<lambda>d.
             Err (Abort (resolve_complaint E Refresh (b2_com b2) j m (dealer_share_for d m))))
           else bindR (of_opt (nth_opt lambdas pos)) (\<lambda>lam.
             Ok (fst acc + lam * s, com_add (snd acc) (com_scale E (b2_com b2) lam))))))))"

definition reshare_member :: "('f::field, 'g::ab_group_add, 'r) k256 \<Rightarrow> committee \<Rightarrow> committee \<Rightarrow> bytes \<Rightarrow> 'g feldman
    \<Rightarrow> ('f, 'g) reshare_dealer list \<Rightarrow> 'f list \<Rightarrow> dkg_bcast1 btree \<Rightarrow> 'g dkg_bcast2 btree \<Rightarrow> 'f dkg_p2p list
    \<Rightarrow> party_id \<Rightarrow> ('f, 'g) key_share result" where
  "reshare_member E old new sid x_com dealers lambdas commits reveals p2p m =
     bindR (foldR (reshare_step E new sid x_com dealers lambdas commits reveals m (mine_of p2p m))
         (List.enumerate 0 (c_ids old)) (0, \<lparr>points = replicate (c_t new) 0\<rparr>)) (\<lambda>(share, com).
     bindR (of_opt (nth_opt (points com) 0)) (\<lambda>p. bindR (of_opt (nth_opt (points x_com) 0)) (\<lambda>q.
       if p \<noteq> q then Panic else Ok \<lparr>o_index = m, o_share = share, o_com = com\<rparr>)))"

definition reshare_keys :: "('f::field, 'g::ab_group_add, 'r) k256 \<Rightarrow> committee \<Rightarrow> committee \<Rightarrow> ('f, 'g) key_share list
    \<Rightarrow> bytes \<Rightarrow> reshare_tamper option \<Rightarrow> ('r, ('f, 'g) key_share list) protocol" where
  "reshare_keys E old new old_keys sid tamper = (\<lambda>rngs.
     bindS (liftR (check_inputs old old_keys (length rngs))) (\<lambda>_.
     bindS (liftR (of_opt (nth_opt old_keys 0))) (\<lambda>key0.
     bindS (mapS (reshare_deal E new old_keys sid tamper) (List.enumerate 0 (c_ids old))) (\<lambda>started.
       let dealers = map fst started;
           commits = bt_of_list (zip (c_ids old) (map snd started));
           reveals = bt_of_list (map (\<lambda>d. (rd_from d, \<lparr>b2_from = rd_from d, b2_com = rd_com d\<rparr>)) dealers);
           p2p = concat (map (\<lambda>d. map (\<lambda>m. \<lparr>pp_from = rd_from d, pp_to = m, pp_share = dealer_share_for d m\<rparr>)
             (c_ids new)) dealers)
       in liftR (bindR (lagrange_coeffs (c_ids old)) (\<lambda>lambdas.
         mapR (reshare_member E old new sid (o_com key0) dealers lambdas commits reveals p2p) (c_ids new)))))) rngs)"

section \<open>Dealing rounds and their faults\<close>

definition bad_deal_of :: "dkg_tamper option \<Rightarrow> (party_id \<times> party_id) option" where
  "bad_deal_of tamper = Option.bind tamper dt_bad_deal"

definition corrupt_of :: "dkg_tamper option \<Rightarrow> (party_id \<times> party_id) option" where
  "corrupt_of tamper = Option.bind tamper dt_corrupt_share"

definition bad_reveal_of :: "dkg_tamper option \<Rightarrow> party_id option" where
  "bad_reveal_of tamper = Option.bind tamper dt_bad_reveal"

lemmas fault_defs = bad_deal_of_def corrupt_of_def bad_reveal_of_def

lemma fault_inst_simps [simp]:
  "di_me (fault_inst tamper inst) = di_me inst" "di_committee (fault_inst tamper inst) = di_committee inst"
  "di_sid (fault_inst tamper inst) = di_sid inst" "di_tag (fault_inst tamper inst) = di_tag inst"
  "di_poly (fault_inst tamper inst) = di_poly inst" "di_com (fault_inst tamper inst) = di_com inst"
  by (auto simp: fault_inst_def Let_def split: option.splits prod.splits)

lemma fault_share_for:
  "share_for (fault_inst tamper (honest_inst E c sid tag F i)) j
    = peval (F i) (of_nat j) + (if bad_deal_of tamper = Some (i, j) then 1 else 0)"
  by (auto simp: fault_inst_def share_for_def honest_inst_def bad_deal_of_def Let_def split: option.splits)

lemma fault_reveal:
  "dkg_reveal E (fault_inst tamper (honest_inst E c sid tag F i)) =
     bindR (if bad_reveal_of tamper = Some i then com_add_const E (commit E (F i)) 1 else Ok (commit E (F i)))
       (\<lambda>com. Ok (\<lparr>b2_from = i, b2_com = com\<rparr>, map (\<lambda>j. \<lparr>pp_from = i, pp_to = j,
          pp_share = peval (F i) (of_nat j) + (if bad_deal_of tamper = Some (i, j) then 1 else 0)\<rparr>) (c_ids c)))"
proof -
  have "di_bad_reveal (fault_inst tamper (honest_inst E c sid tag F i)) \<longleftrightarrow> bad_reveal_of tamper = Some i"
    by (auto simp: fault_inst_def honest_inst_def bad_reveal_of_def Let_def split: option.splits prod.splits)
  moreover have "di_com (honest_inst E c sid tag F i) = commit E (F i)" by (simp add: honest_inst_def)
  ultimately show ?thesis by (simp add: dkg_reveal_def fault_share_for cong: if_cong)
qed

lemma corrupt_concat:
  "corrupt_p2p tamper (concat (map (\<lambda>i. map (\<lambda>j. \<lparr>pp_from = i, pp_to = j, pp_share = s i j\<rparr>) ids) ids'))
    = concat (map (\<lambda>i. map (\<lambda>j. \<lparr>pp_from = i, pp_to = j,
        pp_share = s i j + (if corrupt_of tamper = Some (i, j) then 1 else 0)\<rparr>) ids) ids')"
  by (auto simp: corrupt_p2p_def corrupt_of_def map_concat o_def split: option.splits intro!: arg_cong [where f = concat])

lemma finalize_cong:
  assumes "di_committee inst = di_committee inst'" "di_sid inst = di_sid inst'" "di_tag inst = di_tag inst'"
    "di_me inst = di_me inst'"
  shows "dkg_finalize E inst = dkg_finalize E inst'"
proof -
  have "finalize_step E inst = finalize_step E inst'"
    by (intro ext) (simp add: finalize_step_def assms cong: if_cong)
  then show ?thesis by (intro ext) (simp add: dkg_finalize_def assms cong: if_cong)
qed

text \<open>What party \<open>v\<close> received from each dealer, and the defense the dealer would broadcast.\<close>

definition received :: "dkg_tamper option \<Rightarrow> (party_id \<Rightarrow> 'f::field list) \<Rightarrow> party_id \<Rightarrow> party_id \<Rightarrow> 'f" where
  "received tamper F v i = peval (F i) (of_nat v) + (if bad_deal_of tamper = Some (i, v) then 1 else 0)
     + (if corrupt_of tamper = Some (i, v) then 1 else 0)"

definition defended :: "dkg_tamper option \<Rightarrow> (party_id \<Rightarrow> 'f::field list) \<Rightarrow> party_id \<Rightarrow> party_id \<Rightarrow> 'f" where
  "defended tamper F v i = peval (F i) (of_nat v) + (if bad_deal_of tamper = Some (i, v) then 1 else 0)"

definition faulty_at :: "dkg_tamper option \<Rightarrow> party_id \<Rightarrow> party_id \<Rightarrow> bool" where
  "faulty_at tamper d v \<longleftrightarrow> bad_deal_of tamper = Some (d, v) \<or> corrupt_of tamper = Some (d, v)"

lemma two_nonzero: "k256_ok (E :: ('f::field, 'g::ab_group_add, 'r) k256) \<Longrightarrow> (1 :: 'f) + 1 \<noteq> 0"
  using of_nat_index_inject [of E 2 0] by simp

lemma received_wrong:
  assumes "k256_ok (E :: ('f::field, 'g::ab_group_add, 'r) k256)"
  shows "received tamper F v i = (peval (F i) (of_nat v) :: 'f) \<longleftrightarrow> \<not> faulty_at tamper i v"
  using two_nonzero [OF assms] by (auto simp: received_def faulty_at_def add.assoc)

text \<open>The abort of party \<open>v\<close> over the fault of dealer \<open>d\<close>: the dealer, or the false accuser.\<close>

definition fault_abort :: "dkg_tamper option \<Rightarrow> phase \<Rightarrow> party_id \<Rightarrow> party_id \<Rightarrow> error \<Rightarrow> bool" where
  "fault_abort tamper ph d v e \<longleftrightarrow> (\<exists>a. e = Abort a \<and> ab_phase a = ph
     \<and> ab_blamed a = [if bad_deal_of tamper = Some (d, v) then d else v])"

lemma finalize_faulty:
  fixes E :: "('f::field, 'g::ab_group_add, 'r) k256"
  assumes "k256_ok E" "committee_wf c" "v \<in> set (c_ids c)"
    and len: "\<And>i. i \<in> set (c_ids c) \<Longrightarrow> length (F i) = c_t c"
  shows "(dkg_finalize E (honest_inst E c sid tag F v) ph
      (map (\<lambda>i. (i, honest_b1 E sid tag F i)) (c_ids c))
      (map (\<lambda>i. (i, \<lparr>b2_from = i, b2_com = commit E (F i)\<rparr>)) (c_ids c))
      (map (\<lambda>i. (i, received tamper F v i)) (c_ids c)) (map (\<lambda>i. (i, defended tamper F v i)) (c_ids c))
        = Ok (joint_output E (dealt c F) v) \<and> (\<forall>d \<in> set (c_ids c). \<not> faulty_at tamper d v))
    \<or> (\<exists>e. dkg_finalize E (honest_inst E c sid tag F v) ph
      (map (\<lambda>i. (i, honest_b1 E sid tag F i)) (c_ids c))
      (map (\<lambda>i. (i, \<lparr>b2_from = i, b2_com = commit E (F i)\<rparr>)) (c_ids c))
      (map (\<lambda>i. (i, received tamper F v i)) (c_ids c)) (map (\<lambda>i. (i, defended tamper F v i)) (c_ids c))
        = Err e \<and> (\<exists>d \<in> set (c_ids c). faulty_at tamper d v \<and> fault_abort tamper ph d v e))"
    (is "(dkg_finalize E ?inst ph ?r1 ?r2 ?mine ?df = _ \<and> _) \<or> _")
proof (cases "\<forall>d \<in> set (c_ids c). \<not> faulty_at tamper d v")
  case True
  then have mine: "?mine = map (\<lambda>i. (i, peval (F i) (of_nat v))) (c_ids c)"
    using received_wrong [OF assms(1), of tamper F v] by auto
  have "dkg_finalize E ?inst ph ?r1 ?r2 ?mine ?df = Ok (joint_output E (dealt c F) v)"
    unfolding mine by (rule finalize_honest [OF assms(1-3)]) (simp_all add: len c_n_def)
  then show ?thesis using True by blast
next
  case False
  have step: "finalize_step E ?inst ph ?r1 ?r2 ?mine ?df i acc =
      (if faulty_at tamper i v then Err (Abort (resolve_complaint E ph (commit E (F i)) i v (defended tamper F v i)))
       else Ok (fst acc + received tamper F v i, snd acc @ [commit E (F i)]))" if "i \<in> set (c_ids c)" for i acc
    using that len received_wrong [OF assms(1), of tamper F v i] assms(1)
    by (simp add: finalize_step_def committee_map(2) [OF assms(2)] honest_b1_def verify_share_commit)
  have blame: "fault_abort tamper ph i v (Abort (resolve_complaint E ph (commit E (F i)) i v (defended tamper F v i)))" for i
    by (simp add: fault_abort_def resolve_complaint_blames verify_share_commit [OF assms(1)] defended_def)
  have "(\<exists>s'. foldR (finalize_step E ?inst ph ?r1 ?r2 ?mine ?df) (c_ids c) (0, []) = Ok s') \<or>
      (\<exists>d \<in> set (c_ids c). \<exists>e. foldR (finalize_step E ?inst ph ?r1 ?r2 ?mine ?df) (c_ids c) (0, []) = Err e
        \<and> faulty_at tamper d v \<and> fault_abort tamper ph d v e)"
    by (rule foldR_cases) (use step blame in auto)
  moreover have "foldR (finalize_step E ?inst ph ?r1 ?r2 ?mine ?df) (c_ids c) (0, []) \<noteq> Ok s'" for s'
  proof
    assume "foldR (finalize_step E ?inst ph ?r1 ?r2 ?mine ?df) (c_ids c) (0, []) = Ok s'"
    moreover obtain d where "d \<in> set (c_ids c)" "faulty_at tamper d v" using False by blast
    ultimately show False using foldR_Ok_step [of _ "c_ids c" _ s' d] step [of d] by fastforce
  qed
  ultimately obtain d e where "d \<in> set (c_ids c)" "faulty_at tamper d v" "fault_abort tamper ph d v e"
    "foldR (finalize_step E ?inst ph ?r1 ?r2 ?mine ?df) (c_ids c) (0, []) = Err e" by blast
  then show ?thesis by (auto simp: dkg_finalize_def Let_def c_n_def)
qed

text \<open>A whole round of dealings with faults in the shares only.\<close>

lemma dealing_rounds_shares:
  fixes E :: "('f::field, 'g::ab_group_add, 'r) k256"
  assumes "k256_ok E" "committee_wf c" "bad_reveal_of tamper = None"
    and len: "\<And>i. i \<in> set (c_ids c) \<Longrightarrow> length (F i) = c_t c"
    and res: "res = dealing_rounds E ph c tamper (map (\<lambda>i. (honest_inst E c sid tag F i, honest_b1 E sid tag F i)) (c_ids c))"
  shows "(res = Ok (map (joint_output E (dealt c F)) (c_ids c),
        map (\<lambda>i. (i, \<lparr>b2_from = i, b2_com = commit E (F i)\<rparr>)) (c_ids c))
      \<and> (\<forall>d \<in> set (c_ids c). \<forall>v \<in> set (c_ids c). \<not> faulty_at tamper d v))
    \<or> (\<exists>e. res = Err e \<and> (\<exists>d \<in> set (c_ids c). \<exists>v \<in> set (c_ids c). faulty_at tamper d v \<and> fault_abort tamper ph d v e))"
proof -
  let ?ids = "c_ids c"
  let ?started = "map (\<lambda>i. (honest_inst E c sid tag F i, honest_b1 E sid tag F i)) ?ids"
  let ?inst = "\<lambda>i. fault_inst tamper (honest_inst E c sid tag F i)"
  let ?s = "\<lambda>i j. peval (F i) (of_nat j) + (if bad_deal_of tamper = Some (i, j) then 1 else 0)"
  let ?rev = "\<lambda>i. (\<lparr>b2_from = i, b2_com = commit E (F i)\<rparr>,
      map (\<lambda>j. \<lparr>pp_from = i, pp_to = j, pp_share = ?s i j\<rparr>) ?ids)"
  let ?r1 = "map (\<lambda>i. (i, honest_b1 E sid tag F i)) ?ids"
  let ?r2 = "map (\<lambda>i. (i, \<lparr>b2_from = i, b2_com = commit E (F i)\<rparr>)) ?ids"
  obtain i0 where i0: "i0 \<in> set ?ids"
    using committee_wf_facts(2) [OF assms(2)] by (cases ?ids) auto
  have srt: "bt_of_list (map (\<lambda>i. (i, f i)) ?ids) = map (\<lambda>i. (i, f i)) ?ids" for f
    by (rule committee_map(1) [OF assms(2) i0])
  have insts: "map (fault_inst tamper \<circ> fst) ?started = map ?inst ?ids" by simp
  have revs: "mapR (dkg_reveal E) (map ?inst ?ids) = Ok (map ?rev ?ids)"
    unfolding mapR_map by (rule mapR_Ok) (simp add: fault_reveal assms(3))
  have maps: "bt_of_list (zip ?ids (map snd ?started)) = ?r1"
    "bt_of_list (zip (map di_me (map ?inst ?ids)) (map fst (map ?rev ?ids))) = ?r2"
    by (simp_all add: o_def zip_map_self srt zip_map_both)
  have p2p: "corrupt_p2p tamper (concat (map snd (map ?rev ?ids)))
      = concat (map (\<lambda>i. map (\<lambda>j. \<lparr>pp_from = i, pp_to = j, pp_share = received tamper F j i\<rparr>) ?ids) ?ids)"
    by (simp add: o_def corrupt_concat received_def add.assoc)
  have df: "defenses_of (map ?inst ?ids) v = map (\<lambda>i. (i, defended tamper F v i)) ?ids" for v
    by (simp add: defenses_of_def o_def dkg_defend_def fault_share_for defended_def srt)
  let ?fin = "\<lambda>inst. dkg_finalize E inst ph ?r1 ?r2
      (mine_of (concat (map (\<lambda>i. map (\<lambda>j. \<lparr>pp_from = i, pp_to = j, pp_share = received tamper F j i\<rparr>) ?ids) ?ids)) (di_me inst))
      (defenses_of (map ?inst ?ids) (di_me inst))"
  have fin: "(?fin (?inst v) = Ok (joint_output E (dealt c F) v) \<and> (\<forall>d \<in> set ?ids. \<not> faulty_at tamper d v))
      \<or> (\<exists>e. ?fin (?inst v) = Err e \<and> (\<exists>d \<in> set ?ids. faulty_at tamper d v \<and> fault_abort tamper ph d v e))"
    if "v \<in> set ?ids" for v
  proof -
    have "dkg_finalize E (?inst v) = dkg_finalize E (honest_inst E c sid tag F v)"
      by (rule finalize_cong) simp_all
    then show ?thesis
      using finalize_faulty [OF assms(1,2) that len, where tamper = tamper and ph = ph and sid = sid and tag = tag]
      by (simp add: df mine_of_honest [OF assms(2) that])
  qed
  have all: "(mapR ?fin (map ?inst ?ids) = Ok (map (joint_output E (dealt c F)) ?ids)
        \<and> (\<forall>v \<in> set ?ids. \<forall>d \<in> set ?ids. \<not> faulty_at tamper d v))
      \<or> (\<exists>v \<in> set ?ids. \<exists>e. mapR ?fin (map ?inst ?ids) = Err e
        \<and> (\<exists>d \<in> set ?ids. faulty_at tamper d v \<and> fault_abort tamper ph d v e))"
    unfolding mapR_map by (rule mapR_stop) (rule fin)
  have "res = bindR (mapR ?fin (map ?inst ?ids)) (\<lambda>outs. Ok (outs, ?r2))"
    unfolding res dealing_rounds_def Let_def insts revs bindR.simps maps p2p ..
  then show ?thesis using all by auto
qed

lemma dealing_rounds_honest:
  assumes "k256_ok E" "committee_wf c" "\<And>i. i \<in> set (c_ids c) \<Longrightarrow> length (F i) = c_t c"
  shows "dealing_rounds E ph c None (map (\<lambda>i. (honest_inst E c sid tag F i, honest_b1 E sid tag F i)) (c_ids c))
    = Ok (map (joint_output E (dealt c F)) (c_ids c), map (\<lambda>i. (i, \<lparr>b2_from = i, b2_com = commit E (F i)\<rparr>)) (c_ids c))"
  using dealing_rounds_shares [where tamper = None and ph = ph and sid = sid and tag = tag and F = F,
      OF assms(1,2) _ assms(3) refl]
  by (auto simp: fault_defs faulty_at_def)

text \<open>
  A reveal that does not match its commitment: if the hash separates the two vectors, the dealer is named.
\<close>

lemma dealing_rounds_bad_reveal:
  fixes E :: "('f::field, 'g::ab_group_add, 'r) k256"
  assumes "k256_ok E" "committee_wf c" "bad_deal_of tamper = None" "corrupt_of tamper = None"
    and "bad_reveal_of tamper = Some j" "j \<in> set (c_ids c)"
    and len: "\<And>i. i \<in> set (c_ids c) \<Longrightarrow> length (F i) = c_t c"
    and sep: "\<And>com. com_add_const E (commit E (F j)) 1 = Ok com \<Longrightarrow>
      hash_commitment E sid tag j com \<noteq> hash_commitment E sid tag j (commit E (F j))"
  shows "dealing_rounds E ph c tamper (map (\<lambda>i. (honest_inst E c sid tag F i, honest_b1 E sid tag F i)) (c_ids c))
    = abort ph [j] ''commit-reveal hash mismatch''"
proof -
  let ?ids = "c_ids c"
  let ?started = "map (\<lambda>i. (honest_inst E c sid tag F i, honest_b1 E sid tag F i)) ?ids"
  let ?inst = "\<lambda>i. fault_inst tamper (honest_inst E c sid tag F i)"
  have ne: "F j \<noteq> []" using len [OF assms(6)] committee_wf_facts(3) [OF assms(2)] by auto
  let ?com = "\<lambda>i. if i = j then commit E (padd_const (F j) 1) else commit E (F i)"
  let ?rev = "\<lambda>i. (\<lparr>b2_from = i, b2_com = ?com i\<rparr>,
      map (\<lambda>k. \<lparr>pp_from = i, pp_to = k, pp_share = peval (F i) (of_nat k)\<rparr>) ?ids)"
  let ?r1 = "map (\<lambda>i. (i, honest_b1 E sid tag F i)) ?ids"
  let ?r2 = "map (\<lambda>i. (i, \<lparr>b2_from = i, b2_com = ?com i\<rparr>)) ?ids"
  obtain i0 where i0: "i0 \<in> set ?ids" using assms(6) by blast
  have srt: "bt_of_list (map (\<lambda>i. (i, f i)) ?ids) = map (\<lambda>i. (i, f i)) ?ids" for f
    by (rule committee_map(1) [OF assms(2) i0])
  have insts: "map (fault_inst tamper \<circ> fst) ?started = map ?inst ?ids" by simp
  have revs: "mapR (dkg_reveal E) (map ?inst ?ids) = Ok (map ?rev ?ids)"
    unfolding mapR_map
    by (rule mapR_Ok) (auto simp: fault_reveal assms(3-5) com_add_const_commit [OF assms(1) ne])
  have maps: "bt_of_list (zip ?ids (map snd ?started)) = ?r1"
    "bt_of_list (zip (map di_me (map ?inst ?ids)) (map fst (map ?rev ?ids))) = ?r2"
    by (simp_all add: o_def zip_map_self srt zip_map_both)
  have p2p: "corrupt_p2p tamper x = x" for x :: "'f dkg_p2p list"
    using assms(4) by (auto simp: corrupt_p2p_def corrupt_of_def split: option.splits)
  have mine: "mine_of (concat (map snd (map ?rev ?ids))) v = map (\<lambda>i. (i, peval (F i) (of_nat v))) ?ids"
    if "v \<in> set ?ids" for v
    using mine_of_honest [OF assms(2) that] by (simp add: o_def)
  have df: "length (defenses_of (map ?inst ?ids) v) = c_n c" for v
    by (simp add: defenses_of_def o_def srt c_n_def)
  let ?fin = "\<lambda>inst. dkg_finalize E inst ph ?r1 ?r2 (mine_of (concat (map snd (map ?rev ?ids))) (di_me inst))
      (defenses_of (map ?inst ?ids) (di_me inst))"
  let ?e = "Abort \<lparr>ab_phase = ph, ab_blamed = [j], ab_detail = ''commit-reveal hash mismatch''\<rparr>"
  have fin: "?fin (?inst v) = Err ?e" if v: "v \<in> set ?ids" for v
  proof -
    let ?step = "finalize_step E (?inst v) ph ?r1 ?r2 (map (\<lambda>i. (i, peval (F i) (of_nat v))) ?ids)
        (defenses_of (map ?inst ?ids) v)"
    have sep': "hash_commitment E sid tag j (commit E (padd_const (F j) 1)) \<noteq> hash_commitment E sid tag j (commit E (F j))"
      by (rule sep [OF com_add_const_commit [OF assms(1) ne]])
    have lenc: "length (points (?com i)) = c_t c" if "i \<in> set ?ids" for i
      using len [OF that] by auto
    have step_j: "?step j acc = Err ?e" for acc
      using assms(6) lenc [OF assms(6)] sep'
      by (simp add: finalize_step_def committee_map(2) [OF assms(2)] honest_b1_def abort_def)
    have step: "\<exists>s'. ?step i acc = Ok s'" if "i \<in> set ?ids" "i \<noteq> j" for i acc
      using that len assms(1)
      by (simp add: finalize_step_def committee_map(2) [OF assms(2)] honest_b1_def verify_share_commit)
    obtain ys zs where ys: "?ids = ys @ j # zs" "j \<notin> set ys"
      using split_list_first [OF assms(6)] by blast
    have "foldR ?step (ys @ j # zs) (0, []) = Err ?e"
    proof (rule foldR_stop)
      fix y acc
      assume "y \<in> set ys"
      then show "\<exists>s'. ?step y acc = Ok s'" using ys by (intro step) auto
    qed (rule step_j)
    then have "foldR ?step ?ids (0, []) = Err ?e" unfolding ys(1) [symmetric] .
    then show ?thesis unfolding fault_inst_simps honest_inst_simps mine [OF v]
      using df [of v] by (simp add: dkg_finalize_def c_n_def Let_def)
  qed
  obtain x xs where xs: "?ids = x # xs" using i0 by (cases ?ids) auto
  then have all: "mapR ?fin (map ?inst ?ids) = Err ?e"
    using fin [of x] by (simp add: mapR_map)
  show ?thesis
    unfolding dealing_rounds_def Let_def insts revs bindR.simps maps p2p all abort_def ..
qed

section \<open>Refresh keeps the key\<close>

lemma fixed_start:
  fixes E :: "('f::field, 'g, 'r) k256"
  assumes "committee_wf c" "c_n c \<le> length rs"
  shows "\<exists>F rs'. mapS (\<lambda>(k, i). with_rng k (dkg_start_with_secret E c sid tag i (secrets ! k)))
      (List.enumerate 0 (c_ids c)) rs
      = (Ok (map (\<lambda>i. (honest_inst E c sid tag F i, honest_b1 E sid tag F i)) (c_ids c)) :: _ result, rs')
    \<and> length rs' = length rs
    \<and> (\<forall>k < c_n c. length (F (c_ids c ! k)) = c_t c \<and> hd (F (c_ids c ! k)) = secrets ! k)"
proof -
  define P where "P = (\<lambda>(k, i) y. \<exists>cs. length cs = c_t c \<and> hd cs = secrets ! k
    \<and> y = (honest_inst E c sid tag (\<lambda>_. cs) i, honest_b1 E sid tag (\<lambda>_. cs) i))"
  have start: "P (k, i) (fst (dkg_start_with_secret E c sid tag i (secrets ! k) r))" for k i r
  proof -
    from dkg_start_honest [of c E sid tag i "secrets ! k" r] obtain cs where
      "length cs = c_t c - 1" "fst (dkg_start_with_secret E c sid tag i (secrets ! k) r)
        = (honest_inst E c sid tag (\<lambda>_. secrets ! k # cs) i, honest_b1 E sid tag (\<lambda>_. secrets ! k # cs) i)"
      by blast
    then show ?thesis unfolding P_def
      using committee_wf_facts(3) [OF assms(1)] by (auto intro!: exI [of _ "secrets ! k # cs"])
  qed
  have "0 + length (c_ids c) \<le> length rs" using assms(2) by (simp add: c_n_def)
  from mapS_with_rng [where P = P and f = "\<lambda>k i. dkg_start_with_secret E c sid tag i (secrets ! k)", OF this start]
  obtain ys rs' where ys: "mapS (\<lambda>(k, i). with_rng k (dkg_start_with_secret E c sid tag i (secrets ! k)))
      (List.enumerate 0 (c_ids c)) rs = (Ok ys :: _ result, rs')"
    and P: "list_all2 P (List.enumerate 0 (c_ids c)) ys" and len: "length rs' = length rs" by blast
  from P have lys: "length ys = length (c_ids c)" and Pk: "\<forall>k < length (c_ids c). P (k, c_ids c ! k) (ys ! k)"
    by (simp_all add: list_all2_enumerate_nth)
  then have "\<forall>k < length (c_ids c). \<exists>cs. length cs = c_t c \<and> hd cs = secrets ! k
      \<and> ys ! k = (honest_inst E c sid tag (\<lambda>_. cs) (c_ids c ! k), honest_b1 E sid tag (\<lambda>_. cs) (c_ids c ! k))"
    by (simp add: P_def)
  then obtain G where G: "\<And>k. k < length (c_ids c) \<Longrightarrow> length (G k) = c_t c \<and> hd (G k) = secrets ! k
      \<and> ys ! k = (honest_inst E c sid tag (\<lambda>_. G k) (c_ids c ! k), honest_b1 E sid tag (\<lambda>_. G k) (c_ids c ! k))"
    by metis
  define F where "F = (\<lambda>i. G (the (position c i)))"
  have F: "F (c_ids c ! k) = G k" if "k < length (c_ids c)" for k
    using position_nth [OF assms(1) that] by (simp add: F_def)
  have ys': "ys = map (\<lambda>i. (honest_inst E c sid tag F i, honest_b1 E sid tag F i)) (c_ids c)"
    using lys G F by (intro nth_equalityI) (simp_all add: honest_inst_def honest_b1_def)
  have "\<forall>k < c_n c. length (F (c_ids c ! k)) = c_t c \<and> hd (F (c_ids c ! k)) = secrets ! k"
    using G F by (simp add: c_n_def)
  then show ?thesis using ys [unfolded ys'] len by blast
qed

lemma check_inputs_Ok:
  assumes "c_n c \<le> m"
  shows "check_inputs c (map (joint_output E X) (c_ids c)) m = Ok ()"
  using assms by (auto simp: check_inputs_def c_n_def joint_output_def zip_map1 zip_same_conv_map)

lemma enumerate_mapR:
  assumes "\<And>k. k < length xs \<Longrightarrow> f (k, xs ! k) = Ok (g (xs ! k))"
  shows "mapR f (List.enumerate 0 xs) = Ok (map g xs)"
proof -
  have "mapR f (List.enumerate 0 xs) = Ok (map (\<lambda>(k, x). g x) (List.enumerate 0 xs))"
    using assms by (intro mapR_Ok) (auto simp: enumerate_conv_nth)
  then show ?thesis by (simp add: enumerate_map)
qed

text \<open>The dealers of a refresh deal zero, so the joint polynomial of the round vanishes at zero.\<close>

lemma dealt_zero:
  assumes "\<And>i. i \<in> set (c_ids c) \<Longrightarrow> peval (F i) 0 = (0 :: 'f::comm_ring_1)"
  shows "peval (dealt c F) 0 = 0"
  using assms by (simp add: dealt_def peval_psum o_def sum_list_0 cong: map_cong)

definition zero_dealing :: "committee \<Rightarrow> (party_id \<Rightarrow> 'f::comm_ring_1 list) \<Rightarrow> bool" where
  "zero_dealing c F \<longleftrightarrow> (\<forall>i \<in> set (c_ids c). length (F i) = c_t c \<and> hd (F i) = 0)"

lemma refresh_start:
  fixes E :: "('f::field, 'g::ab_group_add, 'r) k256"
  assumes "committee_wf c" "c_n c \<le> length rs"
  shows "\<exists>F rs'. zero_dealing c F \<and>
    refresh E c (map (joint_output E X) (c_ids c)) sid tamper rs =
      (bindR (dealing_rounds E Refresh c tamper
          (map (\<lambda>i. (honest_inst E c sid REFRESH_COMMIT F i, honest_b1 E sid REFRESH_COMMIT F i)) (c_ids c)))
        (\<lambda>(z_outs, reveals). bindR (foldR (check_zero reveals) (c_ids c) ()) (\<lambda>_.
          mapR (refresh_key (map (joint_output E X) (c_ids c))) (List.enumerate 0 z_outs))), rs')"
proof -
  from fixed_start [OF assms, of E sid REFRESH_COMMIT "replicate (c_n c) 0"] obtain F rs' where
    st: "mapS (\<lambda>(k, i). with_rng k (dkg_start_with_secret E c sid REFRESH_COMMIT i (replicate (c_n c) 0 ! k)))
      (List.enumerate 0 (c_ids c)) rs
      = (Ok (map (\<lambda>i. (honest_inst E c sid REFRESH_COMMIT F i, honest_b1 E sid REFRESH_COMMIT F i)) (c_ids c)) :: _ result, rs')"
    and F: "\<forall>k < c_n c. length (F (c_ids c ! k)) = c_t c \<and> hd (F (c_ids c ! k)) = replicate (c_n c) 0 ! k"
    by blast
  have "zero_dealing c F"
    unfolding zero_dealing_def using F by (fastforce simp: in_set_conv_nth c_n_def)
  moreover have "refresh E c (map (joint_output E X) (c_ids c)) sid tamper rs =
      (bindR (dealing_rounds E Refresh c tamper
          (map (\<lambda>i. (honest_inst E c sid REFRESH_COMMIT F i, honest_b1 E sid REFRESH_COMMIT F i)) (c_ids c)))
        (\<lambda>(z_outs, reveals). bindR (foldR (check_zero reveals) (c_ids c) ()) (\<lambda>_.
          mapR (refresh_key (map (joint_output E X) (c_ids c))) (List.enumerate 0 z_outs))), rs')"
    using st by (simp add: refresh_def check_inputs_Ok [OF assms(2)] deal_fixed_secrets_def bindS_assoc
        bindS_lift2 bindS_Ok [where m = "mapS _ _", OF st])
  ultimately show ?thesis by blast
qed

lemma zero_dealing_facts:
  assumes "zero_dealing c F" "committee_wf c"
  shows "i \<in> set (c_ids c) \<Longrightarrow> length (F i) = c_t c" "i \<in> set (c_ids c) \<Longrightarrow> F i \<noteq> []"
    "i \<in> set (c_ids c) \<Longrightarrow> peval (F i) 0 = 0" "peval (dealt c F) 0 = 0" "length (dealt c F) = c_t c"
proof -
  have len: "length (F i) = c_t c" and ne: "F i \<noteq> []" and z: "peval (F i) 0 = 0" if "i \<in> set (c_ids c)" for i
  proof -
    show len: "length (F i) = c_t c" using that assms(1) by (simp add: zero_dealing_def)
    then show ne: "F i \<noteq> []" using committee_wf_facts(3) [OF assms(2)] by auto
    show "peval (F i) 0 = 0" using that assms(1) by (simp add: zero_dealing_def peval_0 [OF ne])
  qed
  then show "i \<in> set (c_ids c) \<Longrightarrow> length (F i) = c_t c" "i \<in> set (c_ids c) \<Longrightarrow> F i \<noteq> []"
    "i \<in> set (c_ids c) \<Longrightarrow> peval (F i) 0 = 0" by auto
  show "peval (dealt c F) 0 = 0" by (rule dealt_zero) (rule z)
  show "length (dealt c F) = c_t c" by (rule length_dealt [OF assms(2) len])
qed

text \<open>
  An honest refresh re-shares the same secret: the new sharing is the old one plus a sharing of zero.
\<close>

lemma refresh_honest:
  fixes E :: "('f::field, 'g::ab_group_add, 'r) k256"
  assumes "k256_ok E" "committee_wf c" "c_n c \<le> length rs" "length X = c_t c"
  shows "\<exists>Z rs'. refresh E c (map (joint_output E X) (c_ids c)) sid None rs
      = (Ok (map (joint_output E (padd X Z)) (c_ids c)), rs') \<and> length Z = c_t c \<and> peval Z 0 = 0"
proof -
  from refresh_start [OF assms(2,3), of E X sid None] obtain F rs' where
    F: "zero_dealing c F" and run: "refresh E c (map (joint_output E X) (c_ids c)) sid None rs =
      (bindR (dealing_rounds E Refresh c None
          (map (\<lambda>i. (honest_inst E c sid REFRESH_COMMIT F i, honest_b1 E sid REFRESH_COMMIT F i)) (c_ids c)))
        (\<lambda>(z_outs, reveals). bindR (foldR (check_zero reveals) (c_ids c) ()) (\<lambda>_.
          mapR (refresh_key (map (joint_output E X) (c_ids c))) (List.enumerate 0 z_outs))), rs')" by blast
  note zf = zero_dealing_facts [OF F assms(2)]
  let ?Z = "dealt c F" and ?ids = "c_ids c"
  let ?r2 = "map (\<lambda>i. (i, \<lparr>b2_from = i, b2_com = commit E (F i)\<rparr>)) ?ids"
  have pos: "X \<noteq> []" "?Z \<noteq> []" using assms(4) zf(5) committee_wf_facts(3) [OF assms(2)] by auto
  have const: "points (commit E cs) ! 0 = smul E (gen E) (peval cs 0)" "0 < length (points (commit E cs))"
    if "cs \<noteq> []" for cs
    using that by (auto simp: peval_0 hd_conv_nth)
  have zero: "foldR (check_zero ?r2) ?ids () = Ok ()"
  proof -
    have "check_zero ?r2 i u = Ok ()" if "i \<in> set ?ids" for i u
      using that zf(2,3) const [of "F i"] smul_zero [OF assms(1)]
      by (simp add: check_zero_def committee_map(2) [OF assms(2)] del: points_commit)
    then show ?thesis by (rule foldR_unit)
  qed
  have keys: "mapR (refresh_key (map (joint_output E X) ?ids)) (List.enumerate 0 (map (joint_output E ?Z) ?ids))
      = Ok (map (joint_output E (padd X ?Z)) ?ids)"
  proof -
    have "refresh_key (map (joint_output E X) ?ids) (k, map (joint_output E ?Z) ?ids ! k)
        = Ok (joint_output E (padd X ?Z) (?ids ! k))" if "k < length ?ids" for k
      using that pos const [of X] const [of "padd X ?Z"] zf(4)
      by (simp add: refresh_key_def joint_output_def com_add_commit [OF assms(1)] Let_def del: points_commit)
    then have "mapR (refresh_key (map (joint_output E X) ?ids)) (List.enumerate 0 (map (joint_output E ?Z) ?ids))
        = Ok (map (\<lambda>z. joint_output E (padd X ?Z) (o_index z)) (map (joint_output E ?Z) ?ids))"
      by (intro enumerate_mapR) (simp add: joint_output_def)
    then show ?thesis by (simp add: o_def joint_output_def)
  qed
  have "refresh E c (map (joint_output E X) ?ids) sid None rs = (Ok (map (joint_output E (padd X ?Z)) ?ids), rs')"
    unfolding run using dealing_rounds_honest [where ph = Refresh and sid = sid and tag = REFRESH_COMMIT and F = F, OF assms(1,2) zf(1)]
    by (simp add: zero keys)
  then show ?thesis using zf(4,5) by blast
qed

text \<open>A refresh with faulty shares ends in an abort that names the cheating dealer or the false accuser.\<close>

lemma refresh_faulty:
  fixes E :: "('f::field, 'g::ab_group_add, 'r) k256"
  assumes "k256_ok E" "committee_wf c" "c_n c \<le> length rs" "bad_reveal_of tamper = None"
    and "d \<in> set (c_ids c)" "v \<in> set (c_ids c)" "faulty_at tamper d v"
  shows "\<exists>e rs'. refresh E c (map (joint_output E X) (c_ids c)) sid tamper rs = (Err e, rs')
    \<and> (\<exists>d v. faulty_at tamper d v \<and> fault_abort tamper Refresh d v e)"
proof -
  from refresh_start [OF assms(2,3), of E X sid tamper] obtain F rs' where
    F: "zero_dealing c F" and run: "refresh E c (map (joint_output E X) (c_ids c)) sid tamper rs =
      (bindR (dealing_rounds E Refresh c tamper
          (map (\<lambda>i. (honest_inst E c sid REFRESH_COMMIT F i, honest_b1 E sid REFRESH_COMMIT F i)) (c_ids c)))
        (\<lambda>(z_outs, reveals). bindR (foldR (check_zero reveals) (c_ids c) ()) (\<lambda>_.
          mapR (refresh_key (map (joint_output E X) (c_ids c))) (List.enumerate 0 z_outs))), rs')" by blast
  from dealing_rounds_shares [where ph = Refresh and sid = sid and tag = REFRESH_COMMIT and F = F,
      OF assms(1,2,4) zero_dealing_facts(1) [OF F assms(2)] refl] assms(5-7)
  obtain e where "dealing_rounds E Refresh c tamper
      (map (\<lambda>i. (honest_inst E c sid REFRESH_COMMIT F i, honest_b1 E sid REFRESH_COMMIT F i)) (c_ids c)) = Err e"
    and blame: "\<exists>d v. faulty_at tamper d v \<and> fault_abort tamper Refresh d v e" by blast
  then have "refresh E c (map (joint_output E X) (c_ids c)) sid tamper rs = (Err e, rs')" using run by simp
  with blame show ?thesis by blast
qed

text \<open>Whatever the dealers did, a refresh that returns keys keeps the public key.\<close>

lemma refresh_key_public:
  assumes "refresh_key keys (k, z) = Ok key'" "k < length keys"
  shows "nth_opt (points (o_com key')) 0 = nth_opt (points (o_com (keys ! k))) 0"
  using assms by (auto simp: refresh_key_def Let_def bindR_Ok_iff split: if_splits)

lemma refresh_public:
  assumes "refresh E c keys sid tamper rs = (Ok keys', rs')"
  shows "length keys' \<le> length keys \<and> (\<forall>k < length keys'.
    nth_opt (points (o_com (keys' ! k))) 0 = nth_opt (points (o_com (keys ! k))) 0)"
proof -
  from assms obtain z_outs where
    "mapR (refresh_key keys) (List.enumerate 0 z_outs) = Ok keys'"
    unfolding refresh_def bindS_Ok_iff liftR_apply by (auto simp: bindR_Ok_iff)
  then have all: "list_all2 (\<lambda>x y. refresh_key keys x = Ok y) (List.enumerate 0 z_outs) keys'"
    by (simp add: mapR_Ok_iff)
  then have len: "length keys' = length z_outs" by (auto dest: list_all2_lengthD)
  have key: "refresh_key keys (k, z_outs ! k) = Ok (keys' ! k)" if "k < length keys'" for k
    using list_all2_nthD2 [OF all that] that len by (simp add: nth_enumerate_eq)
  have bound: "k < length keys" if "k < length keys'" for k
    using key [OF that] by (auto simp: refresh_key_def bindR_Ok_iff nth_opt_def split: if_splits)
  have "length keys' \<le> length keys" using bound [of "length keys"] by (cases "length keys < length keys'") auto
  then show ?thesis using refresh_key_public [OF key bound] by blast
qed

section \<open>Re-sharing keeps the key\<close>

definition bad_com_of :: "reshare_tamper option \<Rightarrow> party_id option" where
  "bad_com_of tamper = Option.bind tamper ht_bad_commitment"

definition bad_subshare_of :: "reshare_tamper option \<Rightarrow> (party_id \<times> party_id) option" where
  "bad_subshare_of tamper = Option.bind tamper ht_bad_deal"

definition reshare_com :: "reshare_tamper option \<Rightarrow> party_id \<Rightarrow> 'f::comm_ring_1 list \<Rightarrow> 'f list" where
  \<comment> \<open>the coefficients the dealer \<open>j\<close> commits to\<close>
  "reshare_com tamper j cs = (if bad_com_of tamper = Some j then padd_const cs 1 else cs)"

definition dealer_of :: "('f::comm_ring_1, 'g, 'r) k256 \<Rightarrow> reshare_tamper option \<Rightarrow> (party_id \<Rightarrow> 'f list) \<Rightarrow> party_id
    \<Rightarrow> ('f, 'g) reshare_dealer" where
  "dealer_of E tamper F j = \<lparr>rd_from = j, rd_poly = \<lparr>coeffs = F j\<rparr>, rd_com = commit E (reshare_com tamper j (F j)),
     rd_bad_deal = (case bad_subshare_of tamper of None \<Rightarrow> None | Some (d, v) \<Rightarrow> if d = j then Some v else None)\<rparr>"

definition commit_of :: "('f::comm_ring_1, 'g, 'r) k256 \<Rightarrow> bytes \<Rightarrow> reshare_tamper option \<Rightarrow> (party_id \<Rightarrow> 'f list)
    \<Rightarrow> party_id \<Rightarrow> dkg_bcast1" where
  "commit_of E sid tamper F j =
     \<lparr>b1_from = j, b1_hash = hash_commitment E sid RESHARE_COMMIT j (commit E (reshare_com tamper j (F j)))\<rparr>"

lemma dealer_of_simps [simp]:
  "rd_from (dealer_of E tamper F j) = j" "rd_com (dealer_of E tamper F j) = commit E (reshare_com tamper j (F j))"
  "dealer_share_for (dealer_of E tamper F j) m
    = peval (F j) (of_nat m) + (if bad_subshare_of tamper = Some (j, m) then 1 else 0)"
  by (auto simp: dealer_of_def dealer_share_for_def Let_def split: option.splits)

lemma mine_of_dealt:
  assumes "committee_wf old" "committee_wf new" "m \<in> set (c_ids new)"
  shows "mine_of (concat (map (\<lambda>i. map (\<lambda>j. \<lparr>pp_from = i, pp_to = j, pp_share = s i j\<rparr>) (c_ids new)) (c_ids old))) m
    = map (\<lambda>i. (i, s i m)) (c_ids old)"
proof -
  obtain i0 where "i0 \<in> set (c_ids old)" using committee_wf_facts(2) [OF assms(1)] by (cases "c_ids old") auto
  then have srt: "bt_of_list (map (\<lambda>i. (i, s i m)) (c_ids old)) = map (\<lambda>i. (i, s i m)) (c_ids old)"
    by (rule committee_map(1) [OF assms(1)])
  have "filter (\<lambda>x. pp_to x = m) (map (\<lambda>j. \<lparr>pp_from = i, pp_to = j, pp_share = s i j\<rparr>) (c_ids new))
      = [\<lparr>pp_from = i, pp_to = m, pp_share = s i m\<rparr>]" for i
    using filter_eq_singleton [OF committee_wf_facts(1) [OF assms(2)] assms(3)]
    by (simp add: filter_map o_def)
  then show ?thesis using srt by (simp add: mine_of_def filter_concat_singleton o_def)
qed

lemma reshare_deal_pure:
  fixes E :: "('f::field, 'g::ab_group_add, 'r) k256"
  assumes "k256_ok E" "k < length keys"
  shows "reshare_deal E new keys sid tamper (k, j) = with_rng k (\<lambda>rng.
    case shamir_random E (o_share (keys ! k)) (c_t new) rng of (poly, rng') \<Rightarrow>
      ((dealer_of E tamper (\<lambda>_. coeffs poly) j, commit_of E sid tamper (\<lambda>_. coeffs poly) j), rng'))"
proof (rule ext)
  fix rs :: "'r list"
  let ?sr = "shamir_random E (o_share (keys ! k)) (c_t new) (rs ! k)"
  obtain poly rng' where r: "?sr = (poly, rng')" by (cases ?sr) auto
  obtain cs where cs: "coeffs poly = o_share (keys ! k) # cs"
    using shamir_random_coeffs [of E "o_share (keys ! k)" "c_t new" "rs ! k"] r by auto
  have poly: "\<lparr>coeffs = coeffs poly\<rparr> = poly" by simp
  have com: "com_add_const E (from_poly E poly) 1 = Ok (commit E (padd_const (coeffs poly) 1))"
    using cs by (simp add: from_poly_commit com_add_const_commit [OF assms(1)])
  show "reshare_deal E new keys sid tamper (k, j) rs = with_rng k (\<lambda>rng.
    case shamir_random E (o_share (keys ! k)) (c_t new) rng of (poly, rng') \<Rightarrow>
      ((dealer_of E tamper (\<lambda>_. coeffs poly) j, commit_of E sid tamper (\<lambda>_. coeffs poly) j), rng')) rs"
  proof (cases "k < length rs")
    case True
    have w: "with_rng k (shamir_random E (o_share (keys ! k)) (c_t new)) rs = (Ok poly :: _ result, rs[k := rng'])"
      using True r by (simp add: with_rng_def)
    show ?thesis
      using True r assms(2) com
      by (cases tamper) (auto simp: reshare_deal_def bindS_Ok [where m = "with_rng _ _", OF w] with_rng_def Let_def
          dealer_of_def commit_of_def reshare_com_def bad_com_of_def bad_subshare_of_def from_poly_commit
          split: option.splits)
  next
    case False
    then show ?thesis using assms(2) by (simp add: reshare_deal_def with_rng_def bindS_def)
  qed
qed

definition reshares_secret :: "('f::comm_ring_1 list) \<Rightarrow> committee \<Rightarrow> committee \<Rightarrow> (party_id \<Rightarrow> 'f list) \<Rightarrow> bool" where
  \<comment> \<open>every old party deals its share of \<open>X\<close> with a polynomial for the new threshold\<close>
  "reshares_secret X old new F \<longleftrightarrow>
     (\<forall>j \<in> set (c_ids old). length (F j) = c_t new \<and> hd (F j) = peval X (of_nat j))"

lemma reshare_start:
  fixes E :: "('f::field, 'g::ab_group_add, 'r) k256"
  assumes "k256_ok E" "committee_wf old" "committee_wf new" "c_n old \<le> length rs"
  shows "\<exists>F rs'. mapS (reshare_deal E new (map (joint_output E X) (c_ids old)) sid tamper) (List.enumerate 0 (c_ids old)) rs
      = (Ok (map (\<lambda>j. (dealer_of E tamper F j, commit_of E sid tamper F j)) (c_ids old)) :: _ result, rs')
    \<and> reshares_secret X old new F"
proof -
  let ?keys = "map (joint_output E X) (c_ids old)"
  let ?f = "\<lambda>k j rng. case shamir_random E (o_share (?keys ! k)) (c_t new) rng of (poly, rng') \<Rightarrow>
      ((dealer_of E tamper (\<lambda>_. coeffs poly) j, commit_of E sid tamper (\<lambda>_. coeffs poly) j), rng')"
  define P where "P = (\<lambda>(k, j) y. \<exists>cs. length cs = c_t new \<and> hd cs = o_share (?keys ! k)
    \<and> y = (dealer_of E tamper (\<lambda>_. cs) j, commit_of E sid tamper (\<lambda>_. cs) j))"
  have start: "P (k, j) (fst (?f k j r))" for k j r
  proof -
    obtain poly r' where p: "shamir_random E (o_share (?keys ! k)) (c_t new) r = (poly, r')"
      by (cases "shamir_random E (o_share (?keys ! k)) (c_t new) r") auto
    obtain cs where "coeffs poly = o_share (?keys ! k) # cs" "length cs = c_t new - 1"
      using shamir_random_coeffs [of E "o_share (?keys ! k)" "c_t new" r] p by auto
    then show ?thesis
      using p committee_wf_facts(3) [OF assms(3)] by (auto simp: P_def intro!: exI [of _ "coeffs poly"])
  qed
  have eq: "mapS (reshare_deal E new ?keys sid tamper) (List.enumerate 0 (c_ids old))
      = mapS (\<lambda>(k, j). with_rng k (?f k j)) (List.enumerate 0 (c_ids old))"
    by (rule mapS_cong) (auto simp: enumerate_conv_nth reshare_deal_pure [OF assms(1)])
  have "0 + length (c_ids old) \<le> length rs" using assms(4) by (simp add: c_n_def)
  from mapS_with_rng [where P = P and f = ?f, OF this start]
  obtain ys rs' where ys: "mapS (\<lambda>(k, j). with_rng k (?f k j)) (List.enumerate 0 (c_ids old)) rs = (Ok ys :: _ result, rs')"
    and P: "list_all2 P (List.enumerate 0 (c_ids old)) ys" by blast
  from P have lys: "length ys = length (c_ids old)" and Pk: "\<forall>k < length (c_ids old). P (k, c_ids old ! k) (ys ! k)"
    by (simp_all add: list_all2_enumerate_nth)
  then have "\<forall>k < length (c_ids old). \<exists>cs. length cs = c_t new \<and> hd cs = o_share (?keys ! k)
      \<and> ys ! k = (dealer_of E tamper (\<lambda>_. cs) (c_ids old ! k), commit_of E sid tamper (\<lambda>_. cs) (c_ids old ! k))"
    by (simp add: P_def)
  then obtain G where G: "\<And>k. k < length (c_ids old) \<Longrightarrow> length (G k) = c_t new \<and> hd (G k) = o_share (?keys ! k)
      \<and> ys ! k = (dealer_of E tamper (\<lambda>_. G k) (c_ids old ! k), commit_of E sid tamper (\<lambda>_. G k) (c_ids old ! k))"
    by metis
  define F where "F = (\<lambda>i. G (the (position old i)))"
  have F: "F (c_ids old ! k) = G k" if "k < length (c_ids old)" for k
    using position_nth [OF assms(2) that] by (simp add: F_def)
  have ys': "ys = map (\<lambda>j. (dealer_of E tamper F j, commit_of E sid tamper F j)) (c_ids old)"
    using lys G F by (intro nth_equalityI) (simp_all add: dealer_of_def commit_of_def)
  have "reshares_secret X old new F"
    using G F by (auto simp: reshares_secret_def in_set_conv_nth joint_output_def)
  moreover have "mapS (reshare_deal E new ?keys sid tamper) (List.enumerate 0 (c_ids old)) rs
      = (Ok (map (\<lambda>j. (dealer_of E tamper F j, commit_of E sid tamper F j)) (c_ids old)) :: _ result, rs')"
    unfolding eq using ys unfolding ys' .
  ultimately show ?thesis by blast
qed

definition cheats :: "reshare_tamper option \<Rightarrow> party_id \<Rightarrow> party_id \<Rightarrow> bool" where
  "cheats tamper j m \<longleftrightarrow> bad_com_of tamper = Some j \<or> bad_subshare_of tamper = Some (j, m)"

definition blames :: "error \<Rightarrow> party_id \<Rightarrow> bool" where
  "blames e j \<longleftrightarrow> (\<exists>a. e = Abort a \<and> ab_phase a = Refresh \<and> ab_blamed a = [j])"

lemma reshare_step_value:
  fixes E :: "('f::field, 'g::ab_group_add, 'r) k256"
  assumes "k256_ok E" "committee_wf old" "committee_wf new" "reshares_secret X old new F" "pos < length (c_ids old)"
    and "j = c_ids old ! pos"
    and mine: "mine = map (\<lambda>i. (i, peval (F i) (of_nat m) + (if bad_subshare_of tamper = Some (i, m) then 1 else 0))) (c_ids old)"
  shows "(reshare_step E new sid (commit E X) (map (dealer_of E tamper F) (c_ids old)) (map Lam (c_ids old))
      (map (\<lambda>j. (j, commit_of E sid tamper F j)) (c_ids old))
      (map (\<lambda>j. (j, \<lparr>b2_from = j, b2_com = commit E (reshare_com tamper j (F j))\<rparr>)) (c_ids old)) m mine (pos, j) acc
      = Ok (fst acc + Lam j * peval (F j) (of_nat m), com_add (snd acc) (commit E (pscale (Lam j) (F j))))
      \<and> \<not> cheats tamper j m)
    \<or> (\<exists>e. reshare_step E new sid (commit E X) (map (dealer_of E tamper F) (c_ids old)) (map Lam (c_ids old))
      (map (\<lambda>j. (j, commit_of E sid tamper F j)) (c_ids old))
      (map (\<lambda>j. (j, \<lparr>b2_from = j, b2_com = commit E (reshare_com tamper j (F j))\<rparr>)) (c_ids old)) m mine (pos, j) acc = Err e
      \<and> cheats tamper j m \<and> blames e j)"
proof -
  have j: "j \<in> set (c_ids old)" using assms(5,6) by simp
  have F: "length (F j) = c_t new" "hd (F j) = peval X (of_nat j)" using assms(4) j by (simp_all add: reshares_secret_def)
  then have ne: "F j \<noteq> []" using committee_wf_facts(3) [OF assms(3)] by auto
  have len: "length (reshare_com tamper j (F j)) = c_t new" using F(1) by (simp add: reshare_com_def)
  have p0: "nth_opt (points (commit E (reshare_com tamper j (F j)))) 0
      = Some (smul E (gen E) (peval X (of_nat j) + (if bad_com_of tamper = Some j then 1 else 0)))"
    using F ne by (cases "F j") (auto simp: reshare_com_def padd_const_def nth_opt_def)
  have bind: "smul E (gen E) (peval X (of_nat j) + (if bad_com_of tamper = Some j then 1 else 0))
      = com_eval_at E (commit E X) j \<longleftrightarrow> bad_com_of tamper \<noteq> Some j"
    by (auto simp: com_eval_at_commit [OF assms(1)] smul_gen_inject [OF assms(1)])
  have sh: "bt_get mine j = Some (peval (F j) (of_nat m) + (if bad_subshare_of tamper = Some (j, m) then 1 else 0))"
    unfolding mine by (rule committee_map(2) [OF assms(2) j])
  have lp: "length (points (commit E cs)) = length cs" for cs by simp
  have nths: "map (dealer_of E tamper F) (c_ids old) ! pos = dealer_of E tamper F j" "map Lam (c_ids old) ! pos = Lam j"
    using assms(5,6) by simp_all
  show ?thesis
    using len p0 bind sh assms(5) nths lp
    by (auto simp: reshare_step_def committee_map(2) [OF assms(2) j] commit_of_def cheats_def blames_def abort_def
        reshare_com_def verify_share_commit [OF assms(1)] resolve_complaint_blames com_scale_commit [OF assms(1)]
        simp del: points_commit)
qed

text \<open>The sharing the new members end up with: the Lagrange combination of the dealings.\<close>

definition recombined :: "nat \<Rightarrow> (party_id \<Rightarrow> 'f::comm_ring_1) \<Rightarrow> (party_id \<Rightarrow> 'f list) \<Rightarrow> party_id list \<Rightarrow> 'f list" where
  "recombined t Lam F js = foldl padd (replicate t 0) (map (\<lambda>j. pscale (Lam j) (F j)) js)"

lemma recombined_snoc: "recombined t Lam F (js @ [j]) = padd (recombined t Lam F js) (pscale (Lam j) (F j))"
  by (simp add: recombined_def)

lemma length_recombined:
  "(\<And>j. j \<in> set js \<Longrightarrow> length (F j) = t) \<Longrightarrow> length (recombined t Lam F js) = t"
  by (induction js rule: rev_induct) (simp_all add: recombined_snoc, simp add: recombined_def)

lemma peval_recombined: "peval (recombined t Lam F js) x = (\<Sum>j\<leftarrow>js. Lam j * peval (F j) x)"
  by (induction js rule: rev_induct) (simp_all add: recombined_snoc mult.commute, simp add: recombined_def)

lemma reshare_member_value:
  fixes E :: "('f::field, 'g::ab_group_add, 'r) k256"
  assumes "k256_ok E" "committee_wf old" "committee_wf new" "reshares_secret X old new F" "m \<in> set (c_ids new)"
    and "X \<noteq> []" "(\<Sum>j\<leftarrow>c_ids old. Lam j * peval X (of_nat j)) = peval X 0"
  shows "(reshare_member E old new sid (commit E X) (map (dealer_of E tamper F) (c_ids old)) (map Lam (c_ids old))
      (map (\<lambda>j. (j, commit_of E sid tamper F j)) (c_ids old))
      (map (\<lambda>j. (j, \<lparr>b2_from = j, b2_com = commit E (reshare_com tamper j (F j))\<rparr>)) (c_ids old))
      (concat (map (\<lambda>i. map (\<lambda>j. \<lparr>pp_from = i, pp_to = j, pp_share = peval (F i) (of_nat j)
          + (if bad_subshare_of tamper = Some (i, j) then 1 else 0)\<rparr>) (c_ids new)) (c_ids old))) m
      = Ok (joint_output E (recombined (c_t new) Lam F (c_ids old)) m) \<and> (\<forall>j \<in> set (c_ids old). \<not> cheats tamper j m))
    \<or> (\<exists>e. reshare_member E old new sid (commit E X) (map (dealer_of E tamper F) (c_ids old)) (map Lam (c_ids old))
      (map (\<lambda>j. (j, commit_of E sid tamper F j)) (c_ids old))
      (map (\<lambda>j. (j, \<lparr>b2_from = j, b2_com = commit E (reshare_com tamper j (F j))\<rparr>)) (c_ids old))
      (concat (map (\<lambda>i. map (\<lambda>j. \<lparr>pp_from = i, pp_to = j, pp_share = peval (F i) (of_nat j)
          + (if bad_subshare_of tamper = Some (i, j) then 1 else 0)\<rparr>) (c_ids new)) (c_ids old))) m = Err e
      \<and> (\<exists>j \<in> set (c_ids old). cheats tamper j m \<and> blames e j))"
    (is "(?member = _ \<and> _) \<or> _")
proof -
  let ?ids = "c_ids old" and ?W = "recombined (c_t new) Lam F" and ?t = "c_t new"
  let ?mine = "map (\<lambda>i. (i, peval (F i) (of_nat m) + (if bad_subshare_of tamper = Some (i, m) then 1 else 0))) ?ids"
  let ?step = "reshare_step E new sid (commit E X) (map (dealer_of E tamper F) ?ids) (map Lam ?ids)
      (map (\<lambda>j. (j, commit_of E sid tamper F j)) ?ids)
      (map (\<lambda>j. (j, \<lparr>b2_from = j, b2_com = commit E (reshare_com tamper j (F j))\<rparr>)) ?ids) m ?mine"
  let ?I = "\<lambda>ps :: (nat \<times> party_id) list. (peval (?W (map snd ps)) (of_nat m), commit E (?W (map snd ps)))"
  have zero: "(0, \<lparr>points = replicate ?t 0\<rparr>) = ?I []"
    by (simp add: recombined_def commit_def smul_zero [OF assms(1)])
  have mine: "mine_of (concat (map (\<lambda>i. map (\<lambda>j. \<lparr>pp_from = i, pp_to = j, pp_share = peval (F i) (of_nat j)
          + (if bad_subshare_of tamper = Some (i, j) then 1 else 0)\<rparr>) (c_ids new)) ?ids)) m = ?mine"
    by (rule mine_of_dealt [OF assms(2,3,5)])
  have start: "?member = bindR (foldR ?step (List.enumerate 0 ?ids) (?I [])) (\<lambda>(share, com).
     bindR (of_opt (nth_opt (points com) 0)) (\<lambda>p. bindR (of_opt (nth_opt (points (commit E X)) 0)) (\<lambda>q.
       if p \<noteq> q then Panic else Ok \<lparr>o_index = m, o_share = share, o_com = com\<rparr>)))"
    unfolding reshare_member_def mine zero ..
  have step: "(?step (pos, j) acc = Ok (fst acc + Lam j * peval (F j) (of_nat m), com_add (snd acc) (commit E (pscale (Lam j) (F j))))
        \<and> \<not> cheats tamper j m) \<or> (\<exists>e. ?step (pos, j) acc = Err e \<and> cheats tamper j m \<and> blames e j)"
    if "(pos, j) \<in> set (List.enumerate 0 ?ids)" for pos j acc
  proof -
    have "pos < length ?ids" "j = ?ids ! pos" using that by (auto simp: enumerate_conv_nth)
    then show ?thesis by (intro reshare_step_value [OF assms(1-4) _ _ refl]) auto
  qed
  show ?thesis
  proof (cases "\<exists>j \<in> set ?ids. cheats tamper j m")
    case True
    then obtain j where j: "j \<in> set ?ids" "cheats tamper j m" by blast
    then obtain pos where "pos < length ?ids" "?ids ! pos = j" by (auto simp: in_set_conv_nth)
    then have pos: "(pos, j) \<in> set (List.enumerate 0 ?ids)" by (auto simp: enumerate_conv_nth)
    have "(\<exists>s'. foldR ?step (List.enumerate 0 ?ids) (?I []) = Ok s') \<or>
        (\<exists>x \<in> set (List.enumerate 0 ?ids). \<exists>e. foldR ?step (List.enumerate 0 ?ids) (?I []) = Err e
          \<and> cheats tamper (snd x) m \<and> blames e (snd x))"
      by (rule foldR_cases) (use step in fastforce)
    moreover have "foldR ?step (List.enumerate 0 ?ids) (?I []) \<noteq> Ok s'" for s'
    proof
      assume "foldR ?step (List.enumerate 0 ?ids) (?I []) = Ok s'"
      from foldR_Ok_step [OF this pos] obtain s1 s2 where "?step (pos, j) s1 = Ok s2" by blast
      with step [OF pos, of s1] j(2) show False by auto
    qed
    ultimately obtain x e where x: "x \<in> set (List.enumerate 0 ?ids)" "cheats tamper (snd x) m" "blames e (snd x)"
      and err: "foldR ?step (List.enumerate 0 ?ids) (?I []) = Err e" by blast
    have "?member = Err e" unfolding start err by simp
    moreover have "snd x \<in> set ?ids" using x(1) by (auto simp: enumerate_conv_nth)
    ultimately show ?thesis using x by blast
  next
    case False
    have "foldR ?step (List.enumerate 0 ?ids) (?I []) = Ok (?I ([] @ List.enumerate 0 ?ids))"
    proof (rule foldR_prefix)
      fix ps x
      assume x: "x \<in> set (List.enumerate 0 ?ids)"
      obtain pos j where pj: "x = (pos, j)" by (cases x)
      then have "j \<in> set ?ids" using x by (auto simp: enumerate_conv_nth)
      then have "?step x (?I ps) = Ok (fst (?I ps) + Lam j * peval (F j) (of_nat m), com_add (snd (?I ps)) (commit E (pscale (Lam j) (F j))))"
        using step [of pos j "?I ps"] x pj False by blast
      then show "?step x (?I ps) = Ok (?I (ps @ [x]))"
        using pj by (simp add: recombined_snoc com_add_commit [OF assms(1)] mult.commute)
    qed
    then have fold: "foldR ?step (List.enumerate 0 ?ids) (?I []) = Ok (peval (?W ?ids) (of_nat m), commit E (?W ?ids))"
      by simp
    have F: "length (F j) = ?t" "peval (F j) 0 = peval X (of_nat j)" if "j \<in> set ?ids" for j
    proof -
      show "length (F j) = ?t" using that assms(4) by (simp add: reshares_secret_def)
      then have "F j \<noteq> []" using committee_wf_facts(3) [OF assms(3)] by auto
      then show "peval (F j) 0 = peval X (of_nat j)" using that assms(4) by (simp add: reshares_secret_def peval_0)
    qed
    have len: "length (?W ?ids) = ?t" using F(1) by (rule length_recombined)
    then have ne: "?W ?ids \<noteq> []" using committee_wf_facts(3) [OF assms(3)] by auto
    have "peval (?W ?ids) 0 = (\<Sum>j\<leftarrow>?ids. Lam j * peval X (of_nat j))"
      unfolding peval_recombined using F(2) by (intro arg_cong [where f = sum_list] map_cong) auto
    then have key: "peval (?W ?ids) 0 = peval X 0" using assms(7) by simp
    have const: "nth_opt (points (commit E cs)) 0 = Some (smul E (gen E) (peval cs 0))" if "cs \<noteq> []" for cs
      using that by (cases cs) (auto simp: nth_opt_def)
    have "?member = Ok (joint_output E (?W ?ids) m)"
      unfolding start fold by (simp add: const [OF ne] const [OF assms(6)] key joint_output_def del: points_commit)
    then show ?thesis using False by blast
  qed
qed

lemma reshare_outcome:
  fixes E :: "('f::field, 'g::ab_group_add, 'r) k256"
  assumes "k256_ok E" "committee_wf old" "committee_wf new" "c_n old \<le> length rs" "X \<noteq> []" "length X \<le> c_n old"
  shows "\<exists>res rs'. reshare_keys E old new (map (joint_output E X) (c_ids old)) sid tamper rs = (res, rs') \<and>
    ((\<exists>Y. res = Ok (map (joint_output E Y) (c_ids new)) \<and> length Y = c_t new \<and> peval Y 0 = peval X 0
        \<and> (\<forall>j \<in> set (c_ids old). \<forall>m \<in> set (c_ids new). \<not> cheats tamper j m))
     \<or> (\<exists>e. res = Err e \<and> (\<exists>j \<in> set (c_ids old). (\<exists>m \<in> set (c_ids new). cheats tamper j m) \<and> blames e j)))"
proof -
  let ?ids = "c_ids old"
  from reshare_start [OF assms(1-4), of X sid tamper] obtain F rs' where
    st: "mapS (reshare_deal E new (map (joint_output E X) ?ids) sid tamper) (List.enumerate 0 ?ids) rs
      = (Ok (map (\<lambda>j. (dealer_of E tamper F j, commit_of E sid tamper F j)) ?ids) :: _ result, rs')"
    and F: "reshares_secret X old new F" by blast
  obtain i0 where i0: "i0 \<in> set ?ids" using committee_wf_facts(2) [OF assms(2)] by (cases ?ids) auto
  have srt: "bt_of_list (map (\<lambda>i. (i, f i)) ?ids) = map (\<lambda>i. (i, f i)) ?ids" for f
    by (rule committee_map(1) [OF assms(2) i0])
  have dp: "distinct (pts ?ids :: 'f list)"
    using committee_wf_facts [OF assms(2)] by (intro distinct_pts [OF assms(1)]) auto
  from lagrange_weights [OF dp committee_wf_facts(1) [OF assms(2)], of 0] obtain Lam where
    Lam: "lagrange_coeffs ?ids = Ok (map Lam ?ids)"
      "\<forall>cs. length cs \<le> length ?ids \<longrightarrow> (\<Sum>j\<leftarrow>?ids. Lam j * peval cs (of_nat j)) = peval cs (0 :: 'f)"
    by (auto simp: lagrange_coeffs_def)
  have sumX: "(\<Sum>j\<leftarrow>?ids. Lam j * peval X (of_nat j)) = peval X 0"
    using Lam(2) assms(6) by (simp add: c_n_def)
  let ?member = "reshare_member E old new sid (commit E X) (map (dealer_of E tamper F) ?ids) (map Lam ?ids)
      (map (\<lambda>j. (j, commit_of E sid tamper F j)) ?ids)
      (map (\<lambda>j. (j, \<lparr>b2_from = j, b2_com = commit E (reshare_com tamper j (F j))\<rparr>)) ?ids)
      (concat (map (\<lambda>i. map (\<lambda>j. \<lparr>pp_from = i, pp_to = j, pp_share = peval (F i) (of_nat j)
          + (if bad_subshare_of tamper = Some (i, j) then 1 else 0)\<rparr>) (c_ids new)) ?ids))"
  have key0: "nth_opt (map (joint_output E X) ?ids) 0 = Some (joint_output E X (hd ?ids))"
    using committee_wf_facts(2) [OF assms(2)] by (simp add: nth_opt_def hd_conv_nth)
  have com0: "o_com (joint_output E X i) = commit E X" for i by (simp add: joint_output_def)
  have run: "reshare_keys E old new (map (joint_output E X) ?ids) sid tamper rs = (mapR ?member (c_ids new), rs')"
    by (simp add: reshare_keys_def check_inputs_Ok [OF assms(4)] key0 bindS_Ok [where m = "mapS _ _", OF st]
        o_def zip_map_self srt com0 Lam(1) Let_def)
  have all: "(mapR ?member (c_ids new) = Ok (map (joint_output E (recombined (c_t new) Lam F ?ids)) (c_ids new))
        \<and> (\<forall>m \<in> set (c_ids new). \<forall>j \<in> set ?ids. \<not> cheats tamper j m))
      \<or> (\<exists>m \<in> set (c_ids new). \<exists>e. mapR ?member (c_ids new) = Err e \<and> (\<exists>j \<in> set ?ids. cheats tamper j m \<and> blames e j))"
    by (rule mapR_stop) (rule reshare_member_value [OF assms(1-3) F _ assms(5) sumX])
  have W: "length (recombined (c_t new) Lam F ?ids) = c_t new"
    using F by (intro length_recombined) (simp add: reshares_secret_def)
  have "peval (F j) 0 = peval X (of_nat j)" if "j \<in> set ?ids" for j
  proof -
    have "F j \<noteq> []" "hd (F j) = peval X (of_nat j)"
      using that F committee_wf_facts(3) [OF assms(3)] by (auto simp: reshares_secret_def)
    then show ?thesis by (simp add: peval_0)
  qed
  then have "peval (recombined (c_t new) Lam F ?ids) 0 = (\<Sum>j\<leftarrow>?ids. Lam j * peval X (of_nat j))"
    unfolding peval_recombined by (intro arg_cong [where f = sum_list] map_cong) auto
  then have key: "peval (recombined (c_t new) Lam F ?ids) 0 = peval X 0" using sumX by simp
  from all show ?thesis
  proof (elim disjE conjE bexE exE)
    assume "mapR ?member (c_ids new) = Ok (map (joint_output E (recombined (c_t new) Lam F ?ids)) (c_ids new))"
      "\<forall>m \<in> set (c_ids new). \<forall>j \<in> set ?ids. \<not> cheats tamper j m"
    then show ?thesis using W key run by blast
  next
    fix m e j
    assume "m \<in> set (c_ids new)" "mapR ?member (c_ids new) = Err e" "j \<in> set ?ids" "cheats tamper j m" "blames e j"
    then show ?thesis using run by metis
  qed
qed

end
