(* ===== verification/Codec.thy ===== *)
theory Codec
  imports Committee_Refresh "HOL-Library.Monad_Syntax"
begin

text \<open>
  The canonical wire format (\<open>src/runtime/transport.rs\<close>, the \<open>Encode\<close> and \<open>Decode\<close> traits): an
  encoder returns the bytes it appends, a decoder the value and the number of bytes it consumed, or
  \<open>None\<close>. The locale \<open>codec\<close> is the contract of one type: decoding inverts encoding whatever follows,
  and nothing but an encoding decodes. It is interpreted for the integers and byte strings; the types
  that contain scalars and points satisfy it under \<open>codec_law\<close>, the documented encodings of the curve
  crate, and every composite type inherits it from its parts.
\<close>

section \<open>Messages\<close>

definition DKG_ROUND_COMMIT :: byte where "DKG_ROUND_COMMIT = 1"
definition DKG_ROUND_REVEAL :: byte where "DKG_ROUND_REVEAL = 2"

record 'm envelope =
  e_sid :: bytes
  e_phase :: phase
  e_round :: byte
  e_from :: party_id
  e_to :: "party_id option"
  e_payload :: 'm

datatype ('f, 'g) dkg_message =
    Commit dkg_bcast1
  | Reveal "'g dkg_bcast2"
  | Share "'f dkg_p2p"

record ('m, 's) signed_envelope =
  se_envelope :: "'m envelope"
  se_signature :: 's

definition envelope_broadcast :: "bytes \<Rightarrow> phase \<Rightarrow> byte \<Rightarrow> party_id \<Rightarrow> 'm \<Rightarrow> 'm envelope" where
  "envelope_broadcast sid phase round from payload =
     \<lparr>e_sid = sid, e_phase = phase, e_round = round, e_from = from, e_to = None, e_payload = payload\<rparr>"

definition envelope_p2p :: "bytes \<Rightarrow> phase \<Rightarrow> byte \<Rightarrow> party_id \<Rightarrow> party_id \<Rightarrow> 'm \<Rightarrow> 'm envelope" where
  "envelope_p2p sid phase round from to payload =
     \<lparr>e_sid = sid, e_phase = phase, e_round = round, e_from = from, e_to = Some to, e_payload = payload\<rparr>"

section \<open>Encoders\<close>

definition put_u8 :: "byte \<Rightarrow> bytes" where "put_u8 v = [v]"
definition put_u64 :: "nat \<Rightarrow> bytes" where "put_u64 v = u64_be v"
definition put_bytes :: "bytes \<Rightarrow> bytes" where "put_bytes b = put_u64 (length b) @ b"
definition put_scalar :: "('f, 'g, 'r) k256 \<Rightarrow> 'f \<Rightarrow> bytes" where "put_scalar E s = sc_bytes E s"
definition put_point :: "('f, 'g, 'r) k256 \<Rightarrow> 'g \<Rightarrow> bytes" where "put_point E p = pt_bytes E p"

fun phase_code :: "phase \<Rightarrow> byte" where
  "phase_code KeyGen = 1"
| "phase_code Triples = 2"
| "phase_code Presign = 3"
| "phase_code Sign = 4"
| "phase_code Refresh = 5"

definition phase_decode :: "byte \<Rightarrow> phase option" where
  "phase_decode code = (if code = 1 then Some KeyGen else if code = 2 then Some Triples
     else if code = 3 then Some Presign else if code = 4 then Some Sign
     else if code = 5 then Some Refresh else None)"

definition encode_commitment :: "('f, 'g, 'r) k256 \<Rightarrow> 'g feldman \<Rightarrow> bytes" where
  "encode_commitment E com = put_u64 (length (points com)) @ concat (map (put_point E) (points com))"

definition encode_bcast1 :: "dkg_bcast1 \<Rightarrow> bytes" where
  "encode_bcast1 b = put_u64 (b1_from b) @ put_bytes (b1_hash b)"

definition encode_bcast2 :: "('f, 'g, 'r) k256 \<Rightarrow> 'g dkg_bcast2 \<Rightarrow> bytes" where
  "encode_bcast2 E b = put_u64 (b2_from b) @ encode_commitment E (b2_com b)"

definition encode_p2p :: "('f, 'g, 'r) k256 \<Rightarrow> 'f dkg_p2p \<Rightarrow> bytes" where
  "encode_p2p E m = put_u64 (pp_from m) @ put_u64 (pp_to m) @ put_scalar E (pp_share m)"

definition encode_message :: "('f, 'g, 'r) k256 \<Rightarrow> ('f, 'g) dkg_message \<Rightarrow> bytes" where
  "encode_message E m = (case m of
       Commit b \<Rightarrow> put_u8 1 @ encode_bcast1 b
     | Reveal b \<Rightarrow> put_u8 2 @ encode_bcast2 E b
     | Share s \<Rightarrow> put_u8 3 @ encode_p2p E s)"

definition encode_to :: "party_id option \<Rightarrow> bytes" where
  "encode_to to = (case to of None \<Rightarrow> put_u8 0 | Some to \<Rightarrow> put_u8 1 @ put_u64 to)"

definition encode_envelope :: "('m \<Rightarrow> bytes) \<Rightarrow> 'm envelope \<Rightarrow> bytes" where
  "encode_envelope enc e = put_bytes (e_sid e) @ put_u8 (phase_code (e_phase e)) @ put_u8 (e_round e)
     @ put_u64 (e_from e) @ encode_to (e_to e)
     @ put_bytes (enc (e_payload e))"

definition encode_signed :: "('m \<Rightarrow> bytes) \<Rightarrow> ('s \<Rightarrow> bytes) \<Rightarrow> ('m, 's) signed_envelope \<Rightarrow> bytes" where
  "encode_signed enc sig e = encode_envelope enc (se_envelope e) @ sig (se_signature e)"

definition signing_bytes :: "('m \<Rightarrow> bytes) \<Rightarrow> 'm envelope \<Rightarrow> bytes" where
  "signing_bytes enc e = TRANSPORT_SIGN @ encode_envelope enc e"

section \<open>Decoders\<close>

type_synonym 'a decoder = "bytes \<Rightarrow> ('a \<times> nat) option"

definition get_from :: "bytes \<Rightarrow> nat \<Rightarrow> bytes option" where
  \<comment> \<open>\<open>bytes.get(used..)\<close>\<close>
  "get_from b used = (if used \<le> length b then Some (drop used b) else None)"

definition get_to :: "bytes \<Rightarrow> nat \<Rightarrow> bytes option" where
  \<comment> \<open>\<open>bytes.get(..n)\<close>\<close>
  "get_to b n = (if n \<le> length b then Some (take n b) else None)"

definition checked_add :: "nat \<Rightarrow> nat \<Rightarrow> nat option" where
  "checked_add a b = (if a + b < 2 ^ 64 then Some (a + b) else None)"

definition take_u8 :: "byte decoder" where
  "take_u8 b = (case b of [] \<Rightarrow> None | v # _ \<Rightarrow> Some (v, 1))"

definition take_u64 :: "nat decoder" where
  "take_u64 b = do { a \<leftarrow> get_to b 8; Some (be_nat a, 8) }"

definition take_bytes :: "bytes decoder" where
  "take_bytes b = do {
     (n, used) \<leftarrow> take_u64 b;
     stop \<leftarrow> checked_add used n;
     a \<leftarrow> get_to b stop;
     Some (drop used a, stop) }"

definition take_scalar :: "('f, 'g, 'r) k256 \<Rightarrow> 'f decoder" where
  "take_scalar E b = do { a \<leftarrow> get_to b 32; s \<leftarrow> sc_of_bytes E a; Some (s, 32) }"

definition take_point :: "('f, 'g::zero, 'r) k256 \<Rightarrow> 'g decoder" where
  "take_point E b = (case b of [] \<Rightarrow> None | x # _ \<Rightarrow>
     if x = 0 then Some (0, 1)
     else if x = 2 \<or> x = 3 then do { a \<leftarrow> get_to b 33; p \<leftarrow> pt_of_bytes E a; Some (p, 33) }
     else None)"

primrec take_points :: "('f, 'g::zero, 'r) k256 \<Rightarrow> nat \<Rightarrow> bytes \<Rightarrow> nat \<Rightarrow> 'g list \<Rightarrow> ('g list \<times> nat) option" where
  \<comment> \<open>the loop of \<open>FeldmanCommitment::decode\<close>: \<open>n\<close> more points from offset \<open>used\<close>\<close>
  "take_points E 0 b used ps = Some (ps, used)"
| "take_points E (Suc n) b used ps = do {
     rest \<leftarrow> get_from b used;
     (p, u) \<leftarrow> take_point E rest;
     take_points E n b (used + u) (ps @ [p]) }"

definition decode_commitment :: "('f, 'g::zero, 'r) k256 \<Rightarrow> 'g feldman decoder" where
  "decode_commitment E b = do {
     (n, used) \<leftarrow> take_u64 b;
     if length b - used < n then None else do {
       (ps, used) \<leftarrow> take_points E n b used [];
       Some (\<lparr>points = ps\<rparr>, used) } }"

definition decode_bcast1 :: "dkg_bcast1 decoder" where
  "decode_bcast1 b = do {
     (from, used) \<leftarrow> take_u64 b;
     rest \<leftarrow> get_from b used;
     (hash, u) \<leftarrow> take_bytes rest;
     if length hash \<noteq> 32 then None
     else Some (\<lparr>b1_from = from, b1_hash = hash\<rparr>, used + u) }"

definition decode_bcast2 :: "('f, 'g::zero, 'r) k256 \<Rightarrow> 'g dkg_bcast2 decoder" where
  "decode_bcast2 E b = do {
     (from, used) \<leftarrow> take_u64 b;
     rest \<leftarrow> get_from b used;
     (com, u) \<leftarrow> decode_commitment E rest;
     Some (\<lparr>b2_from = from, b2_com = com\<rparr>, used + u) }"

definition decode_p2p :: "('f, 'g, 'r) k256 \<Rightarrow> 'f dkg_p2p decoder" where
  "decode_p2p E b = do {
     (from, used) \<leftarrow> take_u64 b;
     rest \<leftarrow> get_from b used;
     (to, u) \<leftarrow> take_u64 rest;
     rest2 \<leftarrow> get_from b (used + u);
     (share, u2) \<leftarrow> take_scalar E rest2;
     Some (\<lparr>pp_from = from, pp_to = to, pp_share = share\<rparr>, used + u + u2) }"

definition decode_message :: "('f, 'g::zero, 'r) k256 \<Rightarrow> ('f, 'g) dkg_message decoder" where
  "decode_message E b = do {
     (tag, used) \<leftarrow> take_u8 b;
     rest \<leftarrow> get_from b used;
     (if tag = 1 then do { (m, u) \<leftarrow> decode_bcast1 rest; Some (Commit m, used + u) }
      else if tag = 2 then do { (m, u) \<leftarrow> decode_bcast2 E rest; Some (Reveal m, used + u) }
      else if tag = 3 then do { (m, u) \<leftarrow> decode_p2p E rest; Some (Share m, used + u) }
      else None) }"

definition decode_to :: "bytes \<Rightarrow> (party_id option \<times> nat) option" where
  \<comment> \<open>the addressee field of an envelope\<close>
  "decode_to b = do {
     (tag, used) \<leftarrow> take_u8 b;
     if tag = 0 then Some (None, used)
     else if tag = 1 then do { rest \<leftarrow> get_from b used; (to, u) \<leftarrow> take_u64 rest; Some (Some to, used + u) }
     else None }"

definition decode_envelope :: "'m decoder \<Rightarrow> 'm envelope decoder" where
  "decode_envelope dec b = do {
     (sid, used) \<leftarrow> take_bytes b;
     rest \<leftarrow> get_from b used;
     (code, u) \<leftarrow> take_u8 rest;
     let used = used + u;
     phase \<leftarrow> phase_decode code;
     rest \<leftarrow> get_from b used;
     (round, u) \<leftarrow> take_u8 rest;
     let used = used + u;
     rest \<leftarrow> get_from b used;
     (from, u) \<leftarrow> take_u64 rest;
     let used = used + u;
     rest \<leftarrow> get_from b used;
     (to, u) \<leftarrow> decode_to rest;
     let used = used + u;
     rest \<leftarrow> get_from b used;
     (payload_bytes, u) \<leftarrow> take_bytes rest;
     let used = used + u;
     (payload, payload_used) \<leftarrow> dec payload_bytes;
     if payload_used \<noteq> length payload_bytes then None
     else Some (\<lparr>e_sid = sid, e_phase = phase, e_round = round, e_from = from, e_to = to,
                 e_payload = payload\<rparr>, used) }"

definition decode_signature :: "(bytes \<Rightarrow> 's option) \<Rightarrow> 's decoder" where
  "decode_signature of_slice b = do { a \<leftarrow> get_to b 64; s \<leftarrow> of_slice a; Some (s, 64) }"

definition decode_signed :: "'m decoder \<Rightarrow> (bytes \<Rightarrow> 's option) \<Rightarrow> ('m, 's) signed_envelope decoder" where
  "decode_signed dec of_slice b = do {
     (e, used) \<leftarrow> decode_envelope dec b;
     rest \<leftarrow> get_from b used;
     (s, u) \<leftarrow> decode_signature of_slice rest;
     Some (\<lparr>se_envelope = e, se_signature = s\<rparr>, used + u) }"

section \<open>The contract\<close>

locale codec =
  fixes enc :: "'a \<Rightarrow> bytes"
    and dec :: "'a decoder"
    and valid :: "'a \<Rightarrow> bool"
  assumes dec_enc: "valid x \<Longrightarrow> dec (enc x @ r) = Some (x, length (enc x))"
    and dec_Some: "dec b = Some (x, n) \<Longrightarrow> valid x \<and> n \<le> length b \<and> take n b = enc x"
begin

lemma dec_enc_exact: "valid x \<Longrightarrow> dec (enc x) = Some (x, length (enc x))"
  using dec_enc [of x "[]"] by simp

lemma prefix_free: "valid x \<Longrightarrow> valid y \<Longrightarrow> enc x @ r = enc y @ s \<Longrightarrow> x = y \<and> r = s"
  using dec_enc [of x r] dec_enc [of y s] by auto

lemma enc_inj: "valid x \<Longrightarrow> valid y \<Longrightarrow> enc x = enc y \<longleftrightarrow> x = y"
  using prefix_free [of x y "[]" "[]"] by auto

lemma dec_length: "dec b = Some (x, n) \<Longrightarrow> n = length (enc x)"
  using dec_Some [of b x n] by (metis length_take min.absorb2)

lemma dec_rest: "dec b = Some (x, n) \<Longrightarrow> b = enc x @ drop n b"
  using dec_Some [of b x n] by (metis append_take_drop_id)

text \<open>Decoding is exactly the recognition of an encoded prefix.\<close>

lemma dec_iff: "dec b = Some (x, n) \<longleftrightarrow> valid x \<and> n = length (enc x) \<and> (\<exists>r. b = enc x @ r)"
  using dec_enc dec_Some dec_length dec_rest by metis

end

section \<open>Integers and byte strings\<close>

named_theorems decode_simps "what a successful step of a decoder means"

lemma bind_Some [decode_simps]: "Option.bind m f = Some y \<longleftrightarrow> (\<exists>a. m = Some a \<and> f a = Some y)"
  by (cases m) auto

lemma get_from_Some [decode_simps]: "get_from b u = Some r \<longleftrightarrow> u \<le> length b \<and> r = drop u b"
  by (auto simp: get_from_def)

lemma get_to_Some [decode_simps]: "get_to b u = Some r \<longleftrightarrow> u \<le> length b \<and> r = take u b"
  by (auto simp: get_to_def)

lemma checked_add_Some [decode_simps]: "checked_add a b = Some c \<longleftrightarrow> a + b < 2 ^ 64 \<and> c = a + b"
  by (auto simp: checked_add_def)

lemma be_bytes_be_nat: "be_bytes (length bs) (be_nat bs) = bs"
proof (induction bs rule: rev_induct)
  case (snoc b bs)
  have lt: "unat b < 256" using unsigned_less [of b] by simp
  have "be_nat (bs @ [b]) = be_nat bs * 256 + unat b" by (simp add: be_nat_def)
  moreover have "(of_nat (be_nat bs * 256 + unat b) :: byte) = b"
    unfolding word_unat_eq_iff unat_of_nat_byte using lt by simp
  moreover have "(be_nat bs * 256 + unat b) div 256 = be_nat bs" using lt by simp
  ultimately show ?case using snoc by (simp only: length_append_singleton be_bytes.simps)
qed (simp add: be_nat_def)

lemma be_nat_less: "be_nat bs < 256 ^ length bs"
proof (induction bs rule: rev_induct)
  case (snoc b bs)
  have "be_nat (bs @ [b]) = be_nat bs * 256 + unat b" by (simp add: be_nat_def)
  moreover have "unat b < 256" using unsigned_less [of b] by simp
  ultimately show ?case using snoc by simp
qed (simp add: be_nat_def)

interpretation u8: codec put_u8 take_u8 "\<lambda>_. True"
  by unfold_locales (auto simp: put_u8_def take_u8_def split: list.splits)

interpretation u64: codec put_u64 take_u64 "\<lambda>n. n < 2 ^ 64"
proof unfold_locales
  show "take_u64 (put_u64 x @ r) = Some (x, length (put_u64 x))" if "x < 2 ^ 64" for x r
    using that by (simp add: take_u64_def put_u64_def get_to_def be_nat_u64_be)
  show "x < 2 ^ 64 \<and> n \<le> length b \<and> take n b = put_u64 x" if "take_u64 b = Some (x, n)" for b x n
  proof -
    have len: "8 \<le> length b" and x: "x = be_nat (take 8 b)" "n = 8"
      using that by (auto simp: take_u64_def get_to_def split: if_splits)
    have l8: "length (take 8 b) = 8" using len by simp
    have "x < 2 ^ 64" using be_nat_less [of "take 8 b"] unfolding x(1) l8 by simp
    moreover have "put_u64 x = take 8 b"
      using be_bytes_be_nat [of "take 8 b"] unfolding x(1) l8 put_u64_def u64_be_def .
    ultimately show ?thesis using len x(2) by simp
  qed
qed

lemma length_put_u64 [simp]: "length (put_u64 n) = 8"
  by (simp add: put_u64_def)

interpretation byte_string: codec put_bytes take_bytes "\<lambda>b. length b + 8 < 2 ^ 64"
proof unfold_locales
  show "take_bytes (put_bytes x @ r) = Some (x, length (put_bytes x))" if "length x + 8 < 2 ^ 64" for x r
    using that by (simp add: take_bytes_def put_bytes_def u64.dec_enc checked_add_def get_to_def)
  show "length x + 8 < 2 ^ 64 \<and> n \<le> length b \<and> take n b = put_bytes x" if "take_bytes b = Some (x, n)" for b x n
  proof -
    from that obtain k u where k: "take_u64 b = Some (k, u)" and ck: "u + k < 2 ^ 64" "u + k \<le> length b"
      and x: "x = drop u (take (u + k) b)" "n = u + k"
      unfolding take_bytes_def decode_simps split_paired_Ex prod.case option.inject prod.inject by blast
    have u: "u = 8" using u64.dec_length [OF k] by simp
    note ck = ck [unfolded u] and x = x [unfolded u]
    have "length x = k" using ck x by simp
    moreover have "take n b = take 8 b @ x" using x ck by (simp add: take_add drop_take)
    moreover have "take 8 b = put_u64 k" using u64.dec_Some [OF k] u by simp
    ultimately show ?thesis using ck x(2) by (simp add: put_bytes_def)
  qed
qed

section \<open>Scalars and points\<close>

definition codec_law :: "('f, 'g::zero, 'r) k256 \<Rightarrow> bool" where
  \<comment> \<open>the encodings of the curve crate: fixed width, inverted by decoding, and canonical\<close>
  "codec_law E \<longleftrightarrow>
     (\<forall>s. length (sc_bytes E s) = 32 \<and> sc_of_bytes E (sc_bytes E s) = Some s) \<and>
     (\<forall>b s. length b = 32 \<longrightarrow> sc_of_bytes E b = Some s \<longrightarrow> sc_bytes E s = b) \<and>
     pt_bytes E 0 = [0] \<and>
     (\<forall>p. p \<noteq> 0 \<longrightarrow> length (pt_bytes E p) = 33 \<and> (hd (pt_bytes E p) = 2 \<or> hd (pt_bytes E p) = 3)
        \<and> pt_of_bytes E (pt_bytes E p) = Some p) \<and>
     (\<forall>b p. length b = 33 \<longrightarrow> hd b = 2 \<or> hd b = 3 \<longrightarrow> pt_of_bytes E b = Some p \<longrightarrow> p \<noteq> 0 \<and> pt_bytes E p = b)"

lemma codec_lawD:
  assumes "codec_law E"
  shows "length (sc_bytes E s) = 32" "sc_of_bytes E (sc_bytes E s) = Some s" "pt_bytes E 0 = [0]"
    and "length b = 32 \<Longrightarrow> sc_of_bytes E b = Some s \<Longrightarrow> sc_bytes E s = b"
    and "p \<noteq> 0 \<Longrightarrow> length (pt_bytes E p) = 33" "p \<noteq> 0 \<Longrightarrow> hd (pt_bytes E p) = 2 \<or> hd (pt_bytes E p) = 3"
    and "p \<noteq> 0 \<Longrightarrow> pt_of_bytes E (pt_bytes E p) = Some p"
    and "length b = 33 \<Longrightarrow> hd b = 2 \<or> hd b = 3 \<Longrightarrow> pt_of_bytes E b = Some p \<Longrightarrow> pt_bytes E p = b"
  using assms unfolding codec_law_def by blast+

lemma scalar_codec:
  assumes "codec_law E"
  shows "codec (put_scalar E) (take_scalar E) (\<lambda>_. True)"
proof unfold_locales
  show "take_scalar E (put_scalar E x @ r) = Some (x, length (put_scalar E x))" for x r
    by (simp add: codec_lawD [OF assms] take_scalar_def put_scalar_def get_to_def)
  show "True \<and> n \<le> length b \<and> take n b = put_scalar E x" if "take_scalar E b = Some (x, n)" for b x n
  proof -
    from that have "32 \<le> length b" "sc_of_bytes E (take 32 b) = Some x" "n = 32"
      unfolding take_scalar_def decode_simps by auto
    then show ?thesis using codec_lawD(4) [OF assms, of "take 32 b" x] by (simp add: put_scalar_def)
  qed
qed

lemma point_codec:
  assumes "codec_law E"
  shows "codec (put_point E) (take_point E) (\<lambda>_. True)"
proof unfold_locales
  show "take_point E (put_point E x @ r) = Some (x, length (put_point E x))" for x r
  proof (cases "x = 0")
    case True
    then show ?thesis by (simp add: codec_lawD [OF assms] take_point_def put_point_def)
  next
    case False
    note x = codec_lawD(5-7) [OF assms False]
    then obtain c cs where c: "pt_bytes E x = c # cs" "c = 2 \<or> c = 3" by (cases "pt_bytes E x") auto
    then have "c \<noteq> 0" by auto
    then show ?thesis using x c by (auto simp: take_point_def put_point_def get_to_def)
  qed
  show "True \<and> n \<le> length b \<and> take n b = put_point E x" if "take_point E b = Some (x, n)" for b x n
  proof -
    from that obtain c cs where b: "b = c # cs" by (auto simp: take_point_def split: list.splits)
    show ?thesis
    proof (cases "c = 0")
      case True
      then show ?thesis using that b by (auto simp: take_point_def put_point_def codec_lawD [OF assms])
    next
      case False
      then have "c = 2 \<or> c = 3" "33 \<le> length b" "pt_of_bytes E (take 33 b) = Some x" "n = 33"
        using that unfolding b take_point_def by (auto simp: decode_simps split: if_splits)
      moreover from this have "length (take 33 b) = 33" "hd (take 33 b) = c" using b by auto
      ultimately show ?thesis using codec_lawD(8) [OF assms, of "take 33 b" x] by (simp add: put_point_def)
    qed
  qed
qed

lemma points_encode:
  assumes "codec_law E"
  shows "take_points E (length ps) (pre @ concat (map (put_point E) ps) @ r) (length pre) acc
    = Some (acc @ ps, length pre + length (concat (map (put_point E) ps)))"
proof (induction ps arbitrary: pre acc)
  case (Cons p ps)
  have "take_points E (length ps) ((pre @ put_point E p) @ concat (map (put_point E) ps) @ r)
      (length (pre @ put_point E p)) (acc @ [p])
    = Some ((acc @ [p]) @ ps, length (pre @ put_point E p) + length (concat (map (put_point E) ps)))"
    by (rule Cons.IH)
  then show ?case by (simp add: get_from_def codec.dec_enc [OF point_codec [OF assms]] add.assoc)
qed simp

lemma points_decode:
  assumes "codec_law E" "take_points E n b used acc = Some (qs, used')" "used \<le> length b"
  shows "\<exists>ps. qs = acc @ ps \<and> length ps = n \<and> used' \<le> length b
    \<and> take used' b = take used b @ concat (map (put_point E) ps)"
  using assms(2,3)
proof (induction n arbitrary: used acc)
  case (Suc n)
  from Suc.prems(1) obtain p u where
    p: "take_point E (drop used b) = Some (p, u)" and rest: "take_points E n b (used + u) (acc @ [p]) = Some (qs, used')"
    unfolding take_points.simps decode_simps split_paired_Ex prod.case by blast
  from codec.dec_Some [OF point_codec [OF assms(1)] p] have
    u: "used + u \<le> length b" "take u (drop used b) = put_point E p"
    using Suc.prems(2) by auto
  from Suc.IH [OF rest u(1)] obtain ps where "qs = (acc @ [p]) @ ps" "length ps = n" "used' \<le> length b"
    "take used' b = take (used + u) b @ concat (map (put_point E) ps)" by blast
  then show ?case using u(2) by (intro exI [of _ "p # ps"]) (simp add: take_add)
qed auto

definition valid_commitment :: "'g feldman \<Rightarrow> bool" where
  "valid_commitment com \<longleftrightarrow> length (points com) < 2 ^ 64"

lemma put_point_nonempty: "codec_law E \<Longrightarrow> put_point E p \<noteq> []"
  using codec_lawD(3) [of E] codec_lawD(5) [of E p] by (cases "p = 0") (auto simp: put_point_def)

lemma length_points_bytes: "codec_law E \<Longrightarrow> length ps \<le> length (concat (map (put_point E) ps))"
proof (induction ps)
  case (Cons p ps)
  then show ?case using put_point_nonempty [of E p] by (cases "put_point E p") auto
qed simp

lemma commitment_codec:
  assumes "codec_law E"
  shows "codec (encode_commitment E) (decode_commitment E) valid_commitment"
proof unfold_locales
  show "decode_commitment E (encode_commitment E x @ r) = Some (x, length (encode_commitment E x))"
    if "valid_commitment x" for x r
  proof -
    have "take_points E (length (points x)) (put_u64 (length (points x)) @ concat (map (put_point E) (points x)) @ r) 8 []
        = Some (points x, 8 + length (concat (map (put_point E) (points x))))"
      using points_encode [OF assms, of "points x" "put_u64 (length (points x))" r "[]"] by simp
    then show ?thesis
      using that length_points_bytes [OF assms, of "points x"]
      by (simp add: decode_commitment_def encode_commitment_def u64.dec_enc valid_commitment_def)
  qed
  show "valid_commitment x \<and> n \<le> length b \<and> take n b = encode_commitment E x" if "decode_commitment E b = Some (x, n)" for b x n
  proof -
    from that obtain k u ps where k: "take_u64 b = Some (k, u)" and ps: "take_points E k b u [] = Some (ps, n)"
      and x: "x = \<lparr>points = ps\<rparr>"
      unfolding decode_commitment_def
      by (auto simp: bind_Some split_paired_Ex split: if_splits)
    note k' = u64.dec_Some [OF k]
    from points_decode [OF assms ps] k' have "length ps = k" "n \<le> length b"
      "take n b = take u b @ concat (map (put_point E) ps)" by auto
    then show ?thesis using x k' by (simp add: encode_commitment_def valid_commitment_def)
  qed
qed

section \<open>Messages\<close>

text \<open>Two fields one after the other.\<close>

lemma pair_encode:
  assumes "codec enc1 dec1 v1" "v1 x"
  shows "dec1 (enc1 x @ r) = Some (x, length (enc1 x))" "get_from (enc1 x @ r) (length (enc1 x)) = Some r"
  using codec.dec_enc [OF assms] by (simp_all add: get_from_def)

lemma pair_decode:
  assumes "codec enc2 dec2 v2" "u \<le> length b" "take u b = e" "dec2 (drop u b) = Some (y, w)"
  shows "v2 y \<and> u + w \<le> length b \<and> take (u + w) b = e @ enc2 y"
  using codec.dec_Some [OF assms(1,4)] assms(2,3) by (auto simp: take_add)

definition valid_bcast1 :: "dkg_bcast1 \<Rightarrow> bool" where
  "valid_bcast1 b \<longleftrightarrow> b1_from b < 2 ^ 64 \<and> length (b1_hash b) = 32"

interpretation bcast1: codec encode_bcast1 decode_bcast1 valid_bcast1
proof unfold_locales
  show "decode_bcast1 (encode_bcast1 x @ r) = Some (x, length (encode_bcast1 x))" if "valid_bcast1 x" for x r
    using that by (simp add: decode_bcast1_def encode_bcast1_def valid_bcast1_def u64.dec_enc byte_string.dec_enc get_from_def)
  show "valid_bcast1 x \<and> n \<le> length b \<and> take n b = encode_bcast1 x" if "decode_bcast1 b = Some (x, n)" for b x n
  proof -
    from that obtain k u h w where k: "take_u64 b = Some (k, u)" and h: "take_bytes (drop u b) = Some (h, w)"
      and x: "x = \<lparr>b1_from = k, b1_hash = h\<rparr>" "n = u + w" "length h = 32"
      unfolding decode_bcast1_def by (auto simp: decode_simps split_paired_Ex split: if_splits)
    from u64.dec_Some [OF k] have "k < 2 ^ 64" "u \<le> length b" "take u b = put_u64 k" by auto
    with pair_decode [OF byte_string.codec_axioms this(2,3) h] x show ?thesis
      by (simp add: encode_bcast1_def valid_bcast1_def)
  qed
qed

definition valid_bcast2 :: "'g dkg_bcast2 \<Rightarrow> bool" where
  "valid_bcast2 b \<longleftrightarrow> b2_from b < 2 ^ 64 \<and> valid_commitment (b2_com b)"

lemma bcast2_codec:
  assumes "codec_law E"
  shows "codec (encode_bcast2 E) (decode_bcast2 E) valid_bcast2"
proof unfold_locales
  show "decode_bcast2 E (encode_bcast2 E x @ r) = Some (x, length (encode_bcast2 E x))" if "valid_bcast2 x" for x r
    using that by (simp add: decode_bcast2_def encode_bcast2_def valid_bcast2_def u64.dec_enc
        codec.dec_enc [OF commitment_codec [OF assms]] get_from_def)
  show "valid_bcast2 x \<and> n \<le> length b \<and> take n b = encode_bcast2 E x" if "decode_bcast2 E b = Some (x, n)" for b x n
  proof -
    from that obtain k u h w where k: "take_u64 b = Some (k, u)" and h: "decode_commitment E (drop u b) = Some (h, w)"
      and x: "x = \<lparr>b2_from = k, b2_com = h\<rparr>" "n = u + w"
      unfolding decode_bcast2_def by (auto simp: decode_simps split_paired_Ex)
    from u64.dec_Some [OF k] have "k < 2 ^ 64" "u \<le> length b" "take u b = put_u64 k" by auto
    with pair_decode [OF commitment_codec [OF assms] this(2,3) h] x show ?thesis
      by (simp add: encode_bcast2_def valid_bcast2_def)
  qed
qed

definition valid_p2p :: "'f dkg_p2p \<Rightarrow> bool" where
  "valid_p2p m \<longleftrightarrow> pp_from m < 2 ^ 64 \<and> pp_to m < 2 ^ 64"

lemma p2p_codec:
  assumes "codec_law E"
  shows "codec (encode_p2p E) (decode_p2p E) valid_p2p"
proof unfold_locales
  show "decode_p2p E (encode_p2p E x @ r) = Some (x, length (encode_p2p E x))" if "valid_p2p x" for x r
    using that by (simp add: decode_p2p_def encode_p2p_def valid_p2p_def u64.dec_enc
        codec.dec_enc [OF scalar_codec [OF assms]] get_from_def)
  show "valid_p2p x \<and> n \<le> length b \<and> take n b = encode_p2p E x" if "decode_p2p E b = Some (x, n)" for b x n
  proof -
    from that obtain k u j w s z where k: "take_u64 b = Some (k, u)" and j: "take_u64 (drop u b) = Some (j, w)"
      and s: "take_scalar E (drop (u + w) b) = Some (s, z)"
      and x: "x = \<lparr>pp_from = k, pp_to = j, pp_share = s\<rparr>" "n = u + w + z"
      unfolding decode_p2p_def by (auto simp: decode_simps split_paired_Ex)
    from u64.dec_Some [OF k] have k': "k < 2 ^ 64" "u \<le> length b" "take u b = put_u64 k" by auto
    from pair_decode [OF u64.codec_axioms k'(2,3) j] have j': "j < 2 ^ 64" "u + w \<le> length b" "take (u + w) b = put_u64 k @ put_u64 j"
      by auto
    from pair_decode [OF scalar_codec [OF assms] j'(2,3) s] k'(1) j'(1) x show ?thesis
      by (simp add: encode_p2p_def valid_p2p_def)
  qed
qed

definition valid_message :: "('f, 'g) dkg_message \<Rightarrow> bool" where
  "valid_message m = (case m of Commit b \<Rightarrow> valid_bcast1 b | Reveal b \<Rightarrow> valid_bcast2 b | Share s \<Rightarrow> valid_p2p s)"

lemma message_codec:
  fixes E :: "('f, 'g::zero, 'r) k256"
  assumes "codec_law E"
  shows "codec (encode_message E) (decode_message E) valid_message"
proof unfold_locales
  note parts = bcast1.dec_enc codec.dec_enc [OF bcast2_codec [OF assms]] codec.dec_enc [OF p2p_codec [OF assms]]
  show "decode_message E (encode_message E x @ r) = Some (x, length (encode_message E x))" if "valid_message x" for x r
    using that by (cases x) (simp_all add: decode_message_def encode_message_def valid_message_def put_u8_def take_u8_def
        get_from_def parts)
  show "valid_message x \<and> n \<le> length b \<and> take n b = encode_message E x" if "decode_message E b = Some (x, n)" for b x n
  proof -
    from that obtain t u where t: "take_u8 b = Some (t, u)" and
      m: "(\<exists>m w. t = 1 \<and> decode_bcast1 (drop u b) = Some (m, w) \<and> x = Commit m \<and> n = u + w)
        \<or> (\<exists>m w. t = 2 \<and> decode_bcast2 E (drop u b) = Some (m, w) \<and> x = Reveal m \<and> n = u + w)
        \<or> (\<exists>m w. t = 3 \<and> decode_p2p E (drop u b) = Some (m, w) \<and> x = Share m \<and> n = u + w)"
      unfolding decode_message_def by (auto simp: decode_simps split_paired_Ex split: if_splits)
    from u8.dec_Some [OF t] have u: "u \<le> length b" "take u b = put_u8 t" by auto
    from m show ?thesis
      using pair_decode [OF bcast1.codec_axioms u] pair_decode [OF bcast2_codec [OF assms] u]
        pair_decode [OF p2p_codec [OF assms] u]
      by (elim disjE exE conjE) (simp_all add: encode_message_def valid_message_def)
  qed
qed

section \<open>Envelopes\<close>

lemma phase_decode_iff: "phase_decode code = Some p \<longleftrightarrow> code = phase_code p"
  by (cases p) (auto simp: phase_decode_def)

interpretation to_field: codec encode_to decode_to "\<lambda>to. case to of None \<Rightarrow> True | Some t \<Rightarrow> t < 2 ^ 64"
proof unfold_locales
  show "decode_to (encode_to x @ r) = Some (x, length (encode_to x))"
    if "case x of None \<Rightarrow> True | Some t \<Rightarrow> t < 2 ^ 64" for x r
    using that by (auto simp: decode_to_def encode_to_def put_u8_def take_u8_def get_from_def u64.dec_enc
        split: option.splits)
  show "(case x of None \<Rightarrow> True | Some t \<Rightarrow> t < 2 ^ 64) \<and> n \<le> length b \<and> take n b = encode_to x"
    if "decode_to b = Some (x, n)" for b x n
  proof -
    from that obtain t u where t: "take_u8 b = Some (t, u)" and
      m: "t = 0 \<and> x = None \<and> n = u \<or> (\<exists>j w. t = 1 \<and> take_u64 (drop u b) = Some (j, w) \<and> x = Some j \<and> n = u + w)"
      unfolding decode_to_def by (auto simp: decode_simps split_paired_Ex split: if_splits)
    from u8.dec_Some [OF t] have u: "u \<le> length b" "take u b = put_u8 t" by auto
    from m show ?thesis using u pair_decode [OF u64.codec_axioms u] by (elim disjE exE conjE) (auto simp: encode_to_def)
  qed
qed

definition valid_envelope :: "('m \<Rightarrow> bytes) \<Rightarrow> ('m \<Rightarrow> bool) \<Rightarrow> 'm envelope \<Rightarrow> bool" where
  "valid_envelope enc v e \<longleftrightarrow> length (e_sid e) + 8 < 2 ^ 64 \<and> e_from e < 2 ^ 64
     \<and> (case e_to e of None \<Rightarrow> True | Some t \<Rightarrow> t < 2 ^ 64)
     \<and> v (e_payload e) \<and> length (enc (e_payload e)) + 8 < 2 ^ 64"

lemma length_put_u8: "length (put_u8 c) = 1"
  by (simp add: put_u8_def)

lemma envelope_encode:
  assumes "codec enc dec v" "valid_envelope enc v x"
  shows "decode_envelope dec (encode_envelope enc x @ r) = Some (x, length (encode_envelope enc x))"
proof -
  have ph: "phase_decode (phase_code p) = Some p" for p by (simp add: phase_decode_iff)
  have v: "length (e_sid x) + 8 < 2 ^ 64" "e_from x < 2 ^ 64" "case e_to x of None \<Rightarrow> True | Some t \<Rightarrow> t < 2 ^ 64"
    "v (e_payload x)" "length (enc (e_payload x)) + 8 < 2 ^ 64"
    using assms(2) by (simp_all add: valid_envelope_def)
  show ?thesis
    unfolding decode_envelope_def encode_envelope_def append_assoc
    by (simp add: byte_string.dec_enc [OF v(1)] byte_string.dec_enc [OF v(5)] u64.dec_enc [OF v(2)]
        to_field.dec_enc [OF v(3)] u8.dec_enc get_from_def ph codec.dec_enc_exact [OF assms(1) v(4)] length_put_u8)
qed

lemma envelope_decode:
  assumes "codec enc dec v" "decode_envelope dec b = Some (x, n)"
  shows "valid_envelope enc v x \<and> n \<le> length b \<and> take n b = encode_envelope enc x"
proof -
  from assms(2) obtain sid u1 code u2 ph rn u3 frm u4 to u5 pay u6 y where
    d: "take_bytes b = Some (sid, u1)" "take_u8 (drop u1 b) = Some (code, u2)" "phase_decode code = Some ph"
      "take_u8 (drop (u1 + u2) b) = Some (rn, u3)" "take_u64 (drop (u1 + u2 + u3) b) = Some (frm, u4)"
      "decode_to (drop (u1 + u2 + u3 + u4) b) = Some (to, u5)"
      "take_bytes (drop (u1 + u2 + u3 + u4 + u5) b) = Some (pay, u6)" "dec pay = Some (y, length pay)"
    and x: "x = \<lparr>e_sid = sid, e_phase = ph, e_round = rn, e_from = frm, e_to = to, e_payload = y\<rparr>"
      "n = u1 + u2 + u3 + u4 + u5 + u6"
    unfolding decode_envelope_def
    by (auto simp: decode_simps split_paired_Ex Let_def split: if_splits)
  from byte_string.dec_Some [OF d(1)] have p1: "length sid + 8 < 2 ^ 64" "u1 \<le> length b" "take u1 b = put_bytes sid" by auto
  from pair_decode [OF u8.codec_axioms p1(2,3) d(2)] have p2: "u1 + u2 \<le> length b"
    "take (u1 + u2) b = put_bytes sid @ put_u8 code" by auto
  from pair_decode [OF u8.codec_axioms p2 d(4)] have p3: "u1 + u2 + u3 \<le> length b"
    "take (u1 + u2 + u3) b = (put_bytes sid @ put_u8 code) @ put_u8 rn" by auto
  from pair_decode [OF u64.codec_axioms p3 d(5)] have p4: "frm < 2 ^ 64" "u1 + u2 + u3 + u4 \<le> length b"
    "take (u1 + u2 + u3 + u4) b = ((put_bytes sid @ put_u8 code) @ put_u8 rn) @ put_u64 frm" by auto
  from pair_decode [OF to_field.codec_axioms p4(2,3) d(6)] have p5: "case to of None \<Rightarrow> True | Some t \<Rightarrow> t < 2 ^ 64"
    "u1 + u2 + u3 + u4 + u5 \<le> length b"
    "take (u1 + u2 + u3 + u4 + u5) b = (((put_bytes sid @ put_u8 code) @ put_u8 rn) @ put_u64 frm) @ encode_to to"
    by blast+
  from pair_decode [OF byte_string.codec_axioms p5(2,3) d(7)] have p6: "length pay + 8 < 2 ^ 64"
    "u1 + u2 + u3 + u4 + u5 + u6 \<le> length b" "take (u1 + u2 + u3 + u4 + u5 + u6) b
      = ((((put_bytes sid @ put_u8 code) @ put_u8 rn) @ put_u64 frm) @ encode_to to) @ put_bytes pay" by auto
  from codec.dec_Some [OF assms(1) d(8)] have y: "v y" "pay = enc y" by simp_all
  show ?thesis
    using p1(1) p4(1) p5(1) p6 d(3) y unfolding x phase_decode_iff
    by (simp add: valid_envelope_def encode_envelope_def)
qed

lemma envelope_codec:
  "codec enc dec v \<Longrightarrow> codec (encode_envelope enc) (decode_envelope dec) (valid_envelope enc v)"
  by (rule codec.intro) (use envelope_encode envelope_decode in blast)+

definition signature_law :: "('s \<Rightarrow> bytes) \<Rightarrow> (bytes \<Rightarrow> 's option) \<Rightarrow> bool" where
  \<comment> \<open>the fixed 64-byte encoding of signatures\<close>
  "signature_law sig of_slice \<longleftrightarrow> (\<forall>s. length (sig s) = 64 \<and> of_slice (sig s) = Some s)
     \<and> (\<forall>b s. length b = 64 \<longrightarrow> of_slice b = Some s \<longrightarrow> sig s = b)"

lemma signature_codec:
  assumes "signature_law sig of_slice"
  shows "codec sig (decode_signature of_slice) (\<lambda>_. True)"
proof unfold_locales
  show "decode_signature of_slice (sig x @ r) = Some (x, length (sig x))" for x r
    using assms by (simp add: decode_signature_def signature_law_def get_to_def)
  show "True \<and> n \<le> length b \<and> take n b = sig x" if "decode_signature of_slice b = Some (x, n)" for b x n
  proof -
    from that have "64 \<le> length b" "of_slice (take 64 b) = Some x" "n = 64"
      unfolding decode_signature_def decode_simps by auto
    moreover from this have "sig x = take 64 b"
      using assms unfolding signature_law_def by (metis length_take min.absorb2)
    ultimately show ?thesis by simp
  qed
qed

lemma signed_codec:
  assumes "codec enc dec v" "signature_law sig of_slice"
  shows "codec (encode_signed enc sig) (decode_signed dec of_slice) (\<lambda>e. valid_envelope enc v (se_envelope e))"
proof unfold_locales
  note E = envelope_codec [OF assms(1)] and S = signature_codec [OF assms(2)]
  show "decode_signed dec of_slice (encode_signed enc sig x @ r) = Some (x, length (encode_signed enc sig x))"
    if "valid_envelope enc v (se_envelope x)" for x r
    using that by (simp add: decode_signed_def encode_signed_def codec.dec_enc [OF E] codec.dec_enc [OF S] get_from_def)
  show "valid_envelope enc v (se_envelope x) \<and> n \<le> length b \<and> take n b = encode_signed enc sig x"
    if "decode_signed dec of_slice b = Some (x, n)" for b x n
  proof -
    from that obtain e u s w where e: "decode_envelope dec b = Some (e, u)" and s: "decode_signature of_slice (drop u b) = Some (s, w)"
      and x: "x = \<lparr>se_envelope = e, se_signature = s\<rparr>" "n = u + w"
      unfolding decode_signed_def by (auto simp: decode_simps split_paired_Ex)
    from codec.dec_Some [OF E e] have "valid_envelope enc v e" "u \<le> length b" "take u b = encode_envelope enc e" by auto
    with pair_decode [OF S this(2,3) s] x show ?thesis by (simp add: encode_signed_def)
  qed
qed

text \<open>What a signature covers determines the envelope.\<close>

lemma signing_bytes_inj:
  assumes "codec enc dec v" "valid_envelope enc v x" "valid_envelope enc v y" "signing_bytes enc x = signing_bytes enc y"
  shows "x = y"
  using codec.enc_inj [OF envelope_codec [OF assms(1)] assms(2,3)] assms(4) by (simp add: signing_bytes_def)

end
