(* ===== verification/Transport.thy ===== *)
theory Transport
  imports Codec
begin

text \<open>
  The transport seam (\<open>src/runtime/transport.rs\<close>): \<open>SimTransport\<close>, the drivers \<open>drive_dkg\<close> and
  \<open>drive_dkg_signed\<close>, the signing front end and the blame tokens. A transport is a record of its four
  operations; the locale \<open>transport\<close> is the contract of the trait (each caller gets the same set, made of
  what the senders handed over), and the driver is proved in it to run exactly the dealing rounds.
  ECDSA signing is a parameter, the record \<open>sig_scheme\<close>.
\<close>

section \<open>The trait and the reference implementation\<close>

record ('t, 'm) transport_ops =
  op_broadcast :: "'m envelope \<Rightarrow> 't \<Rightarrow> 't"
  op_send_p2p :: "'m envelope \<Rightarrow> 't \<Rightarrow> 't"
  op_accepted_broadcasts :: "bytes \<Rightarrow> phase \<Rightarrow> byte \<Rightarrow> 't \<Rightarrow> 'm envelope btree"
  op_accepted_p2p :: "bytes \<Rightarrow> phase \<Rightarrow> byte \<Rightarrow> party_id \<Rightarrow> 't \<Rightarrow> 'm envelope btree"

record 'm sim_transport =
  sim_bcast :: "'m envelope list"
  sim_p2p :: "'m envelope list"

definition sim_new :: "'m sim_transport" where
  "sim_new = \<lparr>sim_bcast = [], sim_p2p = []\<rparr>"

definition sim_broadcast :: "'m envelope \<Rightarrow> 'm sim_transport \<Rightarrow> 'm sim_transport" where
  "sim_broadcast e t = t\<lparr>sim_bcast := sim_bcast t @ [e]\<rparr>"

definition sim_send_p2p :: "'m envelope \<Rightarrow> 'm sim_transport \<Rightarrow> 'm sim_transport" where
  "sim_send_p2p e t = t\<lparr>sim_p2p := sim_p2p t @ [e]\<rparr>"

definition sim_accepted_broadcasts :: "bytes \<Rightarrow> phase \<Rightarrow> byte \<Rightarrow> 'm sim_transport \<Rightarrow> 'm envelope btree" where
  "sim_accepted_broadcasts sid phase round t = bt_of_list (map (\<lambda>e. (e_from e, e))
     (filter (\<lambda>e. e_sid e = sid \<and> e_phase e = phase \<and> e_round e = round) (sim_bcast t)))"

definition sim_accepted_p2p :: "bytes \<Rightarrow> phase \<Rightarrow> byte \<Rightarrow> party_id \<Rightarrow> 'm sim_transport \<Rightarrow> 'm envelope btree" where
  "sim_accepted_p2p sid phase round to t = bt_of_list (map (\<lambda>e. (e_from e, e))
     (filter (\<lambda>e. e_sid e = sid \<and> e_phase e = phase \<and> e_round e = round \<and> e_to e = Some to) (sim_p2p t)))"

definition sim_ops :: "('m sim_transport, 'm) transport_ops" where
  "sim_ops = \<lparr>op_broadcast = sim_broadcast, op_send_p2p = sim_send_p2p,
     op_accepted_broadcasts = sim_accepted_broadcasts, op_accepted_p2p = sim_accepted_p2p\<rparr>"

section \<open>The transport-driven DKG\<close>

definition commits_of :: "('f, 'g) dkg_message envelope btree \<Rightarrow> ('e, dkg_bcast1 btree) res" where
  \<comment> \<open>any other payload is \<open>unreachable!\<close>\<close>
  "commits_of envs = bindR (mapR (\<lambda>(f, e). case e_payload e of Commit b \<Rightarrow> Ok (f, b) | _ \<Rightarrow> Panic) envs)
     (\<lambda>xs. Ok (bt_of_list xs))"

definition reveals_of :: "('f, 'g) dkg_message envelope btree \<Rightarrow> ('e, 'g dkg_bcast2 btree) res" where
  "reveals_of envs = bindR (mapR (\<lambda>(f, e). case e_payload e of Reveal b \<Rightarrow> Ok (f, b) | _ \<Rightarrow> Panic) envs)
     (\<lambda>xs. Ok (bt_of_list xs))"

definition corrupt_message :: "('f::field, 'g) dkg_message \<Rightarrow> ('f, 'g) dkg_message" where
  "corrupt_message m = (case m of Share s \<Rightarrow> Share (s\<lparr>pp_share := pp_share s + 1\<rparr>) | _ \<Rightarrow> m)"

definition corrupt_accepted :: "dkg_tamper option \<Rightarrow> party_id \<Rightarrow> ('v \<Rightarrow> 'v) \<Rightarrow> 'v btree \<Rightarrow> 'v btree" where
  \<comment> \<open>the in-transit fault on the set the party \<open>me\<close> accepted; \<open>f\<close> corrupts one envelope\<close>
  "corrupt_accepted tamper me f envs = (case tamper of None \<Rightarrow> envs | Some tm \<Rightarrow>
     (case dt_corrupt_share tm of None \<Rightarrow> envs | Some (d, v) \<Rightarrow>
        if v = me then map (\<lambda>(k, x). (k, if k = d then f x else x)) envs else envs))"

definition shares_in :: "('v \<Rightarrow> ('f, 'g) dkg_message) \<Rightarrow> 'v btree \<Rightarrow> ('e, 'f btree) res" where
  "shares_in payload envs =
     bindR (mapR (\<lambda>(f, e). case payload e of Share s \<Rightarrow> Ok (f, pp_share s) | _ \<Rightarrow> Panic) envs) (\<lambda>xs. Ok (bt_of_list xs))"

type_synonym ('r, 't, 'e, 'a) driver = "('r list \<times> 't, 'e, 'a) sm"

definition on_rngs :: "('r list, 'e, 'a) sm \<Rightarrow> ('r, 't, 'e, 'a) driver" where
  "on_rngs m = (\<lambda>(rngs, tr). case m rngs of (x, rngs') \<Rightarrow> (x, (rngs', tr)))"

definition on_transport :: "('t \<Rightarrow> 't) \<Rightarrow> ('r, 't, 'e, unit) driver" where
  "on_transport f = (\<lambda>(rngs, tr). (Ok (), (rngs, f tr)))"

definition drive_commit :: "('f::field, 'g::ab_group_add, 'r) k256 \<Rightarrow> ('t, ('f, 'g) dkg_message) transport_ops
    \<Rightarrow> params \<Rightarrow> bytes \<Rightarrow> bytes \<Rightarrow> phase \<Rightarrow> dkg_tamper option \<Rightarrow> nat \<times> party_id
    \<Rightarrow> ('r, 't, error, ('f, 'g) dkg_instance) driver" where
  "drive_commit E ops p sid tag phase tamper ki = (case ki of (k, i) \<Rightarrow>
     bindS (on_rngs (dkg_start E p sid tag i k)) (\<lambda>(inst, b1).
     bindS (on_transport (op_broadcast ops (envelope_broadcast sid phase DKG_ROUND_COMMIT i (Commit b1)))) (\<lambda>_.
       retS (fault_inst tamper inst))))"

definition drive_reveal :: "('f::field, 'g::ab_group_add, 'r) k256 \<Rightarrow> ('t, ('f, 'g) dkg_message) transport_ops
    \<Rightarrow> bytes \<Rightarrow> phase \<Rightarrow> ('f, 'g) dkg_instance \<Rightarrow> ('r, 't, error, unit) driver" where
  "drive_reveal E ops sid phase inst =
     bindS (liftR (dkg_reveal E inst)) (\<lambda>(b2, shares).
     on_transport (\<lambda>tr. foldl (\<lambda>tr s. op_send_p2p ops
         (envelope_p2p sid phase DKG_ROUND_REVEAL (pp_from s) (pp_to s) (Share s)) tr)
       (op_broadcast ops (envelope_broadcast sid phase DKG_ROUND_REVEAL (di_me inst) (Reveal b2)) tr) shares))"

definition drive_finalize :: "('f::field, 'g::ab_group_add, 'r) k256 \<Rightarrow> ('t, ('f, 'g) dkg_message) transport_ops
    \<Rightarrow> bytes \<Rightarrow> phase \<Rightarrow> dkg_tamper option \<Rightarrow> ('f, 'g) dkg_instance list \<Rightarrow> dkg_bcast1 btree \<Rightarrow> 'g dkg_bcast2 btree
    \<Rightarrow> 't \<Rightarrow> ('f, 'g) dkg_instance \<Rightarrow> ('f, 'g) dkg_output result" where
  "drive_finalize E ops sid phase tamper insts r1 r2 tr inst =
     (let me = di_me inst;
          share_envs = corrupt_accepted tamper me (\<lambda>e. e\<lparr>e_payload := corrupt_message (e_payload e)\<rparr>)
            (op_accepted_p2p ops sid phase DKG_ROUND_REVEAL me tr)
      in bindR (shares_in e_payload share_envs) (\<lambda>mine.
           dkg_finalize E inst phase r1 r2 mine (defenses_of insts me)))"

definition drive_dkg :: "('f::field, 'g::ab_group_add, 'r) k256 \<Rightarrow> ('t, ('f, 'g) dkg_message) transport_ops
    \<Rightarrow> params \<Rightarrow> bytes \<Rightarrow> bytes \<Rightarrow> phase \<Rightarrow> dkg_tamper option \<Rightarrow> ('r, 't, error, ('f, 'g) dkg_output list) driver" where
  "drive_dkg E ops p sid tag phase tamper =
     bindS (mapS (drive_commit E ops p sid tag phase tamper) (List.enumerate 0 (parties p))) (\<lambda>insts.
     bindS (mapS (drive_reveal E ops sid phase) insts) (\<lambda>_.
     (\<lambda>(rngs, tr). liftR (
       bindR (commits_of (op_accepted_broadcasts ops sid phase DKG_ROUND_COMMIT tr)) (\<lambda>r1.
       bindR (reveals_of (op_accepted_broadcasts ops sid phase DKG_ROUND_REVEAL tr)) (\<lambda>r2.
         mapR (drive_finalize E ops sid phase tamper insts r1 r2 tr) insts))) (rngs, tr))))"

section \<open>Signed envelopes\<close>

record ('sk, 'vk, 's) sig_scheme =
  sig_sign :: "'sk \<Rightarrow> bytes \<Rightarrow> 's"
  sig_verify :: "'vk \<Rightarrow> bytes \<Rightarrow> 's \<Rightarrow> bool"
  sig_public :: "'sk \<Rightarrow> 'vk"

definition sign_correct :: "('sk, 'vk, 's) sig_scheme \<Rightarrow> bool" where
  \<comment> \<open>the documented law of ECDSA signing\<close>
  "sign_correct G \<longleftrightarrow> (\<forall>sk msg. sig_verify G (sig_public G sk) msg (sig_sign G sk msg))"

definition signed_sign :: "('sk, 'vk, 's) sig_scheme \<Rightarrow> ('m \<Rightarrow> bytes) \<Rightarrow> 'm envelope \<Rightarrow> 'sk \<Rightarrow> ('m, 's) signed_envelope" where
  "signed_sign G enc e sk = \<lparr>se_envelope = e, se_signature = sig_sign G sk (signing_bytes enc e)\<rparr>"

definition verify_signature :: "('sk, 'vk, 's) sig_scheme \<Rightarrow> ('m \<Rightarrow> bytes) \<Rightarrow> ('m, 's) signed_envelope \<Rightarrow> 'vk \<Rightarrow> bool" where
  "verify_signature G enc se vk = sig_verify G vk (signing_bytes enc (se_envelope se)) (se_signature se)"

record ('t, 'sk, 'vk) signing_transport =
  sx_inner :: 't
  sx_signing_keys :: "'sk btree"
  sx_verifying_keys :: "'vk btree"

definition signing_new :: "('sk, 'vk, 's) sig_scheme \<Rightarrow> 't \<Rightarrow> (party_id \<times> 'sk) list \<Rightarrow> ('t, 'sk, 'vk) signing_transport" where
  "signing_new G inner signers = \<lparr>sx_inner = inner, sx_signing_keys = bt_of_list signers,
     sx_verifying_keys = bt_of_list (map (\<lambda>(i, sk). (i, sig_public G sk)) signers)\<rparr>"

definition verifying_keys :: "('t, 'sk, 'vk) signing_transport \<Rightarrow> (party_id \<times> 'vk) list" where
  "verifying_keys st = sx_verifying_keys st"

definition sign_env :: "('sk, 'vk, 's) sig_scheme \<Rightarrow> ('m \<Rightarrow> bytes) \<Rightarrow> ('t, 'sk, 'vk) signing_transport \<Rightarrow> 'm envelope
    \<Rightarrow> ('e, ('m, 's) signed_envelope) res" where
  "sign_env G enc st e = bindR (of_opt (bt_get (sx_signing_keys st) (e_from e))) (\<lambda>sk. Ok (signed_sign G enc e sk))"

definition signing_broadcast :: "('sk, 'vk, 's) sig_scheme \<Rightarrow> ('m \<Rightarrow> bytes) \<Rightarrow> ('t, ('m, 's) signed_envelope) transport_ops
    \<Rightarrow> 'm envelope \<Rightarrow> (('t, 'sk, 'vk) signing_transport, 'e, unit) sm" where
  "signing_broadcast G enc ops e = (\<lambda>st. case sign_env G enc st e of
     Ok sgd \<Rightarrow> (let x = se_envelope sgd in (Ok (), st\<lparr>sx_inner := op_broadcast ops
         (envelope_broadcast (e_sid x) (e_phase x) (e_round x) (e_from x) sgd) (sx_inner st)\<rparr>))
   | Err er \<Rightarrow> (Err er, st) | Panic \<Rightarrow> (Panic, st))"

definition signing_send_p2p :: "('sk, 'vk, 's) sig_scheme \<Rightarrow> ('m \<Rightarrow> bytes) \<Rightarrow> ('t, ('m, 's) signed_envelope) transport_ops
    \<Rightarrow> 'm envelope \<Rightarrow> (('t, 'sk, 'vk) signing_transport, 'e, unit) sm" where
  "signing_send_p2p G enc ops e = (\<lambda>st. case bindR (sign_env G enc st e) (\<lambda>sgd.
       bindR (of_opt (e_to (se_envelope sgd))) (\<lambda>to. Ok (sgd, to))) of
     Ok (sgd, to) \<Rightarrow> (let x = se_envelope sgd in (Ok (), st\<lparr>sx_inner := op_send_p2p ops
         (envelope_p2p (e_sid x) (e_phase x) (e_round x) (e_from x) to sgd) (sx_inner st)\<rparr>))
   | Err er \<Rightarrow> (Err er, st) | Panic \<Rightarrow> (Panic, st))"

definition verify_one :: "('sk, 'vk, 's) sig_scheme \<Rightarrow> ('m \<Rightarrow> bytes) \<Rightarrow> 'vk btree \<Rightarrow> phase
    \<Rightarrow> party_id \<times> ('m, 's) signed_envelope envelope \<Rightarrow> ('m, 's) signed_envelope btree
    \<Rightarrow> ('m, 's) signed_envelope btree result" where
  "verify_one G enc vks phase co out = (case co of (claimed, outer) \<Rightarrow>
     let sgd = e_payload outer; from = e_from (se_envelope sgd);
         valid = (case bt_get vks from of None \<Rightarrow> False | Some key \<Rightarrow> verify_signature G enc sgd key)
     in if \<not> valid then abort phase [from] ''invalid transport signature (forged or tampered envelope)''
        else Ok (bt_insert claimed sgd out))"

definition verify_all :: "('sk, 'vk, 's) sig_scheme \<Rightarrow> ('m \<Rightarrow> bytes) \<Rightarrow> ('t, 'sk, 'vk) signing_transport \<Rightarrow> phase
    \<Rightarrow> ('m, 's) signed_envelope envelope btree \<Rightarrow> ('m, 's) signed_envelope btree result" where
  "verify_all G enc st phase raw = foldR (verify_one G enc (sx_verifying_keys st) phase) raw []"

definition signing_accepted_broadcasts :: "('sk, 'vk, 's) sig_scheme \<Rightarrow> ('m \<Rightarrow> bytes)
    \<Rightarrow> ('t, ('m, 's) signed_envelope) transport_ops \<Rightarrow> bytes \<Rightarrow> phase \<Rightarrow> byte \<Rightarrow> ('t, 'sk, 'vk) signing_transport
    \<Rightarrow> ('m, 's) signed_envelope btree result" where
  "signing_accepted_broadcasts G enc ops sid phase round st =
     verify_all G enc st phase (op_accepted_broadcasts ops sid phase round (sx_inner st))"

definition signing_accepted_p2p :: "('sk, 'vk, 's) sig_scheme \<Rightarrow> ('m \<Rightarrow> bytes)
    \<Rightarrow> ('t, ('m, 's) signed_envelope) transport_ops \<Rightarrow> bytes \<Rightarrow> phase \<Rightarrow> byte \<Rightarrow> party_id
    \<Rightarrow> ('t, 'sk, 'vk) signing_transport \<Rightarrow> ('m, 's) signed_envelope btree result" where
  "signing_accepted_p2p G enc ops sid phase round to st =
     verify_all G enc st phase (op_accepted_p2p ops sid phase round to (sx_inner st))"

section \<open>Blame tokens\<close>

record ('f, 'g, 's) blame_token =
  tk_abort :: ident_abort
  tk_envelope :: "(('f, 'g) dkg_message, 's) signed_envelope"
  tk_com :: "'g feldman"

definition token_verify :: "('f::field, 'g::ab_group_add, 'r) k256 \<Rightarrow> ('sk, 'vk, 's) sig_scheme
    \<Rightarrow> ('f, 'g, 's) blame_token \<Rightarrow> (party_id \<times> 'vk) list \<Rightarrow> bool" where
  "token_verify E G tk party_keys =
     (let x = se_envelope (tk_envelope tk) in
      if ab_blamed (tk_abort tk) \<noteq> [e_from x] \<or> ab_phase (tk_abort tk) \<noteq> e_phase x then False
      else (case e_payload x of Share share \<Rightarrow>
          if pp_from share \<noteq> e_from x then False
          else (case List.find (\<lambda>(p, _). p = pp_from share) party_keys of None \<Rightarrow> False
            | Some (_, key) \<Rightarrow>
                if \<not> verify_signature G (encode_message E) (tk_envelope tk) key then False
                else \<not> verify_share E (tk_com tk) (pp_to share) (pp_share share))
        | _ \<Rightarrow> False))"

record ('f, 'g, 's) signed_drive_error =
  sd_error :: error
  sd_token :: "('f, 'g, 's) blame_token option"

definition dealer_blame_token :: "('f::field, 'g::ab_group_add, 'r) k256 \<Rightarrow> error
    \<Rightarrow> (('f, 'g) dkg_message, 's) signed_envelope btree \<Rightarrow> 'g dkg_bcast2 btree \<Rightarrow> ('f, 'g, 's) blame_token option" where
  "dealer_blame_token E er share_envs r2 = (case er of
     Abort a \<Rightarrow> (case ab_blamed a of
       [dealer] \<Rightarrow> (case bt_get share_envs dealer of None \<Rightarrow> None | Some envelope \<Rightarrow>
         (case bt_get r2 dealer of None \<Rightarrow> None | Some b2 \<Rightarrow>
           (case e_payload (se_envelope envelope) of
             Share share \<Rightarrow> if pp_from share \<noteq> dealer \<or> verify_share E (b2_com b2) (pp_to share) (pp_share share)
               then None else Some \<lparr>tk_abort = a, tk_envelope = envelope, tk_com = b2_com b2\<rparr>
           | _ \<Rightarrow> None)))
     | _ \<Rightarrow> None)
   | _ \<Rightarrow> None)"

section \<open>The driver over a signing transport\<close>

definition on_rngs' :: "('r list, error, 'a) sm \<Rightarrow> ('r, 't, ('f, 'g, 's) signed_drive_error, 'a) driver" where
  \<comment> \<open>the started instances cannot fail, only panic\<close>
  "on_rngs' m = (\<lambda>(rngs, tr). case m rngs of (Ok a, rngs') \<Rightarrow> (Ok a, (rngs', tr))
     | (Err e, rngs') \<Rightarrow> (Err \<lparr>sd_error = e, sd_token = None\<rparr>, (rngs', tr)) | (Panic, rngs') \<Rightarrow> (Panic, (rngs', tr)))"

definition on_signing :: "('t, 'e, 'a) sm \<Rightarrow> ('r, 't, 'e, 'a) driver" where
  "on_signing m = (\<lambda>(rngs, tr). case m tr of (x, tr') \<Rightarrow> (x, (rngs, tr')))"

fun map_error :: "('e \<Rightarrow> 'd) \<Rightarrow> ('e, 'a) res \<Rightarrow> ('d, 'a) res" where
  "map_error f (Ok a) = Ok a"
| "map_error f (Err e) = Err (f e)"
| "map_error f Panic = Panic"

definition signed_error :: "error \<Rightarrow> ('f, 'g, 's) signed_drive_error" where
  "signed_error e = \<lparr>sd_error = e, sd_token = None\<rparr>"

definition signed_commit :: "('f::field, 'g::ab_group_add, 'r) k256 \<Rightarrow> ('sk, 'vk, 's) sig_scheme
    \<Rightarrow> ('t, (('f, 'g) dkg_message, 's) signed_envelope) transport_ops \<Rightarrow> params \<Rightarrow> bytes \<Rightarrow> bytes \<Rightarrow> phase
    \<Rightarrow> dkg_tamper option \<Rightarrow> nat \<times> party_id
    \<Rightarrow> ('r, ('t, 'sk, 'vk) signing_transport, ('f, 'g, 's) signed_drive_error, ('f, 'g) dkg_instance) driver" where
  "signed_commit E G ops p sid tag phase tamper ki = (case ki of (k, i) \<Rightarrow>
     bindS (on_rngs' (dkg_start E p sid tag i k)) (\<lambda>(inst, b1).
     bindS (on_signing (signing_broadcast G (encode_message E) ops
         (envelope_broadcast sid phase DKG_ROUND_COMMIT i (Commit b1)))) (\<lambda>_.
       retS (fault_inst tamper inst))))"

definition signed_reveal :: "('f::field, 'g::ab_group_add, 'r) k256 \<Rightarrow> ('sk, 'vk, 's) sig_scheme
    \<Rightarrow> ('t, (('f, 'g) dkg_message, 's) signed_envelope) transport_ops \<Rightarrow> bytes \<Rightarrow> phase \<Rightarrow> ('f, 'g) dkg_instance
    \<Rightarrow> ('r, ('t, 'sk, 'vk) signing_transport, ('f, 'g, 's) signed_drive_error, unit) driver" where
  "signed_reveal E G ops sid phase inst =
     bindS (liftR (map_error signed_error (dkg_reveal E inst))) (\<lambda>(b2, shares).
     bindS (on_signing (signing_broadcast G (encode_message E) ops
         (envelope_broadcast sid phase DKG_ROUND_REVEAL (di_me inst) (Reveal b2)))) (\<lambda>_.
     bindS (mapS (\<lambda>s. on_signing (signing_send_p2p G (encode_message E) ops
         (envelope_p2p sid phase DKG_ROUND_REVEAL (pp_from s) (pp_to s) (Share s)))) shares) (\<lambda>_. retS ())))"

definition unsigned :: "('m, 's) signed_envelope btree \<Rightarrow> 'm envelope btree" where
  "unsigned envs = bt_of_list (map (\<lambda>(f, e). (f, se_envelope e)) envs)"

definition corrupt_signed :: "(('f::field, 'g) dkg_message, 's) signed_envelope \<Rightarrow> (('f, 'g) dkg_message, 's) signed_envelope" where
  "corrupt_signed e = e\<lparr>se_envelope := (se_envelope e)\<lparr>e_payload := corrupt_message (e_payload (se_envelope e))\<rparr>\<rparr>"

definition signed_finalize :: "('f::field, 'g::ab_group_add, 'r) k256 \<Rightarrow> ('sk, 'vk, 's) sig_scheme
    \<Rightarrow> ('t, (('f, 'g) dkg_message, 's) signed_envelope) transport_ops \<Rightarrow> bytes \<Rightarrow> phase \<Rightarrow> dkg_tamper option
    \<Rightarrow> ('f, 'g) dkg_instance list \<Rightarrow> dkg_bcast1 btree \<Rightarrow> 'g dkg_bcast2 btree \<Rightarrow> ('t, 'sk, 'vk) signing_transport
    \<Rightarrow> ('f, 'g) dkg_instance \<Rightarrow> (('f, 'g, 's) signed_drive_error, ('f, 'g) dkg_output) res" where
  "signed_finalize E G ops sid phase tamper insts r1 r2 st inst =
     (let me = di_me inst in
      bindR (map_error signed_error (signing_accepted_p2p G (encode_message E) ops sid phase DKG_ROUND_REVEAL me st)) (\<lambda>acc.
      let share_envs = corrupt_accepted tamper me corrupt_signed acc in
      bindR (shares_in (\<lambda>e. e_payload (se_envelope e)) share_envs) (\<lambda>mine.
        map_error (\<lambda>e. \<lparr>sd_error = e, sd_token = dealer_blame_token E e share_envs r2\<rparr>)
          (dkg_finalize E inst phase r1 r2 mine (defenses_of insts me)))))"

definition drive_dkg_signed :: "('f::field, 'g::ab_group_add, 'r) k256 \<Rightarrow> ('sk, 'vk, 's) sig_scheme
    \<Rightarrow> ('t, (('f, 'g) dkg_message, 's) signed_envelope) transport_ops \<Rightarrow> params \<Rightarrow> bytes \<Rightarrow> bytes \<Rightarrow> phase
    \<Rightarrow> dkg_tamper option
    \<Rightarrow> ('r, ('t, 'sk, 'vk) signing_transport, ('f, 'g, 's) signed_drive_error, ('f, 'g) dkg_output list) driver" where
  "drive_dkg_signed E G ops p sid tag phase tamper =
     bindS (mapS (signed_commit E G ops p sid tag phase tamper) (List.enumerate 0 (parties p))) (\<lambda>insts.
     bindS (mapS (signed_reveal E G ops sid phase) insts) (\<lambda>_.
     (\<lambda>(rngs, st). liftR (
       bindR (map_error signed_error (signing_accepted_broadcasts G (encode_message E) ops sid phase DKG_ROUND_COMMIT st)) (\<lambda>c1.
       bindR (commits_of (unsigned c1)) (\<lambda>r1.
       bindR (map_error signed_error (signing_accepted_broadcasts G (encode_message E) ops sid phase DKG_ROUND_REVEAL st)) (\<lambda>c2.
       bindR (reveals_of (unsigned c2)) (\<lambda>r2.
         mapR (signed_finalize E G ops sid phase tamper insts r1 r2 st) insts))))) (rngs, st))))"

section \<open>The contract of a transport\<close>

locale transport =
  fixes ops :: "('t, 'm) transport_ops"
    and bsent :: "'t \<Rightarrow> 'm envelope list"
    and psent :: "'t \<Rightarrow> 'm envelope list"
  assumes broadcast_sent: "bsent (op_broadcast ops e t) = bsent t @ [e]" "psent (op_broadcast ops e t) = psent t"
    and p2p_sent: "bsent (op_send_p2p ops e t) = bsent t" "psent (op_send_p2p ops e t) = psent t @ [e]"
    and accepted_broadcasts: "op_accepted_broadcasts ops sid ph r t = bt_of_list (map (\<lambda>e. (e_from e, e))
        (filter (\<lambda>e. e_sid e = sid \<and> e_phase e = ph \<and> e_round e = r) (bsent t)))"
    and accepted_p2p: "op_accepted_p2p ops sid ph r to t = bt_of_list (map (\<lambda>e. (e_from e, e))
        (filter (\<lambda>e. e_sid e = sid \<and> e_phase e = ph \<and> e_round e = r \<and> e_to e = Some to) (psent t)))"
begin

text \<open>Nothing is accepted under a sender's name that was not handed over in that name.\<close>

lemma accepted_was_sent:
  assumes "bt_get (op_accepted_broadcasts ops sid ph r t) j = Some e"
  shows "e \<in> set (bsent t) \<and> e_from e = j \<and> e_sid e = sid \<and> e_phase e = ph \<and> e_round e = r"
proof -
  have "map_of (rev (map (\<lambda>e. (e_from e, e)) (filter (\<lambda>e. e_sid e = sid \<and> e_phase e = ph \<and> e_round e = r) (bsent t)))) j = Some e"
    using assms unfolding accepted_broadcasts bt_get_collected .
  from map_of_SomeD [OF this] show ?thesis by auto
qed

definition fresh :: "bytes \<Rightarrow> phase \<Rightarrow> 't \<Rightarrow> bool" where
  "fresh sid ph t \<longleftrightarrow> (\<forall>e \<in> set (bsent t) \<union> set (psent t). e_sid e \<noteq> sid \<or> e_phase e \<noteq> ph)"

lemma sends:
  "bsent (foldl (\<lambda>t s. op_send_p2p ops (f s) t) t ss) = bsent t"
  "psent (foldl (\<lambda>t s. op_send_p2p ops (f s) t) t ss) = psent t @ map f ss"
  by (induction ss arbitrary: t) (simp_all add: p2p_sent)

end

lemma corrupt_accepted_map:
  "corrupt_accepted tamper me f envs
    = map (\<lambda>(k, x). (k, if corrupt_of tamper = Some (k, me) then f x else x)) envs"
  by (auto simp: corrupt_accepted_def corrupt_of_def split: option.splits)

lemma corrupt_p2p_map:
  "corrupt_p2p tamper p2p
    = map (\<lambda>m. if corrupt_of tamper = Some (pp_from m, pp_to m) then m\<lparr>pp_share := pp_share m + 1\<rparr> else m) p2p"
  by (auto simp: corrupt_p2p_def corrupt_of_def split: option.splits)

lemma commits_of_collect:
  assumes "\<And>i b. e_payload (mk i b) = Commit b"
  shows "commits_of (bt_of_list (map (\<lambda>(i, b). (i, mk i b)) xs)) = (Ok (bt_of_list xs) :: ('e, _) res)"
proof -
  have "mapR (\<lambda>(f, e). case e_payload e of Commit b \<Rightarrow> Ok (f, b) | _ \<Rightarrow> Panic)
      (map (\<lambda>(i, b). (i, mk i b)) (bt_of_list xs)) = (Ok (map (\<lambda>x. x) (bt_of_list xs)) :: ('e, _) res)"
    unfolding mapR_map by (rule mapR_Ok) (auto simp: assms)
  then show ?thesis
    unfolding commits_of_def bt_of_list_map by (simp only: list.map_ident bindR.simps bt_of_list_idem)
qed

lemma reveals_of_collect:
  assumes "\<And>i b. e_payload (mk i b) = Reveal b"
  shows "reveals_of (bt_of_list (map (\<lambda>(i, b). (i, mk i b)) xs)) = (Ok (bt_of_list xs) :: ('e, _) res)"
proof -
  have "mapR (\<lambda>(f, e). case e_payload e of Reveal b \<Rightarrow> Ok (f, b) | _ \<Rightarrow> Panic)
      (map (\<lambda>(i, b). (i, mk i b)) (bt_of_list xs)) = (Ok (map (\<lambda>x. x) (bt_of_list xs)) :: ('e, _) res)"
    unfolding mapR_map by (rule mapR_Ok) (auto simp: assms)
  then show ?thesis
    unfolding reveals_of_def bt_of_list_map by (simp only: list.map_ident bindR.simps bt_of_list_idem)
qed

text \<open>The shares a party reads off its accepted set, with the in-transit fault applied there.\<close>

lemma shares_in_collect:
  fixes pay :: "'v \<Rightarrow> ('f::field, 'g) dkg_message"
  assumes "\<And>s. pay (mk s) = Share s" "\<And>x. pay (f x) = corrupt_message (pay x)"
  shows "shares_in pay (corrupt_accepted tamper me f
      (bt_of_list (map (\<lambda>s. (pp_from s, mk s)) (filter (\<lambda>s. pp_to s = me) p2p))))
    = Ok (mine_of (corrupt_p2p tamper p2p) me)"
proof -
  let ?c = "\<lambda>k x. if corrupt_of tamper = Some (k, me) then f x else x"
  let ?g = "\<lambda>k s. pp_share s + (if corrupt_of tamper = Some (k, me) then 1 else 0)"
  let ?xs = "map (\<lambda>s. (pp_from s, s)) (filter (\<lambda>s. pp_to s = me) p2p)"
  have keyed: "map (\<lambda>s. (pp_from s, mk s)) ss = map (\<lambda>(k, s). (k, mk s)) (map (\<lambda>s. (pp_from s, s)) ss)" for ss
    by simp
  have envs: "corrupt_accepted tamper me f (bt_of_list (map (\<lambda>s. (pp_from s, mk s)) (filter (\<lambda>s. pp_to s = me) p2p)))
      = map (\<lambda>(k, s). (k, ?c k (mk s))) (bt_of_list ?xs)"
    unfolding keyed bt_of_list_map corrupt_accepted_map by (simp add: o_def case_prod_unfold)
  have read: "mapR (\<lambda>(k, e). case pay e of Share s \<Rightarrow> Ok (k, pp_share s) | _ \<Rightarrow> Panic)
      (map (\<lambda>(k, s). (k, ?c k (mk s))) (bt_of_list ?xs)) = Ok (map (\<lambda>(k, s). (k, ?g k s)) (bt_of_list ?xs))"
    unfolding mapR_map by (rule mapR_Ok) (auto simp: assms corrupt_message_def)
  have "mine_of (corrupt_p2p tamper p2p) me = bt_of_list (map (\<lambda>(k, s). (k, ?g k s)) ?xs)"
    unfolding mine_of_def corrupt_p2p_map filter_map
    by (intro arg_cong [where f = bt_of_list]) (auto simp: o_def if_distrib cong: filter_cong if_cong intro!: map_cong)
  then have mine: "mine_of (corrupt_p2p tamper p2p) me = map (\<lambda>(k, s). (k, ?g k s)) (bt_of_list ?xs)"
    unfolding bt_of_list_map .
  show ?thesis
    unfolding shares_in_def envs read bindR.simps mine bt_of_list_map bt_of_list_idem ..
qed

section \<open>The driver runs the dealing rounds\<close>

lemma on_rngs_apply: "m rngs = (x, rngs') \<Longrightarrow> on_rngs m (rngs, tr) = (x, (rngs', tr))"
  by (simp add: on_rngs_def)

lemma on_transport_apply [simp]: "on_transport f (rngs, tr) = (Ok (), (rngs, f tr))"
  by (simp add: on_transport_def)

locale dkg_transport = transport ops bsent psent
  for ops :: "('t, ('f::field, 'g::ab_group_add) dkg_message) transport_ops" and bsent and psent
begin

lemma commit_phase:
  fixes E :: "('f, 'g, 'r) k256"
  assumes "mapS (\<lambda>(k, i). dkg_start E p sid tag i k) kis rngs = (Ok started, rngs')"
  shows "\<exists>tr'. mapS (drive_commit E ops p sid tag ph tamper) kis (rngs, tr)
      = (Ok (map (fault_inst tamper \<circ> fst) started), (rngs', tr'))
    \<and> bsent tr' = bsent tr @ map (\<lambda>(i, b1). envelope_broadcast sid ph DKG_ROUND_COMMIT i (Commit b1))
        (zip (map snd kis) (map snd started)) \<and> psent tr' = psent tr"
  using assms
proof (induction kis arbitrary: rngs started tr)
  case Nil
  then show ?case by auto
next
  case (Cons ki kis)
  obtain k i where ki: "ki = (k, i)" by (cases ki)
  from Cons.prems obtain inst b1 r1 rest where
    first: "dkg_start E p sid tag i k rngs = (Ok (inst, b1), r1)"
    and rest: "mapS (\<lambda>(k, i). dkg_start E p sid tag i k) kis r1 = (Ok rest, rngs')" "started = (inst, b1) # rest"
    by (auto simp: ki bindS_Ok_iff)
  let ?tr = "op_broadcast ops (envelope_broadcast sid ph DKG_ROUND_COMMIT i (Commit b1)) tr"
  have step: "drive_commit E ops p sid tag ph tamper ki (rngs, tr) = (Ok (fault_inst tamper inst), (r1, ?tr))"
    using first by (simp add: drive_commit_def ki on_rngs_def bindS_def)
  from Cons.IH [OF rest(1), of ?tr] obtain tr' where
    "mapS (drive_commit E ops p sid tag ph tamper) kis (r1, ?tr) = (Ok (map (fault_inst tamper \<circ> fst) rest), (rngs', tr'))"
    "bsent tr' = bsent ?tr @ map (\<lambda>(i, b1). envelope_broadcast sid ph DKG_ROUND_COMMIT i (Commit b1))
        (zip (map snd kis) (map snd rest))" "psent tr' = psent ?tr" by blast
  then show ?case
    using step rest(2) ki by (intro exI [of _ tr']) (simp add: broadcast_sent)
qed

lemma reveal_phase:
  fixes E :: "('f, 'g, 'r) k256"
  assumes "mapR (dkg_reveal E) insts = Ok revs"
  shows "\<exists>tr' us. mapS (drive_reveal E ops sid ph) insts (rngs, tr) = (Ok us, (rngs, tr'))
    \<and> bsent tr' = bsent tr @ map (\<lambda>(i, b2). envelope_broadcast sid ph DKG_ROUND_REVEAL i (Reveal b2))
        (zip (map di_me insts) (map fst revs))
    \<and> psent tr' = psent tr @ map (\<lambda>s. envelope_p2p sid ph DKG_ROUND_REVEAL (pp_from s) (pp_to s) (Share s))
        (concat (map snd revs))"
  using assms
proof (induction insts arbitrary: revs tr)
  case Nil
  then show ?case by auto
next
  case (Cons inst insts)
  from Cons.prems obtain b2 ss rest where
    first: "dkg_reveal E inst = Ok (b2, ss)" and rest: "mapR (dkg_reveal E) insts = Ok rest" "revs = (b2, ss) # rest"
    by (auto simp: bindR_Ok_iff)
  let ?tr = "foldl (\<lambda>tr s. op_send_p2p ops (envelope_p2p sid ph DKG_ROUND_REVEAL (pp_from s) (pp_to s) (Share s)) tr)
      (op_broadcast ops (envelope_broadcast sid ph DKG_ROUND_REVEAL (di_me inst) (Reveal b2)) tr) ss"
  have step: "drive_reveal E ops sid ph inst (rngs, tr) = (Ok (), (rngs, ?tr))"
    by (simp add: drive_reveal_def first)
  from Cons.IH [OF rest(1), of ?tr] obtain tr' us where
    "mapS (drive_reveal E ops sid ph) insts (rngs, ?tr) = (Ok us, (rngs, tr'))"
    "bsent tr' = bsent ?tr @ map (\<lambda>(i, b2). envelope_broadcast sid ph DKG_ROUND_REVEAL i (Reveal b2))
        (zip (map di_me insts) (map fst rest))"
    "psent tr' = psent ?tr @ map (\<lambda>s. envelope_p2p sid ph DKG_ROUND_REVEAL (pp_from s) (pp_to s) (Share s))
        (concat (map snd rest))" by blast
  then show ?case
    using step rest(2)
    by (intro exI [of _ tr'] exI [of _ "() # us"]) (simp add: bindS_Ok [where m = "drive_reveal E ops sid ph inst", OF step] sends broadcast_sent)
qed

text \<open>On a transport with nothing yet for this session, the driver computes what the dealing rounds compute.\<close>

lemma drive_runs_rounds:
  fixes E :: "('f, 'g, 'r) k256"
  assumes fresh: "fresh sid ph tr" and ids: "c_ids c = parties p"
    and start: "mapS (\<lambda>(k, i). dkg_start E p sid tag i k) (List.enumerate 0 (parties p)) rngs = (Ok started, rngs')"
    and revs: "mapR (dkg_reveal E) (map (fault_inst tamper \<circ> fst) started) = Ok revs"
  shows "\<exists>tr'. drive_dkg E ops p sid tag ph tamper (rngs, tr)
    = (bindR (dealing_rounds E ph c tamper started) (\<lambda>(outs, _). Ok outs), (rngs', tr'))"
proof -
  let ?insts = "map (fault_inst tamper \<circ> fst) started" and ?p2p = "concat (map snd revs)"
  obtain tr1 where commits: "mapS (drive_commit E ops p sid tag ph tamper) (List.enumerate 0 (parties p)) (rngs, tr)
      = (Ok ?insts, (rngs', tr1))"
    "bsent tr1 = bsent tr @ map (\<lambda>(i, b1). envelope_broadcast sid ph DKG_ROUND_COMMIT i (Commit b1))
        (zip (parties p) (map snd started))" "psent tr1 = psent tr"
    using commit_phase [OF start, of ph tamper tr] by auto
  obtain tr2 us where reveals: "mapS (drive_reveal E ops sid ph) ?insts (rngs', tr1) = (Ok us, (rngs', tr2))"
    "bsent tr2 = bsent tr1 @ map (\<lambda>(i, b2). envelope_broadcast sid ph DKG_ROUND_REVEAL i (Reveal b2))
        (zip (map di_me ?insts) (map fst revs))"
    "psent tr2 = psent tr1 @ map (\<lambda>s. envelope_p2p sid ph DKG_ROUND_REVEAL (pp_from s) (pp_to s) (Share s)) ?p2p"
    using reveal_phase [OF revs, of sid ph rngs' tr1] by blast
  have old: "filter (\<lambda>e. e_sid e = sid \<and> e_phase e = ph \<and> Q e) (bsent tr) = []"
    "filter (\<lambda>e. e_sid e = sid \<and> e_phase e = ph \<and> Q e) (psent tr) = []" for Q
    using fresh by (auto simp: fresh_def filter_empty_conv)
  note filters = filter_append filter_map o_def case_prod_unfold envelope_broadcast_def envelope_p2p_def
    DKG_ROUND_COMMIT_def DKG_ROUND_REVEAL_def
  have r1: "op_accepted_broadcasts ops sid ph DKG_ROUND_COMMIT tr2 = bt_of_list (map (\<lambda>(i, b1).
      (i, envelope_broadcast sid ph DKG_ROUND_COMMIT i (Commit b1))) (zip (parties p) (map snd started)))"
    unfolding accepted_broadcasts reveals(2) commits(2) by (simp add: old filters)
  have r2: "op_accepted_broadcasts ops sid ph DKG_ROUND_REVEAL tr2 = bt_of_list (map (\<lambda>(i, b2).
      (i, envelope_broadcast sid ph DKG_ROUND_REVEAL i (Reveal b2))) (zip (map di_me ?insts) (map fst revs)))"
    unfolding accepted_broadcasts reveals(2) commits(2) by (simp add: old filters)
  have sh: "op_accepted_p2p ops sid ph DKG_ROUND_REVEAL me tr2 = bt_of_list (map (\<lambda>s.
      (pp_from s, envelope_p2p sid ph DKG_ROUND_REVEAL (pp_from s) (pp_to s) (Share s)))
      (filter (\<lambda>s. pp_to s = me) ?p2p))" for me
    unfolding accepted_p2p reveals(3) commits(3) by (simp add: old filters)
  let ?m1 = "bt_of_list (zip (parties p) (map snd started))"
    and ?m2 = "bt_of_list (zip (map di_me ?insts) (map fst revs))"
  have m1: "commits_of (op_accepted_broadcasts ops sid ph DKG_ROUND_COMMIT tr2) = (Ok ?m1 :: _ result)"
    unfolding r1 by (rule commits_of_collect) (simp add: envelope_broadcast_def)
  have m2: "reveals_of (op_accepted_broadcasts ops sid ph DKG_ROUND_REVEAL tr2) = (Ok ?m2 :: _ result)"
    unfolding r2 by (rule reveals_of_collect) (simp add: envelope_broadcast_def)
  have fin: "drive_finalize E ops sid ph tamper ?insts ?m1 ?m2 tr2 = (\<lambda>inst. dkg_finalize E inst ph ?m1 ?m2
      (mine_of (corrupt_p2p tamper ?p2p) (di_me inst)) (defenses_of ?insts (di_me inst)))"
  proof
    fix inst :: "('f, 'g) dkg_instance"
    have "shares_in e_payload (corrupt_accepted tamper (di_me inst)
        (\<lambda>e. e\<lparr>e_payload := corrupt_message (e_payload e)\<rparr>)
        (op_accepted_p2p ops sid ph DKG_ROUND_REVEAL (di_me inst) tr2))
      = (Ok (mine_of (corrupt_p2p tamper ?p2p) (di_me inst)) :: _ result)"
      unfolding sh by (rule shares_in_collect) (simp_all add: envelope_p2p_def)
    then show "drive_finalize E ops sid ph tamper ?insts ?m1 ?m2 tr2 inst = dkg_finalize E inst ph ?m1 ?m2
        (mine_of (corrupt_p2p tamper ?p2p) (di_me inst)) (defenses_of ?insts (di_me inst))"
      by (simp add: drive_finalize_def Let_def)
  qed
  have "drive_dkg E ops p sid tag ph tamper (rngs, tr)
    = (bindR (dealing_rounds E ph c tamper started) (\<lambda>(outs, _). Ok outs), (rngs', tr2))"
    unfolding drive_dkg_def bindS_Ok [where m = "mapS _ _", OF commits(1)] bindS_Ok [where m = "mapS _ _", OF reveals(1)]
    unfolding m1 m2 bindR.simps fin dealing_rounds_def Let_def ids revs liftR_apply prod.case bindR_assoc
    by (simp add: bindR_right_id)
  then show ?thesis ..
qed

end

interpretation sim: dkg_transport sim_ops sim_bcast sim_p2p
  by unfold_locales
    (simp_all add: sim_ops_def sim_broadcast_def sim_send_p2p_def sim_accepted_broadcasts_def sim_accepted_p2p_def)

section \<open>Verifying signed envelopes\<close>

definition signature_ok :: "('sk, 'vk, 's) sig_scheme \<Rightarrow> ('m \<Rightarrow> bytes) \<Rightarrow> 'vk btree \<Rightarrow> ('m, 's) signed_envelope \<Rightarrow> bool" where
  \<comment> \<open>the envelope verifies under the registered key of the sender named INSIDE it\<close>
  "signature_ok G enc vks sgd \<longleftrightarrow>
     (\<exists>key. bt_get vks (e_from (se_envelope sgd)) = Some key \<and> verify_signature G enc sgd key)"

lemma verify_one_simp:
  "verify_one G enc vks ph (claimed, outer) out =
     (if signature_ok G enc vks (e_payload outer) then Ok (bt_insert claimed (e_payload outer) out)
      else abort ph [e_from (se_envelope (e_payload outer))] ''invalid transport signature (forged or tampered envelope)'')"
  by (auto simp: verify_one_def Let_def signature_ok_def split: option.splits)

lemma verify_all_valid:
  assumes "\<And>c outer. (c, outer) \<in> set raw \<Longrightarrow> signature_ok G enc (sx_verifying_keys st) (e_payload outer)"
  shows "verify_all G enc st ph raw = Ok (bt_of_list (map (\<lambda>(c, outer). (c, e_payload outer)) raw))"
proof -
  have step: "verify_one G enc (sx_verifying_keys st) ph x out = Ok (bt_insert (fst x) (e_payload (snd x)) out)"
    if "x \<in> set raw" for x out
    using assms that by (cases x) (simp add: verify_one_simp)
  have "foldl (\<lambda>m (k, v). bt_insert k v m) out (map (\<lambda>(c, outer). (c, e_payload outer)) xs)
      = foldl (\<lambda>out x. bt_insert (fst x) (e_payload (snd x)) out) out xs"
    for xs :: "(nat \<times> ('a, 'b) signed_envelope envelope) list" and out
    by (induction xs arbitrary: out) auto
  moreover have "foldR (verify_one G enc (sx_verifying_keys st) ph) raw []
      = Ok (foldl (\<lambda>out x. bt_insert (fst x) (e_payload (snd x)) out) [] raw)"
    by (rule foldR_Ok) (rule step)
  ultimately show ?thesis by (simp add: verify_all_def bt_of_list_def)
qed

lemma verify_all_cases:
  "(verify_all G enc st ph raw = Ok (bt_of_list (map (\<lambda>(c, outer). (c, e_payload outer)) raw))
      \<and> (\<forall>(c, outer) \<in> set raw. signature_ok G enc (sx_verifying_keys st) (e_payload outer)))
    \<or> (\<exists>(c, outer) \<in> set raw. \<not> signature_ok G enc (sx_verifying_keys st) (e_payload outer)
      \<and> verify_all G enc st ph raw = abort ph [e_from (se_envelope (e_payload outer))]
          ''invalid transport signature (forged or tampered envelope)'')"
proof (cases "\<forall>(c, outer) \<in> set raw. signature_ok G enc (sx_verifying_keys st) (e_payload outer)")
  case True
  then have "verify_all G enc st ph raw = Ok (bt_of_list (map (\<lambda>(c, outer). (c, e_payload outer)) raw))"
    by (intro verify_all_valid) auto
  with True show ?thesis by blast
next
  case False
  then obtain ys x zs where split: "raw = ys @ x # zs"
    and bad: "\<not> (case x of (c, outer) \<Rightarrow> signature_ok G enc (sx_verifying_keys st) (e_payload outer))"
    and good: "\<forall>y \<in> set ys. (case y of (c, outer) \<Rightarrow> signature_ok G enc (sx_verifying_keys st) (e_payload outer))"
    using split_list_first_prop [of raw "\<lambda>x. \<not> (case x of (c, outer) \<Rightarrow> signature_ok G enc (sx_verifying_keys st) (e_payload outer))"]
    by auto
  obtain c outer where x: "x = (c, outer)" by (cases x)
  have "verify_all G enc st ph raw = abort ph [e_from (se_envelope (e_payload outer))]
      ''invalid transport signature (forged or tampered envelope)''"
    unfolding verify_all_def split abort_def
    by (rule foldR_stop) (use good bad in \<open>auto simp: x verify_one_simp abort_def split: prod.splits\<close>)
  with bad split x show ?thesis by auto
qed

lemma keys_verify:
  assumes "sign_correct G" "bt_get (sx_signing_keys st) (e_from e) = Some sk"
    "bt_get (sx_verifying_keys st) (e_from e) = Some (sig_public G sk)"
  shows "signature_ok G enc (sx_verifying_keys st) (signed_sign G enc e sk)"
  using assms by (auto simp: signature_ok_def verify_signature_def signed_sign_def sign_correct_def)

lemma signing_new_keys:
  assumes "(i, sk) \<in> set signers" "distinct (map fst signers)"
  shows "bt_get (sx_signing_keys (signing_new G inner signers)) i = Some sk"
    and "bt_get (sx_verifying_keys (signing_new G inner signers)) i = Some (sig_public G sk)"
proof -
  show "bt_get (sx_signing_keys (signing_new G inner signers)) i = Some sk"
    using assms by (simp add: signing_new_def bt_get_of_list)
  have "map_of (map (\<lambda>(i, sk). (i, sig_public G sk)) signers) i = map_option (sig_public G) (map_of signers i)"
    by (induction signers) auto
  moreover have "distinct (map fst (map (\<lambda>(i, sk). (i, sig_public G sk)) signers))"
    using assms(2) by (simp add: o_def case_prod_unfold)
  ultimately show "bt_get (sx_verifying_keys (signing_new G inner signers)) i = Some (sig_public G sk)"
    using assms by (simp add: signing_new_def bt_get_of_list)
qed

end
