(* ===== verification/Policy.thy ===== *)
theory Policy
  imports Core
begin

text \<open>
  The restart policy after blame (\<open>src/runtime/policy.rs\<close>): the committee of the next attempt is the
  current one without the blamed parties, unless that would break the honest-majority bound.
\<close>

definition restart_committee :: "party_id list \<Rightarrow> party_id list \<Rightarrow> nat \<Rightarrow> party_id list result" where
  "restart_committee current blamed t =
     (if t < 1 then Err (InvalidParams ''threshold must be >= 1'')
      else let survivors = sort (filter (\<lambda>p. p \<notin> set blamed) current)
        in if length survivors < wsub (wmul 2 t) 1
           then Err (InvalidParams ''expulsion leaves n' < 2t-1: committee re-sharing required (SPEC 13.4, see refresh::reshare)'')
           else Ok survivors)"

lemma restart_committee_Ok:
  assumes "t < 2 ^ 63"
  shows "restart_committee current blamed t = Ok survivors \<longleftrightarrow>
    1 \<le> t \<and> survivors = sort (filter (\<lambda>p. p \<notin> set blamed) current) \<and> 2 * t - 1 \<le> length survivors"
  using threshold_exact [OF _ assms] by (auto simp: restart_committee_def Let_def)

text \<open>The next committee is always one \<open>Committee::new\<close> accepts.\<close>

lemma restart_committee_valid:
  assumes "restart_committee current blamed t = Ok survivors" "t < 2 ^ 63"
    and "distinct current" "\<And>j. j \<in> set current \<Longrightarrow> 1 \<le> j \<and> j < 2 ^ 64"
  shows "committee_new survivors t = Ok \<lparr>c_ids = survivors, c_t = t\<rparr>"
proof -
  have "sort survivors = survivors" "distinct survivors" "set survivors \<subseteq> set current" "1 \<le> t" "2 * t - 1 \<le> length survivors"
    using assms(1,3) by (auto simp: restart_committee_Ok [OF assms(2)] sorted_sort_id)
  moreover have "j < 2 ^ 64" if "j \<in> set survivors" for j using that calculation(3) assms(4) by blast
  moreover have "0 \<notin> set survivors" using calculation(3) assms(4) by fastforce
  ultimately show ?thesis by (simp add: committee_new_Ok_iff [OF assms(2)])
qed

lemma restart_committee_shrinks:
  assumes "restart_committee current blamed t = Ok survivors" "set blamed \<inter> set current \<noteq> {}"
  shows "length survivors < length current"
proof -
  obtain j where "j \<in> set current" "j \<in> set blamed" using assms(2) by blast
  then have "length (filter (\<lambda>p. p \<notin> set blamed) current) < length current"
    by (intro length_filter_less) auto
  then show ?thesis using assms(1) by (auto simp: restart_committee_def Let_def split: if_splits)
qed

end
