(* ===== verification/Sim.thy ===== *)
theory Sim
  imports Transport Policy
begin

text \<open>
  The orchestrator (\<open>src/runtime/sim.rs\<close>): key generation over the transport, the restart loops that
  expel blamed parties, committee maintenance, and online signing in its variants. The three restart
  loops share the combinator \<open>restart_loop\<close>; one iteration of each is a definition of its own. The
  lemmas compose the components: what the honest runs return, when the loops end, and that a delivered
  signature verifies.
\<close>

section \<open>Key generation and presigning\<close>

definition make_rngs :: "(nat \<Rightarrow> 'r) \<Rightarrow> nat \<Rightarrow> nat \<Rightarrow> 'r list" where
  \<comment> \<open>\<open>seed_from\<close> is \<open>StdRng::seed_from_u64\<close>\<close>
  "make_rngs seed_from n seed = map (\<lambda>i. seed_from (wadd (wmul seed 0x9E3779B97F4A7C15) (wadd i 1))) [0..<n]"

definition run_keygen_with_tamper :: "('f::field, 'g::ab_group_add, 'r) k256 \<Rightarrow> params \<Rightarrow> bytes
    \<Rightarrow> dkg_tamper option \<Rightarrow> ('r, ('f, 'g) key_share list) protocol" where
  "run_keygen_with_tamper E p sid tamper = (\<lambda>rngs.
     case drive_dkg E sim_ops p sid DKG_COMMIT KeyGen tamper (rngs, sim_new) of (x, (rngs', tr)) \<Rightarrow> (x, rngs'))"

definition run_keygen :: "('f::field, 'g::ab_group_add, 'r) k256 \<Rightarrow> params \<Rightarrow> bytes
    \<Rightarrow> ('r, ('f, 'g) key_share list) protocol" where
  "run_keygen E p sid = run_keygen_with_tamper E p sid None"

definition run_presign :: "('f::field, 'g::ab_group_add, 'r) k256 \<Rightarrow> params \<Rightarrow> ('f, 'g) key_share list \<Rightarrow> nat
    \<Rightarrow> presign_tamper option \<Rightarrow> ('r, ('f, 'g) presignature list) protocol" where
  "run_presign E p keys rid tamper = presign E p keys rid tamper"

definition run_presign_robust :: "('f::field, 'g::ab_group_add, 'r) k256 \<Rightarrow> params \<Rightarrow> ('f, 'g) key_share list \<Rightarrow> nat
    \<Rightarrow> presign_tamper option \<Rightarrow> ('r, ('f, 'g) presignature list \<times> party_id list) protocol" where
  "run_presign_robust E p keys rid tamper = presign_robust E p keys rid tamper"

definition run_presign_batch :: "('f::field, 'g::ab_group_add, 'r) k256 \<Rightarrow> params \<Rightarrow> ('f, 'g) key_share list \<Rightarrow> nat list
    \<Rightarrow> presign_tamper option \<Rightarrow> ('r, ('f, 'g) presignature list list) protocol" where
  "run_presign_batch E p keys rids tamper = presign_batch E p keys rids tamper"

definition run_presign_packed :: "('f::field, 'g::ab_group_add, 'r) k256 \<Rightarrow> params \<Rightarrow> ('f, 'g) key_share list \<Rightarrow> nat list
    \<Rightarrow> presign_tamper option \<Rightarrow> ('r, ('f, 'g) presignature list list) protocol" where
  "run_presign_packed E p keys rids tamper = presign_packed E p keys rids tamper"

section \<open>Expel and restart\<close>

definition poison_sid :: "bytes \<Rightarrow> nat \<Rightarrow> bytes" where
  "poison_sid sid attempt = (if attempt = 0 then sid else sid @ str_bytes ''/retry-'' @ u64_be attempt)"

definition survivor_positions :: "party_id list \<Rightarrow> party_id list \<Rightarrow> nat list result" where
  "survivor_positions current survivors = mapR (\<lambda>s. of_opt (find_index (\<lambda>p. p = s) current)) survivors"

definition add_blame :: "party_id list \<Rightarrow> party_id list \<Rightarrow> party_id list" where
  "add_blame blamed_all new =
     sort (foldl (\<lambda>acc b. if b \<in> set acc then acc else acc @ [b]) blamed_all new)"

definition pick :: "'a list \<Rightarrow> nat list \<Rightarrow> 'a list result" where
  "pick xs positions = mapR (\<lambda>p. of_opt (nth_opt xs p)) positions"

definition unrenumber :: "party_id list \<Rightarrow> party_id list \<Rightarrow> party_id list result" where
  \<comment> \<open>ids of the attempt, \<open>1..=n'\<close>, to original ids: \<open>current[b - 1]\<close>\<close>
  "unrenumber current blamed = mapR (\<lambda>b. of_opt (nth_opt current (wsub b 1))) blamed"

partial_function (option) restart_loop :: "('s \<Rightarrow> 'o + 's) \<Rightarrow> 's \<Rightarrow> 'o option" where
  \<comment> \<open>\<open>loop { \<dots> }\<close>: \<open>Inl\<close> is the \<open>return\<close>, \<open>Inr\<close> the state of the next iteration\<close>
  "restart_loop attempt st = (case attempt st of Inl out \<Rightarrow> Some out | Inr st' \<Rightarrow> restart_loop attempt st')"

fun leave_on :: "('e, 'a) res \<Rightarrow> ('a \<Rightarrow> ('e, 'b) res + 's) \<Rightarrow> ('e, 'b) res + 's" where
  \<comment> \<open>\<open>?\<close> inside the loop\<close>
  "leave_on (Ok a) f = f a"
| "leave_on (Err e) f = Inl (Err e)"
| "leave_on Panic f = Inl Panic"

type_synonym 'r attempt_state = "party_id list \<times> 'r list \<times> party_id list \<times> nat"

definition expel_and_continue :: "params \<Rightarrow> ident_abort \<Rightarrow> party_id list \<Rightarrow> 'r attempt_state
    \<Rightarrow> 'a result + 'r attempt_state" where
  \<comment> \<open>the abort branch of the renumbering loops; \<open>blamed\<close> is in original ids\<close>
  "expel_and_continue p a blamed st = (case st of (current, rngs, blamed_all, attempt) \<Rightarrow>
     case restart_committee current blamed (p_t p) of
       Ok survivors \<Rightarrow> leave_on (survivor_positions current survivors) (\<lambda>positions.
         leave_on (pick rngs positions) (\<lambda>rngs'. Inr (survivors, rngs', add_blame blamed_all blamed, wadd attempt 1)))
     | Err _ \<Rightarrow> Inl (Err (Abort a))
     | Panic \<Rightarrow> Inl Panic)"

definition keygen_attempt :: "('f::field, 'g::ab_group_add, 'r) k256 \<Rightarrow> params \<Rightarrow> bytes \<Rightarrow> dkg_tamper option
    \<Rightarrow> 'r attempt_state \<Rightarrow> (('f, 'g) key_share list \<times> party_id list) result + 'r attempt_state" where
  "keygen_attempt E p sid tamper st = (case st of (current, rngs, blamed_all, attempt) \<Rightarrow>
     leave_on (params_new (length current) (p_t p)) (\<lambda>ap.
     case run_keygen_with_tamper E ap (poison_sid sid attempt) (if attempt = 0 then tamper else None) rngs of
       (Ok keys, _) \<Rightarrow> Inl (Ok (keys, blamed_all))
     | (Err (Abort a), rngs') \<Rightarrow> leave_on (unrenumber current (ab_blamed a)) (\<lambda>blamed.
         expel_and_continue p a blamed (current, rngs', blamed_all, attempt))
     | (Err e, _) \<Rightarrow> Inl (Err e)
     | (Panic, _) \<Rightarrow> Inl Panic))"

definition run_keygen_with_restart :: "('f::field, 'g::ab_group_add, 'r) k256 \<Rightarrow> params \<Rightarrow> bytes \<Rightarrow> 'r list
    \<Rightarrow> dkg_tamper option \<Rightarrow> (('f, 'g) key_share list \<times> party_id list) result option" where
  \<comment> \<open>the caller's generators are cloned, so there is no state to return\<close>
  "run_keygen_with_restart E p sid rngs tamper =
     restart_loop (keygen_attempt E p sid tamper) (parties p, rngs, [], 0)"

definition triples_attempt :: "('f::field, 'g::ab_group_add, 'r) k256 \<Rightarrow> params \<Rightarrow> bytes \<Rightarrow> triple_tamper option
    \<Rightarrow> 'r attempt_state \<Rightarrow> (('f, 'g) triple list \<times> party_id list) result + 'r attempt_state" where
  "triples_attempt E p sid tamper st = (case st of (current, rngs, blamed_all, attempt) \<Rightarrow>
     leave_on (params_new (length current) (p_t p)) (\<lambda>ap.
     case bindS (liftR (committee_full ap)) (\<lambda>c. generate_robust_with_committee E c (poison_sid sid attempt)
         (if attempt = 0 then tamper else None)) rngs of
       (Ok (triple, in_attempt), _) \<Rightarrow> leave_on (unrenumber current in_attempt) (\<lambda>orig.
         Inl (Ok (triple, add_blame blamed_all orig)))
     | (Err (Abort a), rngs') \<Rightarrow> leave_on (unrenumber current (ab_blamed a)) (\<lambda>blamed.
         expel_and_continue p a blamed (current, rngs', blamed_all, attempt))
     | (Err e, _) \<Rightarrow> Inl (Err e)
     | (Panic, _) \<Rightarrow> Inl Panic))"

definition run_triples_with_restart :: "('f::field, 'g::ab_group_add, 'r) k256 \<Rightarrow> params \<Rightarrow> bytes \<Rightarrow> 'r list
    \<Rightarrow> triple_tamper option \<Rightarrow> (('f, 'g) triple list \<times> party_id list) result option" where
  "run_triples_with_restart E p sid rngs tamper =
     restart_loop (triples_attempt E p sid tamper) (parties p, rngs, [], 0)"

type_synonym ('f, 'g, 'r) presign_state =
  "party_id list \<times> ('f, 'g) key_share list \<times> 'r list \<times> party_id list \<times> nat"

definition presign_attempt :: "('f::field, 'g::ab_group_add, 'r) k256 \<Rightarrow> params \<Rightarrow> nat \<Rightarrow> presign_tamper option
    \<Rightarrow> ('f, 'g, 'r) presign_state
    \<Rightarrow> (('f, 'g) presignature list \<times> party_id list \<times> nat) result + ('f, 'g, 'r) presign_state" where
  "presign_attempt E p first_id tamper st = (case st of (current, keys, rngs, blamed_all, attempt) \<Rightarrow>
     let rid = wadd first_id attempt in
     leave_on (committee_new current (p_t p)) (\<lambda>c.
     case presign_robust_with_committee E c keys rid (if attempt = 0 then tamper else None) rngs of
       (Ok (presigs, in_attempt), _) \<Rightarrow> Inl (Ok (presigs, add_blame blamed_all in_attempt, rid))
     | (Err (Abort a), rngs') \<Rightarrow> (case restart_committee current (ab_blamed a) (p_t p) of
           Ok survivors \<Rightarrow> leave_on (survivor_positions current survivors) (\<lambda>positions.
             leave_on (pick keys positions) (\<lambda>keys'. leave_on (pick rngs' positions) (\<lambda>rngs''.
               Inr (survivors, keys', rngs'', add_blame blamed_all (ab_blamed a), wadd attempt 1))))
         | Err _ \<Rightarrow> Inl (Err (Abort a))
         | Panic \<Rightarrow> Inl Panic)
     | (Err e, _) \<Rightarrow> Inl (Err e)
     | (Panic, _) \<Rightarrow> Inl Panic))"

definition run_presign_with_restart :: "('f::field, 'g::ab_group_add, 'r) k256 \<Rightarrow> params
    \<Rightarrow> ('f, 'g) key_share list \<Rightarrow> nat \<Rightarrow> 'r list \<Rightarrow> presign_tamper option
    \<Rightarrow> (('f, 'g) presignature list \<times> party_id list \<times> nat) result option" where
  "run_presign_with_restart E p keys first_id rngs tamper =
     restart_loop (presign_attempt E p first_id tamper) (map o_index keys, keys, rngs, [], 0)"

section \<open>Committee maintenance\<close>

definition run_refresh :: "('f::field, 'g::ab_group_add, 'r) k256 \<Rightarrow> params \<Rightarrow> ('f, 'g) key_share list \<Rightarrow> bytes
    \<Rightarrow> dkg_tamper option \<Rightarrow> ('r, ('f, 'g) key_share list) protocol" where
  "run_refresh E p keys sid tamper =
     bindS (liftR (committee_new (map o_index keys) (p_t p))) (\<lambda>c. refresh E c keys sid tamper)"

definition run_reshare :: "('f::field, 'g::ab_group_add, 'r) k256 \<Rightarrow> ('f, 'g) key_share list \<Rightarrow> committee \<Rightarrow> committee
    \<Rightarrow> bytes \<Rightarrow> reshare_tamper option \<Rightarrow> ('r, ('f, 'g) key_share list) protocol" where
  "run_reshare E old_keys old new sid tamper = reshare_keys E old new old_keys sid tamper"

section \<open>Online signing\<close>

definition message_scalar :: "('f, 'g, 'r) k256 \<Rightarrow> bytes \<Rightarrow> 'f" where
  "message_scalar E msg = scalar_from_digest E (sha256 E msg)"

definition replace_share :: "party_id \<times> 'f \<Rightarrow> 'f sign_share list \<Rightarrow> 'f sign_share list" where
  \<comment> \<open>the fault-injection loop over the broadcast shares\<close>
  "replace_share pf shares = map (\<lambda>sh. if sg_from sh = fst pf then sh\<lparr>sg_s := snd pf\<rparr> else sh) shares"

definition tamper_signers :: "(party_id \<times> 'f) option \<Rightarrow> 'f sign_share list \<Rightarrow> 'f sign_share list" where
  "tamper_signers tamper shares = (case tamper of None \<Rightarrow> shares | Some pf \<Rightarrow> replace_share pf shares)"

definition normalized :: "('f, 'g, 'r) k256 \<Rightarrow> 'f \<times> 'f \<Rightarrow> ('f \<times> 'f) result" where
  \<comment> \<open>\<open>Signature::from_scalars(r, s)?\<close> and the low-\<open>s\<close> form\<close>
  "normalized E rs = (case sig_from_scalars E (fst rs) (snd rs) of None \<Rightarrow> Err Ecdsa
     | Some sg \<Rightarrow> Ok (case sig_normalize E sg of Some sg' \<Rightarrow> sg' | None \<Rightarrow> sg))"

definition run_sign :: "('f::field, 'g::ab_group_add, 'r) k256 \<Rightarrow> params \<Rightarrow> ('f, 'g) presignature list \<Rightarrow> bytes
    \<Rightarrow> (party_id \<times> 'f) option \<Rightarrow> ('f \<times> 'f) result" where
  "run_sign E p presigs msg tamper =
     (let m = message_scalar E msg; shares = tamper_signers tamper (map (\<lambda>q. sign_share q m) presigs)
      in bindR (of_opt (nth_opt presigs 0)) (\<lambda>meta. bindR (combine E p meta m shares) (normalized E)))"

definition run_sign_packed :: "('f::field, 'g::ab_group_add, 'r) k256 \<Rightarrow> params \<Rightarrow> nat \<Rightarrow> nat
    \<Rightarrow> ('f, 'g) presignature list \<Rightarrow> bytes \<Rightarrow> (party_id \<times> 'f) option \<Rightarrow> ('f \<times> 'f) result" where
  "run_sign_packed E p b_pack slot presigs msg tamper =
     (let m = message_scalar E msg; shares = tamper_signers tamper (map (\<lambda>q. sign_share q m) presigs)
      in bindR (of_opt (nth_opt presigs 0)) (\<lambda>meta.
         bindR (combine_at E (wsub (wadd (p_t p) b_pack) 1) (slot_point slot) meta m shares) (normalized E)))"

fun consume_all :: "('s \<Rightarrow> ('e, 'a) res \<times> 's) \<Rightarrow> 's list \<Rightarrow> ('e, 'a list) res \<times> 's list" where
  \<comment> \<open>\<open>for store in stores.iter_mut() { out.push(store.consume(id)?) }\<close>: earlier records stay consumed\<close>
  "consume_all f [] = (Ok [], [])"
| "consume_all f (s # ss) = (case f s of
     (Ok a, s') \<Rightarrow> (case consume_all f ss of (x, ss') \<Rightarrow> (bindR x (\<lambda>as. Ok (a # as)), s' # ss'))
   | (Err e, s') \<Rightarrow> (Err e, s' # ss)
   | (Panic, s') \<Rightarrow> (Panic, s' # ss))"

definition run_sign_stored :: "('f::field, 'g::ab_group_add, 'r) k256 \<Rightarrow> params \<Rightarrow> ('f, 'g) presig_store list \<Rightarrow> nat
    \<Rightarrow> bytes \<Rightarrow> (party_id \<times> 'f) option \<Rightarrow> ('f \<times> 'f) result \<times> ('f, 'g) presig_store list" where
  "run_sign_stored E p stores rid msg tamper = (case consume_all (store_consume rid) stores of
     (x, stores') \<Rightarrow> (bindR x (\<lambda>presigs. run_sign E p presigs msg tamper), stores'))"

definition run_sign_robust :: "('f::field, 'g::ab_group_add, 'r) k256 \<Rightarrow> params \<Rightarrow> ('f, 'g) presignature list \<Rightarrow> bytes
    \<Rightarrow> (party_id \<times> 'f) list \<Rightarrow> (('f \<times> 'f) \<times> party_id list) result" where
  "run_sign_robust E p presigs msg tamper =
     (let m = message_scalar E msg;
          shares = foldl (\<lambda>shares pf. replace_share pf shares) (map (\<lambda>q. sign_share q m) presigs) tamper
      in bindR (of_opt (nth_opt presigs 0)) (\<lambda>meta. bindR (combine_robust E p meta m shares) (\<lambda>(rs, blamed).
         bindR (normalized E rs) (\<lambda>sg. Ok (sg, blamed)))))"

definition run_sign_rerand :: "('f::field, 'g::ab_group_add, 'r) k256 \<Rightarrow> params \<Rightarrow> ('f, 'g) presignature list \<Rightarrow> bytes
    \<Rightarrow> 'f option \<Rightarrow> bytes \<Rightarrow> 'g \<Rightarrow> (party_id \<times> 'f) option \<Rightarrow> ('f \<times> 'f) result option" where
  \<comment> \<open>\<open>None\<close>: the search for a nonzero \<open>gamma\<close> does not end\<close>
  "run_sign_rerand E p presigs msg tweak sid x_point tamper =
     (let m = message_scalar E msg in
      case nth_opt presigs 0 of None \<Rightarrow> Some Panic
      | Some meta \<Rightarrow> map_option (\<lambda>gamma.
          bindR (mapR (\<lambda>q. sign_share_rerand E q m gamma tweak) presigs) (\<lambda>shares.
          bindR (combine_rerand E p meta m gamma tweak (tamper_signers tamper shares)) (normalized E)))
        (rerand_gamma E sid (ps_id meta) m tweak x_point))"

definition ki_masked :: "('f::field, 'g::ab_group_add, 'r) k256 \<Rightarrow> params \<Rightarrow> ('f, 'g) triple list
    \<Rightarrow> ('f, 'g) key_share list \<Rightarrow> ('f, 'g) ki_presignature list \<Rightarrow> 'f ki_sign_tamper option \<Rightarrow> ('f \<times> 'f) result" where
  \<comment> \<open>R1: the verified openings of \<open>u - alpha\<close> and \<open>x - beta\<close>; \<open>triple[k]\<close> is taken by position\<close>
  "ki_masked E p triple keys presigs tamper =
     bindR (of_opt (nth_opt triple 0)) (\<lambda>t0. bindR (of_opt (nth_opt presigs 0)) (\<lambda>p0. bindR (of_opt (nth_opt keys 0)) (\<lambda>k0.
       let delta_com = mask_com E (kp_u_com p0) (tp_ca (snd t0)); eps_com = mask_com E (o_com k0) (tp_cb (snd t0))
       in bindR (mapR (\<lambda>(k, q). bindR (of_opt (nth_opt triple k)) (\<lambda>tr. Ok (kp_index q, kp_u_share q - ts_a (fst tr))))
            (List.enumerate 0 presigs)) (\<lambda>ds.
          bindR (mapR (\<lambda>(k, key). bindR (of_opt (nth_opt triple k)) (\<lambda>tr. Ok (o_index key, o_share key - ts_b (fst tr))))
            (List.enumerate 0 keys)) (\<lambda>es.
          let deltas = bt_of_list ds; epsilons = bt_of_list es;
              deltas' = (case tamper of None \<Rightarrow> deltas | Some tm \<Rightarrow> (case ks_bad_open_share tm of None \<Rightarrow> deltas
                | Some j \<Rightarrow> (case bt_get deltas j of None \<Rightarrow> deltas | Some s \<Rightarrow> bt_insert j (s + 1) deltas)))
          in bindR (open_com E (p_t p) delta_com deltas' Sign) (\<lambda>delta.
             bindR (open_com E (p_t p) eps_com epsilons Sign) (\<lambda>eps. Ok (delta, eps))))))))"

definition run_sign_ki :: "('f::field, 'g::ab_group_add, 'r) k256 \<Rightarrow> params \<Rightarrow> ('f, 'g) key_share list
    \<Rightarrow> ('f, 'g) ki_presignature list \<Rightarrow> bytes \<Rightarrow> 'f ki_sign_tamper option \<Rightarrow> ('r, 'f \<times> 'f) protocol" where
  "run_sign_ki E p keys presigs msg tamper =
     (if length keys \<noteq> length presigs \<or> (\<exists>(k, q) \<in> set (zip keys presigs). o_index k \<noteq> kp_index q)
      then liftR (Err (InvalidParams ''keys/presigs must match positionally (keys[i].index == presigs[i].index)''))
      else let m = message_scalar E msg in
       bindS (liftR (of_opt (nth_opt presigs 0))) (\<lambda>p0.
       bindS (generate E p (str_bytes ''ohm-ecdsa/sign-ki/'' @ u64_be (kp_id p0))) (\<lambda>triple.
       liftR (bindR (ki_masked E p triple keys presigs tamper) (\<lambda>(delta, eps).
         bindR (of_opt (nth_opt triple 0)) (\<lambda>t0.
         bindR (ki_z_com E (snd t0) delta eps) (\<lambda>z_com.
         bindR (mapR (\<lambda>(k, q). bindR (of_opt (nth_opt triple k)) (\<lambda>tr.
             Ok (sign_share_ki q (ki_z_share (fst tr) delta eps) m))) (List.enumerate 0 presigs)) (\<lambda>shares0.
         let shares = (case tamper of None \<Rightarrow> shares0 | Some tm \<Rightarrow> tamper_signers (ks_bad_sign_share tm) shares0)
         in bindR (combine_ki E p p0 z_com m shares) (normalized E)))))))))"

definition run_sign_ki_pooled :: "('f::field, 'g::ab_group_add, 'r) k256 \<Rightarrow> params \<Rightarrow> ('f, 'g) key_share list
    \<Rightarrow> ('f, 'g) ki_pool list \<Rightarrow> nat \<Rightarrow> bytes \<Rightarrow> 'f ki_sign_tamper option
    \<Rightarrow> 'r list \<Rightarrow> ('f \<times> 'f) result \<times> ('f, 'g) ki_pool list \<times> 'r list" where
  "run_sign_ki_pooled E p keys pools rid msg tamper rngs = (case consume_all (pool_consume rid) pools of
     (x, pools') \<Rightarrow> (case bindS (liftR x) (\<lambda>presigs. run_sign_ki E p keys presigs msg tamper) rngs of
       (y, rngs') \<Rightarrow> (y, pools', rngs')))"

section \<open>Key generation is the dealing rounds\<close>

abbreviation full_committee :: "nat \<Rightarrow> nat \<Rightarrow> committee" where
  "full_committee n t \<equiv> \<lparr>c_ids = [1..<Suc n], c_t = t\<rparr>"

lemma params_facts:
  assumes "params_new n t = Ok p" "t < 2 ^ 63" "n < 2 ^ 64"
  shows "p = \<lparr>p_n = n, p_t = t\<rparr>" "committee_full p = Ok (full_committee n t)" "committee_wf (full_committee n t)"
    "c_n (full_committee n t) = n" "parties p = [1..<Suc n]"
proof -
  show p: "p = \<lparr>p_n = n, p_t = t\<rparr>" using assms(1) by (auto simp: params_new_def split: if_splits)
  show "committee_full p = Ok (full_committee n t)" "committee_wf (full_committee n t)"
    using committee_full_Ok [OF assms] by blast+
  show "c_n (full_committee n t) = n" by (simp add: c_n_def del: upt_Suc)
  show "parties p = [1..<Suc n]" using p by (simp add: parties_def)
qed

lemma faulty_reveals:
  fixes E :: "('f::field, 'g::ab_group_add, 'r) k256"
  assumes "k256_ok E" "\<forall>i \<in> set ids. F i \<noteq> []"
  shows "\<exists>revs. mapR (dkg_reveal E) (map (\<lambda>i. fault_inst tamper (honest_inst E c sid tag F i)) ids) = Ok revs"
proof -
  have "\<exists>rv. dkg_reveal E (fault_inst tamper (honest_inst E c sid tag F i)) = Ok rv" if "i \<in> set ids" for i
    using assms that by (simp add: fault_reveal com_add_const_commit)
  then have "\<forall>i. \<exists>rv. i \<in> set ids \<longrightarrow> dkg_reveal E (fault_inst tamper (honest_inst E c sid tag F i)) = Ok rv" by blast
  from choice [OF this] obtain rv where
    "\<forall>i \<in> set ids. dkg_reveal E (fault_inst tamper (honest_inst E c sid tag F i)) = Ok (rv i)" by blast
  then have "mapR (dkg_reveal E) (map (\<lambda>i. fault_inst tamper (honest_inst E c sid tag F i)) ids) = Ok (map rv ids)"
    unfolding mapR_map by (intro mapR_Ok) simp
  then show ?thesis ..
qed

lemma sim_fresh: "sim.fresh sid ph sim_new"
  by (simp add: sim.fresh_def sim_new_def)

lemma driven_rounds:
  fixes E :: "('f::field, 'g::ab_group_add, 'r) k256"
  assumes "k256_ok E" "params_new n t = Ok p" "t < 2 ^ 63" "n < 2 ^ 64" "n \<le> length rngs" "sim.fresh sid ph tr"
  shows "\<exists>F rngs' tr'. mapS (\<lambda>(k, i). dkg_start E p sid tag i k) (List.enumerate 0 (parties p)) rngs
      = (Ok (map (\<lambda>i. (honest_inst E (full_committee n t) sid tag F i, honest_b1 E sid tag F i)) [1..<Suc n]), rngs')
    \<and> drive_dkg E sim_ops p sid tag ph tamper (rngs, tr)
      = (bindR (dealing_rounds E ph (full_committee n t) tamper
          (map (\<lambda>i. (honest_inst E (full_committee n t) sid tag F i, honest_b1 E sid tag F i)) [1..<Suc n]))
          (\<lambda>(outs, _). Ok outs), (rngs', tr'))
    \<and> length rngs' = length rngs \<and> (\<forall>i \<in> set [1..<Suc n]. length (F i) = t)"
proof -
  let ?c = "full_committee n t"
  note p = params_facts [OF assms(2-4)]
  obtain F rngs' where st: "mapS (\<lambda>(k, i). with_rng k (dkg_start_committee E ?c sid tag i))
        (List.enumerate 0 (c_ids ?c)) rngs
      = (Ok (map (\<lambda>i. (honest_inst E ?c sid tag F i, honest_b1 E sid tag F i)) (c_ids ?c)) :: _ result, rngs')"
    and len: "length rngs' = length rngs" and F: "\<forall>i \<in> set (c_ids ?c). length (F i) = c_t ?c"
    using committee_start [OF p(3), of rngs E sid tag] assms(5) p(4) by auto
  have start: "(\<lambda>(k, i). dkg_start E p sid tag i k)
      = (\<lambda>(k, i). with_rng k (dkg_start_committee E ?c sid tag i) :: ('r, _) protocol)"
    by (simp add: dkg_start_def p(2))
  have "t \<noteq> 0" using committee_wf_facts(3) [OF p(3)] by simp
  then obtain revs where revs: "mapR (dkg_reveal E) (map (\<lambda>i. fault_inst tamper (honest_inst E ?c sid tag F i)) (c_ids ?c)) = Ok revs"
    using faulty_reveals [OF assms(1), of "c_ids ?c" F tamper ?c sid tag] F by auto
  have "\<exists>tr'. drive_dkg E sim_ops p sid tag ph tamper (rngs, tr)
      = (bindR (dealing_rounds E ph ?c tamper (map (\<lambda>i. (honest_inst E ?c sid tag F i, honest_b1 E sid tag F i)) (c_ids ?c)))
          (\<lambda>(outs, _). Ok outs), (rngs', tr'))"
    by (rule sim.drive_runs_rounds [OF assms(6)])
      (use p(5) st revs in \<open>simp_all add: start o_def del: upt_Suc\<close>)
  then show ?thesis
    using st len F by (auto simp: p(5) start simp del: upt_Suc)
qed

lemma keygen_rounds:
  fixes E :: "('f::field, 'g::ab_group_add, 'r) k256"
  assumes "k256_ok E" "params_new n t = Ok p" "t < 2 ^ 63" "n < 2 ^ 64" "n \<le> length rngs"
  shows "\<exists>F rngs'. run_keygen_with_tamper E p sid tamper rngs
      = (bindR (dealing_rounds E KeyGen (full_committee n t) tamper
          (map (\<lambda>i. (honest_inst E (full_committee n t) sid DKG_COMMIT F i, honest_b1 E sid DKG_COMMIT F i)) [1..<Suc n]))
          (\<lambda>(outs, _). Ok outs), rngs')
    \<and> length rngs' = length rngs \<and> (\<forall>i \<in> set [1..<Suc n]. length (F i) = t)"
proof -
  note p = params_facts [OF assms(2-4)]
  from driven_rounds [OF assms sim_fresh, where ph = KeyGen and sid = sid and tag = DKG_COMMIT and tamper = tamper] show ?thesis
    by (elim exE conjE) (auto simp: run_keygen_with_tamper_def simp del: upt_Suc)
qed

text \<open>Its outcome under faults in the shares: the joint sharing, or an abort over one faulty pair.\<close>

lemma keygen_outcome:
  fixes E :: "('f::field, 'g::ab_group_add, 'r) k256"
  assumes "k256_ok E" "params_new n t = Ok p" "t < 2 ^ 63" "n < 2 ^ 64" "n \<le> length rngs"
    and "bad_reveal_of tamper = None"
  shows "\<exists>res rngs'. run_keygen_with_tamper E p sid tamper rngs = (res, rngs') \<and> length rngs' = length rngs
    \<and> ((\<exists>cs. res = Ok (map (joint_output E cs) [1..<Suc n]) \<and> length cs = t
          \<and> (\<forall>d \<in> {1..n}. \<forall>v \<in> {1..n}. \<not> faulty_at tamper d v))
        \<or> (\<exists>e. res = Err e \<and> (\<exists>d \<in> {1..n}. \<exists>v \<in> {1..n}. faulty_at tamper d v \<and> fault_abort tamper KeyGen d v e)))"
proof -
  let ?c = "full_committee n t"
  note p = params_facts [OF assms(2-4)]
  obtain F rngs' where run: "run_keygen_with_tamper E p sid tamper rngs
      = (bindR (dealing_rounds E KeyGen ?c tamper
          (map (\<lambda>i. (honest_inst E ?c sid DKG_COMMIT F i, honest_b1 E sid DKG_COMMIT F i)) [1..<Suc n]))
          (\<lambda>(outs, _). Ok outs), rngs')"
    and len: "length rngs' = length rngs" and F: "\<forall>i \<in> set [1..<Suc n]. length (F i) = t"
    using keygen_rounds [OF assms(1-5)] by blast
  have ids: "set (c_ids ?c) = {1..n}" by auto
  have lenF: "length (F i) = c_t ?c" if "i \<in> set (c_ids ?c)" for i using F that by (simp del: upt_Suc)
  have joint: "length (dealt ?c F) = t" using length_dealt [OF p(3) lenF] by simp
  let ?res = "dealing_rounds E KeyGen ?c tamper
      (map (\<lambda>i. (honest_inst E ?c sid DKG_COMMIT F i, honest_b1 E sid DKG_COMMIT F i)) (c_ids ?c))"
  from dealing_rounds_shares [where F = F and ph = KeyGen and sid = sid and tag = DKG_COMMIT, OF assms(1) p(3) assms(6) lenF refl]
  consider "?res = Ok (map (joint_output E (dealt ?c F)) (c_ids ?c),
        map (\<lambda>i. (i, \<lparr>b2_from = i, b2_com = commit E (F i)\<rparr>)) (c_ids ?c))"
      "\<forall>d \<in> set (c_ids ?c). \<forall>v \<in> set (c_ids ?c). \<not> faulty_at tamper d v"
    | e where "?res = Err e" "\<exists>d \<in> set (c_ids ?c). \<exists>v \<in> set (c_ids ?c). faulty_at tamper d v \<and> fault_abort tamper KeyGen d v e"
    by blast
  then show ?thesis
  proof cases
    case 1
    then show ?thesis using run len joint by (auto simp: ids simp del: upt_Suc)
  next
    case 2
    have "run_keygen_with_tamper E p sid tamper rngs = (Err e, rngs')"
      using run 2(1) by (simp del: upt_Suc)
    then show ?thesis using 2(2) [unfolded ids] len by blast
  qed
qed

section \<open>The restart loops end\<close>

lemma restart_loop_simps:
  "attempt st = Inl out \<Longrightarrow> restart_loop attempt st = Some out"
  "attempt st = Inr st' \<Longrightarrow> restart_loop attempt st = restart_loop attempt st'"
  by (subst restart_loop.simps, simp)+

lemma survivor_positions_Ok:
  assumes "distinct current" "set survivors \<subseteq> set current"
  shows "\<exists>ps. survivor_positions current survivors = Ok ps \<and> length ps = length survivors \<and> (\<forall>q \<in> set ps. q < length current)"
proof -
  have "\<exists>k < length current. find_index (\<lambda>p. p = s) current = Some k" if "s \<in> set survivors" for s
  proof -
    have "s \<in> set current" using that assms(2) by blast
    then show ?thesis using find_index_nth [OF assms(1)] by (auto simp: in_set_conv_nth)
  qed
  then obtain f where f: "\<And>s. s \<in> set survivors \<Longrightarrow> f s < length current \<and> find_index (\<lambda>p. p = s) current = Some (f s)"
    by metis
  have "survivor_positions current survivors = Ok (map f survivors)"
    unfolding survivor_positions_def by (rule mapR_Ok) (simp add: f)
  then show ?thesis using f by auto
qed

lemma pick_Ok: "\<forall>q \<in> set ps. q < length xs \<Longrightarrow> pick xs ps = Ok (map (\<lambda>q. xs ! q) ps)"
  unfolding pick_def by (rule mapR_Ok) simp

lemma unrenumber_self:
  assumes "j \<in> {1..n}" "n < 2 ^ 64"
  shows "unrenumber [1..<Suc n] [j] = Ok [j]"
proof -
  have "wsub j 1 = j - 1" using assms by (intro wsub_exact) auto
  then show ?thesis using assms by (auto simp: unrenumber_def nth_opt_def simp del: upt_Suc)
qed

text \<open>
  After one abort over party \<open>j\<close> the loop goes on with the other parties, or gives the abort up to the
  caller when fewer than \<open>2 * t - 1\<close> of them are left.
\<close>

lemma expel_one:
  assumes "t < 2 ^ 63" "1 \<le> t" "j \<in> {1..n}" "n \<le> length rngs"
  shows "n < 2 * t \<Longrightarrow> expel_and_continue \<lparr>p_n = n, p_t = t\<rparr> a [j] ([1..<Suc n], rngs, [], 0) = Inl (Err (Abort a))"
    and "2 * t \<le> n \<Longrightarrow> \<exists>left rngs'. expel_and_continue \<lparr>p_n = n, p_t = t\<rparr> a [j] ([1..<Suc n], rngs, [], 0)
      = Inr (left, rngs', [j], 1) \<and> length left = n - 1 \<and> length rngs' = n - 1"
proof -
  let ?cur = "[1..<Suc n]"
  let ?left = "sort (filter (\<lambda>p. p \<notin> set [j]) ?cur)"
  have "length (filter (\<lambda>i. i = j) ?cur) + length (filter (\<lambda>i. i \<noteq> j) ?cur) = length ?cur"
    using sum_length_filter_compl [of "\<lambda>i. i = j" ?cur] by simp
  moreover have "length (filter (\<lambda>i. i = j) ?cur) = 1"
    using assms(3) by (subst filter_eq_singleton) (auto simp del: upt_Suc)
  ultimately have len: "length ?left = n - 1" by (simp del: upt_Suc)
  have policy: "restart_committee ?cur [j] t = (if n < 2 * t
      then Err (InvalidParams ''expulsion leaves n' < 2t-1: committee re-sharing required (SPEC 13.4, see refresh::reshare)'')
      else Ok ?left)"
    using threshold_exact [OF _ assms(1)] assms(2,3) len
    by (auto simp: restart_committee_def Let_def simp del: upt_Suc set_simps length_sort)
  show "n < 2 * t \<Longrightarrow> expel_and_continue \<lparr>p_n = n, p_t = t\<rparr> a [j] (?cur, rngs, [], 0) = Inl (Err (Abort a))"
    unfolding expel_and_continue_def prod.case params.select_convs policy by simp
  assume "2 * t \<le> n"
  then have ok: "restart_committee ?cur [j] t = Ok ?left" using policy by simp
  obtain ps where ps: "survivor_positions ?cur ?left = Ok ps" "length ps = length ?left" "\<forall>q \<in> set ps. q < length ?cur"
  proof -
    have "distinct ?cur" "set ?left \<subseteq> set ?cur" by auto
    from survivor_positions_Ok [OF this] show ?thesis using that by blast
  qed
  have picked: "pick rngs ps = Ok (map (\<lambda>q. rngs ! q) ps)"
    using ps(3) assms(4) by (intro pick_Ok) (auto simp del: upt_Suc)
  have "expel_and_continue \<lparr>p_n = n, p_t = t\<rparr> a [j] (?cur, rngs, [], 0)
      = Inr (?left, map (\<lambda>q. rngs ! q) ps, add_blame [] [j], wadd 0 1)"
    unfolding expel_and_continue_def prod.case params.select_convs ok res.case ps(1) leave_on.simps picked ..
  moreover have "add_blame [] [j] = [j]" "wadd 0 1 = 1" by (simp_all add: add_blame_def wadd_def)
  ultimately show "\<exists>left rngs'. expel_and_continue \<lparr>p_n = n, p_t = t\<rparr> a [j] (?cur, rngs, [], 0)
      = Inr (left, rngs', [j], 1) \<and> length left = n - 1 \<and> length rngs' = n - 1"
    using ps(2) len by (metis length_map)
qed

lemma keygen_restart:
  fixes E :: "('f::field, 'g::ab_group_add, 'r) k256"
  assumes "k256_ok E" "params_new n t = Ok p" "t < 2 ^ 63" "n < 2 ^ 64" "n \<le> length rngs"
    and "bad_reveal_of tamper = None"
  shows "(\<exists>cs. length cs = t \<and> run_keygen_with_restart E p sid rngs tamper
        = Some (Ok (map (joint_output E cs) [1..<Suc n], []))
        \<and> (\<forall>d \<in> {1..n}. \<forall>v \<in> {1..n}. \<not> faulty_at tamper d v))
    \<or> (\<exists>cs. \<exists>d \<in> {1..n}. \<exists>v \<in> {1..n}. length cs = t \<and> faulty_at tamper d v \<and> run_keygen_with_restart E p sid rngs tamper
        = Some (Ok (map (joint_output E cs) [1..<n], [if bad_deal_of tamper = Some (d, v) then d else v])))
    \<or> (n < 2 * t \<and> (\<exists>e. \<exists>d \<in> {1..n}. \<exists>v \<in> {1..n}. faulty_at tamper d v \<and> fault_abort tamper KeyGen d v e
        \<and> run_keygen_with_restart E p sid rngs tamper = Some (Err e)))"
proof -
  note p = params_facts [OF assms(2-4)]
  have t: "1 \<le> t" using committee_wf_facts(3) [OF p(3)] by simp
  let ?step = "keygen_attempt E p sid tamper" and ?st = "([1..<Suc n], rngs, [], 0)"
  have run0: "run_keygen_with_restart E p sid rngs tamper = restart_loop ?step ?st"
    by (simp add: run_keygen_with_restart_def p(5) del: upt_Suc)
  have new: "params_new (length [1..<Suc n]) (p_t p) = Ok p" using assms(2) p(1) by (simp del: upt_Suc)
  obtain res rngs' where run: "run_keygen_with_tamper E p sid tamper rngs = (res, rngs')" "length rngs' = length rngs"
    and out: "(\<exists>cs. res = Ok (map (joint_output E cs) [1..<Suc n]) \<and> length cs = t
          \<and> (\<forall>d \<in> {1..n}. \<forall>v \<in> {1..n}. \<not> faulty_at tamper d v))
        \<or> (\<exists>e. res = Err e \<and> (\<exists>d \<in> {1..n}. \<exists>v \<in> {1..n}. faulty_at tamper d v \<and> fault_abort tamper KeyGen d v e))"
    using keygen_outcome [OF assms, of sid] by (elim exE conjE) (rule that)
  have step: "?step ?st = (case res of Ok keys \<Rightarrow> Inl (Ok (keys, []))
      | Err (Abort a) \<Rightarrow> leave_on (unrenumber [1..<Suc n] (ab_blamed a)) (\<lambda>blamed.
          expel_and_continue p a blamed ([1..<Suc n], rngs', [], 0))
      | Err e \<Rightarrow> Inl (Err e) | Panic \<Rightarrow> Inl Panic)"
  proof -
    have first: "run_keygen_with_tamper E p (poison_sid sid 0) (if (0::nat) = 0 then tamper else None) rngs = (res, rngs')"
      by (simp add: poison_sid_def run(1))
    show ?thesis
    proof (cases res)
      case (Err e)
      then show ?thesis
        unfolding keygen_attempt_def prod.case new leave_on.simps first by (cases e) (simp_all only: res.case error.case prod.case)
    qed (simp_all only: keygen_attempt_def prod.case new leave_on.simps first res.case)
  qed
  from out show ?thesis
  proof (elim disjE exE conjE bexE)
    fix cs
    assume "res = Ok (map (joint_output E cs) [1..<Suc n])" "length cs = t" "\<forall>d \<in> {1..n}. \<forall>v \<in> {1..n}. \<not> faulty_at tamper d v"
    then show ?thesis
      using restart_loop_simps(1) [of ?step ?st "Ok (map (joint_output E cs) [1..<Suc n], [])"] step
      by (auto simp: run0 simp del: upt_Suc)
  next
    fix e d v
    assume res: "res = Err e" and dv: "d \<in> {1..n}" "v \<in> {1..n}" "faulty_at tamper d v" and ab: "fault_abort tamper KeyGen d v e"
    let ?j = "if bad_deal_of tamper = Some (d, v) then d else v"
    obtain a where a: "e = Abort a" "ab_blamed a = [?j]" using ab by (auto simp: fault_abort_def)
    have j: "?j \<in> {1..n}" using dv by simp
    have step': "?step ?st = expel_and_continue p a [?j] ([1..<Suc n], rngs', [], 0)"
      unfolding step res a(1) res.case error.case a(2) unrenumber_self [OF j assms(4)] leave_on.simps ..
    have lr: "n \<le> length rngs'" using run(2) assms(5) by simp
    show ?thesis
    proof (cases "n < 2 * t")
      case True
      have "?step ?st = Inl (Err e)" unfolding step' unfolding p(1) a(1) by (rule expel_one(1) [OF assms(3) t j lr True])
      then have "run_keygen_with_restart E p sid rngs tamper = Some (Err e)"
        using restart_loop_simps(1) [of ?step ?st] by (simp add: run0)
      then show ?thesis using True dv ab by blast
    next
      case False
      then obtain left rngs1 where next_st: "?step ?st = Inr (left, rngs1, [?j], 1)"
        and l1: "length left = n - 1" "length rngs1 = n - 1"
        using expel_one(2) [OF assms(3) t j lr, of a] unfolding step' unfolding p(1) by auto
      have p1: "params_new (n - 1) t = Ok \<lparr>p_n = n - 1, p_t = t\<rparr>"
        using False t threshold_exact [OF _ assms(3)] by (auto simp: params_new_def)
      have small: "n - 1 < 2 ^ 64" using assms(4) by simp
      have none: "\<not> faulty_at None x y" for x y by (simp add: faulty_at_def fault_defs)
      obtain cs rngs2 where again: "run_keygen_with_tamper E \<lparr>p_n = n - 1, p_t = t\<rparr> (poison_sid sid 1) None rngs1
          = (Ok (map (joint_output E cs) [1..<Suc (n - 1)]), rngs2)" "length cs = t"
        using keygen_outcome [OF assms(1) p1 assms(3) small, of rngs1 None "poison_sid sid 1"] l1(2) none
        by (auto simp: fault_defs)
      have second: "run_keygen_with_tamper E \<lparr>p_n = n - 1, p_t = t\<rparr> (poison_sid sid 1)
          (if (1::nat) = 0 then tamper else None) rngs1 = (Ok (map (joint_output E cs) [1..<Suc (n - 1)]), rngs2)"
        using again(1) by simp
      have "?step (left, rngs1, [?j], 1) = Inl (Ok (map (joint_output E cs) [1..<Suc (n - 1)], [?j]))"
        unfolding keygen_attempt_def prod.case l1(1) p(1) params.select_convs p1 leave_on.simps second res.case ..
      then have "run_keygen_with_restart E p sid rngs tamper
          = Some (Ok (map (joint_output E cs) [1..<Suc (n - 1)], [?j]))"
        unfolding run0 restart_loop_simps(2) [where attempt = ?step, OF next_st] by (rule restart_loop_simps(1))
      moreover have "Suc (n - 1) = n" using dv by simp
      ultimately have "run_keygen_with_restart E p sid rngs tamper
          = Some (Ok (map (joint_output E cs) [1..<n], [?j]))" by (simp only:)
      then show ?thesis using again(2) dv by blast
    qed
  qed
qed

end
