(* ===== verification/Sim_Signing.thy ===== *)
theory Sim_Signing
  imports Sim
begin

text \<open>
  The signing functions of \<open>src/runtime/sim.rs\<close> against the contract of ECDSA: whatever share one
  party broadcasts, a delivered signature is low-\<open>s\<close> and verifies under the key the presignature is
  bound to; a wrong share names its sender; a store serves a presignature to one signature only.
\<close>

section \<open>The delivered signature\<close>

lemma ecdsa_verifies_neg:
  assumes "k256_ok E" "ecdsa_verifies E X m (r, s)"
  shows "ecdsa_verifies E X m (r, - s)"
proof -
  have eq: "smul E (gen E) (m * inverse (- s)) + smul E X (r * inverse (- s))
      = - (smul E (gen E) (m * inverse s) + smul E X (r * inverse s))"
    by (simp add: smul_neg [OF assms(1)])
  have neg: "x_bytes E (- P) = x_bytes E P" for P using assms(1) by (simp add: k256_ok_def x_law_def)
  show ?thesis using assms(2) unfolding ecdsa_verifies_def prod.case eq neg by simp
qed

lemma normalized_value:
  assumes "k256_ok E"
  shows "normalized E (r, s) = (if r = 0 \<or> s = 0 then Err Ecdsa else Ok (r, if is_high E s then - s else s))"
  using assms by (simp add: normalized_def k256_ok_def sig_law_def)

text \<open>What is delivered verifies, and is in low-\<open>s\<close> form.\<close>

definition good_signature :: "('f::field, 'g::ab_group_add, 'r) k256 \<Rightarrow> 'g \<Rightarrow> bytes \<Rightarrow> 'f \<times> 'f \<Rightarrow> bool" where
  "good_signature E X msg sig \<longleftrightarrow> ecdsa_verifies E X (message_scalar E msg) sig \<and> \<not> is_high E (snd sig)"

lemma normalized_good:
  assumes "k256_ok E" "normalized E (r, s) = Ok sig"
    and "s \<noteq> 0 \<Longrightarrow> ecdsa_verifies E X (message_scalar E msg) (r, s)"
  shows "good_signature E X msg sig"
proof -
  have rs: "r \<noteq> 0" "s \<noteq> 0" "sig = (r, if is_high E s then - s else s)"
    using assms(2) by (auto simp: normalized_value [OF assms(1)] split: if_splits)
  have "\<not> is_high E (- s)" if "is_high E s" using assms(1) that by (simp add: k256_ok_def sig_law_def)
  then show ?thesis
    using assms(3) rs ecdsa_verifies_neg [OF assms(1)] by (auto simp: good_signature_def)
qed

section \<open>Shares under fault injection\<close>

lemma replace_share_senders [simp]: "map sg_from (replace_share pf shares) = map sg_from shares"
  by (auto simp: replace_share_def)

lemma tamper_signers_senders [simp]: "map sg_from (tamper_signers tamper shares) = map sg_from shares"
  by (auto simp: tamper_signers_def split: option.splits)

lemma senders_ok_iff:
  "senders_ok shares \<longleftrightarrow> distinct (map sg_from shares) \<and> (\<forall>j \<in> set (map sg_from shares). j < 2 ^ 64)"
proof -
  have "fst ` set (wire shares) = set (map sg_from shares)" by (simp add: wire_def image_image)
  then show ?thesis by (simp add: senders_ok_def ids_ok_def)
qed

lemma senders_cong: "map sg_from shares = map sg_from shares' \<Longrightarrow> senders_ok shares = senders_ok shares'"
  by (simp only: senders_ok_iff)

lemma tampered_senders: "signers_ok ps \<Longrightarrow> senders_ok (tamper_signers tamper (map (\<lambda>q. sign_share q m) ps))"
  using signers_senders senders_cong [OF tamper_signers_senders] by blast

lemma replaced_senders:
  "signers_ok ps \<Longrightarrow> senders_ok (foldl (\<lambda>shares pf. replace_share pf shares) (map (\<lambda>q. sign_share q m) ps) tampers)"
proof -
  have "map sg_from (foldl (\<lambda>shares pf. replace_share pf shares) shs tampers) = map sg_from shs" for shs :: "'a sign_share list"
    by (induction tampers arbitrary: shs) auto
  then show "signers_ok ps \<Longrightarrow> ?thesis" using signers_senders senders_cong by blast
qed

section \<open>Soundness\<close>

lemma run_sign_sound:
  fixes E :: "('f::field, 'g::ab_group_add, 'r) k256"
  assumes "k256_ok E" "presig_ok E (p_t p) 0 x U Z nonce" "signers_ok ps" "\<And>q. q \<in> set ps \<Longrightarrow> holds E q U Z nonce"
    and "run_sign E p ps msg tamper = Ok sig"
  shows "good_signature E (smul E (gen E) x) msg sig"
proof -
  let ?m = "message_scalar E msg"
  obtain meta r s where run: "nth_opt ps 0 = Some meta" "normalized E (r, s) = Ok sig"
    "combine_at E (p_t p) 0 meta ?m (tamper_signers tamper (map (\<lambda>q. sign_share q ?m) ps)) = Ok (r, s)"
    using assms(5) by (auto simp: run_sign_def Let_def bindR_Ok_iff combine_def)
  then have "meta \<in> set ps" by (auto simp: nth_opt_def split: if_splits)
  then have "meta_of E meta U Z nonce" using assms(4) by (simp add: holds_def)
  from combine_at_sound [OF assms(1,2) this tampered_senders [OF assms(3)] run(3)]
  show ?thesis by (rule normalized_good [OF assms(1) run(2)])
qed

lemma run_sign_delivers:
  fixes E :: "('f::field, 'g::ab_group_add, 'r) k256"
  assumes "k256_ok E" "presig_ok E (p_t p) 0 x U Z nonce" "signers_ok ps" "\<And>q. q \<in> set ps \<Longrightarrow> holds E q U Z nonce"
    and "p_t p \<le> length ps" "ps \<noteq> []"
  shows "run_sign E p ps msg None = (if message_scalar E msg + fst nonce * x = 0 then Err Ecdsa
     else Ok (fst nonce, let s = peval U 0 * (message_scalar E msg + fst nonce * x) in if is_high E s then - s else s))"
proof -
  have meta: "meta_of E (ps ! 0) U Z nonce" "nth_opt ps 0 = Some (ps ! 0)"
    using assms(4) [of "ps ! 0"] assms(6) by (auto simp: holds_def)
  have "fst nonce \<noteq> 0" "peval U 0 \<noteq> 0" using assms(2) by (auto simp: presig_ok_def)
  then show ?thesis
    using combine_at_honest [OF assms(1,2) meta(1) assms(3,4,5), of "message_scalar E msg"]
    by (simp add: run_sign_def Let_def meta(2) tamper_signers_def combine_def normalized_value [OF assms(1)])
qed

text \<open>A wrong share of a participating party aborts the signature and names exactly that party.\<close>

lemma run_sign_blames:
  fixes E :: "('f::field, 'g::ab_group_add, 'r) k256"
  assumes "k256_ok E" "presig_ok E (p_t p) 0 x U Z nonce" "signers_ok ps" "\<And>q. q \<in> set ps \<Longrightarrow> holds E q U Z nonce"
    and "q0 \<in> set ps" "fake \<noteq> sg_s (sign_share q0 (message_scalar E msg))"
  shows "run_sign E p ps msg (Some (ps_index q0, fake)) = abort Sign [ps_index q0] ''signature share failed commitment check''"
proof -
  let ?m = "message_scalar E msg" and ?j = "ps_index q0"
  let ?S = "sign_poly U Z ?m (fst nonce)"
  have idx: "distinct (map ps_index ps)" using assms(3) by (simp add: signers_ok_def)
  have meta: "meta_of E (ps ! 0) U Z nonce" "nth_opt ps 0 = Some (ps ! 0)"
  proof -
    have "ps ! 0 \<in> set ps" "0 < length ps" using assms(5) by (cases ps; auto)+
    then show "meta_of E (ps ! 0) U Z nonce" "nth_opt ps 0 = Some (ps ! 0)"
      using assms(4) by (auto simp: holds_def)
  qed
  have honest: "sg_s (sign_share q ?m) = peval ?S (of_nat (ps_index q))" if "q \<in> set ps" for q
    using assms(4) [OF that] by (simp add: holds_def meta_of_def sign_share_def peval_sign_poly)
  let ?shares = "tamper_signers (Some (?j, fake)) (map (\<lambda>q. sign_share q ?m) ps)"
  let ?bad = "\<lambda>sh. sg_s sh \<noteq> peval ?S (of_nat (sg_from sh))"
  let ?mk = "\<lambda>q. let sh = sign_share q ?m in if sg_from sh = ?j then sh\<lparr>sg_s := fake\<rparr> else sh"
  have shares: "?shares = map ?mk ps"
    by (simp add: tamper_signers_def replace_share_def Let_def)
  have bad: "?bad (?mk q) \<longleftrightarrow> ps_index q = ?j" if "q \<in> set ps" for q
  proof (cases "ps_index q = ?j")
    case True
    then have "q = q0" using idx that assms(5) by (metis distinct_map inj_onD)
    then show ?thesis using assms(6) honest [OF assms(5)] by (simp add: sign_share_def Let_def)
  next
    case False
    then show ?thesis using honest [OF that] by (simp add: sign_share_def Let_def)
  qed
  have "filter (\<lambda>i. i = ?j) (map ps_index ps) = [?j]"
    using idx assms(5) by (intro filter_eq_singleton) auto
  then have blamed: "map sg_from (filter ?bad ?shares) = [?j]"
  proof -
    have "filter (\<lambda>q. ?bad (?mk q)) ps = filter (\<lambda>q. ps_index q = ?j) ps"
      by (rule filter_cong [OF refl bad])
    then have "filter ?bad ?shares = map ?mk (filter (\<lambda>q. ps_index q = ?j) ps)"
      unfolding shares filter_map o_def by (simp only:)
    moreover have "sg_from (?mk q) = ps_index q" for q :: "('f, 'g) presignature"
      by (simp add: sign_share_def Let_def)
    ultimately have "map sg_from (filter ?bad ?shares) = map ps_index (filter (\<lambda>q. ps_index q = ?j) ps)"
      by (simp only: map_map o_def)
    also have "\<dots> = filter (\<lambda>i. i = ?j) (map ps_index ps)" by (simp add: filter_map o_def)
    finally show ?thesis using \<open>filter (\<lambda>i. i = ?j) (map ps_index ps) = [?j]\<close> by simp
  qed
  then have "filter ?bad ?shares \<noteq> []" by (metis list.simps(8) list.distinct(1))
  then have "\<exists>sh \<in> set ?shares. ?bad sh" by (simp add: filter_empty_conv)
  then have "combine_at E (p_t p) 0 (ps ! 0) ?m ?shares
      = abort Sign [?j] ''signature share failed commitment check''"
    unfolding combine_at_commit [OF assms(1,2) meta(1) tampered_senders [OF assms(3)]] blamed by (simp only: if_True)
  then show ?thesis by (simp add: run_sign_def Let_def meta(2) combine_def abort_def)
qed

section \<open>The packed, the re-randomised and the robust form\<close>

lemma run_sign_packed_sound:
  fixes E :: "('f::field, 'g::ab_group_add, 'r) k256"
  assumes "k256_ok E" "presig_ok E (p_t p + b_pack - 1) (slot_point slot) x U Z nonce" "signers_ok ps"
    and "\<And>q. q \<in> set ps \<Longrightarrow> holds E q U Z nonce" "1 \<le> p_t p" "p_t p + b_pack < 2 ^ 64"
    and "run_sign_packed E p b_pack slot ps msg tamper = Ok sig"
  shows "good_signature E (smul E (gen E) x) msg sig"
proof -
  let ?m = "message_scalar E msg"
  have quorum: "wsub (wadd (p_t p) b_pack) 1 = p_t p + b_pack - 1"
    using assms(5,6) by (simp add: wadd_exact wsub_exact)
  obtain meta r s where run: "nth_opt ps 0 = Some meta" "normalized E (r, s) = Ok sig"
    "combine_at E (p_t p + b_pack - 1) (slot_point slot) meta ?m (tamper_signers tamper (map (\<lambda>q. sign_share q ?m) ps)) = Ok (r, s)"
    using assms(7) unfolding run_sign_packed_def Let_def quorum by (auto simp: bindR_Ok_iff)
  then have "meta \<in> set ps" by (auto simp: nth_opt_def split: if_splits)
  then have "meta_of E meta U Z nonce" using assms(4) by (simp add: holds_def)
  from combine_at_sound [OF assms(1,2) this tampered_senders [OF assms(3)] run(3)]
  show ?thesis by (rule normalized_good [OF assms(1) run(2)])
qed

lemma rerand_gamma_nonzero: "rerand_gamma E sid i m tweak X = Some gamma \<Longrightarrow> gamma \<noteq> 0"
  by (auto simp: rerand_gamma_value find_Some_iff)

lemma run_sign_rerand_sound:
  fixes E :: "('f::field, 'g::ab_group_add, 'r) k256"
  assumes "k256_ok E" "presig_ok E (p_t p) 0 x U Z nonce" "signers_ok ps" "\<And>q. q \<in> set ps \<Longrightarrow> holds E q U Z nonce"
    and "run_sign_rerand E p ps msg tweak sid X tamper = Some (Ok sig)"
  shows "good_signature E (smul E (gen E) (x + (case tweak of None \<Rightarrow> 0 | Some tau \<Rightarrow> tau))) msg sig"
proof -
  let ?m = "message_scalar E msg"
  obtain meta where meta: "nth_opt ps 0 = Some meta"
    using assms(5) by (auto simp: run_sign_rerand_def Let_def split: option.splits)
  then obtain gamma shares r s where run: "rerand_gamma E sid (ps_id meta) ?m tweak X = Some gamma"
    "mapR (\<lambda>q. sign_share_rerand E q ?m gamma tweak) ps = Ok shares"
    "combine_rerand E p meta ?m gamma tweak (tamper_signers tamper shares) = Ok (r, s)" "normalized E (r, s) = Ok sig"
    using assms(5) by (auto simp: run_sign_rerand_def Let_def bindR_Ok_iff)
  have "meta \<in> set ps" using meta by (auto simp: nth_opt_def split: if_splits)
  then have m: "meta_of E meta U Z nonce" using assms(4) by (simp add: holds_def)
  have g: "gamma \<noteq> 0" by (rule rerand_gamma_nonzero [OF run(1)])
  have "list_all2 (\<lambda>q sh. sg_from sh = ps_index q) ps shares"
    using run(2) unfolding mapR_Ok_iff
    by (rule list_all2_mono) (auto simp: sign_share_rerand_def bindR_Ok_iff Let_def)
  then have "map sg_from shares = map ps_index ps"
    by (induction rule: list_all2_induct) auto
  then have "senders_ok shares"
    unfolding senders_ok_iff using assms(3) by (simp add: signers_ok_def)
  then have senders: "senders_ok (tamper_signers tamper shares)"
    using senders_cong [OF tamper_signers_senders] by blast
  have "r \<noteq> 0" using run(4) by (auto simp: normalized_value [OF assms(1)] split: if_splits)
  from combine_rerand_sound [OF assms(1,2) m senders g run(3) this]
  show ?thesis by (rule normalized_good [OF assms(1) run(4)])
qed

text \<open>With \<open>t\<close> honest signers left, the robust form delivers, and it blames no honest signer.\<close>

lemma replaced_sublist:
  "map (\<lambda>sh. (sg_from sh, sg_s sh)) (filter (\<lambda>sh. sg_from sh \<notin> fst ` set tampers)
      (foldl (\<lambda>shares pf. replace_share pf shares) shs tampers))
    = map (\<lambda>sh. (sg_from sh, sg_s sh)) (filter (\<lambda>sh. sg_from sh \<notin> fst ` set tampers) shs)"
proof -
  have one: "map (\<lambda>sh. (sg_from sh, sg_s sh)) (filter (\<lambda>sh. sg_from sh \<notin> A) (replace_share pf shs))
      = map (\<lambda>sh. (sg_from sh, sg_s sh)) (filter (\<lambda>sh. sg_from sh \<notin> A) shs)" if "fst pf \<in> A" for A pf and shs :: "'a sign_share list"
    using that by (induction shs) (auto simp: replace_share_def)
  have "map (\<lambda>sh. (sg_from sh, sg_s sh)) (filter (\<lambda>sh. sg_from sh \<notin> A) (foldl (\<lambda>shares pf. replace_share pf shares) shs tampers))
      = map (\<lambda>sh. (sg_from sh, sg_s sh)) (filter (\<lambda>sh. sg_from sh \<notin> A) shs)" if "fst ` set tampers \<subseteq> A" for A
    using that by (induction tampers arbitrary: shs) (auto simp: one)
  then show ?thesis by blast
qed

lemma run_sign_robust_delivers:
  fixes E :: "('f::field, 'g::ab_group_add, 'r) k256"
  assumes "k256_ok E" "presig_ok E (p_t p) 0 x U Z nonce" "signers_ok ps" "\<And>q. q \<in> set ps \<Longrightarrow> holds E q U Z nonce"
    and "p_t p \<le> length (filter (\<lambda>q. ps_index q \<notin> fst ` set tampers) ps)" "ps \<noteq> []"
    and "message_scalar E msg + fst nonce * x \<noteq> 0"
  shows "\<exists>sig blamed. run_sign_robust E p ps msg tampers = Ok (sig, blamed)
    \<and> good_signature E (smul E (gen E) x) msg sig \<and> set blamed \<subseteq> fst ` set tampers"
proof -
  let ?m = "message_scalar E msg" and ?A = "fst ` set tampers"
  let ?S = "sign_poly U Z ?m (fst nonce)"
  let ?honest = "map (\<lambda>q. sign_share q ?m) ps"
  let ?shares = "foldl (\<lambda>shares pf. replace_share pf shares) ?honest tampers"
  let ?good = "\<lambda>sh. sg_s sh = peval ?S (of_nat (sg_from sh))"
  have meta: "meta_of E (ps ! 0) U Z nonce" "nth_opt ps 0 = Some (ps ! 0)"
    using assms(4) [of "ps ! 0"] assms(6) by (auto simp: holds_def)
  have honest: "?good (sign_share q ?m)" if "q \<in> set ps" for q
    using assms(4) [OF that] by (simp add: holds_def meta_of_def sign_share_def peval_sign_poly)
  let ?key = "\<lambda>sh. (sg_from sh, sg_s sh)"
  have kept: "map ?key (filter (\<lambda>sh. sg_from sh \<notin> ?A) ?shares) = map ?key (filter (\<lambda>sh. sg_from sh \<notin> ?A) ?honest)"
    by (rule replaced_sublist)
  have good: "?good sh" if "sh \<in> set ?shares" "sg_from sh \<notin> ?A" for sh
  proof -
    have "?key sh \<in> set (map ?key (filter (\<lambda>sh. sg_from sh \<notin> ?A) ?honest))"
      unfolding kept [symmetric] using that by auto
    then obtain q where "q \<in> set ps" "?key sh = ?key (sign_share q ?m)" by auto
    then show ?thesis using honest by auto
  qed
  have "p_t p \<le> length (map ?key (filter (\<lambda>sh. sg_from sh \<notin> ?A) ?honest))"
    using assms(5) by (simp add: filter_map o_def sign_share_def)
  also have "\<dots> = length (filter (\<lambda>sh. sg_from sh \<notin> ?A) ?shares)"
    unfolding kept [symmetric] by simp
  also have "filter (\<lambda>sh. sg_from sh \<notin> ?A) ?shares = filter (\<lambda>sh. sg_from sh \<notin> ?A) (filter ?good ?shares)"
    using good by (auto intro!: filter_cong)
  also have "length \<dots> \<le> length (filter ?good ?shares)" by (rule length_filter_le)
  finally have quorum: "p_t p \<le> length (filter ?good ?shares)" .
  let ?blamed = "map sg_from (filter (\<lambda>sh. \<not> ?good sh) ?shares)"
  have "combine_robust E p (ps ! 0) ?m ?shares = Ok ((fst nonce, peval U 0 * (?m + fst nonce * x)), ?blamed)"
    using combine_robust_delivers [OF assms(1,2) meta(1) replaced_senders [OF assms(3)]] quorum by blast
  moreover have nz: "fst nonce \<noteq> 0" "peval U 0 * (?m + fst nonce * x) \<noteq> 0"
    using assms(2,7) by (auto simp: presig_ok_def)
  moreover obtain sig where norm: "normalized E (fst nonce, peval U 0 * (?m + fst nonce * x)) = Ok sig"
    using nz by (simp add: normalized_value [OF assms(1)])
  ultimately have run: "run_sign_robust E p ps msg tampers = Ok (sig, ?blamed)"
    by (simp add: run_sign_robust_def Let_def meta(2))
  have s: "peval ?S 0 = peval U 0 * (?m + fst nonce * x)"
    using assms(2) by (simp add: presig_ok_def peval_sign_poly algebra_simps)
  have "good_signature E (smul E (gen E) x) msg sig"
    using presig_ok_verifies [OF assms(1,2), of ?m] nz(2) by (intro normalized_good [OF assms(1) norm]) (simp add: s)
  moreover have "set ?blamed \<subseteq> ?A" using good by auto
  ultimately show ?thesis using run by blast
qed

section \<open>Stores serve one signature\<close>

lemma run_sign_stored_once:
  assumes "stores \<noteq> []" "\<forall>st \<in> set stores. store_ok st" "run_sign_stored E p stores rid msg tamper = (res, stores')"
  shows "fst (run_sign_stored E p stores' rid msg' tamper') = Err (PresigStore ''unknown or consumed presignature id'')"
proof -
  obtain st sts where st: "stores = st # sts" using assms(1) by (cases stores) auto
  have wf: "bt_wf (st_records st)" using assms(2) st by (simp add: store_ok_def records_ok_def)
  obtain st' sts' where next_st: "stores' = st' # sts'" "bt_get (st_records st') rid = None"
    using assms(3) bt_get_remove [OF wf, of rid rid] unfolding st run_sign_stored_def
    by (auto simp: store_consume_def split: option.splits prod.splits)
  then show ?thesis by (simp add: run_sign_stored_def store_consume_def)
qed

section \<open>Key-independent signing\<close>

lemma fst_bt_of_list: "fst ` set (bt_of_list xs) = fst ` set xs"
proof -
  have "fst ` set (foldl (\<lambda>m (k, v). bt_insert k v m) m xs) = fst ` set m \<union> fst ` set xs" for m
  proof (induction xs arbitrary: m)
    case (Cons kv xs)
    then show ?case by (cases kv) (simp add: fst_bt_insert)
  qed simp
  then show ?thesis by (simp add: bt_of_list_def)
qed

lemma ids_ok_bt: "bt_wf m \<Longrightarrow> \<forall>j \<in> fst ` set m. j < 2 ^ 64 \<Longrightarrow> ids_ok m"
  using bt.distinct_entries [of m] by (simp add: ids_ok_def)

lemma open_commit_value:
  assumes "k256_ok E" "bt_wf shares" "\<forall>j \<in> fst ` set shares. j < 2 ^ 64" "length cs \<le> t"
    and "open_com E t (commit E cs) shares ph = Ok v"
  shows "v = peval cs 0"
proof -
  have "smul E (gen E) v = com_eval_at_point E (commit E cs) 0"
    using open_at_binding [OF assms(1) ids_ok_bt [OF assms(2,3)], of "commit E cs" t 0 ph v] assms(4,5)
    by (simp add: open_com_def)
  then show ?thesis using assms(1) by (simp add: com_eval_commit smul_gen_inject)
qed

text \<open>The openings of R1 are bound by the public commitments, whatever the parties send.\<close>

lemma ki_masked_binding:
  fixes E :: "('f::field, 'g::ab_group_add, 'r) k256"
  assumes "k256_ok E" "length U \<le> p_t p" "length X \<le> p_t p" "length A \<le> p_t p" "length B \<le> p_t p"
    and heads: "nth_opt presigs 0 = Some p0" "kp_u_com p0 = commit E U" "nth_opt keys 0 = Some k0" "o_com k0 = commit E X"
      "nth_opt triple 0 = Some t0" "snd t0 = public_of E A B C"
    and small: "\<forall>q \<in> set presigs. kp_index q < 2 ^ 64" "\<forall>k \<in> set keys. o_index k < 2 ^ 64"
    and ok: "ki_masked E p triple keys presigs tamper = Ok (delta, eps)"
  shows "delta = peval U 0 - peval A 0 \<and> eps = peval X 0 - peval B 0"
proof -
  obtain ds es where ds: "mapR (\<lambda>(k, q). bindR (of_opt (nth_opt triple k)) (\<lambda>tr. Ok (kp_index q, kp_u_share q - ts_a (fst tr))))
        (List.enumerate 0 presigs) = (Ok ds :: _ result)"
    and es: "mapR (\<lambda>(k, key). bindR (of_opt (nth_opt triple k)) (\<lambda>tr. Ok (o_index key, o_share key - ts_b (fst tr))))
        (List.enumerate 0 keys) = (Ok es :: _ result)"
    using ok unfolding ki_masked_def heads of_opt_simps bindR.simps Let_def by (auto simp: bindR_Ok_iff)
  define d' where "d' = (case tamper of None \<Rightarrow> bt_of_list ds | Some tm \<Rightarrow> (case ks_bad_open_share tm of None \<Rightarrow> bt_of_list ds
      | Some j \<Rightarrow> (case bt_get (bt_of_list ds) j of None \<Rightarrow> bt_of_list ds | Some s \<Rightarrow> bt_insert j (s + 1) (bt_of_list ds))))"
  have opens: "open_com E (p_t p) (commit E (padd U (pscale (- 1) A))) d' Sign = Ok delta"
    "open_com E (p_t p) (commit E (padd X (pscale (- 1) B))) (bt_of_list es) Sign = Ok eps"
    using ok unfolding ki_masked_def heads of_opt_simps bindR.simps Let_def ds es d'_def [symmetric]
    by (auto simp: bindR_Ok_iff public_of_def mask_honest [OF assms(1)])
  have keys_d: "\<forall>j \<in> fst ` set ds. j < 2 ^ 64"
  proof -
    have "list_all2 (\<lambda>x y. fst y = kp_index (snd x)) (List.enumerate 0 presigs) ds"
      using ds unfolding mapR_Ok_iff by (rule list_all2_mono) (auto simp: bindR_Ok_iff)
    then show ?thesis using small(1) by (force simp: list_all2_conv_all_nth in_set_conv_nth nth_enumerate_eq)
  qed
  have keys_e: "\<forall>j \<in> fst ` set es. j < 2 ^ 64"
  proof -
    have "list_all2 (\<lambda>x y. fst y = o_index (snd x)) (List.enumerate 0 keys) es"
      using es unfolding mapR_Ok_iff by (rule list_all2_mono) (auto simp: bindR_Ok_iff)
    then show ?thesis using small(2) by (force simp: list_all2_conv_all_nth in_set_conv_nth nth_enumerate_eq)
  qed
  have wf: "bt_wf d'" unfolding d'_def by (auto simp: bt_wf_insert split: option.splits)
  have small': "\<forall>j \<in> fst ` set d'. j < 2 ^ 64"
  proof -
    have "fst ` set d' \<subseteq> fst ` set ds"
      unfolding d'_def by (auto simp: fst_bt_insert fst_bt_of_list split: option.splits)
        (metis bt_get_notin fst_bt_of_list image_iff option.distinct(1))
    then show ?thesis using keys_d by blast
  qed
  have "delta = peval (padd U (pscale (- 1) A)) 0"
    by (rule open_commit_value [OF assms(1) wf small' _ opens(1)]) (use assms(2,4) in simp)
  moreover have "eps = peval (padd X (pscale (- 1) B)) 0"
    by (rule open_commit_value [OF assms(1) _ _ _ opens(2)]) (use assms(3,5) keys_e in \<open>simp_all add: fst_bt_of_list\<close>)
  ultimately show ?thesis by simp
qed

lemma run_sign_ki_sound:
  fixes E :: "('f::field, 'g::ab_group_add, 'r) k256"
  assumes "k256_ok E" "params_new n t = Ok p" "t < 2 ^ 63" "n < 2 ^ 64" "n \<le> length rngs" "length X \<le> t"
    and nonce: "presig_ok E t 0 (peval X 0) U (pscale (peval X 0) U) nonce"
    and recs: "\<forall>q \<in> set presigs. kp_r q = fst nonce \<and> kp_u_com q = commit E U \<and> kp_index q < 2 ^ 64"
      "distinct (map kp_index presigs)"
    and keys: "\<forall>k \<in> set keys. o_com k = commit E X"
    and run: "run_sign_ki E p keys presigs msg tamper rngs = (Ok sig, rngs')"
  shows "good_signature E (smul E (gen E) (peval X 0)) msg sig"
proof -
  let ?m = "message_scalar E msg" and ?c = "full_committee n t"
  note p = params_facts [OF assms(2-4)]
  have guard: "\<not> (length keys \<noteq> length presigs \<or> (\<exists>(k, q) \<in> set (zip keys presigs). o_index k \<noteq> kp_index q))"
    using run by (auto simp: run_sign_ki_def split: if_splits)
  then have matched: "length keys = length presigs" "\<forall>(k, q) \<in> set (zip keys presigs). o_index k = kp_index q"
    by auto
  obtain p0 where p0: "nth_opt presigs 0 = Some p0"
    using run by (cases "nth_opt presigs 0") (auto simp: run_sign_ki_def split: if_splits)
  let ?sid = "str_bytes ''ohm-ecdsa/sign-ki/'' @ u64_be (kp_id p0)"
  obtain A B C rngs1 where gen: "generate_with_committee E ?c ?sid None rngs = (Ok (triples_of E ?c A B C), rngs1)"
    and mult: "multiplies t 0 A B C"
    using generate_multiplies [OF assms(1) p(3), of rngs ?sid] assms(5) p(4) by auto
  let ?tr = "triples_of E ?c A B C"
  have tr: "generate E p ?sid rngs = (Ok ?tr, rngs1)"
    unfolding generate_def generate_with_tamper_def p(2) bindS_liftR by (rule gen)
  obtain t0 where t0: "nth_opt ?tr 0 = Some t0" "snd t0 = public_of E A B C"
    using triples_of_first [OF p(3), of E A B C] by auto
  have len: "length A \<le> t" "length B \<le> t" "C \<noteq> []" "length C \<le> t" "peval C 0 = peval A 0 * peval B 0"
    using mult by (simp_all add: multiplies_def)
  obtain delta eps z_com shares0 r s where
    masked: "ki_masked E p ?tr keys presigs tamper = Ok (delta, eps)" and z: "ki_z_com E (snd t0) delta eps = Ok z_com"
    and shares0: "mapR (\<lambda>(k, q). bindR (of_opt (nth_opt ?tr k)) (\<lambda>tr. Ok (sign_share_ki q (ki_z_share (fst tr) delta eps) ?m)))
        (List.enumerate 0 presigs) = (Ok shares0 :: _ result)"
    and comb: "combine_ki E p p0 z_com ?m (case tamper of None \<Rightarrow> shares0 | Some tm \<Rightarrow> tamper_signers (ks_bad_sign_share tm) shares0) = Ok (r, s)"
    and norm: "normalized E (r, s) = Ok sig"
    using run unfolding run_sign_ki_def Let_def if_not_P [OF guard] p0 of_opt_simps bindS_liftR
      bindS_Ok [where m = "generate _ _ _", OF tr]
    by (auto simp: bindR_Ok_iff t0(1) simp del: upt_Suc One_nat_def)
  have keys0: "\<exists>k0. nth_opt keys 0 = Some k0 \<and> o_com k0 = commit E X"
    using keys p0 matched(1) by (auto simp: nth_opt_def split: if_splits)
  then obtain k0 where k0: "nth_opt keys 0 = Some k0" "o_com k0 = commit E X" by blast
  have p0': "p0 \<in> set presigs" using p0 by (auto simp: nth_opt_def split: if_splits)
  have small: "\<forall>k \<in> set keys. o_index k < 2 ^ 64"
  proof
    fix k assume "k \<in> set keys"
    then obtain i where "i < length keys" "keys ! i = k" by (auto simp: in_set_conv_nth)
    then have "(k, presigs ! i) \<in> set (zip keys presigs)" "presigs ! i \<in> set presigs"
      using matched(1) by (auto simp: in_set_zip)
    then show "o_index k < 2 ^ 64" using matched(2) recs(1) by fastforce
  qed
  have open_vals: "delta = peval U 0 - peval A 0 \<and> eps = peval X 0 - peval B 0"
    by (rule ki_masked_binding [OF assms(1) _ _ _ _ p0 _ k0 t0 _ small masked])
      (use assms(6) len recs(1) p0' nonce p(1) in \<open>auto simp: presig_ok_def\<close>)
  let ?Z = "beaver_poly A B C delta eps"
  have z_com: "z_com = commit E ?Z"
    using z ki_z_com_honest [OF assms(1) len(3), of A B delta eps] by (simp add: t0(2))
  have "length ?Z \<le> t" "peval ?Z 0 = peval U 0 * peval X 0"
    using len open_vals beaver_product [OF len(3,5), of delta U eps X] by (simp_all add: beaver_poly(2) [OF len(3)])
  then have "presig_ok E (p_t p) 0 (peval X 0) U ?Z nonce"
    using nonce unfolding presig_ok_def p(1) params.select_convs by blast
  moreover have "kp_r p0 = fst nonce" "kp_u_com p0 = commit E U" using recs(1) p0' by auto
  moreover have "senders_ok (case tamper of None \<Rightarrow> shares0 | Some tm \<Rightarrow> tamper_signers (ks_bad_sign_share tm) shares0)"
  proof -
    have "list_all2 (\<lambda>x sh. sg_from sh = kp_index (snd x)) (List.enumerate 0 presigs) shares0"
      using shares0 unfolding mapR_Ok_iff
      by (rule list_all2_mono) (auto simp: bindR_Ok_iff sign_share_ki_def)
    then have "map sg_from shares0 = map kp_index presigs"
      by (auto simp: list_all2_conv_all_nth nth_enumerate_eq intro!: nth_equalityI)
    then have "senders_ok shares0" using recs unfolding senders_ok_iff by auto
    then show ?thesis using senders_cong [OF tamper_signers_senders] by (auto split: option.splits)
  qed
  ultimately have "s \<noteq> 0 \<Longrightarrow> ecdsa_verifies E (smul E (gen E) (peval X 0)) ?m (r, s)"
    using combine_ki_sound [OF assms(1) _ _ _ _ comb [unfolded z_com]] by blast
  then show ?thesis by (rule normalized_good [OF assms(1) norm])
qed

text \<open>
  \<open>triple[k]\<close> is indexed by position in the presignature list, although the triple is dealt over the
  whole committee: for signers \<open>[1, 3]\<close> of three the honest party 3 is named.
\<close>

lemma ki_masked_subset_names_honest:
  fixes E :: "('f::field, 'g::ab_group_add, 'r) k256"
  assumes "k256_ok E" "peval A (of_nat 2) \<noteq> peval A (of_nat 3)"
  defines "c \<equiv> \<lparr>c_ids = [1, 2, 3], c_t = 2\<rparr>"
  assumes "presigs = map (\<lambda>j. \<lparr>kp_id = rid, kp_index = j, kp_r = r, kp_big_r = R, kp_u_share = peval U (of_nat j),
      kp_u_com = commit E U\<rparr>) [1, 3]"
    and "keys = map (joint_output E X) [1, 3]"
  shows "ki_masked E \<lparr>p_n = 3, p_t = 2\<rparr> (triples_of E c A B C) keys presigs None
    = abort Sign [3] ''share failed commitment check during opening''"
proof -
  let ?W = "padd U (pscale (- 1) A)"
  let ?ds = "[(1, peval U (of_nat 1) - peval A (of_nat 1)), (3, peval U (of_nat 3) - peval A (of_nat 2))] :: (nat \<times> 'f) list"
  have "bt_of_list ?ds = ?ds" by (rule bt_of_list_sorted) simp
  moreover have "cheaters E (commit E ?W) ?ds = [3]"
    using assms(1,2) by (simp add: cheaters_def verify_share_commit)
  ultimately have "open_com E 2 (commit E ?W) (bt_of_list ?ds) Sign
      = abort Sign [3] ''share failed commitment check during opening''"
    by (simp add: open_com_def open_at_cases)
  moreover have "nth_opt (triples_of E c A B C) k = Some (\<lparr>ts_index = [1, 2, 3] ! k, ts_a = peval A (of_nat ([1, 2, 3] ! k)),
      ts_b = peval B (of_nat ([1, 2, 3] ! k)), ts_c = peval C (of_nat ([1, 2, 3] ! k))\<rparr>, public_of E A B C)" if "k < 3" for k
    using that by (simp add: triples_of_def c_def public_of_def nth_opt_def del: list.map)
  ultimately show ?thesis
    by (simp add: ki_masked_def assms(4,5) joint_output_def public_of_def mask_honest [OF assms(1)] abort_def numeral_eq_Suc)
qed

end
