(* ===== verification/Sim_Delivery.thy ===== *)
theory Sim_Delivery
  imports Sim_Signing
begin

text \<open>
  Delivery: what the re-randomised and the key-independent signing functions of \<open>src/runtime/sim.rs\<close>
  return when every signer is honest. Only a zero \<open>r\<close> or \<open>s\<close> is refused.
\<close>

section \<open>Re-randomised signing\<close>

lemma run_sign_rerand_delivers:
  fixes E :: "('f::field, 'g::ab_group_add, 'r) k256"
  assumes "k256_ok E" "presig_ok E (p_t p) 0 x U Z nonce" "signers_ok ps" "\<And>q. q \<in> set ps \<Longrightarrow> holds E q U Z nonce"
    and "p_t p \<le> length ps" "ps \<noteq> []"
    and gamma: "rerand_gamma E sid (ps_id (ps ! 0)) (message_scalar E msg) tweak X = Some gamma"
  shows "\<exists>r'. rerand_factors E (snd nonce) gamma = Ok (inverse gamma, r')
    \<and> run_sign_rerand E p ps msg tweak sid X None = Some (normalized E (r', inverse gamma * peval U 0
        * (message_scalar E msg + r' * (x + (case tweak of None \<Rightarrow> 0 | Some tau \<Rightarrow> tau)))))"
proof -
  let ?m = "message_scalar E msg" and ?x = "x + (case tweak of None \<Rightarrow> 0 | Some tau \<Rightarrow> tau)"
  have g: "gamma \<noteq> 0" by (rule rerand_gamma_nonzero [OF gamma])
  obtain r' where rf: "rerand_factors E (snd nonce) gamma = Ok (inverse gamma, r')"
    using rerand_factors_total [OF assms(1,2) g] by blast
  let ?S = "sign_poly (pscale (inverse gamma) U) (pscale (inverse gamma) (tweaked U Z tweak)) ?m r'"
  let ?sh = "\<lambda>q. \<lparr>sg_from = ps_index q, sg_s = peval ?S (of_nat (ps_index q))\<rparr>"
  have share: "sign_share_rerand E q ?m gamma tweak = Ok (?sh q)" if "q \<in> set ps" for q
    using sign_share_rerand_poly [OF assms(4) [OF that] rf, of ?m tweak] by auto
  have shares: "mapR (\<lambda>q. sign_share_rerand E q ?m gamma tweak) ps = Ok (map ?sh ps)"
    unfolding mapR_Ok_iff by (rule list_all2_all_nthI) (simp_all add: share)
  have ok: "presig_ok E (p_t p) 0 ?x U (tweaked U Z tweak) nonce" by (rule presig_ok_tweaked [OF assms(2)])
  have len: "length ?S \<le> p_t p" using ok by (intro length_sign_poly) (simp_all add: presig_ok_def)
  have meta: "meta_of E (ps ! 0) U Z nonce" using assms(4) [of "ps ! 0"] assms(6) by (simp add: holds_def)
  have senders: "senders_ok (map ?sh ps)"
    using assms(3) by (simp add: senders_ok_iff signers_ok_def o_def)
  have "peval ?S 0 = inverse gamma * peval U 0 * (?m + r' * ?x)"
    using ok by (simp add: presig_ok_def peval_sign_poly algebra_simps)
  then have "combine_rerand E p (ps ! 0) ?m gamma tweak (map ?sh ps)
      = Ok (r', inverse gamma * peval U 0 * (?m + r' * ?x))"
    using assms(5) unfolding combine_rerand_commit [OF assms(1) meta rf]
      combine_verified_commit [OF assms(1) senders len] by simp
  then have "run_sign_rerand E p ps msg tweak sid X None
      = Some (normalized E (r', inverse gamma * peval U 0 * (?m + r' * ?x)))"
    using gamma shares assms(6) by (simp add: run_sign_rerand_def Let_def tamper_signers_def)
  then show ?thesis using rf by blast
qed

section \<open>Key-independent signing by the full committee\<close>

text \<open>A list taken by position beside a triple of the same committee.\<close>

lemma mapR_enumerate_map:
  assumes "\<And>i. i < length xs \<Longrightarrow> f (i, g (xs ! i)) = Ok (h (xs ! i))"
  shows "mapR f (List.enumerate 0 (map g xs)) = (Ok (map h xs) :: ('e, _) res)"
  unfolding mapR_Ok_iff by (rule list_all2_all_nthI) (simp_all add: nth_enumerate_eq assms)

lemma triples_of_nth:
  "i < c_n c \<Longrightarrow> nth_opt (triples_of E c A B C) i = Some (\<lparr>ts_index = c_ids c ! i, ts_a = peval A (of_nat (c_ids c ! i)),
     ts_b = peval B (of_nat (c_ids c ! i)), ts_c = peval C (of_nat (c_ids c ! i))\<rparr>, public_of E A B C)"
  by (simp add: triples_of_def c_n_def public_of_def)

lemma ki_masked_honest:
  fixes E :: "('f::field, 'g::ab_group_add, 'r) k256"
  assumes "k256_ok E" "committee_wf c" "c_t c = p_t p"
    and "length X \<le> p_t p" "length U \<le> p_t p" "length A \<le> p_t p" "length B \<le> p_t p"
  shows "ki_masked E p (triples_of E c A B C) (map (joint_output E X) (c_ids c)) (ki_presigs_of E c rid nonce U) None
    = Ok (peval U 0 - peval A 0, peval X 0 - peval B 0)"
proof -
  let ?tr = "triples_of E c A B C"
  note c = committee_wf_facts [OF assms(2)]
  have n: "length (c_ids c) = c_n c" "p_t p \<le> c_n c" using c(4) assms(3) by (simp_all add: c_n_def)
  have ds: "mapR (\<lambda>(k, q). bindR (of_opt (nth_opt ?tr k)) (\<lambda>tr. Ok (kp_index q, kp_u_share q - ts_a (fst tr))))
      (List.enumerate 0 (ki_presigs_of E c rid nonce U))
      = (Ok (map (\<lambda>j. (j, peval (padd U (pscale (- 1) A)) (of_nat j))) (c_ids c)) :: _ result)"
    unfolding ki_presigs_of_def by (rule mapR_enumerate_map) (simp add: triples_of_nth n(1))
  have es: "mapR (\<lambda>(k, key). bindR (of_opt (nth_opt ?tr k)) (\<lambda>tr. Ok (o_index key, o_share key - ts_b (fst tr))))
      (List.enumerate 0 (map (joint_output E X) (c_ids c)))
      = (Ok (map (\<lambda>j. (j, peval (padd X (pscale (- 1) B)) (of_nat j))) (c_ids c)) :: _ result)"
    by (rule mapR_enumerate_map) (simp add: triples_of_nth n(1))
  have sorted: "bt_of_list (map (\<lambda>j. (j, f j)) (c_ids c)) = map (\<lambda>j. (j, f j)) (c_ids c)" for f :: "nat \<Rightarrow> 'f"
    by (rule bt_of_list_sorted) (use assms(2) in \<open>simp add: committee_wf_def o_def\<close>)
  obtain t0 where t0: "nth_opt ?tr 0 = Some (t0, public_of E A B C)" using triples_of_first [OF assms(2)] by blast
  obtain q0 where q0: "nth_opt (ki_presigs_of E c rid nonce U) 0 = Some q0" "kp_u_com q0 = commit E U"
    using c(2) by (auto simp: ki_presigs_of_def nth_opt_def)
  obtain j0 where j0: "nth_opt (map (joint_output E X) (c_ids c)) 0 = Some (joint_output E X j0)"
    using outputs_first [OF assms(2)] by blast
  have opens: "open_at E 0 (p_t p) (commit E (padd P (pscale (- 1) Q))) (map (\<lambda>j. (j, peval (padd P (pscale (- 1) Q)) (of_nat j))) (c_ids c)) ph
      = Ok (peval (padd P (pscale (- 1) Q)) 0)" if "length P \<le> p_t p" "length Q \<le> p_t p" for P Q ph
    using that n(2) by (intro open_honest [OF assms(1,2)]) simp_all
  show ?thesis
    unfolding ki_masked_def t0 q0(1) j0 ds es
    using opens assms(4-7)
    by (simp add: q0(2) public_of_def mask_honest [OF assms(1)] sorted open_com_at Let_def)
qed

lemma run_sign_ki_delivers:
  fixes E :: "('f::field, 'g::ab_group_add, 'r) k256"
  assumes "k256_ok E" "params_new n t = Ok p" "t < 2 ^ 63" "n < 2 ^ 64" "n \<le> length rngs" "length X \<le> t"
    and nonce: "presig_ok E t 0 (peval X 0) U (pscale (peval X 0) U) nonce"
  defines "c \<equiv> full_committee n t"
  shows "\<exists>rngs'. run_sign_ki E p (map (joint_output E X) (c_ids c)) (ki_presigs_of E c rid nonce U) msg None rngs
    = (normalized E (fst nonce, peval U 0 * (message_scalar E msg + fst nonce * peval X 0)), rngs')"
proof -
  let ?m = "message_scalar E msg" and ?keys = "map (joint_output E X) (c_ids c)" and ?ps = "ki_presigs_of E c rid nonce U"
  note p = params_facts [OF assms(2-4), folded c_def]
  have guard: "\<not> (length ?keys \<noteq> length ?ps \<or> (\<exists>(k, q) \<in> set (zip ?keys ?ps). o_index k \<noteq> kp_index q))"
    by (auto simp: ki_presigs_of_def set_zip)
  have p0: "nth_opt ?ps 0 = Some (?ps ! 0)" "kp_r (?ps ! 0) = fst nonce" "kp_u_com (?ps ! 0) = commit E U" "kp_id (?ps ! 0) = rid"
    using committee_wf_facts(2) [OF p(3)] by (auto simp: ki_presigs_of_def)
  let ?sid = "str_bytes ''ohm-ecdsa/sign-ki/'' @ u64_be rid"
  obtain A B C rngs1 where gen: "generate_with_committee E c ?sid None rngs = (Ok (triples_of E c A B C), rngs1)"
    and mult: "multiplies t 0 A B C"
    using generate_multiplies [OF assms(1) p(3), of rngs ?sid] assms(5) p(4) by (auto simp: c_def)
  let ?tr = "triples_of E c A B C" and ?d = "peval U 0 - peval A 0" and ?e = "peval X 0 - peval B 0"
  let ?Z = "beaver_poly A B C ?d ?e"
  let ?S = "sign_poly U ?Z ?m (fst nonce)" let ?sh = "\<lambda>j. \<lparr>sg_from = j, sg_s = peval ?S (of_nat j)\<rparr>"
  have tr: "generate E p ?sid rngs = (Ok ?tr, rngs1)"
    unfolding generate_def generate_with_tamper_def p(2) bindS_liftR by (rule gen)
  have t0: "nth_opt ?tr 0 = Some (?tr ! 0)" "snd (?tr ! 0) = public_of E A B C"
    using triples_of_first [OF p(3), of E A B C] by (auto simp: nth_opt_def split: if_splits)
  have len: "length A \<le> t" "length B \<le> t" "C \<noteq> []" "length C \<le> t" "peval C 0 = peval A 0 * peval B 0" "length U \<le> t"
    using mult nonce by (simp_all add: multiplies_def presig_ok_def)
  have masked: "ki_masked E p ?tr ?keys ?ps None = Ok (?d, ?e)"
    by (rule ki_masked_honest [OF assms(1) p(3)]) (use len assms(6) p(1) in \<open>simp_all add: c_def\<close>)
  have z: "ki_z_com E (snd (?tr ! 0)) ?d ?e = Ok (commit E ?Z)"
    unfolding t0(2) by (rule ki_z_com_honest [OF assms(1) len(3)])
  have shares: "mapR (\<lambda>(k, q). bindR (of_opt (nth_opt ?tr k)) (\<lambda>tr. Ok (sign_share_ki q (ki_z_share (fst tr) ?d ?e) ?m)))
      (List.enumerate 0 ?ps) = (Ok (map ?sh (c_ids c)) :: _ result)"
    unfolding ki_presigs_of_def
    by (rule mapR_enumerate_map)
      (simp add: triples_of_nth c_n_def sign_share_ki_def ki_z_share_def peval_sign_poly beaver_poly(1) [OF len(3)])
  have poly: "length ?Z \<le> t" "peval ?Z 0 = peval U 0 * peval X 0"
    using len beaver_product [OF len(3,5), of ?d U ?e X] by (simp_all add: beaver_poly(2) [OF len(3)])
  have senders: "senders_ok (map ?sh (c_ids c))"
    using committee_wf_facts [OF p(3)] by (simp add: senders_ok_iff o_def)
  have slen: "length ?S \<le> p_t p" using poly(1) len(6) p(1) by (intro length_sign_poly) simp_all
  have enough: "p_t p \<le> length (c_ids c)"
    using committee_wf_facts(4) [OF p(3)] p(1) by (simp add: c_def)
  have "peval ?S 0 = peval U 0 * (?m + fst nonce * peval X 0)"
    by (simp add: peval_sign_poly poly(2) algebra_simps)
  then have comb: "combine_ki E p (?ps ! 0) (commit E ?Z) ?m (map ?sh (c_ids c))
      = Ok (fst nonce, peval U 0 * (?m + fst nonce * peval X 0))"
    using enough unfolding combine_ki_def p0(2,3) sign_com_commit [OF assms(1)] combine_verified_commit [OF assms(1) senders slen]
    by simp
  show ?thesis
    unfolding run_sign_ki_def Let_def if_not_P [OF guard] p0(1) of_opt_simps bindS_liftR p0(4)
      bindS_Ok [where m = "generate _ _ _", OF tr]
    using masked t0(1) z shares comb by simp
qed

end
