(* ===== verification/Signed_Drive.thy ===== *)
theory Signed_Drive
  imports Transport
begin

text \<open>
  The signed DKG driver of \<open>src/runtime/transport.rs\<close> against the unsigned one. \<open>drive_dkg_signed\<close> over a
  signing transport in which every party has a registered key behaves as \<open>drive_dkg\<close> over a plain
  transport: a forward simulation, step by step, whose relation says that the outer envelopes carry the
  plain ones, signed. The blame tokens it issues verify offline.
\<close>

section \<open>Programs that correspond\<close>

definition corresponds :: "('t \<Rightarrow> 'u \<Rightarrow> bool) \<Rightarrow> ('r, 't, error, 'a) driver
    \<Rightarrow> ('r, 'u, ('f, 'g, 's) signed_drive_error, 'a) driver \<Rightarrow> bool" where
  "corresponds R m m' \<longleftrightarrow> (\<forall>rngs t u. R t u \<longrightarrow> (\<exists>x' rngs' t' u'.
     m' (rngs, u) = (x', (rngs', u')) \<and> m (rngs, t) = (map_error sd_error x', (rngs', t')) \<and> R t' u'))"

lemma correspondsI:
  assumes "\<And>rngs t u. R t u \<Longrightarrow> \<exists>x' rngs' t' u'.
     m' (rngs, u) = (x', (rngs', u')) \<and> m (rngs, t) = (map_error sd_error x', (rngs', t')) \<and> R t' u'"
  shows "corresponds R m m'"
  using assms by (simp add: corresponds_def)

lemma correspondsD:
  assumes "corresponds R m m'" "R t u"
  shows "\<exists>x' rngs' t' u'. m' (rngs, u) = (x', (rngs', u')) \<and> m (rngs, t) = (map_error sd_error x', (rngs', t')) \<and> R t' u'"
  using assms by (simp add: corresponds_def)

named_theorems corr \<open>rules for corresponding programs\<close>

lemma corr_bind [corr]:
  assumes "corresponds R m m'" "\<And>a. corresponds R (f a) (f' a)"
  shows "corresponds R (bindS m f) (bindS m' f')"
proof (rule correspondsI)
  fix rngs t u assume "R t u"
  from correspondsD [OF assms(1) this] obtain x' rngs' t' u' where
    first: "m' (rngs, u) = (x', (rngs', u'))" "m (rngs, t) = (map_error sd_error x', (rngs', t'))" "R t' u'"
    by blast
  show "\<exists>x' rngs' t' u'. bindS m' f' (rngs, u) = (x', (rngs', u'))
      \<and> bindS m f (rngs, t) = (map_error sd_error x', (rngs', t')) \<and> R t' u'"
  proof (cases x')
    case (Ok a)
    then show ?thesis using first correspondsD [OF assms(2) first(3), of a rngs'] by (simp add: bindS_def)
  qed (use first in \<open>simp_all add: bindS_def\<close>)
qed

lemma corr_ret [corr]: "corresponds R (retS a) (retS a)"
  by (rule correspondsI) (simp add: retS_def)

lemma corr_lift [corr]: "r = map_error sd_error r' \<Longrightarrow> corresponds R (liftR r) (liftR r')"
  by (rule correspondsI) simp

lemma corr_mapS [corr]:
  assumes "\<And>x. x \<in> set xs \<Longrightarrow> corresponds R (f x) (f' x)"
  shows "corresponds R (mapS f xs) (mapS f' xs)"
  using assms by (induction xs) (auto intro!: corr)

lemma corr_rngs [corr]: "corresponds R (on_rngs m) (on_rngs' m)"
proof (rule correspondsI)
  fix rngs t u assume "R t u"
  then show "\<exists>x' rngs' t' u'. on_rngs' m (rngs, u) = (x', (rngs', u'))
      \<and> on_rngs m (rngs, t) = (map_error sd_error x', (rngs', t')) \<and> R t' u'"
    by (cases "m rngs"; cases "fst (m rngs)") (auto simp: on_rngs_def on_rngs'_def)
qed

text \<open>Reads of the transport.\<close>

lemma corr_read [corr]:
  assumes "\<And>t u. R t u \<Longrightarrow> f t = map_error sd_error (f' u)"
  shows "corresponds R (\<lambda>(rngs, t). liftR (f t) (rngs, t)) (\<lambda>(rngs, u). liftR (f' u) (rngs, u))"
  by (rule correspondsI) (use assms in auto)

lemma map_error_bind:
  "map_error h (bindR m f) = bindR (map_error h m) (\<lambda>a. map_error h (f a))"
  by (cases m) auto

lemma map_error_comp: "map_error sd_error (map_error signed_error r) = r"
  by (cases r) (simp_all add: signed_error_def)

lemma map_error_mapR: "map_error h (mapR f xs) = mapR (\<lambda>x. map_error h (f x)) xs"
  by (induction xs) (simp_all add: map_error_bind)

text \<open>Binding with a postcondition of the first program.\<close>

lemma corr_bind_post:
  assumes "corresponds R m m'" "\<And>s a s'. m s = (Ok a, s') \<Longrightarrow> Q a" "\<And>a. Q a \<Longrightarrow> corresponds R (f a) (f' a)"
  shows "corresponds R (bindS m f) (bindS m' f')"
proof (rule correspondsI)
  fix rngs t u assume "R t u"
  from correspondsD [OF assms(1) this] obtain x' rngs' t' u' where
    first: "m' (rngs, u) = (x', (rngs', u'))" "m (rngs, t) = (map_error sd_error x', (rngs', t'))" "R t' u'"
    by blast
  show "\<exists>x' rngs' t' u'. bindS m' f' (rngs, u) = (x', (rngs', u'))
      \<and> bindS m f (rngs, t) = (map_error sd_error x', (rngs', t')) \<and> R t' u'"
  proof (cases x')
    case (Ok a)
    then have "Q a" using assms(2) first(2) by simp
    then show ?thesis using Ok first correspondsD [OF assms(3) first(3), of a rngs'] by (simp add: bindS_def)
  qed (use first in \<open>simp_all add: bindS_def\<close>)
qed

lemma mapS_post:
  assumes "mapS f xs s = (Ok ys, s')" "\<And>x s a s'. x \<in> set xs \<Longrightarrow> f x s = (Ok a, s') \<Longrightarrow> P a"
  shows "\<forall>y \<in> set ys. P y"
  using assms
proof (induction xs arbitrary: s ys)
  case (Cons x xs)
  from Cons.prems(1) obtain y s1 zs where
    ys: "f x s = (Ok y, s1)" "mapS f xs s1 = (Ok zs, s')" "ys = y # zs"
    by (auto simp: bindS_Ok_iff retS_def)
  have "P y" by (rule Cons.prems(2) [OF _ ys(1)]) simp
  moreover have "\<forall>y \<in> set zs. P y"
    by (rule Cons.IH [OF ys(2)]) (rule Cons.prems(2), auto)
  ultimately show ?case by (simp add: ys(3))
qed (simp add: retS_def)

lemma on_transport_comp: "on_transport (\<lambda>t. g (f t)) = bindS (on_transport f) (\<lambda>_. on_transport g)"
  by (simp add: fun_eq_iff on_transport_def bindS_def)

section \<open>Signed envelopes over plain ones\<close>

definition inner :: "('m, 's) signed_envelope envelope \<Rightarrow> 'm envelope" where
  "inner x = se_envelope (e_payload x)"

definition same_header :: "('m, 's) signed_envelope envelope \<Rightarrow> bool" where
  "same_header x \<longleftrightarrow> e_sid x = e_sid (inner x) \<and> e_phase x = e_phase (inner x) \<and> e_round x = e_round (inner x)
     \<and> e_from x = e_from (inner x) \<and> e_to x = e_to (inner x)"

definition key_pair :: "('sk, 'vk, 's) sig_scheme \<Rightarrow> 'sk btree \<Rightarrow> 'vk btree \<Rightarrow> party_id \<Rightarrow> bool" where
  \<comment> \<open>\<open>i\<close> signs with a key whose public part is registered\<close>
  "key_pair G sks vks i \<longleftrightarrow> (\<exists>sk. bt_get sks i = Some sk \<and> bt_get vks i = Some (sig_public G sk))"

lemma collected_filter:
  assumes "\<And>x. x \<in> set xs \<Longrightarrow> P x = Q (f x)" "\<And>x. x \<in> set xs \<Longrightarrow> k x = k' (f x)"
  shows "map (\<lambda>(c, x). (c, f x)) (bt_of_list (map (\<lambda>x. (k x, x)) (filter P xs)))
    = bt_of_list (map (\<lambda>x. (k' x, x)) (filter Q (map f xs)))"
proof -
  have filters: "filter P xs = filter (Q \<circ> f) xs" by (rule filter_cong) (simp_all add: assms(1))
  have keys: "map (\<lambda>x. (k x, f x)) (filter (Q \<circ> f) xs) = map (\<lambda>x. (k' (f x), f x)) (filter (Q \<circ> f) xs)"
    by (rule map_cong) (auto simp: assms(2))
  have "map (\<lambda>(c, x). (c, f x)) (bt_of_list (map (\<lambda>x. (k x, x)) ys)) = bt_of_list (map (\<lambda>x. (k x, f x)) ys)" for ys
    using bt_of_list_map [of "\<lambda>_. f" "map (\<lambda>x. (k x, x)) ys"] by (simp add: o_def)
  then show ?thesis unfolding filters filter_map by (simp only: keys map_map) (simp add: o_def)
qed

lemma entries_of_collected: "(c, x) \<in> set (bt_of_list xs) \<Longrightarrow> (c, x) \<in> set xs"
proof -
  assume "(c, x) \<in> set (bt_of_list xs)"
  then have "map_of (rev xs) c = Some x" by (simp add: bt_entries_get bt_get_collected)
  then show ?thesis by (auto dest: map_of_SomeD)
qed

lemma unsigned_accepted:
  assumes "map (\<lambda>(c, x). (c, se_envelope x)) acc = bt_of_list xs"
  shows "unsigned acc = bt_of_list xs"
  using assms by (simp add: unsigned_def bt_of_list_idem)

lemma map_error_commits: "map_error h (commits_of envs) = commits_of envs"
  unfolding commits_of_def map_error_bind map_error_mapR
  by (auto intro!: arg_cong2 [where f = bindR] arg_cong2 [where f = mapR] simp: fun_eq_iff split: dkg_message.splits)

lemma map_error_reveals: "map_error h (reveals_of envs) = reveals_of envs"
  unfolding reveals_of_def map_error_bind map_error_mapR
  by (auto intro!: arg_cong2 [where f = bindR] arg_cong2 [where f = mapR] simp: fun_eq_iff split: dkg_message.splits)

lemma map_error_shares: "map_error h (shares_in pay ys) = shares_in pay ys"
  unfolding shares_in_def map_error_bind map_error_mapR
  by (auto intro!: arg_cong2 [where f = bindR] arg_cong2 [where f = mapR] simp: fun_eq_iff split: dkg_message.splits)

lemma shares_in_map: "shares_in pay (map (\<lambda>(c, x). (c, f x)) ys) = shares_in (\<lambda>x. pay (f x)) ys"
  unfolding shares_in_def mapR_map
  by (auto intro!: arg_cong2 [where f = bindR] arg_cong2 [where f = mapR] simp: fun_eq_iff)

lemma shares_in_signed:
  fixes acc :: "(('f::field, 'g) dkg_message, 's) signed_envelope btree"
  assumes "map (\<lambda>(c, x). (c, se_envelope x)) acc = envs"
  shows "map_error h (shares_in (\<lambda>x. e_payload (se_envelope x)) (corrupt_accepted tamper me corrupt_signed acc))
    = shares_in e_payload (corrupt_accepted tamper me (\<lambda>e. e\<lparr>e_payload := corrupt_message (e_payload e)\<rparr>) envs)"
proof -
  have "corrupt_accepted tamper me (\<lambda>e. e\<lparr>e_payload := corrupt_message (e_payload e)\<rparr>) envs
      = map (\<lambda>(c, x). (c, se_envelope x)) (corrupt_accepted tamper me corrupt_signed acc)"
    unfolding assms [symmetric] corrupt_accepted_map by (auto simp: corrupt_signed_def)
  then show ?thesis by (simp only: map_error_shares shares_in_map)
qed

lemma map_error_token: "map_error sd_error (map_error (\<lambda>e. \<lparr>sd_error = e, sd_token = F e\<rparr>) r) = r"
  by (cases r) simp_all

lemma drive_commit_me:
  assumes "drive_commit E ops p sid tag ph tamper (k, i) s = (Ok inst, s')"
  shows "di_me inst = i"
  using assms
  by (auto simp: drive_commit_def bindS_Ok_iff on_rngs_def dkg_start_def with_rng_def dkg_start_committee_def
      dkg_start_with_secret_def Let_def retS_def split: prod.splits if_splits)

lemma bindS_Err_iff:
  "bindS m f s = (Err e, s') \<longleftrightarrow> m s = (Err e, s') \<or> (\<exists>a s1. m s = (Ok a, s1) \<and> f a s1 = (Err e, s'))"
  by (auto simp: bindS_def split: prod.splits res.splits)

lemma mapR_Err: "mapR f xs = Err e \<Longrightarrow> \<exists>x \<in> set xs. f x = Err e"
  by (induction xs) (auto simp: bindR_Err_iff)

text \<open>Programs whose errors carry no token.\<close>

definition tokenless :: "('s, ('f, 'g, 'k) signed_drive_error, 'a) sm \<Rightarrow> bool" where
  "tokenless m \<longleftrightarrow> (\<forall>s er s'. m s = (Err er, s') \<longrightarrow> sd_token er = None)"

lemma tokenlessD: "tokenless m \<Longrightarrow> m s = (Err er, s') \<Longrightarrow> sd_token er = None"
  unfolding tokenless_def by blast

lemma tokenless_bind: "tokenless m \<Longrightarrow> (\<And>a. tokenless (f a)) \<Longrightarrow> tokenless (bindS m f)"
  by (fastforce simp: tokenless_def bindS_def split: prod.splits res.splits)

lemma tokenless_ret: "tokenless (retS a)"
  by (simp add: tokenless_def retS_def)

lemma tokenless_mapS: "(\<And>x. tokenless (f x)) \<Longrightarrow> tokenless (mapS f xs)"
  by (induction xs) (auto intro!: tokenless_bind tokenless_ret)

lemma tokenless_rngs: "tokenless (on_rngs' m)"
  by (auto simp: tokenless_def on_rngs'_def split: prod.splits res.splits)

lemma tokenless_signing:
  "tokenless (on_signing (signing_broadcast G enc ops e))" "tokenless (on_signing (signing_send_p2p G enc ops e))"
  by (auto simp: tokenless_def on_signing_def signing_broadcast_def signing_send_p2p_def sign_env_def of_opt_def Let_def
      split: prod.splits res.splits option.splits)

lemma tokenless_lift: "tokenless (liftR (map_error signed_error r))"
  by (cases r) (auto simp: tokenless_def signed_error_def)

lemmas tokenless_rules = tokenless_bind tokenless_ret tokenless_mapS tokenless_rngs tokenless_signing tokenless_lift

lemma find_key: "bt_get m k = Some v \<Longrightarrow> List.find (\<lambda>(p, _). p = k) m = Some (k, v)"
  by (induction m) (auto split: if_splits)

locale signed_pair = plain: transport ops bsent psent + outer: transport ops' bsent' psent'
  for ops :: "('t, ('f::field, 'g::ab_group_add) dkg_message) transport_ops" and bsent and psent
    and ops' :: "('u, (('f, 'g) dkg_message, 's) signed_envelope) transport_ops" and bsent' and psent'
begin

definition carries :: "('f, 'g, 'r) k256 \<Rightarrow> ('sk, 'vk, 's) sig_scheme \<Rightarrow> 'sk btree \<Rightarrow> 'vk btree
    \<Rightarrow> 't \<Rightarrow> ('u, 'sk, 'vk) signing_transport \<Rightarrow> bool" where
  "carries E G sks vks t st \<longleftrightarrow> sx_signing_keys st = sks \<and> sx_verifying_keys st = vks
     \<and> bsent t = map inner (bsent' (sx_inner st)) \<and> psent t = map inner (psent' (sx_inner st))
     \<and> (\<forall>x \<in> set (bsent' (sx_inner st)) \<union> set (psent' (sx_inner st)).
          same_header x \<and> signature_ok G (encode_message E) vks (e_payload x))"

lemma carriesD:
  assumes "carries E G sks vks t st"
  shows "sx_signing_keys st = sks" "sx_verifying_keys st = vks"
    "bsent t = map inner (bsent' (sx_inner st))" "psent t = map inner (psent' (sx_inner st))"
    "\<And>x. x \<in> set (bsent' (sx_inner st)) \<Longrightarrow> same_header x \<and> signature_ok G (encode_message E) vks (e_payload x)"
    "\<And>x. x \<in> set (psent' (sx_inner st)) \<Longrightarrow> same_header x \<and> signature_ok G (encode_message E) vks (e_payload x)"
  using assms by (auto simp: carries_def)

lemma sign_env_keyed:
  assumes "carries E G sks vks t st" "key_pair G sks vks (e_from e)" "sign_correct G"
  shows "\<exists>sgd. sign_env G (encode_message E) st e = (Ok sgd :: (('f, 'g, 's) signed_drive_error, _) res) \<and> se_envelope sgd = e
    \<and> signature_ok G (encode_message E) vks sgd"
proof -
  obtain sk where sk: "bt_get (sx_signing_keys st) (e_from e) = Some sk"
    "bt_get (sx_verifying_keys st) (e_from e) = Some (sig_public G sk)"
    using assms(1,2) by (auto simp: key_pair_def carries_def)
  from keys_verify [OF assms(3) sk] sk(1) show ?thesis
    using carriesD(2) [OF assms(1)] by (auto simp: sign_env_def signed_sign_def)
qed

lemma corr_broadcast:
  assumes "key_pair G sks vks (e_from e)" "sign_correct G" "e_to e = None"
  shows "corresponds (carries E G sks vks) (on_transport (op_broadcast ops e))
    (on_signing (signing_broadcast G (encode_message E) ops' e) :: ('r, _, ('f, 'g, 's) signed_drive_error, _) driver)"
proof (rule correspondsI)
  fix rngs :: "'r list" and t and st assume R: "carries E G sks vks t st"
  obtain sgd where sgd: "sign_env G (encode_message E) st e = (Ok sgd :: (('f, 'g, 's) signed_drive_error, _) res)" "se_envelope sgd = e"
    "signature_ok G (encode_message E) vks sgd"
    using sign_env_keyed [OF R assms(1,2)] by blast
  let ?x = "envelope_broadcast (e_sid e) (e_phase e) (e_round e) (e_from e) sgd"
  have "inner ?x = e" "same_header ?x" "e_payload ?x = sgd"
    using sgd(2) assms(3) by (simp_all add: inner_def envelope_broadcast_def same_header_def)
  then have "carries E G sks vks (op_broadcast ops e t) (st\<lparr>sx_inner := op_broadcast ops' ?x (sx_inner st)\<rparr>)"
    using R sgd(3) by (auto simp: carries_def plain.broadcast_sent outer.broadcast_sent)
  then show "\<exists>x' rngs' t' u'. on_signing (signing_broadcast G (encode_message E) ops' e) (rngs, st) = (x', (rngs', u'))
      \<and> on_transport (op_broadcast ops e) (rngs, t) = (map_error sd_error (x' :: (('f, 'g, 's) signed_drive_error, unit) res), (rngs', t')) \<and> carries E G sks vks t' u'"
    using sgd(1,2) by (simp add: on_signing_def signing_broadcast_def Let_def)
qed

lemma corr_send:
  assumes "key_pair G sks vks (e_from e)" "sign_correct G" "e_to e = Some to"
  shows "corresponds (carries E G sks vks) (on_transport (op_send_p2p ops e))
    (on_signing (signing_send_p2p G (encode_message E) ops' e) :: ('r, _, ('f, 'g, 's) signed_drive_error, _) driver)"
proof (rule correspondsI)
  fix rngs :: "'r list" and t and st assume R: "carries E G sks vks t st"
  obtain sgd where sgd: "sign_env G (encode_message E) st e = (Ok sgd :: (('f, 'g, 's) signed_drive_error, _) res)" "se_envelope sgd = e"
    "signature_ok G (encode_message E) vks sgd"
    using sign_env_keyed [OF R assms(1,2)] by blast
  let ?x = "envelope_p2p (e_sid e) (e_phase e) (e_round e) (e_from e) to sgd"
  have "inner ?x = e" "same_header ?x" "e_payload ?x = sgd"
    using sgd(2) assms(3) by (simp_all add: inner_def envelope_p2p_def same_header_def)
  then have "carries E G sks vks (op_send_p2p ops e t) (st\<lparr>sx_inner := op_send_p2p ops' ?x (sx_inner st)\<rparr>)"
    using R sgd(3) by (auto simp: carries_def plain.p2p_sent outer.p2p_sent)
  then show "\<exists>x' rngs' t' u'. on_signing (signing_send_p2p G (encode_message E) ops' e) (rngs, st) = (x', (rngs', u'))
      \<and> on_transport (op_send_p2p ops e) (rngs, t) = (map_error sd_error (x' :: (('f, 'g, 's) signed_drive_error, unit) res), (rngs', t')) \<and> carries E G sks vks t' u'"
    using sgd(1,2) assms(3) by (simp add: on_signing_def signing_send_p2p_def Let_def)
qed

text \<open>What is accepted agrees, after the signatures have been checked and taken off.\<close>

lemma accepted_signed:
  assumes "carries E G sks vks t st"
  shows "\<exists>acc. signing_accepted_broadcasts G (encode_message E) ops' sid ph r st = Ok acc
      \<and> map (\<lambda>(c, x). (c, se_envelope x)) acc = op_accepted_broadcasts ops sid ph r t
      \<and> (\<forall>(c, x) \<in> set acc. e_from (se_envelope x) = c \<and> e_phase (se_envelope x) = ph \<and> signature_ok G (encode_message E) vks x)"
    and "\<exists>acc. signing_accepted_p2p G (encode_message E) ops' sid ph r to st = Ok acc
      \<and> map (\<lambda>(c, x). (c, se_envelope x)) acc = op_accepted_p2p ops sid ph r to t
      \<and> (\<forall>(c, x) \<in> set acc. e_from (se_envelope x) = c \<and> e_phase (se_envelope x) = ph \<and> signature_ok G (encode_message E) vks x)"
proof -
  note R = carriesD [OF assms]
  have verified: "verify_all G (encode_message E) st ph (bt_of_list (map (\<lambda>x. (e_from x, x)) (filter P xs)))
      = (Ok (map (\<lambda>(c, x). (c, e_payload x)) (bt_of_list (map (\<lambda>x. (e_from x, x)) (filter P xs)))) :: _ result)"
    if "\<And>x. x \<in> set xs \<Longrightarrow> same_header x \<and> signature_ok G (encode_message E) vks (e_payload x)" for P xs
  proof -
    let ?raw = "bt_of_list (map (\<lambda>x. (e_from x, x)) (filter P xs))"
    have "(c, x) \<in> set ?raw \<Longrightarrow> signature_ok G (encode_message E) (sx_verifying_keys st) (e_payload x)" for c x
      using that entries_of_collected [of c x "map (\<lambda>x. (e_from x, x)) (filter P xs)"] by (auto simp: R(2))
    from verify_all_valid [of ?raw, OF this] show ?thesis
      using bt_of_list_map [of "\<lambda>_. e_payload" ?raw] by (simp add: bt_of_list_idem)
  qed
  have taken_off: "map (\<lambda>(c, x). (c, se_envelope x)) (map (\<lambda>(c, x). (c, e_payload x)) (bt_of_list (map (\<lambda>x. (e_from x, x)) (filter P xs))))
      = bt_of_list (map (\<lambda>x. (e_from x, x)) (filter Q (map inner xs)))"
    if "\<And>x. x \<in> set xs \<Longrightarrow> same_header x" "\<And>x. x \<in> set xs \<Longrightarrow> P x = Q (inner x)" for P Q xs
    using collected_filter [of xs P Q inner e_from e_from] that
    by (simp add: same_header_def inner_def o_def case_prod_unfold)
  have facts: "e_from (se_envelope y) = c \<and> e_phase (se_envelope y) = ph \<and> signature_ok G (encode_message E) vks y"
    if prems: "\<And>x. x \<in> set xs \<Longrightarrow> same_header x \<and> signature_ok G (encode_message E) vks (e_payload x)"
      "\<And>x. P x \<Longrightarrow> e_phase x = ph"
      "(c, y) \<in> set (map (\<lambda>(c, x). (c, e_payload x)) (bt_of_list (map (\<lambda>x. (e_from x, x)) (filter P xs))))" for P xs c y
  proof -
    obtain x where x: "y = e_payload x" "(c, x) \<in> set (map (\<lambda>x. (e_from x, x)) (filter P xs))"
      using prems(3) entries_of_collected by fastforce
    then have "x \<in> set xs" "P x" "c = e_from x" by auto
    then show ?thesis using prems(1) [of x] prems(2) [of x] x(1) by (simp add: same_header_def inner_def)
  qed
  let ?b = "\<lambda>e. e_sid e = sid \<and> e_phase e = ph \<and> e_round e = r"
  let ?p = "\<lambda>e. e_sid e = sid \<and> e_phase e = ph \<and> e_round e = r \<and> e_to e = Some to"
  show "\<exists>acc. signing_accepted_broadcasts G (encode_message E) ops' sid ph r st = Ok acc
      \<and> map (\<lambda>(c, x). (c, se_envelope x)) acc = op_accepted_broadcasts ops sid ph r t
      \<and> (\<forall>(c, x) \<in> set acc. e_from (se_envelope x) = c \<and> e_phase (se_envelope x) = ph \<and> signature_ok G (encode_message E) vks x)"
    unfolding signing_accepted_broadcasts_def outer.accepted_broadcasts plain.accepted_broadcasts R(3)
  proof (intro exI conjI)
    let ?acc = "map (\<lambda>(c, x). (c, e_payload x)) (bt_of_list (map (\<lambda>x. (e_from x, x)) (filter ?b (bsent' (sx_inner st)))))"
    show "verify_all G (encode_message E) st ph (bt_of_list (map (\<lambda>x. (e_from x, x)) (filter ?b (bsent' (sx_inner st))))) = Ok ?acc"
      by (rule verified [OF R(5)])
    show "map (\<lambda>(c, x). (c, se_envelope x)) ?acc = bt_of_list (map (\<lambda>x. (e_from x, x)) (filter ?b (map inner (bsent' (sx_inner st)))))"
      by (rule taken_off) (use R(5) in \<open>auto simp: same_header_def\<close>)
    show "\<forall>(c, x) \<in> set ?acc. e_from (se_envelope x) = c \<and> e_phase (se_envelope x) = ph \<and> signature_ok G (encode_message E) vks x"
    proof (rule ballI, unfold split_paired_all prod.case)
      fix c y assume "(c, y) \<in> set ?acc"
      then show "e_from (se_envelope y) = c \<and> e_phase (se_envelope y) = ph \<and> signature_ok G (encode_message E) vks y"
        by (rule facts [OF R(5), rotated 2]) simp_all
    qed
  qed
  show "\<exists>acc. signing_accepted_p2p G (encode_message E) ops' sid ph r to st = Ok acc
      \<and> map (\<lambda>(c, x). (c, se_envelope x)) acc = op_accepted_p2p ops sid ph r to t
      \<and> (\<forall>(c, x) \<in> set acc. e_from (se_envelope x) = c \<and> e_phase (se_envelope x) = ph \<and> signature_ok G (encode_message E) vks x)"
    unfolding signing_accepted_p2p_def outer.accepted_p2p plain.accepted_p2p R(4)
  proof (intro exI conjI)
    let ?acc = "map (\<lambda>(c, x). (c, e_payload x)) (bt_of_list (map (\<lambda>x. (e_from x, x)) (filter ?p (psent' (sx_inner st)))))"
    show "verify_all G (encode_message E) st ph (bt_of_list (map (\<lambda>x. (e_from x, x)) (filter ?p (psent' (sx_inner st))))) = Ok ?acc"
      by (rule verified [OF R(6)])
    show "map (\<lambda>(c, x). (c, se_envelope x)) ?acc = bt_of_list (map (\<lambda>x. (e_from x, x)) (filter ?p (map inner (psent' (sx_inner st)))))"
      by (rule taken_off) (use R(6) in \<open>auto simp: same_header_def\<close>)
    show "\<forall>(c, x) \<in> set ?acc. e_from (se_envelope x) = c \<and> e_phase (se_envelope x) = ph \<and> signature_ok G (encode_message E) vks x"
    proof (rule ballI, unfold split_paired_all prod.case)
      fix c y assume "(c, y) \<in> set ?acc"
      then show "e_from (se_envelope y) = c \<and> e_phase (se_envelope y) = ph \<and> signature_ok G (encode_message E) vks y"
        by (rule facts [OF R(6), rotated 2]) simp_all
    qed
  qed
qed

section \<open>The signed driver simulates the plain one\<close>

lemma corr_commit:
  assumes "key_pair G sks vks (snd ki)" "sign_correct G"
  shows "corresponds (carries E G sks vks) (drive_commit E ops p sid tag ph tamper ki)
    (signed_commit E G ops' p sid tag ph tamper ki :: ('r, _, ('f, 'g, 's) signed_drive_error, _) driver)"
proof -
  obtain k i where ki: "ki = (k, i)" by (cases ki)
  show ?thesis
    unfolding drive_commit_def signed_commit_def ki prod.case
    by (intro corr) (use assms ki in \<open>auto intro!: corr corr_broadcast simp: envelope_broadcast_def split: prod.split\<close>)
qed

lemma corr_sends:
  assumes "\<And>s. s \<in> set ss \<Longrightarrow> key_pair G sks vks (e_from (F s)) \<and> e_to (F s) = Some (T s)" "sign_correct G"
  shows "corresponds (carries E G sks vks) (on_transport (\<lambda>t. foldl (\<lambda>t s. op_send_p2p ops (F s) t) t ss))
    (bindS (mapS (\<lambda>s. on_signing (signing_send_p2p G (encode_message E) ops' (F s))) ss) (\<lambda>_. retS ())
      :: ('r, _, ('f, 'g, 's) signed_drive_error, _) driver)"
  using assms(1)
proof (induction ss)
  case Nil
  show ?case by (rule correspondsI) (simp add: retS_def bindS_def)
next
  case (Cons s ss)
  have split: "on_transport (\<lambda>t. foldl (\<lambda>t s. op_send_p2p ops (F s) t) t (s # ss))
      = bindS (on_transport (op_send_p2p ops (F s))) (\<lambda>_. on_transport (\<lambda>t. foldl (\<lambda>t s. op_send_p2p ops (F s) t) t ss))"
    using on_transport_comp [of "\<lambda>t. foldl (\<lambda>t s. op_send_p2p ops (F s) t) t ss" "op_send_p2p ops (F s)"] by simp
  have split': "bindS (mapS f (s # ss)) (\<lambda>_. retS ()) = bindS (f s) (\<lambda>_. bindS (mapS f ss) (\<lambda>_. retS ()))"
    for f :: "_ \<Rightarrow> ('r, _, ('f, 'g, 's) signed_drive_error, unit) driver"
    by (simp add: bindS_assoc) (simp add: bindS_def retS_def fun_eq_iff split: prod.split res.split)
  show ?case
    unfolding split split'
    by (intro corr corr_send [of G sks vks _ "T s"] Cons.IH) (use Cons.prems assms(2) in auto)
qed

lemma corr_reveal:
  assumes "key_pair G sks vks (di_me inst)" "sign_correct G"
  shows "corresponds (carries E G sks vks) (drive_reveal E ops sid ph inst)
    (signed_reveal E G ops' sid ph inst :: ('r, _, ('f, 'g, 's) signed_drive_error, _) driver)"
proof -
  have split: "on_transport (\<lambda>t. foldl (\<lambda>t s. op_send_p2p ops (F s) t) (op_broadcast ops e t) ss)
      = bindS (on_transport (op_broadcast ops e)) (\<lambda>_. on_transport (\<lambda>t. foldl (\<lambda>t s. op_send_p2p ops (F s) t) t ss))" for F e ss
    by (rule on_transport_comp)
  show ?thesis
    unfolding drive_reveal_def signed_reveal_def split
  proof (rule corr_bind_post [where Q = "\<lambda>(b2, ss). \<forall>s \<in> set ss. pp_from s = di_me inst"])
    show "corresponds (carries E G sks vks) (liftR (dkg_reveal E inst)) (liftR (map_error signed_error (dkg_reveal E inst)))"
      by (rule corr_lift) (simp add: map_error_comp)
  next
    fix s a s' assume "liftR (dkg_reveal E inst) s = (Ok a, s')"
    then show "case a of (b2, ss) \<Rightarrow> \<forall>s \<in> set ss. pp_from s = di_me inst"
      by (auto simp: dkg_reveal_def bindR_Ok_iff split: if_splits)
  next
    fix a :: "'g dkg_bcast2 \<times> 'f dkg_p2p list"
    assume a: "case a of (b2, ss) \<Rightarrow> \<forall>s \<in> set ss. pp_from s = di_me inst"
    obtain b2 ss where ss: "a = (b2, ss)" by (cases a)
    show "corresponds (carries E G sks vks)
        (case a of (b2, shares) \<Rightarrow> bindS (on_transport (op_broadcast ops (envelope_broadcast sid ph DKG_ROUND_REVEAL (di_me inst) (Reveal b2))))
          (\<lambda>_. on_transport (\<lambda>t. foldl (\<lambda>t s. op_send_p2p ops (envelope_p2p sid ph DKG_ROUND_REVEAL (pp_from s) (pp_to s) (Share s)) t) t shares)))
        ((case a of (b2, shares) \<Rightarrow> bindS (on_signing (signing_broadcast G (encode_message E) ops'
            (envelope_broadcast sid ph DKG_ROUND_REVEAL (di_me inst) (Reveal b2)))) (\<lambda>_.
          bindS (mapS (\<lambda>s. on_signing (signing_send_p2p G (encode_message E) ops'
            (envelope_p2p sid ph DKG_ROUND_REVEAL (pp_from s) (pp_to s) (Share s)))) shares) (\<lambda>_. retS ())))
          :: ('r, _, ('f, 'g, 's) signed_drive_error, _) driver)"
      unfolding ss prod.case
      by (intro corr_bind corr_broadcast corr_sends [where T = pp_to])
        (use a assms in \<open>auto simp: ss envelope_broadcast_def envelope_p2p_def\<close>)
  qed
qed

lemma corr_finalize:
  assumes "carries E G sks vks t st"
  shows "drive_finalize E ops sid ph tamper insts r1 r2 t inst
    = map_error sd_error (signed_finalize E G ops' sid ph tamper insts r1 r2 st inst)"
proof -
  obtain acc where acc: "signing_accepted_p2p G (encode_message E) ops' sid ph DKG_ROUND_REVEAL (di_me inst) st = Ok acc"
    "map (\<lambda>(c, x). (c, se_envelope x)) acc = op_accepted_p2p ops sid ph DKG_ROUND_REVEAL (di_me inst) t"
    using accepted_signed(2) [OF assms] by blast
  show ?thesis
    unfolding drive_finalize_def signed_finalize_def Let_def acc(1)
    by (simp add: map_error_bind shares_in_signed [OF acc(2)] map_error_token)
qed

lemma accepted_unsigned:
  assumes "carries E G sks vks t st"
  shows "\<exists>acc. signing_accepted_broadcasts G (encode_message E) ops' sid ph r st = Ok acc
      \<and> unsigned acc = op_accepted_broadcasts ops sid ph r t"
proof -
  obtain acc where acc: "signing_accepted_broadcasts G (encode_message E) ops' sid ph r st = Ok acc"
    "map (\<lambda>(c, x). (c, se_envelope x)) acc = op_accepted_broadcasts ops sid ph r t"
    using accepted_signed(1) [OF assms] by blast
  have "unsigned acc = op_accepted_broadcasts ops sid ph r t"
    using acc(2) unsigned_accepted [of acc] by (simp add: plain.accepted_broadcasts)
  with acc(1) show ?thesis by blast
qed

lemma commit_keyed:
  assumes "\<forall>i \<in> set (parties p). key_pair G sks vks i"
    and run: "mapS (drive_commit E ops p sid tag ph tamper) (List.enumerate 0 (parties p)) s = (Ok insts, s')"
  shows "\<forall>inst \<in> set insts. key_pair G sks vks (di_me inst)"
proof (rule mapS_post [OF run])
    fix ki s inst s'
    assume "ki \<in> set (List.enumerate 0 (parties p))" "drive_commit E ops p sid tag ph tamper ki s = (Ok inst, s')"
    then obtain k i where "i \<in> set (parties p)" "drive_commit E ops p sid tag ph tamper (k, i) s = (Ok inst, s')"
      by (cases ki rule: prod.exhaust) (fastforce intro: nth_mem simp: in_set_enumerate_eq)
    then show "key_pair G sks vks (di_me inst)" using assms(1) drive_commit_me by blast
qed

theorem drive_signed:
  assumes "\<forall>i \<in> set (parties p). key_pair G sks vks i" "sign_correct G"
  shows "corresponds (carries E G sks vks) (drive_dkg E ops p sid tag ph tamper)
    (drive_dkg_signed E G ops' p sid tag ph tamper :: ('r, _, ('f, 'g, 's) signed_drive_error, _) driver)"
  unfolding drive_dkg_def drive_dkg_signed_def
proof (rule corr_bind_post [where Q = "\<lambda>insts. \<forall>inst \<in> set insts. key_pair G sks vks (di_me inst)"])
  show "corresponds (carries E G sks vks) (mapS (drive_commit E ops p sid tag ph tamper) (List.enumerate 0 (parties p)))
      (mapS (signed_commit E G ops' p sid tag ph tamper) (List.enumerate 0 (parties p))
        :: ('r, _, ('f, 'g, 's) signed_drive_error, _) driver)"
    by (intro corr_mapS corr_commit assms(2)) (use assms(1) in \<open>auto simp: in_set_enumerate_eq\<close>)
next
  fix s a s' assume "mapS (drive_commit E ops p sid tag ph tamper) (List.enumerate 0 (parties p)) s = (Ok a, s')"
  then show "\<forall>inst \<in> set a. key_pair G sks vks (di_me inst)" by (rule commit_keyed [OF assms(1)])
next
  fix insts :: "('f, 'g) dkg_instance list" assume keyed: "\<forall>inst \<in> set insts. key_pair G sks vks (di_me inst)"
  show "corresponds (carries E G sks vks)
     (bindS (mapS (drive_reveal E ops sid ph) insts) (\<lambda>_ (rngs, tr). liftR (
       bindR (commits_of (op_accepted_broadcasts ops sid ph DKG_ROUND_COMMIT tr)) (\<lambda>r1.
       bindR (reveals_of (op_accepted_broadcasts ops sid ph DKG_ROUND_REVEAL tr)) (\<lambda>r2.
         mapR (drive_finalize E ops sid ph tamper insts r1 r2 tr) insts))) (rngs, tr)))
     (bindS (mapS (signed_reveal E G ops' sid ph) insts) (\<lambda>_ (rngs, st). liftR (
       bindR (map_error signed_error (signing_accepted_broadcasts G (encode_message E) ops' sid ph DKG_ROUND_COMMIT st)) (\<lambda>c1.
       bindR (commits_of (unsigned c1)) (\<lambda>r1.
       bindR (map_error signed_error (signing_accepted_broadcasts G (encode_message E) ops' sid ph DKG_ROUND_REVEAL st)) (\<lambda>c2.
       bindR (reveals_of (unsigned c2)) (\<lambda>r2.
         mapR (signed_finalize E G ops' sid ph tamper insts r1 r2 st) insts))))) (rngs, st))
       :: ('r, _, ('f, 'g, 's) signed_drive_error, _) driver)"
  proof (intro corr_bind corr_mapS corr_reveal corr_read assms(2))
    fix t and st assume R: "carries E G sks vks t st"
    obtain c1 c2 where c1: "signing_accepted_broadcasts G (encode_message E) ops' sid ph DKG_ROUND_COMMIT st = Ok c1"
        "unsigned c1 = op_accepted_broadcasts ops sid ph DKG_ROUND_COMMIT t"
      and c2: "signing_accepted_broadcasts G (encode_message E) ops' sid ph DKG_ROUND_REVEAL st = Ok c2"
        "unsigned c2 = op_accepted_broadcasts ops sid ph DKG_ROUND_REVEAL t"
      using accepted_unsigned [OF R] by blast
    show "bindR (commits_of (op_accepted_broadcasts ops sid ph DKG_ROUND_COMMIT t)) (\<lambda>r1.
        bindR (reveals_of (op_accepted_broadcasts ops sid ph DKG_ROUND_REVEAL t)) (\<lambda>r2.
          mapR (drive_finalize E ops sid ph tamper insts r1 r2 t) insts))
      = map_error sd_error (
        bindR (map_error signed_error (signing_accepted_broadcasts G (encode_message E) ops' sid ph DKG_ROUND_COMMIT st)) (\<lambda>c1.
        bindR (commits_of (unsigned c1)) (\<lambda>r1.
        bindR (map_error signed_error (signing_accepted_broadcasts G (encode_message E) ops' sid ph DKG_ROUND_REVEAL st)) (\<lambda>c2.
        bindR (reveals_of (unsigned c2)) (\<lambda>r2.
          mapR (signed_finalize E G ops' sid ph tamper insts r1 r2 st) insts)))))"
      unfolding c1 c2 map_error.simps bindR.simps map_error_bind map_error_commits map_error_reveals map_error_mapR
        corr_finalize [OF R] ..
  qed (use keyed in blast)
qed

section \<open>Blame tokens verify offline\<close>

lemma shares_in_not_Err: "shares_in pay ys \<noteq> Err e"
proof -
  have "mapR (\<lambda>(f, e). case pay e of Share s \<Rightarrow> Ok (f, pp_share s) | _ \<Rightarrow> Panic) ys \<noteq> Err e"
    by (rule mapR_not_Err) (auto split: dkg_message.splits)
  then show ?thesis by (auto simp: shares_in_def bindR_Err_iff)
qed

lemma token_of_error:
  assumes "dealer_blame_token E e acc r2 = Some tk"
  shows "\<exists>a dealer x b2 sh. e = Abort a \<and> ab_blamed a = [dealer] \<and> bt_get acc dealer = Some x \<and> bt_get r2 dealer = Some b2
    \<and> e_payload (se_envelope x) = Share sh \<and> pp_from sh = dealer \<and> \<not> verify_share E (b2_com b2) (pp_to sh) (pp_share sh)
    \<and> tk = \<lparr>tk_abort = a, tk_envelope = x, tk_com = b2_com b2\<rparr>"
  using assms unfolding dealer_blame_token_def
  by (auto split: error.splits list.splits option.splits dkg_message.splits if_splits)

lemma finalize_token:
  assumes "carries E G sks vks t st" "corrupt_of tamper = None"
    and "signed_finalize E G ops' sid ph tamper insts r1 r2 st inst = Err er" "sd_token er = Some tk"
  shows "sd_error er = Abort (tk_abort tk) \<and> token_verify E G tk vks"
proof -
  obtain acc where acc: "signing_accepted_p2p G (encode_message E) ops' sid ph DKG_ROUND_REVEAL (di_me inst) st = Ok acc"
    and hdr: "\<forall>(c, x) \<in> set acc. e_from (se_envelope x) = c \<and> e_phase (se_envelope x) = ph \<and> signature_ok G (encode_message E) vks x"
    using accepted_signed(2) [OF assms(1)] by blast
  have "corrupt_accepted tamper (di_me inst) corrupt_signed acc = acc"
    by (simp add: corrupt_accepted_map assms(2) case_prod_unfold)
  then obtain mine where "map_error (\<lambda>e. \<lparr>sd_error = e, sd_token = dealer_blame_token E e acc r2\<rparr>)
      (dkg_finalize E inst ph r1 r2 mine (defenses_of insts (di_me inst))) = Err er"
    using assms(3) unfolding signed_finalize_def Let_def acc by (auto simp: bindR_Err_iff shares_in_not_Err)
  then obtain e where err: "dkg_finalize E inst ph r1 r2 mine (defenses_of insts (di_me inst)) = Err e"
    "er = \<lparr>sd_error = e, sd_token = dealer_blame_token E e acc r2\<rparr>"
    by (cases "dkg_finalize E inst ph r1 r2 mine (defenses_of insts (di_me inst))") auto
  obtain a dealer x b2 sh where tk: "e = Abort a" "ab_blamed a = [dealer]" "bt_get acc dealer = Some x"
    "bt_get r2 dealer = Some b2" "e_payload (se_envelope x) = Share sh" "pp_from sh = dealer" "\<not> verify_share E (b2_com b2) (pp_to sh) (pp_share sh)"
    "tk = \<lparr>tk_abort = a, tk_envelope = x, tk_com = b2_com b2\<rparr>"
    using token_of_error [of E e acc r2 tk] assms(4) [unfolded err(2) signed_drive_error.select_convs]
    by (elim meta_impE exE conjE) (assumption, rule that)
  have "(dealer, x) \<in> set acc" using tk(3) by (auto simp: bt_get_map_of dest: map_of_SomeD)
  then have x: "e_from (se_envelope x) = dealer" "e_phase (se_envelope x) = ph" "signature_ok G (encode_message E) vks x"
    using hdr by auto
  have ph: "ab_phase a = ph" using finalize_blame err(1) tk(1) by blast
  obtain key where "bt_get vks dealer = Some key" "verify_signature G (encode_message E) x key"
    using x(1,3) by (auto simp: signature_ok_def)
  then have "token_verify E G tk vks"
    using tk x ph by (simp add: token_verify_def Let_def find_key)
  then show ?thesis using err(2) tk(1,8) by simp
qed

lemma last_round_token:
  assumes "carries E G sks vks t st" "corrupt_of tamper = None"
    and "bindR (map_error signed_error (signing_accepted_broadcasts G (encode_message E) ops' sid ph DKG_ROUND_COMMIT st)) (\<lambda>c1.
      bindR (commits_of (unsigned c1)) (\<lambda>r1.
      bindR (map_error signed_error (signing_accepted_broadcasts G (encode_message E) ops' sid ph DKG_ROUND_REVEAL st)) (\<lambda>c2.
      bindR (reveals_of (unsigned c2)) (\<lambda>r2.
        mapR (signed_finalize E G ops' sid ph tamper insts r1 r2 st) insts)))) = Err er"
    and tok: "sd_token er = Some tk"
  shows "sd_error er = Abort (tk_abort tk) \<and> token_verify E G tk vks"
proof -
  have no_err: "commits_of (unsigned c) \<noteq> Err er" "reveals_of (unsigned c) \<noteq> Err er" for c :: "(('f, 'g) dkg_message, 's) signed_envelope btree"
    by (auto simp: commits_of_def reveals_of_def bindR_Err_iff dest!: mapR_Err split: dkg_message.splits)
  obtain c1 c2 where "signing_accepted_broadcasts G (encode_message E) ops' sid ph DKG_ROUND_COMMIT st = Ok c1"
    "signing_accepted_broadcasts G (encode_message E) ops' sid ph DKG_ROUND_REVEAL st = Ok c2"
    using accepted_unsigned [OF assms(1)] by blast
  then have "bindR (commits_of (unsigned c1)) (\<lambda>r1. bindR (reveals_of (unsigned c2)) (\<lambda>r2.
      mapR (signed_finalize E G ops' sid ph tamper insts r1 r2 st) insts)) = Err er"
    using assms(3) by simp
  then obtain r1 r2 where "mapR (signed_finalize E G ops' sid ph tamper insts r1 r2 st) insts = Err er"
    unfolding bindR_Err_iff using no_err by blast
  from mapR_Err [OF this] obtain inst where "signed_finalize E G ops' sid ph tamper insts r1 r2 st inst = Err er"
    by blast
  from finalize_token [OF assms(1,2) this tok] show ?thesis .
qed

text \<open>Every token a run issues verifies against the registered keys.\<close>

lemma drive_signed_token:
  assumes "\<forall>i \<in> set (parties p). key_pair G sks vks i" "sign_correct G" "carries E G sks vks t st" "corrupt_of tamper = None"
    and run: "drive_dkg_signed E G ops' p sid tag ph tamper (rngs, st) = (Err er, st')" and tok: "sd_token er = Some tk"
  shows "sd_error er = Abort (tk_abort tk) \<and> token_verify E G tk vks"
proof -
  let ?commit = "mapS (signed_commit E G ops' p sid tag ph tamper) (List.enumerate 0 (parties p))
    :: (_, ('f, 'g, 's) signed_drive_error, _) sm"
  let ?reveal = "\<lambda>insts. mapS (signed_reveal E G ops' sid ph) insts :: (_, ('f, 'g, 's) signed_drive_error, _) sm"
  have quiet: "tokenless ?commit" "\<And>insts. tokenless (?reveal insts)"
    unfolding signed_commit_def signed_reveal_def
    by (intro tokenless_rules | auto intro!: tokenless_rules split: prod.split)+
  have R0: "corresponds (carries E G sks vks) (mapS (drive_commit E ops p sid tag ph tamper) (List.enumerate 0 (parties p))) ?commit"
    by (intro corr_mapS corr_commit assms(2)) (use assms(1) in \<open>auto simp: in_set_enumerate_eq\<close>)
  obtain insts s1 u s2 where steps: "?commit (rngs, st) = (Ok insts, s1)" "?reveal insts s1 = (Ok u, s2)"
    and last: "(case s2 of (rngs, st) \<Rightarrow> liftR (bindR (map_error signed_error (signing_accepted_broadcasts G (encode_message E) ops' sid ph DKG_ROUND_COMMIT st)) (\<lambda>c1.
      bindR (commits_of (unsigned c1)) (\<lambda>r1.
      bindR (map_error signed_error (signing_accepted_broadcasts G (encode_message E) ops' sid ph DKG_ROUND_REVEAL st)) (\<lambda>c2.
      bindR (reveals_of (unsigned c2)) (\<lambda>r2.
        mapR (signed_finalize E G ops' sid ph tamper insts r1 r2 st) insts))))) (rngs, st)) = (Err er, st')"
    using run tok unfolding drive_dkg_signed_def bindS_Err_iff
    by (auto dest: tokenlessD [OF quiet(1)] tokenlessD [OF quiet(2)])
  obtain rngs1 st1 rngs2 st2 where s12: "s1 = (rngs1, st1)" "s2 = (rngs2, st2)" by (cases s1; cases s2)
  obtain t1 rngs1' where "carries E G sks vks t1 st1"
      "mapS (drive_commit E ops p sid tag ph tamper) (List.enumerate 0 (parties p)) (rngs, t) = (Ok insts, (rngs1', t1))"
    using correspondsD [OF R0 assms(3), of rngs] steps(1) s12(1) by auto
  then have keyed: "\<forall>inst \<in> set insts. key_pair G sks vks (di_me inst)" and R1: "carries E G sks vks t1 st1"
    using commit_keyed [OF assms(1)] by blast+
  have R3: "corresponds (carries E G sks vks) (mapS (drive_reveal E ops sid ph) insts) (?reveal insts)"
    by (intro corr_mapS corr_reveal assms(2)) (use keyed in blast)
  then obtain t2 where R2: "carries E G sks vks t2 st2"
    using correspondsD [OF R3 R1, of rngs1] steps(2) s12 by auto
  show ?thesis
    by (rule last_round_token [OF R2 assms(4) _ tok]) (use last s12(2) in auto)
qed

end

section \<open>The simulated transport\<close>

interpretation signed_sim: signed_pair sim_ops sim_bcast sim_p2p sim_ops sim_bcast sim_p2p
  by unfold_locales (simp_all add: sim_ops_def sim_broadcast_def sim_send_p2p_def sim_accepted_broadcasts_def sim_accepted_p2p_def)

text \<open>A new signing transport carries the empty plain one.\<close>

lemma signing_new_carries:
  "signed_sim.carries E G (sx_signing_keys (signing_new G sim_new signers)) (sx_verifying_keys (signing_new G sim_new signers))
     sim_new (signing_new G sim_new signers)"
  by (simp add: signed_sim.carries_def signing_new_def sim_new_def)

lemma signing_new_key_pair:
  assumes "(i, sk) \<in> set signers" "distinct (map fst signers)"
  shows "key_pair G (sx_signing_keys (signing_new G t signers)) (sx_verifying_keys (signing_new G t signers)) i"
  unfolding key_pair_def using signing_new_keys [OF assms, where G = G and inner = t] by blast

end
