(* ===== verification/Sample_Curve.thy ===== *)
theory Sample_Curve
  imports Core Complex_Main
begin

text \<open>
  Concrete parameters on which the theorems of the development are evaluated: \<open>sample\<close> is a \<open>k256\<close>
  over the rationals, a group without the order of secp256k1 but with every law of \<open>k256_ok\<close>. It shows
  that the laws are consistent.
\<close>

definition rat_bytes :: "rat \<Rightarrow> bytes" where
  \<comment> \<open>sign, numerator and denominator\<close>
  "rat_bytes q = (case quotient_of q of (n, d) \<Rightarrow>
     (if n < 0 then 1 else 0) # u64_be (nat \<bar>n\<bar>) @ u64_be (nat d))"

definition sample :: "(rat, rat, nat) k256" where
  "sample = \<lparr>gen = 1, smul = (*), sha256 = (\<lambda>bs. u64_be (be_nat bs)), reduce = (\<lambda>bs. of_nat (Suc (be_nat bs))),
     pt_bytes = rat_bytes, pt_of_bytes = (\<lambda>_. None), x_bytes = (\<lambda>P. if P = 0 then None else Some (rat_bytes \<bar>P\<bar>)),
     sc_bytes = rat_bytes, sc_of_bytes = (\<lambda>_. None), is_high = (\<lambda>s. s > 0),
     sig_from_scalars = (\<lambda>r s. if r = 0 \<or> s = 0 then None else Some (r, s)),
     sig_normalize = (\<lambda>(r, s). if s > 0 then Some (r, - s) else None),
     rnd = (\<lambda>n. (of_nat n, Suc n))\<rparr>"

lemma sample_ok: "k256_ok sample"
  by (simp add: k256_ok_def module_law_def generator_law_def index_law_def x_law_def sig_law_def sample_def
      algebra_simps)

text \<open>The smallest committee with a redundant party: two of three.\<close>

definition trio :: committee where "trio = \<lparr>c_ids = [1, 2, 3], c_t = 2\<rparr>"

lemma trio_wf: "committee_wf trio"
  by (simp add: trio_def committee_wf_def)

lemma trio_simps [simp]: "c_n trio = 3" "c_ids trio = [1, 2, 3]" "c_t trio = 2"
  by (simp_all add: trio_def c_n_def)

lemma params_3_2: "params_new 3 2 = Ok \<lparr>p_n = 3, p_t = 2\<rparr>"
  by (simp add: params_new_def wsub_def wmul_def)

lemma params_4_2: "params_new 4 2 = Ok \<lparr>p_n = 4, p_t = 2\<rparr>"
  by (simp add: params_new_def wsub_def wmul_def)

lemma sample_gen [simp]: "gen sample = 1" "smul sample = (*)" "is_high sample s = (s > 0)"
  by (simp_all add: sample_def)

end
