(* ===== verification/Wire.thy ===== *)
theory Wire
  imports Transport
begin

text \<open>
  The frames between nodes (\<open>node/src/net/wire.rs\<close>, and the frame bounds of \<open>node/src/net/transport.rs\<close>): a
  protocol envelope as its sender signed it or an echo of a broadcast signed by the echoing party, their
  signature check, the size bounds, and length-prefixed framing over a byte stream. A stream is the list of
  outcomes of \<open>read\<close>: a chunk, an interruption or an error, then the end. The lemmas show that frames
  survive every chunking of the stream, and when they do not.
\<close>

section \<open>Messages\<close>

definition ECHO_TAG :: bytes where
  "ECHO_TAG = str_bytes ''OHM-ECDSA-NODE/v0.1/echo''"

definition MAX_SID :: nat where "MAX_SID = 128"

datatype ('m, 's) wire_message =
    Original "('m, 's) signed_envelope"
  | Echo party_id "('m, 's) signed_envelope" 's

datatype ('m, 's) received =
    Received_Original "('m, 's) signed_envelope"
  | Received_Echo party_id "('m, 's) signed_envelope"

record 'm frame_bound =
  fb_variant_max :: "'m \<Rightarrow> nat \<Rightarrow> nat"
  fb_family_max :: "nat \<Rightarrow> nat"

definition ORIGINAL_OVERHEAD :: nat where "ORIGINAL_OVERHEAD = 128 + MAX_SID"
definition ECHO_OVERHEAD :: nat where "ECHO_OVERHEAD = 200 + MAX_SID"

definition max_frame :: "'m frame_bound \<Rightarrow> nat \<Rightarrow> nat" where
  \<comment> \<open>a sum that does not fit \<open>u32\<close> becomes \<open>u32::MAX\<close>\<close>
  "max_frame B n = (let total = wadd ECHO_OVERHEAD (fb_family_max B n) in if total < 2 ^ 32 then total else 2 ^ 32 - 1)"

definition variant_max :: "'m frame_bound \<Rightarrow> ('m, 's) wire_message \<Rightarrow> nat \<Rightarrow> nat" where
  "variant_max B msg n = (case msg of
       Original se \<Rightarrow> wadd ORIGINAL_OVERHEAD (fb_variant_max B (e_payload (se_envelope se)) n)
     | Echo _ se _ \<Rightarrow> wadd ECHO_OVERHEAD (fb_variant_max B (e_payload (se_envelope se)) n))"

definition dkg_frame_bound :: "('f, 'g) dkg_message frame_bound" where
  "dkg_frame_bound = \<lparr>
     fb_variant_max = (\<lambda>m n. case m of Commit _ \<Rightarrow> 64 | Share _ \<Rightarrow> 64 | Reveal _ \<Rightarrow> wadd 64 (wmul 40 n)),
     fb_family_max = (\<lambda>n. wadd 64 (wmul 40 n))\<rparr>"

definition echo_bytes :: "('m \<Rightarrow> bytes) \<Rightarrow> ('s \<Rightarrow> bytes) \<Rightarrow> party_id \<Rightarrow> ('m, 's) signed_envelope \<Rightarrow> bytes" where
  "echo_bytes enc sig echoer se = ECHO_TAG @ put_u64 echoer @ encode_signed enc sig se"

definition wire_echo :: "('sk, 'vk, 's) sig_scheme \<Rightarrow> ('m \<Rightarrow> bytes) \<Rightarrow> ('s \<Rightarrow> bytes) \<Rightarrow> party_id
    \<Rightarrow> ('m, 's) signed_envelope \<Rightarrow> 'sk \<Rightarrow> ('m, 's) wire_message" where
  "wire_echo G enc sig echoer se key = Echo echoer se (sig_sign G key (echo_bytes enc sig echoer se))"

definition valid_original :: "('sk, 'vk, 's) sig_scheme \<Rightarrow> ('m \<Rightarrow> bytes) \<Rightarrow> 'vk btree \<Rightarrow> ('m, 's) signed_envelope \<Rightarrow> bool" where
  "valid_original G enc registry se = (case bt_get registry (e_from (se_envelope se)) of
       None \<Rightarrow> False
     | Some key \<Rightarrow> verify_signature G enc se key)"

definition wire_verify :: "('sk, 'vk, 's) sig_scheme \<Rightarrow> ('m \<Rightarrow> bytes) \<Rightarrow> ('s \<Rightarrow> bytes) \<Rightarrow> 'vk btree
    \<Rightarrow> ('m, 's) wire_message \<Rightarrow> bool" where
  "wire_verify G enc sig registry msg = (case msg of
       Original se \<Rightarrow> valid_original G enc registry se
     | Echo echoer se s \<Rightarrow>
         if echoer = e_from (se_envelope se) \<or> e_to (se_envelope se) \<noteq> None then False
         else valid_original G enc registry se
           \<and> (case bt_get registry echoer of
                None \<Rightarrow> False
              | Some key \<Rightarrow> sig_verify G key (echo_bytes enc sig echoer se) s))"

section \<open>Encoding\<close>

definition encode_wire :: "('m \<Rightarrow> bytes) \<Rightarrow> ('s \<Rightarrow> bytes) \<Rightarrow> ('m, 's) wire_message \<Rightarrow> bytes" where
  "encode_wire enc sig msg = (case msg of
       Original se \<Rightarrow> put_u8 1 @ encode_signed enc sig se
     | Echo echoer se s \<Rightarrow> put_u8 2 @ put_u64 echoer @ encode_signed enc sig se @ sig s)"

definition decode_wire :: "'m decoder \<Rightarrow> (bytes \<Rightarrow> 's option) \<Rightarrow> ('m, 's) wire_message decoder" where
  "decode_wire dec of_slice b = do {
     (tag, used) \<leftarrow> take_u8 b;
     rest \<leftarrow> get_from b used;
     (if tag = 1 then do { (se, u) \<leftarrow> decode_signed dec of_slice rest; Some (Original se, used + u) }
      else if tag = 2 then do {
        (echoer, u) \<leftarrow> take_u64 rest;
        let used = used + u;
        rest \<leftarrow> get_from b used;
        (se, u) \<leftarrow> decode_signed dec of_slice rest;
        let used = used + u;
        rest \<leftarrow> get_from b used;
        (s, u) \<leftarrow> decode_signature of_slice rest;
        Some (Echo echoer se s, used + u) }
      else None) }"

definition valid_wire :: "('m \<Rightarrow> bytes) \<Rightarrow> ('m \<Rightarrow> bool) \<Rightarrow> ('m, 's) wire_message \<Rightarrow> bool" where
  "valid_wire enc v msg \<longleftrightarrow> (case msg of
       Original se \<Rightarrow> valid_envelope enc v (se_envelope se)
     | Echo echoer se s \<Rightarrow> echoer < 2 ^ 64 \<and> valid_envelope enc v (se_envelope se))"

section \<open>Frames on a stream\<close>

datatype io_kind = Unexpected_Eof | Invalid_Data | Would_Block | Timed_Out | Other_Io

record io_error =
  io_kind :: io_kind
  io_text :: string

datatype read_event = Chunk bytes | Interrupted | Failed io_error

type_synonym stream = "read_event list"

definition invalid_data :: "string \<Rightarrow> io_error" where
  "invalid_data s = \<lparr>io_kind = Invalid_Data, io_text = s\<rparr>"

fun read_fill :: "(bytes \<Rightarrow> (io_error, bytes option) res) \<Rightarrow> nat \<Rightarrow> bytes \<Rightarrow> stream
    \<Rightarrow> (io_error, bytes option) res \<times> stream" where
  \<comment> \<open>read until \<open>n\<close> bytes are there; \<open>eof\<close> says what a read of zero bytes means after \<open>acc\<close>\<close>
  "read_fill eof n acc [] = (if n \<le> length acc then Ok (Some acc) else eof acc, [])"
| "read_fill eof n acc (ev # s) = (if n \<le> length acc then (Ok (Some acc), ev # s) else
     (case ev of
        Chunk b \<Rightarrow> if b = [] then (eof acc, s)
          else if length b \<le> n - length acc then read_fill eof n (acc @ b) s
          else (Ok (Some (acc @ take (n - length acc) b)), Chunk (drop (n - length acc) b) # s)
      | Interrupted \<Rightarrow> read_fill eof n acc s
      | Failed e \<Rightarrow> (Err e, s)))"

definition read_exact_or_eof :: "nat \<Rightarrow> stream \<Rightarrow> (io_error, bytes option) res \<times> stream" where
  \<comment> \<open>a clean end of the stream is \<open>None\<close>\<close>
  "read_exact_or_eof n = read_fill
     (\<lambda>acc. if acc = [] then Ok None else Err \<lparr>io_kind = Unexpected_Eof, io_text = ''truncated frame''\<rparr>) n []"

definition read_exact :: "nat \<Rightarrow> stream \<Rightarrow> (io_error, bytes option) res \<times> stream" where
  \<comment> \<open>\<open>Read::read_exact\<close>\<close>
  "read_exact n = read_fill (\<lambda>_. Err \<lparr>io_kind = Unexpected_Eof, io_text = ''failed to fill whole buffer''\<rparr>) n []"

definition frame_bytes :: "('m \<Rightarrow> bytes) \<Rightarrow> ('s \<Rightarrow> bytes) \<Rightarrow> ('m, 's) wire_message \<Rightarrow> (io_error, bytes) res" where
  "frame_bytes enc sig msg = (let buf = encode_wire enc sig msg in
     if length buf < 2 ^ 32 then Ok (be_bytes 4 (length buf) @ buf) else Err (invalid_data ''frame too large''))"

definition write_frame :: "('m \<Rightarrow> bytes) \<Rightarrow> ('s \<Rightarrow> bytes) \<Rightarrow> ('m, 's) wire_message \<Rightarrow> bytes \<Rightarrow> (io_error, bytes) res" where
  \<comment> \<open>the bytes written so far, and the frame after them\<close>
  "write_frame enc sig msg out = bindR (frame_bytes enc sig msg) (\<lambda>frame. Ok (out @ frame))"

definition read_frame :: "'m decoder \<Rightarrow> (bytes \<Rightarrow> 's option) \<Rightarrow> nat \<Rightarrow> stream
    \<Rightarrow> (io_error, (('m, 's) wire_message \<times> nat) option) res \<times> stream" where
  "read_frame dec of_slice cap s = (case read_exact_or_eof 4 s of
       (Err e, s) \<Rightarrow> (Err e, s)
     | (Panic, s) \<Rightarrow> (Panic, s)
     | (Ok None, s) \<Rightarrow> (Ok None, s)
     | (Ok (Some hdr), s) \<Rightarrow>
         let len = be_nat hdr in
         if len > cap then (Err (invalid_data ''frame too large''), s)
         else (case read_exact len s of
             (Err e, s) \<Rightarrow> (Err e, s)
           | (Panic, s) \<Rightarrow> (Panic, s)
           | (Ok None, s) \<Rightarrow> (Panic, s)
           | (Ok (Some buf), s) \<Rightarrow>
               (case decode_wire dec of_slice buf of
                  None \<Rightarrow> (Err (invalid_data ''malformed frame''), s)
                | Some (msg, used) \<Rightarrow>
                    if used \<noteq> length buf then (Err (invalid_data ''trailing bytes in frame''), s)
                    else (Ok (Some (msg, length buf)), s))))"

section \<open>The codec of wire messages\<close>

lemma wire_codec:
  fixes sig :: "'s \<Rightarrow> bytes"
  assumes "codec enc dec v" "signature_law sig of_slice"
  shows "codec (encode_wire enc sig) (decode_wire dec of_slice) (valid_wire enc v)"
proof unfold_locales
  note E = signed_codec [OF assms] and S = signature_codec [OF assms(2)]
  show "decode_wire dec of_slice (encode_wire enc sig x @ r) = Some (x, length (encode_wire enc sig x))"
    if "valid_wire enc v x" for x :: "('a, 's) wire_message" and r
    using that
    by (cases x) (simp_all add: decode_wire_def encode_wire_def valid_wire_def u8.dec_enc u64.dec_enc
        codec.dec_enc [OF E] codec.dec_enc [OF S] get_from_def length_put_u8 drop_append)
  show "valid_wire enc v x \<and> n \<le> length b \<and> take n b = encode_wire enc sig x"
    if dec: "decode_wire dec of_slice b = Some (x, n)" for b and x :: "('a, 's) wire_message" and n
  proof -
    from dec obtain tag u where tag: "take_u8 b = Some (tag, u)"
      unfolding decode_wire_def by (auto simp: decode_simps split_paired_Ex)
    from u8.dec_Some [OF tag] have u: "u \<le> length b" "take u b = put_u8 tag" by auto
    consider (original) se w where "tag = 1" "decode_signed dec of_slice (drop u b) = Some (se, w)" "x = Original se" "n = u + w"
      | (echo) k w se w2 s w3 where "tag = 2" "take_u64 (drop u b) = Some (k, w)" "u + w \<le> length b"
          "decode_signed dec of_slice (drop (u + w) b) = Some (se, w2)" "u + w + w2 \<le> length b"
          "decode_signature of_slice (drop (u + w + w2) b) = Some (s, w3)" "x = Echo k se s" "n = u + w + w2 + w3"
      using dec tag unfolding decode_wire_def
      by (auto simp: decode_simps split_paired_Ex Let_def split: if_splits)
    then show ?thesis
    proof cases
      case original
      with pair_decode [OF E u original(2)] show ?thesis by (simp add: valid_wire_def encode_wire_def)
    next
      case echo
      from pair_decode [OF u64.codec_axioms u echo(2)] have k: "k < 2 ^ 64" "take (u + w) b = put_u8 tag @ put_u64 k" by auto
      from pair_decode [OF E echo(3) k(2) echo(4)]
      have se: "valid_envelope enc v (se_envelope se)" "take (u + w + w2) b = (put_u8 tag @ put_u64 k) @ encode_signed enc sig se" by auto
      from pair_decode [OF S echo(5) se(2) echo(6)] k se echo show ?thesis
        by (simp add: valid_wire_def encode_wire_def)
    qed
  qed
qed

section \<open>Framing\<close>

definition stream_bytes :: "stream \<Rightarrow> bytes" where
  "stream_bytes s = concat (map (\<lambda>ev. case ev of Chunk b \<Rightarrow> b | _ \<Rightarrow> []) s)"

definition healthy :: "stream \<Rightarrow> bool" where
  \<comment> \<open>no error, and no chunk that would read as the end\<close>
  "healthy s \<longleftrightarrow> (\<forall>ev \<in> set s. case ev of Chunk b \<Rightarrow> b \<noteq> [] | Interrupted \<Rightarrow> True | Failed _ \<Rightarrow> False)"

lemma stream_bytes_simps [simp]:
  "stream_bytes [] = []" "stream_bytes (Chunk b # s) = b @ stream_bytes s"
  "stream_bytes (Interrupted # s) = stream_bytes s" "stream_bytes (Failed e # s) = stream_bytes s"
  by (simp_all add: stream_bytes_def)

lemma healthy_simps [simp]:
  "healthy []" "healthy (Chunk b # s) \<longleftrightarrow> b \<noteq> [] \<and> healthy s" "healthy (Interrupted # s) \<longleftrightarrow> healthy s"
  "\<not> healthy (Failed e # s)"
  by (auto simp: healthy_def)

lemma read_fill_healthy:
  assumes "healthy s" "length acc \<le> n" "n \<le> length acc + length (stream_bytes s)"
  shows "\<exists>s'. read_fill eof n acc s = (Ok (Some (acc @ take (n - length acc) (stream_bytes s))), s')
    \<and> healthy s' \<and> stream_bytes s' = drop (n - length acc) (stream_bytes s)"
  using assms
proof (induction s arbitrary: acc)
  case Nil
  then show ?case by simp
next
  case (Cons ev s)
  show ?case
  proof (cases "n \<le> length acc")
    case True
    then show ?thesis using Cons.prems by simp
  next
    case False
    show ?thesis
    proof (cases ev)
      case (Chunk b)
      show ?thesis
      proof (cases "length b \<le> n - length acc")
        case True
        then show ?thesis
          using Cons.IH [of "acc @ b"] Cons.prems False Chunk by (auto simp: diff_diff_left)
      next
        case long: False
        then show ?thesis using Cons.prems False Chunk by auto
      qed
    next
      case Interrupted
      then show ?thesis using Cons.IH [of acc] Cons.prems False by auto
    next
      case (Failed e)
      then show ?thesis using Cons.prems by simp
    qed
  qed
qed

lemma read_fill_end:
  assumes "healthy s" "stream_bytes s = []" "length acc < n"
  shows "read_fill eof n acc s = (eof acc, [])"
  using assms
proof (induction s)
  case (Cons ev s)
  then show ?case by (cases ev) auto
qed simp

text \<open>However the bytes of a frame are cut into chunks, reading returns the message and stops after it.\<close>

lemma read_frame_frame:
  assumes "codec enc dec v" "signature_law sig of_slice" "valid_wire enc v msg" "healthy s"
    and "length (encode_wire enc sig msg) \<le> cap" "cap < 2 ^ 32"
    and "stream_bytes s = be_bytes 4 (length (encode_wire enc sig msg)) @ encode_wire enc sig msg @ rest"
  shows "\<exists>s'. read_frame dec of_slice cap s = (Ok (Some (msg, length (encode_wire enc sig msg))), s')
    \<and> healthy s' \<and> stream_bytes s' = rest"
proof -
  let ?buf = "encode_wire enc sig msg"
  have lt: "length ?buf < 2 ^ 32" using assms(5,6) by simp
  obtain s1 where s1: "read_exact_or_eof 4 s = (Ok (Some (be_bytes 4 (length ?buf))), s1)"
    "healthy s1" "stream_bytes s1 = ?buf @ rest"
    using read_fill_healthy [OF assms(4), of "[]" 4] assms(7) unfolding read_exact_or_eof_def by force
  obtain s2 where s2: "read_exact (length ?buf) s1 = (Ok (Some ?buf), s2)" "healthy s2" "stream_bytes s2 = rest"
    using read_fill_healthy [OF s1(2), of "[]" "length ?buf"] s1(3) unfolding read_exact_def by force
  have "be_nat (be_bytes 4 (length ?buf)) = length ?buf"
    using lt by (simp add: be_nat_be_bytes)
  then show ?thesis
    using s1 s2 assms(5) codec.dec_enc_exact [OF wire_codec [OF assms(1,2)] assms(3)]
    by (simp add: read_frame_def)
qed

lemma read_frame_end:
  assumes "healthy s" "stream_bytes s = []"
  shows "read_frame dec of_slice cap s = (Ok None, [])"
  using read_fill_end [OF assms, of "[]" 4] by (simp add: read_frame_def read_exact_or_eof_def)

section \<open>Frame bounds\<close>

lemma length_encode_signed:
  assumes "signature_law sig of_slice"
  shows "length (encode_signed enc sig se) = 91 + length (e_sid (se_envelope se))
    + (case e_to (se_envelope se) of None \<Rightarrow> 0 | Some _ \<Rightarrow> 8) + length (enc (e_payload (se_envelope se)))"
  using assms
  by (auto simp: encode_signed_def encode_envelope_def put_bytes_def length_put_u8 encode_to_def signature_law_def
      split: option.splits)

text \<open>
  The overheads are generous: a message whose session id has the admitted length and whose payload meets its
  own bound is a frame within the bound of its variant, and within the pre-allocation cap.
\<close>

lemma frame_within_bounds:
  assumes "signature_law sig of_slice" "msg = Original se \<or> msg = Echo k se s" "length (e_sid (se_envelope se)) \<le> MAX_SID"
    and payload: "length (enc (e_payload (se_envelope se))) \<le> fb_variant_max B (e_payload (se_envelope se)) n"
    and family: "fb_variant_max B (e_payload (se_envelope se)) n \<le> fb_family_max B n" "fb_family_max B n < 2 ^ 31"
  shows "length (encode_wire enc sig msg) \<le> variant_max B msg n \<and> variant_max B msg n \<le> max_frame B n \<and> max_frame B n < 2 ^ 32"
proof -
  note len = length_encode_signed [OF assms(1), of enc se]
  have sig: "length (sig s) = 64" using assms(1) by (simp add: signature_law_def)
  have "(case e_to (se_envelope se) of None \<Rightarrow> 0 | Some _ \<Rightarrow> 8) \<le> (8 :: nat)" by (simp split: option.split)
  then have enc: "length (encode_signed enc sig se) \<le> 227 + fb_variant_max B (e_payload (se_envelope se)) n"
    using len assms(3) payload by (simp add: MAX_SID_def)
  have vm: "variant_max B (Original se) n = 256 + fb_variant_max B (e_payload (se_envelope se)) n"
    "variant_max B (Echo k se s) n = 328 + fb_variant_max B (e_payload (se_envelope se)) n"
    "max_frame B n = 328 + fb_family_max B n"
    using family by (simp_all add: variant_max_def max_frame_def ORIGINAL_OVERHEAD_def ECHO_OVERHEAD_def MAX_SID_def wadd_exact)
  show ?thesis
    using assms(2) enc family sig
    by (elim disjE) (simp_all add: vm encode_wire_def length_put_u8)
qed

lemma length_put_point:
  assumes "codec_law E"
  shows "length (put_point E p) \<le> 33"
  using codec_lawD(3,5) [OF assms] by (cases "p = 0") (auto simp: put_point_def)

lemma length_points:
  assumes "codec_law E"
  shows "length (concat (map (put_point E) ps)) \<le> 33 * length ps"
proof (induction ps)
  case (Cons p ps)
  then show ?case using length_put_point [OF assms, of p] by simp
qed simp

definition message_degree :: "('f, 'g) dkg_message \<Rightarrow> nat" where
  \<comment> \<open>the number of points of a revealed commitment\<close>
  "message_degree m = (case m of Reveal b \<Rightarrow> length (points (b2_com b)) | _ \<Rightarrow> 0)"

lemma dkg_message_within_bound:
  assumes "codec_law E" "valid_message m" "message_degree m \<le> n" "n < 2 ^ 24"
  shows "length (encode_message E m) \<le> fb_variant_max dkg_frame_bound m n"
    and "fb_variant_max dkg_frame_bound m n \<le> fb_family_max dkg_frame_bound n"
proof -
  have mult: "wadd 64 (wmul 40 n) = 64 + 40 * n" using assms(4) by (simp add: wadd_def wmul_def)
  show "length (encode_message E m) \<le> fb_variant_max dkg_frame_bound m n"
  proof (cases m)
    case (Reveal b)
    then show ?thesis
      using assms(3) length_points [OF assms(1), of "points (b2_com b)"] mult
      by (simp add: dkg_frame_bound_def message_degree_def encode_message_def encode_bcast2_def encode_commitment_def length_put_u8)
  qed (use assms(2) codec_lawD(1) [OF assms(1)] in \<open>simp_all add: dkg_frame_bound_def encode_message_def encode_bcast1_def encode_p2p_def
      put_bytes_def put_scalar_def length_put_u8 valid_message_def valid_bcast1_def\<close>)
  show "fb_variant_max dkg_frame_bound m n \<le> fb_family_max dkg_frame_bound n"
    using mult by (simp add: dkg_frame_bound_def split: dkg_message.split)
qed

section \<open>Signatures\<close>

text \<open>What an honest party sends verifies: its originals, and its echoes of another party's broadcast.\<close>

lemma honest_original_verifies:
  assumes "sign_correct G" "bt_get registry (e_from e) = Some (sig_public G key)"
  shows "wire_verify G enc sig registry (Original (signed_sign G enc e key))"
  using assms by (simp add: wire_verify_def valid_original_def verify_signature_def signed_sign_def sign_correct_def)

lemma honest_echo_verifies:
  assumes "sign_correct G" "bt_get registry k = Some (sig_public G key)" "valid_original G enc registry se"
    and "k \<noteq> e_from (se_envelope se)" "e_to (se_envelope se) = None"
  shows "wire_verify G enc sig registry (wire_echo G enc sig k se key)"
  using assms by (simp add: wire_verify_def wire_echo_def sign_correct_def)

text \<open>A party's echo of its own broadcast, and any echo of a direct message, is refused.\<close>

lemma self_echo_refused: "\<not> wire_verify G enc sig registry (Echo (e_from (se_envelope se)) se s)"
  by (simp add: wire_verify_def)

lemma p2p_echo_refused: "e_to (se_envelope se) = Some j \<Longrightarrow> \<not> wire_verify G enc sig registry (Echo k se s)"
  by (simp add: wire_verify_def)

end
