(* ===== verification/Node_Payload.thy ===== *)
theory Node_Payload
  imports Wire
begin

text \<open>
  The payloads of the per-party drivers (\<open>node/src/party/party.rs\<close>): the message type, its canonical encoding
  and its frame bounds. A reconstruction request carries a signed payload of the same type, so encoder and
  decoder are recursive; the decoder's depth is bounded by the length of its input, and the codec contract
  below shows that the bound is never met.
\<close>

section \<open>Payloads\<close>

record ('f, 'g) triple_deal_msg =
  td_com :: "'g feldman"
  td_x1 :: 'g
  td_x2 :: 'g
  td_proof :: "('f, 'g) dleq_proof"

type_synonym ('m, 's) sealed = "(bytes \<times> phase \<times> byte \<times> party_id \<times> party_id option \<times> 'm) \<times> 's"

datatype ('f, 'g, 's) node_payload =
    Dkg "('f, 'g) dkg_message"
  | Complaints "party_id list"
  | Defenses "(party_id \<times> 'f) list"
  | Node_Sign_Share nat 'f
  | Triple_Deal "('f, 'g) triple_deal_msg"
  | Reshare 'f
  | Beaver_Open 'f 'f
  | Open_Share 'f
  | Nonce_Point 'g
  | Reshare_Requests "(party_id \<times> (('f, 'g, 's) node_payload, 's) sealed) list"
  | Reshare_Supply "(party_id \<times> 'f) list"

fun unseal :: "('m, 's) sealed \<Rightarrow> ('m, 's) signed_envelope" where
  \<comment> \<open>a signed envelope inside a payload\<close>
  "unseal ((sid, ph, r, frm, to, m), s) = \<lparr>se_envelope = \<lparr>e_sid = sid, e_phase = ph, e_round = r, e_from = frm,
     e_to = to, e_payload = m\<rparr>, se_signature = s\<rparr>"

definition seal_in :: "('m, 's) signed_envelope \<Rightarrow> ('m, 's) sealed" where
  "seal_in se = (let e = se_envelope se in
     ((e_sid e, e_phase e, e_round e, e_from e, e_to e, e_payload e), se_signature se))"

lemma unseal_seal_in [simp]: "unseal (seal_in se) = se"
  by (simp add: seal_in_def Let_def)

lemma seal_in_unseal [simp]: "seal_in (unseal x) = x"
  by (cases x rule: unseal.cases) (simp add: seal_in_def Let_def)

section \<open>Encoding\<close>

definition encode_list :: "('a \<Rightarrow> bytes) \<Rightarrow> 'a list \<Rightarrow> bytes" where
  "encode_list enc xs = put_u64 (length xs) @ concat (map enc xs)"

definition encode_id_scalar :: "('f, 'g, 'r) k256 \<Rightarrow> party_id \<times> 'f \<Rightarrow> bytes" where
  "encode_id_scalar E p = put_u64 (fst p) @ put_scalar E (snd p)"

definition encode_deal :: "('f, 'g, 'r) k256 \<Rightarrow> ('f, 'g) triple_deal_msg \<Rightarrow> bytes" where
  "encode_deal E d = encode_commitment E (td_com d) @ put_point E (td_x1 d) @ put_point E (td_x2 d)
     @ put_point E (d_t1 (td_proof d)) @ put_point E (d_t2 (td_proof d)) @ put_scalar E (d_z (td_proof d))"

lemma encode_signed_cong [fundef_cong]:
  assumes "x = y" "enc (e_payload (se_envelope y)) = enc' (e_payload (se_envelope y))"
  shows "encode_signed enc sig x = encode_signed enc' sig y"
  using assms by (simp add: encode_signed_def encode_envelope_def)

lemma encode_list_cong [fundef_cong]:
  assumes "xs = ys" "\<And>x. x \<in> set ys \<Longrightarrow> enc x = enc' x"
  shows "encode_list enc xs = encode_list enc' ys"
  using assms by (simp add: encode_list_def cong: map_cong)

function encode_payload :: "('f, 'g, 'r) k256 \<Rightarrow> ('s \<Rightarrow> bytes) \<Rightarrow> ('f, 'g, 's) node_payload \<Rightarrow> bytes" where
  "encode_payload E sig (Dkg m) = put_u8 1 @ encode_message E m"
| "encode_payload E sig (Complaints ds) = put_u8 2 @ encode_list put_u64 ds"
| "encode_payload E sig (Defenses ds) = put_u8 3 @ encode_list (encode_id_scalar E) ds"
| "encode_payload E sig (Node_Sign_Share k s) = put_u8 4 @ put_u64 k @ put_scalar E s"
| "encode_payload E sig (Triple_Deal d) = put_u8 5 @ encode_deal E d"
| "encode_payload E sig (Reshare s) = put_u8 6 @ put_scalar E s"
| "encode_payload E sig (Beaver_Open a b) = put_u8 7 @ put_scalar E a @ put_scalar E b"
| "encode_payload E sig (Open_Share s) = put_u8 8 @ put_scalar E s"
| "encode_payload E sig (Nonce_Point p) = put_u8 9 @ put_point E p"
| "encode_payload E sig (Reshare_Requests rs) = put_u8 10 @ encode_list
     (\<lambda>(d, x). put_u64 d @ encode_signed (encode_payload E sig) sig (unseal x)) rs"
| "encode_payload E sig (Reshare_Supply ss) = put_u8 11 @ encode_list (encode_id_scalar E) ss"
  by pat_completeness auto

lemma sealed_size:
  assumes "(d, x) \<in> set rs"
  shows "size (e_payload (se_envelope (unseal x))) < size (Reshare_Requests rs)"
  using assms
proof (induction rs)
  case (Cons r rs)
  then show ?case by (cases x rule: unseal.cases) auto
qed simp

termination encode_payload
  by (relation "measure (\<lambda>(E, sig, p). size p)") (use sealed_size in auto)

section \<open>Decoding\<close>

primrec take_many :: "'a decoder \<Rightarrow> nat \<Rightarrow> bytes \<Rightarrow> nat \<Rightarrow> 'a list \<Rightarrow> ('a list \<times> nat) option" where
  \<comment> \<open>\<open>n\<close> more elements from offset \<open>used\<close>\<close>
  "take_many dec 0 b used acc = Some (acc, used)"
| "take_many dec (Suc n) b used acc = do {
     rest \<leftarrow> get_from b used;
     (x, u) \<leftarrow> dec rest;
     take_many dec n b (used + u) (acc @ [x]) }"

definition decode_list :: "'a decoder \<Rightarrow> 'a list decoder" where
  "decode_list dec b = do { (n, used) \<leftarrow> take_u64 b; take_many dec n b used [] }"

definition take_pair :: "'a decoder \<Rightarrow> 'b decoder \<Rightarrow> ('a \<times> 'b) decoder" where
  "take_pair dec1 dec2 b = do {
     (x, used) \<leftarrow> dec1 b;
     rest \<leftarrow> get_from b used;
     (y, u) \<leftarrow> dec2 rest;
     Some ((x, y), used + u) }"

definition decode_deal :: "('f, 'g::zero, 'r) k256 \<Rightarrow> ('f, 'g) triple_deal_msg decoder" where
  "decode_deal E b = do {
     (com, used) \<leftarrow> decode_commitment E b;
     rest \<leftarrow> get_from b used;
     (x1, u) \<leftarrow> take_point E rest;
     let used = used + u;
     rest \<leftarrow> get_from b used;
     (x2, u) \<leftarrow> take_point E rest;
     let used = used + u;
     rest \<leftarrow> get_from b used;
     (t1, u) \<leftarrow> take_point E rest;
     let used = used + u;
     rest \<leftarrow> get_from b used;
     (t2, u) \<leftarrow> take_point E rest;
     let used = used + u;
     rest \<leftarrow> get_from b used;
     (z, u) \<leftarrow> take_scalar E rest;
     Some (\<lparr>td_com = com, td_x1 = x1, td_x2 = x2, td_proof = \<lparr>d_t1 = t1, d_t2 = t2, d_z = z\<rparr>\<rparr>, used + u) }"

definition wrapped :: "('a \<Rightarrow> 'b) \<Rightarrow> nat \<Rightarrow> ('a \<times> nat) option \<Rightarrow> ('b \<times> nat) option" where
  \<comment> \<open>the constructor around a decoded part, and the bytes before it\<close>
  "wrapped f used r = do { (x, u) \<leftarrow> r; Some (f x, used + u) }"

primrec decode_payload_at :: "nat \<Rightarrow> ('f, 'g::zero, 'r) k256 \<Rightarrow> (bytes \<Rightarrow> 's option) \<Rightarrow> ('f, 'g, 's) node_payload decoder" where
  \<comment> \<open>\<open>k\<close> bounds the nesting of payloads\<close>
  "decode_payload_at 0 E of_slice b = None"
| "decode_payload_at (Suc k) E of_slice b = do {
     (tag, used) \<leftarrow> take_u8 b;
     rest \<leftarrow> get_from b used;
     (if tag = 1 then wrapped Dkg used (decode_message E rest)
      else if tag = 2 then wrapped Complaints used (decode_list take_u64 rest)
      else if tag = 3 then wrapped Defenses used (decode_list (take_pair take_u64 (take_scalar E)) rest)
      else if tag = 4 then wrapped (case_prod Node_Sign_Share) used (take_pair take_u64 (take_scalar E) rest)
      else if tag = 5 then wrapped Triple_Deal used (decode_deal E rest)
      else if tag = 6 then wrapped Reshare used (take_scalar E rest)
      else if tag = 7 then wrapped (case_prod Beaver_Open) used (take_pair (take_scalar E) (take_scalar E) rest)
      else if tag = 8 then wrapped Open_Share used (take_scalar E rest)
      else if tag = 9 then wrapped Nonce_Point used (take_point E rest)
      else if tag = 10 then wrapped (Reshare_Requests \<circ> map (map_prod (\<lambda>d. d) seal_in)) used
        (decode_list (take_pair take_u64 (decode_signed (decode_payload_at k E of_slice) of_slice)) rest)
      else if tag = 11 then wrapped Reshare_Supply used (decode_list (take_pair take_u64 (take_scalar E)) rest)
      else None) }"

definition decode_payload :: "('f, 'g::zero, 'r) k256 \<Rightarrow> (bytes \<Rightarrow> 's option) \<Rightarrow> ('f, 'g, 's) node_payload decoder" where
  "decode_payload E of_slice b = decode_payload_at (length b) E of_slice b"

section \<open>Frame bounds\<close>

definition payload_variant_max :: "('f, 'g, 's) node_payload \<Rightarrow> nat \<Rightarrow> nat" where
  "payload_variant_max p n = (case p of
       Dkg _ \<Rightarrow> wadd 64 (wmul 40 n)
     | Complaints _ \<Rightarrow> wadd 16 (wmul 8 n)
     | Defenses _ \<Rightarrow> wadd 16 (wmul 40 n)
     | Node_Sign_Share _ _ \<Rightarrow> 64
     | Triple_Deal _ \<Rightarrow> wadd 256 (wmul 40 n)
     | Reshare _ \<Rightarrow> 48
     | Beaver_Open _ _ \<Rightarrow> 96
     | Open_Share _ \<Rightarrow> 48
     | Nonce_Point _ \<Rightarrow> 48
     | Reshare_Requests _ \<Rightarrow> wadd 16 (wmul 400 n)
     | Reshare_Supply _ \<Rightarrow> wadd 16 (wmul 48 n))"

definition payload_family_max :: "nat \<Rightarrow> nat" where
  "payload_family_max n = wadd 16 (wmul 400 n)"

definition payload_bound :: "('f, 'g, 's) node_payload frame_bound" where
  "payload_bound = \<lparr>fb_variant_max = payload_variant_max, fb_family_max = payload_family_max\<rparr>"

section \<open>The codec contract\<close>

lemma many_encode:
  assumes "codec enc dec v" "list_all v xs"
  shows "take_many dec (length xs) (pre @ concat (map enc xs) @ r) (length pre) acc
    = Some (acc @ xs, length pre + length (concat (map enc xs)))"
  using assms(2)
proof (induction xs arbitrary: pre acc)
  case (Cons x xs)
  then show ?case
    using Cons.IH [of "pre @ enc x" "acc @ [x]"] by (simp add: get_from_def codec.dec_enc [OF assms(1)] add.assoc)
qed simp

lemma many_decode:
  assumes "codec enc dec v" "take_many dec n b used acc = Some (ys, used')" "used \<le> length b"
  shows "\<exists>xs. ys = acc @ xs \<and> length xs = n \<and> list_all v xs \<and> used' \<le> length b
    \<and> take used' b = take used b @ concat (map enc xs)"
  using assms(2,3)
proof (induction n arbitrary: used acc)
  case (Suc n)
  from Suc.prems(1) obtain x u where
    x: "dec (drop used b) = Some (x, u)" and rest: "take_many dec n b (used + u) (acc @ [x]) = Some (ys, used')"
    unfolding take_many.simps decode_simps split_paired_Ex prod.case by blast
  from codec.dec_Some [OF assms(1) x] have
    u: "v x" "used + u \<le> length b" "take u (drop used b) = enc x"
    using Suc.prems(2) by auto
  from Suc.IH [OF rest u(2)] obtain xs where "ys = (acc @ [x]) @ xs" "length xs = n" "list_all v xs" "used' \<le> length b"
    "take used' b = take (used + u) b @ concat (map enc xs)" by blast
  then show ?case using u by (intro exI [of _ "x # xs"]) (simp add: take_add)
qed auto

lemma list_codec:
  assumes "codec enc dec v"
  shows "codec (encode_list enc) (decode_list dec) (\<lambda>xs. length xs < 2 ^ 64 \<and> list_all v xs)"
proof unfold_locales
  show "decode_list dec (encode_list enc xs @ r) = Some (xs, length (encode_list enc xs))"
    if "length xs < 2 ^ 64 \<and> list_all v xs" for xs r
    using many_encode [OF assms, of xs "put_u64 (length xs)" r "[]"] that
    by (simp add: decode_list_def encode_list_def u64.dec_enc)
  show "(length xs < 2 ^ 64 \<and> list_all v xs) \<and> n \<le> length b \<and> take n b = encode_list enc xs"
    if "decode_list dec b = Some (xs, n)" for b xs n
  proof -
    from that obtain k u where k: "take_u64 b = Some (k, u)" and xs: "take_many dec k b u [] = Some (xs, n)"
      by (auto simp: decode_list_def bind_Some)
    note k' = u64.dec_Some [OF k]
    from many_decode [OF assms xs] k' show ?thesis by (auto simp: encode_list_def)
  qed
qed

lemma take_pair_codec:
  assumes "codec enc1 dec1 v1" "codec enc2 dec2 v2"
  shows "codec (\<lambda>p. enc1 (fst p) @ enc2 (snd p)) (take_pair dec1 dec2) (\<lambda>p. v1 (fst p) \<and> v2 (snd p))"
proof unfold_locales
  show "take_pair dec1 dec2 ((enc1 (fst p) @ enc2 (snd p)) @ r) = Some (p, length (enc1 (fst p) @ enc2 (snd p)))"
    if "v1 (fst p) \<and> v2 (snd p)" for p r
    using that by (simp add: take_pair_def codec.dec_enc [OF assms(1)] codec.dec_enc [OF assms(2)] get_from_def)
  show "(v1 (fst p) \<and> v2 (snd p)) \<and> n \<le> length b \<and> take n b = enc1 (fst p) @ enc2 (snd p)"
    if dec: "take_pair dec1 dec2 b = Some (p, n)" for b p n
  proof -
    from dec obtain x u y w where x: "dec1 b = Some (x, u)" and y: "dec2 (drop u b) = Some (y, w)" and p: "p = (x, y)" "n = u + w"
      unfolding take_pair_def by (auto simp: decode_simps split_paired_Ex)
    from codec.dec_Some [OF assms(1) x] have "v1 x" "u \<le> length b" "take u b = enc1 x" by auto
    with pair_decode [OF assms(2) this(2,3) y] p show ?thesis by simp
  qed
qed

lemma id_scalar_codec:
  assumes "codec_law E"
  shows "codec (encode_id_scalar E) (take_pair take_u64 (take_scalar E)) (\<lambda>p. fst p < 2 ^ 64)"
proof -
  have "encode_id_scalar E = (\<lambda>p. put_u64 (fst p) @ put_scalar E (snd p))" by (simp add: encode_id_scalar_def fun_eq_iff)
  then show ?thesis using take_pair_codec [OF u64.codec_axioms scalar_codec [OF assms]] by simp
qed

lemma deal_codec:
  assumes "codec_law E"
  shows "codec (encode_deal E) (decode_deal E) (\<lambda>d. valid_commitment (td_com d))"
proof unfold_locales
  note C = commitment_codec [OF assms] and P = point_codec [OF assms] and S = scalar_codec [OF assms]
  show "decode_deal E (encode_deal E d @ r) = Some (d, length (encode_deal E d))" if "valid_commitment (td_com d)" for d r
    using that by (simp add: decode_deal_def encode_deal_def codec.dec_enc [OF C] codec.dec_enc [OF P] codec.dec_enc [OF S]
        get_from_def drop_append)
  show "valid_commitment (td_com d) \<and> n \<le> length b \<and> take n b = encode_deal E d" if dec: "decode_deal E b = Some (d, n)" for b d n
  proof -
    from dec obtain com u x1 u1 x2 u2 t1 u3 t2 u4 z u5 where
      c: "decode_commitment E b = Some (com, u)" and u: "u \<le> length b"
      and x1: "take_point E (drop u b) = Some (x1, u1)" and l1: "u + u1 \<le> length b"
      and x2: "take_point E (drop (u + u1) b) = Some (x2, u2)" and l2: "u + u1 + u2 \<le> length b"
      and t1: "take_point E (drop (u + u1 + u2) b) = Some (t1, u3)" and l3: "u + u1 + u2 + u3 \<le> length b"
      and t2: "take_point E (drop (u + u1 + u2 + u3) b) = Some (t2, u4)" and l4: "u + u1 + u2 + u3 + u4 \<le> length b"
      and z: "take_scalar E (drop (u + u1 + u2 + u3 + u4) b) = Some (z, u5)"
      and d: "d = \<lparr>td_com = com, td_x1 = x1, td_x2 = x2, td_proof = \<lparr>d_t1 = t1, d_t2 = t2, d_z = z\<rparr>\<rparr>"
        "n = u + u1 + u2 + u3 + u4 + u5"
      unfolding decode_deal_def by (auto simp: decode_simps split_paired_Ex Let_def)
    from codec.dec_Some [OF C c] have c': "valid_commitment com" "take u b = encode_commitment E com" by auto
    from pair_decode [OF P u c'(2) x1] have 1: "take (u + u1) b = encode_commitment E com @ put_point E x1" by simp
    from pair_decode [OF P l1 1 x2] have 2: "take (u + u1 + u2) b = (encode_commitment E com @ put_point E x1) @ put_point E x2" by simp
    from pair_decode [OF P l2 2 t1] have 3: "take (u + u1 + u2 + u3) b = ((encode_commitment E com @ put_point E x1) @ put_point E x2) @ put_point E t1" by simp
    from pair_decode [OF P l3 3 t2] have 4: "take (u + u1 + u2 + u3 + u4) b
      = (((encode_commitment E com @ put_point E x1) @ put_point E x2) @ put_point E t1) @ put_point E t2" by simp
    from pair_decode [OF S l4 4 z] d c'(1) show ?thesis by (simp add: encode_deal_def)
  qed
qed

text \<open>Well-formed payloads, down to a depth: ids, ids of records and lengths fit eight bytes.\<close>

primrec valid_payload_at :: "nat \<Rightarrow> ('f, 'g, 'r) k256 \<Rightarrow> ('s \<Rightarrow> bytes) \<Rightarrow> ('f, 'g, 's) node_payload \<Rightarrow> bool" where
  "valid_payload_at 0 E sig p = False"
| "valid_payload_at (Suc k) E sig p = (case p of
       Dkg m \<Rightarrow> valid_message m
     | Complaints ds \<Rightarrow> length ds < 2 ^ 64 \<and> list_all (\<lambda>d. d < 2 ^ 64) ds
     | Defenses ds \<Rightarrow> length ds < 2 ^ 64 \<and> list_all (\<lambda>p. fst p < 2 ^ 64) ds
     | Node_Sign_Share i _ \<Rightarrow> i < 2 ^ 64
     | Triple_Deal d \<Rightarrow> valid_commitment (td_com d)
     | Reshare_Requests rs \<Rightarrow> length rs < 2 ^ 64
         \<and> list_all (\<lambda>(d, x). d < 2 ^ 64 \<and> valid_envelope (encode_payload E sig) (valid_payload_at k E sig) (se_envelope (unseal x))) rs
     | Reshare_Supply ss \<Rightarrow> length ss < 2 ^ 64 \<and> list_all (\<lambda>p. fst p < 2 ^ 64) ss
     | _ \<Rightarrow> True)"

definition valid_payload :: "('f, 'g, 'r) k256 \<Rightarrow> ('s \<Rightarrow> bytes) \<Rightarrow> ('f, 'g, 's) node_payload \<Rightarrow> bool" where
  "valid_payload E sig p = valid_payload_at (length (encode_payload E sig p)) E sig p"

lemma wrapped_encode:
  assumes "codec enc dec v" "v y"
  shows "wrapped F u (dec (enc y @ r)) = Some (F y, u + length (enc y))"
  by (simp add: wrapped_def codec.dec_enc [OF assms])

lemma wrapped_decode:
  assumes "codec enc dec v" "u \<le> length b" "take u b = e" "wrapped F u (dec (drop u b)) = Some (x, n)"
  shows "\<exists>y. x = F y \<and> v y \<and> n \<le> length b \<and> take n b = e @ enc y"
proof -
  from assms(4) obtain y w where y: "dec (drop u b) = Some (y, w)" "x = F y" "n = u + w"
    by (auto simp: wrapped_def bind_Some)
  from pair_decode [OF assms(1-3) y(1)] y show ?thesis by auto
qed

lemma requests_bytes:
  "encode_list (\<lambda>(d, x). put_u64 d @ enc (unseal x)) rs
    = encode_list (\<lambda>p. put_u64 (fst p) @ enc (snd p)) (map (map_prod (\<lambda>d. d) unseal) rs)"
  by (simp add: encode_list_def comp_def case_prod_unfold)

lemma unsealed_requests: "map (map_prod (\<lambda>d. d) seal_in) (map (map_prod (\<lambda>d. d) unseal) rs) = rs"
  by (simp add: map_prod_def comp_def case_prod_unfold map_idI)

lemma sealed_requests: "map (map_prod (\<lambda>d. d) unseal) (map (map_prod (\<lambda>d. d) seal_in) rs) = rs"
  by (simp add: map_prod_def comp_def case_prod_unfold map_idI)

lemma list_all_sealed:
  "list_all (\<lambda>(d, x). P d (unseal x)) (map (map_prod (\<lambda>d. d) seal_in) y) = list_all (\<lambda>p. P (fst p) (snd p)) y"
  by (simp add: list.pred_map comp_def case_prod_unfold)

lemma payload_codec_at:
  fixes sig :: "'s \<Rightarrow> bytes"
  assumes "codec_law E" "signature_law sig of_slice"
  shows "codec (encode_payload E sig) (decode_payload_at k E of_slice) (valid_payload_at k E sig)"
proof (induction k)
  case 0
  show ?case by unfold_locales simp_all
next
  case (Suc k)
  note ids = list_codec [OF u64.codec_axioms]
    and pairs = list_codec [OF id_scalar_codec [OF assms(1)]]
    and msg = message_codec [OF assms(1)] and S = scalar_codec [OF assms(1)]
    and US = take_pair_codec [OF u64.codec_axioms scalar_codec [OF assms(1)]]
    and SS = take_pair_codec [OF scalar_codec [OF assms(1)] scalar_codec [OF assms(1)]]
    and D = deal_codec [OF assms(1)] and P = point_codec [OF assms(1)]
    and R = list_codec [OF take_pair_codec [OF u64.codec_axioms signed_codec [OF Suc assms(2)]]]
  let ?v = "valid_payload_at (Suc k) E sig"
  show ?case
  proof unfold_locales
    show "decode_payload_at (Suc k) E of_slice (encode_payload E sig x @ r) = Some (x, length (encode_payload E sig x))"
      if "?v x" for x r
    proof -
      have tag: "decode_payload_at (Suc k) E of_slice (put_u8 c @ b) = (
          if c = 1 then wrapped Dkg 1 (decode_message E b)
          else if c = 2 then wrapped Complaints 1 (decode_list take_u64 b)
          else if c = 3 then wrapped Defenses 1 (decode_list (take_pair take_u64 (take_scalar E)) b)
          else if c = 4 then wrapped (case_prod Node_Sign_Share) 1 (take_pair take_u64 (take_scalar E) b)
          else if c = 5 then wrapped Triple_Deal 1 (decode_deal E b)
          else if c = 6 then wrapped Reshare 1 (take_scalar E b)
          else if c = 7 then wrapped (case_prod Beaver_Open) 1 (take_pair (take_scalar E) (take_scalar E) b)
          else if c = 8 then wrapped Open_Share 1 (take_scalar E b)
          else if c = 9 then wrapped Nonce_Point 1 (take_point E b)
          else if c = 10 then wrapped (Reshare_Requests \<circ> map (map_prod (\<lambda>d. d) seal_in)) 1
            (decode_list (take_pair take_u64 (decode_signed (decode_payload_at k E of_slice) of_slice)) b)
          else if c = 11 then wrapped Reshare_Supply 1 (decode_list (take_pair take_u64 (take_scalar E)) b)
          else None)" for c b
        by (simp add: put_u8_def take_u8_def get_from_def)
      show ?thesis
      proof (cases x)
        case (Dkg m)
        then show ?thesis using that by (simp del: decode_payload_at.simps add: tag length_put_u8 wrapped_encode [OF msg, of m Dkg, simplified])
      next
        case (Complaints ds)
        then show ?thesis using that by (simp del: decode_payload_at.simps add: tag length_put_u8 wrapped_encode [OF ids, of ds Complaints, simplified])
      next
        case (Defenses ds)
        then show ?thesis using that by (simp del: decode_payload_at.simps add: tag length_put_u8 wrapped_encode [OF pairs, of ds Defenses, simplified])
      next
        case (Node_Sign_Share i s)
        then show ?thesis using that by (simp del: decode_payload_at.simps add: tag length_put_u8 wrapped_encode [OF US, of "(i, s)" "case_prod Node_Sign_Share", simplified])
      next
        case (Triple_Deal d)
        then show ?thesis using that by (simp del: decode_payload_at.simps add: tag length_put_u8 wrapped_encode [OF D, of d Triple_Deal, simplified])
      next
        case (Reshare s)
        then show ?thesis by (simp del: decode_payload_at.simps add: tag length_put_u8 wrapped_encode [OF S, where F = Reshare and y = s, simplified])
      next
        case (Beaver_Open a b)
        then show ?thesis by (simp del: decode_payload_at.simps add: tag length_put_u8 wrapped_encode [OF SS, where y = "(a, b)" and F = "case_prod Beaver_Open", simplified])
      next
        case (Open_Share s)
        then show ?thesis by (simp del: decode_payload_at.simps add: tag length_put_u8 wrapped_encode [OF S, where F = Open_Share and y = s, simplified])
      next
        case (Nonce_Point p)
        then show ?thesis by (simp del: decode_payload_at.simps add: tag length_put_u8 wrapped_encode [OF P, where F = Nonce_Point and y = p, simplified])
      next
        case (Reshare_Requests rs)
        let ?rs = "map (map_prod (\<lambda>d. d) unseal) rs"
          and ?F = "Reshare_Requests \<circ> map (map_prod (\<lambda>d. d) seal_in)"
        have enc: "encode_payload E sig x = put_u8 10
            @ encode_list (\<lambda>p. put_u64 (fst p) @ encode_signed (encode_payload E sig) sig (snd p)) ?rs"
          using Reshare_Requests by (simp add: requests_bytes)
        have "length ?rs < 2 ^ 64 \<and> list_all (\<lambda>p. fst p < 2 ^ 64
            \<and> valid_envelope (encode_payload E sig) (valid_payload_at k E sig) (se_envelope (snd p))) ?rs"
          using that Reshare_Requests by (auto simp: list_all_iff)
        from wrapped_encode [OF R this, of ?F] have "decode_payload_at (Suc k) E of_slice (encode_payload E sig x @ r)
            = Some (?F ?rs, 1 + length (encode_list (\<lambda>p. put_u64 (fst p) @ encode_signed (encode_payload E sig) sig (snd p)) ?rs))"
          unfolding enc append_assoc tag by simp
        moreover have "?F ?rs = x" using unsealed_requests [of rs] Reshare_Requests by (simp del: map_map)
        ultimately show ?thesis by (simp add: enc length_put_u8)
      next
        case (Reshare_Supply ss)
        then show ?thesis using that by (simp del: decode_payload_at.simps add: tag length_put_u8 wrapped_encode [OF pairs, of ss Reshare_Supply, simplified])
      qed
    qed
    show "?v x \<and> n \<le> length b \<and> take n b = encode_payload E sig x"
      if dec: "decode_payload_at (Suc k) E of_slice b = Some (x, n)" for b x n
    proof -
      from dec obtain c u where c: "take_u8 b = Some (c, u)"
        by (auto simp: decode_simps split_paired_Ex)
      from u8.dec_Some [OF c] have u: "u \<le> length b" "take u b = put_u8 c" by auto
      show ?thesis
      proof (cases "c = 10")
        case True
        then have "wrapped (Reshare_Requests \<circ> map (map_prod (\<lambda>d. d) seal_in)) u
            (decode_list (take_pair take_u64 (decode_signed (decode_payload_at k E of_slice) of_slice)) (drop u b)) = Some (x, n)"
          using dec c u(1) by (auto simp: get_from_def split: if_splits)
        from wrapped_decode [OF R u this] obtain y where
          y: "x = Reshare_Requests (map (map_prod (\<lambda>d. d) seal_in) y)" "length y < 2 ^ 64" "n \<le> length b"
            "list_all (\<lambda>p. fst p < 2 ^ 64 \<and> valid_envelope (encode_payload E sig) (valid_payload_at k E sig) (se_envelope (snd p))) y"
            "take n b = put_u8 c @ encode_list (\<lambda>p. put_u64 (fst p) @ encode_signed (encode_payload E sig) sig (snd p)) y"
          by auto
        have "encode_payload E sig x = put_u8 10 @ encode_list (\<lambda>p. put_u64 (fst p) @ encode_signed (encode_payload E sig) sig (snd p)) y"
          unfolding y(1) encode_payload.simps requests_bytes sealed_requests ..
        moreover have "?v x"
          using y(2,4) unfolding y(1)
          by (simp only: valid_payload_at.simps node_payload.case length_map
              list_all_sealed [where P = "\<lambda>d se. d < 2 ^ 64 \<and> valid_envelope (encode_payload E sig) (valid_payload_at k E sig) (se_envelope se)"])
        ultimately show ?thesis using y True by simp
      next
        case False
        then show ?thesis
          using dec c u(1) wrapped_decode [OF msg u, of Dkg x n] wrapped_decode [OF ids u, of Complaints x n]
            wrapped_decode [OF pairs u, of Defenses x n] wrapped_decode [OF US u, of "case_prod Node_Sign_Share" x n]
            wrapped_decode [OF D u, of Triple_Deal x n] wrapped_decode [OF S u, of Reshare x n]
            wrapped_decode [OF SS u, of "case_prod Beaver_Open" x n] wrapped_decode [OF S u, of Open_Share x n]
            wrapped_decode [OF P u, of Nonce_Point x n] wrapped_decode [OF pairs u, of Reshare_Supply x n]
          by (auto simp: get_from_def split: if_splits)
      qed
    qed
  qed
qed

text \<open>The length of the input is depth enough.\<close>

lemma encode_payload_nonempty: "1 \<le> length (encode_payload E sig p)"
  by (cases p) (simp_all add: put_u8_def)

lemma length_member: "x \<in> set xs \<Longrightarrow> length (enc x) \<le> length (encode_list enc xs)"
  by (induction xs) (auto simp: encode_list_def)

lemma length_sealed_payload:
  "length (enc (e_payload (se_envelope se))) \<le> length (encode_signed enc sig se)"
  by (simp add: encode_signed_def encode_envelope_def put_bytes_def)

lemma valid_payload_depth:
  assumes "valid_payload_at k E sig p" "length (encode_payload E sig p) \<le> m"
  shows "valid_payload_at m E sig p"
  using assms
proof (induction m arbitrary: k p)
  case 0
  then show ?case using encode_payload_nonempty [of E sig p] by simp
next
  case (Suc m)
  then obtain k' where k: "k = Suc k'" by (cases k) auto
  show ?case
  proof (cases p)
    case (Reshare_Requests rs)
    have "valid_payload_at m E sig (e_payload (se_envelope (unseal x)))"
      if "(d, x) \<in> set rs" "valid_payload_at k' E sig (e_payload (se_envelope (unseal x)))" for d x
    proof (rule Suc.IH [OF that(2)])
      have "length (encode_payload E sig (e_payload (se_envelope (unseal x))))
          \<le> length (put_u64 d @ encode_signed (encode_payload E sig) sig (unseal x))"
        using length_sealed_payload [of "encode_payload E sig" "unseal x" sig] by simp
      also have "\<dots> \<le> length (encode_list (\<lambda>(d, x). put_u64 d @ encode_signed (encode_payload E sig) sig (unseal x)) rs)"
        using length_member [OF that(1), of "\<lambda>(d, x). put_u64 d @ encode_signed (encode_payload E sig) sig (unseal x)"] by simp
      finally show "length (encode_payload E sig (e_payload (se_envelope (unseal x)))) \<le> m"
        using Suc.prems(2) Reshare_Requests by (simp add: length_put_u8)
    qed
    then show ?thesis
      using Suc.prems(1) Reshare_Requests by (auto simp: k list_all_iff valid_envelope_def)
  qed (use Suc.prems(1) k in simp_all)
qed

lemma payload_codec:
  fixes sig :: "'s \<Rightarrow> bytes"
  assumes "codec_law E" "signature_law sig of_slice"
  shows "codec (encode_payload E sig) (decode_payload E of_slice) (valid_payload E sig)"
proof unfold_locales
  note C = payload_codec_at [OF assms]
  show "decode_payload E of_slice (encode_payload E sig x @ r) = Some (x, length (encode_payload E sig x))"
    if "valid_payload E sig x" for x r
  proof -
    have "valid_payload_at (length (encode_payload E sig x @ r)) E sig x"
      using that valid_payload_depth unfolding valid_payload_def by fastforce
    then show ?thesis unfolding decode_payload_def by (rule codec.dec_enc [OF C])
  qed
  show "valid_payload E sig x \<and> n \<le> length b \<and> take n b = encode_payload E sig x"
    if "decode_payload E of_slice b = Some (x, n)" for b x n
    using codec.dec_Some [OF C that [unfolded decode_payload_def]] valid_payload_depth [of "length b" E sig x]
    unfolding valid_payload_def by blast
qed

section \<open>Honest payloads meet their bounds\<close>

definition is_reshare :: "('f, 'g, 's) node_payload \<Rightarrow> bool" where
  "is_reshare p \<longleftrightarrow> (case p of Reshare _ \<Rightarrow> True | _ \<Rightarrow> False)"

lemma is_reshareD: "is_reshare p \<Longrightarrow> \<exists>s. p = Reshare s"
  by (simp add: is_reshare_def split: node_payload.splits)

definition payload_fits :: "nat \<Rightarrow> ('f, 'g, 's) node_payload \<Rightarrow> bool" where
  \<comment> \<open>the sizes that occur in a committee of \<open>n\<close> parties\<close>
  "payload_fits n p \<longleftrightarrow> (case p of
       Dkg m \<Rightarrow> message_degree m \<le> n
     | Complaints ds \<Rightarrow> length ds \<le> n
     | Defenses ds \<Rightarrow> length ds \<le> n
     | Triple_Deal d \<Rightarrow> length (points (td_com d)) \<le> n
     | Reshare_Requests rs \<Rightarrow> length rs \<le> n \<and> list_all (\<lambda>(d, x). length (e_sid (se_envelope (unseal x))) \<le> MAX_SID
         \<and> is_reshare (e_payload (se_envelope (unseal x)))) rs
     | Reshare_Supply ss \<Rightarrow> length ss \<le> n
     | _ \<Rightarrow> True)"

lemma length_encode_list:
  assumes "\<And>x. x \<in> set xs \<Longrightarrow> length (enc x) \<le> c"
  shows "length (encode_list enc xs) \<le> 8 + c * length xs"
  using assms
proof (induction xs)
  case (Cons x xs)
  then have "length (enc x) \<le> c" "length (encode_list enc xs) \<le> 8 + c * length xs" by simp_all
  then show ?case by (simp add: encode_list_def)
qed (simp add: encode_list_def)

lemma length_message:
  assumes "codec_law E" "valid_message m"
  shows "length (encode_message E m) \<le> 49 + 33 * message_degree m"
proof (cases m)
  case (Reveal b)
  then show ?thesis using length_points [OF assms(1), of "points (b2_com b)"]
    by (simp add: message_degree_def encode_message_def encode_bcast2_def encode_commitment_def length_put_u8)
qed (use assms(2) codec_lawD(1) [OF assms(1)] in \<open>simp_all add: message_degree_def encode_message_def encode_bcast1_def
    encode_p2p_def put_bytes_def put_scalar_def length_put_u8 valid_message_def valid_bcast1_def\<close>)

lemma payload_within_bound:
  fixes sig :: "'s \<Rightarrow> bytes"
  assumes "codec_law E" "signature_law sig of_slice" "valid_payload E sig p" "payload_fits n p" "n < 2 ^ 20"
  shows "length (encode_payload E sig p) \<le> payload_variant_max p n"
proof -
  note S = codec_lawD(1) [OF assms(1)] and P = length_put_point [OF assms(1)]
  have small: "wadd c (wmul d n) = c + d * n" if "c \<le> 256" "d \<le> 400" for c d
  proof -
    have "d * n \<le> 400 * 2 ^ 20" using that(2) assms(5) by (intro mult_le_mono) auto
    then show ?thesis using that by (simp add: wadd_def wmul_def)
  qed
  have pairs: "length (encode_list (encode_id_scalar E) ds) \<le> 8 + 40 * n" if "length ds \<le> n" for ds
    using length_encode_list [of ds "encode_id_scalar E" 40] that S by (simp add: encode_id_scalar_def put_scalar_def)
  show ?thesis
  proof (cases p)
    case (Dkg m)
    have "valid_message m"
      using assms(3) Dkg unfolding valid_payload_def by (cases "length (encode_payload E sig p)") auto
    from length_message [OF assms(1) this] assms(4) Dkg show ?thesis
      by (simp add: payload_variant_max_def payload_fits_def small length_put_u8)
  next
    case (Complaints ds)
    then show ?thesis using assms(4) length_encode_list [of ds put_u64 8]
      by (simp add: payload_variant_max_def payload_fits_def small length_put_u8)
  next
    case (Defenses ds)
    then show ?thesis using assms(4) pairs [of ds]
      by (simp add: payload_variant_max_def payload_fits_def small length_put_u8)
  next
    case (Triple_Deal d)
    then show ?thesis
      using assms(4) length_points [OF assms(1), of "points (td_com d)"] P [of "td_x1 d"] P [of "td_x2 d"]
        P [of "d_t1 (td_proof d)"] P [of "d_t2 (td_proof d)"] S
      by (simp add: payload_variant_max_def payload_fits_def small length_put_u8 encode_deal_def encode_commitment_def put_scalar_def)
  next
    case (Reshare_Requests rs)
    have "length (put_u64 d @ encode_signed (encode_payload E sig) sig (unseal x)) \<le> 268" if dx: "(d, x) \<in> set rs" for d x
    proof -
      have *: "length (e_sid (se_envelope (unseal x))) \<le> 128" "\<exists>s. e_payload (se_envelope (unseal x)) = Reshare s"
        using assms(4) Reshare_Requests dx
        by (auto simp: payload_fits_def list_all_iff MAX_SID_def dest: is_reshareD)
      then show ?thesis
        using length_encode_signed [OF assms(2), of "encode_payload E sig" "unseal x"] S
        by (auto simp: length_put_u8 put_scalar_def split: option.splits)
    qed
    then have "length (encode_list (\<lambda>(d, x). put_u64 d @ encode_signed (encode_payload E sig) sig (unseal x)) rs) \<le> 8 + 268 * length rs"
      by (intro length_encode_list) auto
    then show ?thesis using assms(4) Reshare_Requests
      by (simp add: payload_variant_max_def payload_fits_def small length_put_u8)
  next
    case (Reshare_Supply ss)
    then show ?thesis using assms(4) pairs [of ss]
      by (simp add: payload_variant_max_def payload_fits_def small length_put_u8)
  next
    case (Nonce_Point q)
    then show ?thesis using P [of q] by (simp add: payload_variant_max_def length_put_u8)
  qed (use S in \<open>simp_all add: payload_variant_max_def put_scalar_def length_put_u8\<close>)
qed

end
