(* ===== verification/Acceptor.thy ===== *)
theory Acceptor
  imports Node_Payload "HOL-Library.List_Lexorder" "HOL-Library.Product_Lexorder"
begin

text \<open>
  The echo-broadcast acceptors: \<open>Acceptor\<close> of \<open>node/src/party/party.rs\<close>, one per node, with its memory caps
  and its equivocation evidence, and \<open>Acceptor\<close> of \<open>node/src/net/transport.rs\<close>, the orchestrator's. The
  locale \<open>echo_broadcast\<close> states what accepting a value means over the messages received; both acceptors
  provide it, and consistency is proved in it once. The message type and its encoding are parameters.
\<close>

section \<open>Slots\<close>

lemma phase_code_inj: "phase_code p = phase_code q \<longleftrightarrow> p = q"
  by (cases p; cases q) simp_all

instantiation phase :: linorder
begin

definition less_eq_phase :: "phase \<Rightarrow> phase \<Rightarrow> bool" where "less_eq_phase p q \<longleftrightarrow> phase_code p \<le> phase_code q"
definition less_phase :: "phase \<Rightarrow> phase \<Rightarrow> bool" where "less_phase p q \<longleftrightarrow> phase_code p < phase_code q"

instance
proof
  fix p q :: phase
  show "p \<le> q \<Longrightarrow> q \<le> p \<Longrightarrow> p = q"
    by (auto simp: less_eq_phase_def phase_code_inj dest: order.antisym)
qed (auto simp: less_eq_phase_def less_phase_def)

end

type_synonym slot = "bytes \<times> phase \<times> byte \<times> party_id"

definition slot_of :: "('m, 's) signed_envelope \<Rightarrow> slot" where
  "slot_of se = (let e = se_envelope se in (e_sid e, e_phase e, e_round e, e_from e))"

definition slot_and_payload :: "(('m, 's) signed_envelope \<Rightarrow> bytes) \<Rightarrow> ('m, 's) signed_envelope \<Rightarrow> slot \<times> bytes" where
  "slot_and_payload ebytes se = (slot_of se, ebytes se)"

fun slot_sender :: "slot \<Rightarrow> bytes \<times> party_id" where
  "slot_sender (sid, ph, r, i) = (sid, i)"

record ('m, 's) candidate =
  ca_env :: "('m, 's) signed_envelope"
  ca_echoers :: "party_id set"

section \<open>The acceptor of a node\<close>

definition MAX_TRACKED_SIDS :: nat where "MAX_TRACKED_SIDS = 4096"
definition MAX_CANDIDATES_PER_SLOT :: nat where "MAX_CANDIDATES_PER_SLOT = 8"

record ('m, 's) acceptor =
  ac_quorum :: nat
  ac_bcast :: "(slot, (bytes, ('m, 's) candidate) kmap) kmap"
  ac_p2p :: "(slot, ('m, 's) signed_envelope btree) kmap"
  ac_equivocations :: "(bytes \<times> party_id, ('m, 's) signed_envelope \<times> ('m, 's) signed_envelope) kmap"
  ac_reported :: "(bytes \<times> party_id) set"
  ac_sids :: "bytes set"
  ac_dropped :: nat

definition acceptor_new :: "nat \<Rightarrow> ('m, 's) acceptor" where
  "acceptor_new t = \<lparr>ac_quorum = t - 1, ac_bcast = [], ac_p2p = [], ac_equivocations = [], ac_reported = {},
     ac_sids = {}, ac_dropped = 0\<rparr>"

definition admit_sid :: "bytes \<Rightarrow> ('m, 's) acceptor \<Rightarrow> bool \<times> ('m, 's) acceptor" where
  "admit_sid sid ac = (if sid \<in> ac_sids ac then (True, ac)
     else if length sid > MAX_SID \<or> card (ac_sids ac) \<ge> MAX_TRACKED_SIDS then (False, ac\<lparr>ac_dropped := ac_dropped ac + 1\<rparr>)
     else (True, ac\<lparr>ac_sids := insert sid (ac_sids ac)\<rparr>))"

definition entry :: "('k::linorder, 'v list) kmap \<Rightarrow> 'k \<Rightarrow> 'v list" where
  \<comment> \<open>\<open>entry(key).or_default()\<close>\<close>
  "entry m k = (case bt_get m k of None \<Rightarrow> [] | Some v \<Rightarrow> v)"

definition new_candidate :: "bytes \<Rightarrow> ('m, 's) signed_envelope \<Rightarrow> (bytes, ('m, 's) candidate) kmap \<Rightarrow> (bytes, ('m, 's) candidate) kmap" where
  \<comment> \<open>\<open>entry(payload).or_insert_with(..)\<close>\<close>
  "new_candidate payload env ps = (if bt_contains ps payload then ps
     else bt_insert payload \<lparr>ca_env = env, ca_echoers = {}\<rparr> ps)"

definition insert_candidate :: "slot \<Rightarrow> bytes \<Rightarrow> ('m, 's) signed_envelope \<Rightarrow> ('m, 's) acceptor \<Rightarrow> ('m, 's) acceptor" where
  "insert_candidate key payload env ac = (let ps = entry (ac_bcast ac) key in
     if length ps \<ge> MAX_CANDIDATES_PER_SLOT \<and> \<not> bt_contains ps payload
     then ac\<lparr>ac_bcast := bt_insert key ps (ac_bcast ac), ac_dropped := ac_dropped ac + 1\<rparr>
     else (let ps = new_candidate payload env ps; ac = ac\<lparr>ac_bcast := bt_insert key ps (ac_bcast ac)\<rparr> in
       if length ps = 2 \<and> \<not> bt_contains (ac_equivocations ac) (slot_sender key)
       then ac\<lparr>ac_equivocations := bt_insert (slot_sender key) (ca_env (snd (ps ! 0)), ca_env (snd (ps ! 1)))
         (ac_equivocations ac)\<rparr>
       else ac))"

definition add_echoer :: "slot \<Rightarrow> bytes \<Rightarrow> party_id
    \<Rightarrow> (slot, (bytes, ('m, 's) candidate) kmap) kmap \<Rightarrow> (slot, (bytes, ('m, 's) candidate) kmap) kmap" where
  \<comment> \<open>\<open>get_mut\<close> of the candidate, when it is there\<close>
  "add_echoer key payload echoer m = (case bt_get m key of
       None \<Rightarrow> m
     | Some ps \<Rightarrow> (case bt_get ps payload of
           None \<Rightarrow> m
         | Some c \<Rightarrow> bt_insert key (bt_insert payload (c\<lparr>ca_echoers := insert echoer (ca_echoers c)\<rparr>) ps) m))"

definition accept_broadcast :: "(('m, 's) signed_envelope \<Rightarrow> bytes) \<Rightarrow> ('m, 's) signed_envelope \<Rightarrow> party_id option
    \<Rightarrow> ('m, 's) acceptor \<Rightarrow> ('m, 's) acceptor" where
  \<comment> \<open>a broadcast from its sender, or echoed by a party\<close>
  "accept_broadcast ebytes se echoer ac = (let (key, payload) = slot_and_payload ebytes se in
     if bt_contains (ac_equivocations ac) (slot_sender key) then ac
     else (let ac = insert_candidate key payload se ac in
       case echoer of
         None \<Rightarrow> ac
       | Some k \<Rightarrow> if k = e_from (se_envelope se) then ac
           else ac\<lparr>ac_bcast := add_echoer key payload k (ac_bcast ac)\<rparr>))"

definition accept_p2p :: "('m, 's) signed_envelope \<Rightarrow> party_id \<Rightarrow> ('m, 's) acceptor \<Rightarrow> ('m, 's) acceptor" where
  \<comment> \<open>the first message of a sender is kept\<close>
  "accept_p2p se to ac = (let e = se_envelope se; key = (e_sid e, e_phase e, e_round e, to); ms = entry (ac_p2p ac) key in
     ac\<lparr>ac_p2p := bt_insert key (if bt_contains ms (e_from e) then ms else bt_insert (e_from e) se ms) (ac_p2p ac)\<rparr>)"

definition process :: "(('m, 's) signed_envelope \<Rightarrow> bytes) \<Rightarrow> ('m, 's) received \<Rightarrow> ('m, 's) acceptor \<Rightarrow> ('m, 's) acceptor" where
  "process ebytes msg ac = (case msg of
       Received_Original se \<Rightarrow>
         (case admit_sid (e_sid (se_envelope se)) ac of (ok, ac) \<Rightarrow>
           if \<not> ok then ac
           else (case e_to (se_envelope se) of
               None \<Rightarrow> accept_broadcast ebytes se None ac
             | Some to \<Rightarrow> accept_p2p se to ac))
     | Received_Echo echoer se \<Rightarrow>
         (case admit_sid (e_sid (se_envelope se)) ac of (ok, ac) \<Rightarrow>
           if \<not> ok then ac else accept_broadcast ebytes se (Some echoer) ac))"

definition accepted_in :: "nat \<Rightarrow> (bytes, ('m, 's) candidate) kmap \<Rightarrow> ('m, 's) candidate option" where
  \<comment> \<open>\<open>values().find(..)\<close>\<close>
  "accepted_in quorum ps = find (\<lambda>c. card (ca_echoers c) \<ge> quorum) (map snd ps)"

definition bcast_set :: "('m, 's) acceptor \<Rightarrow> bytes \<Rightarrow> phase \<Rightarrow> byte \<Rightarrow> party_id list \<Rightarrow> ('m, 's) signed_envelope btree" where
  "bcast_set ac sid ph round ids = foldl (\<lambda>out i.
     if bt_contains (ac_equivocations ac) (sid, i) then out
     else (case Option.bind (bt_get (ac_bcast ac) (sid, ph, round, i)) (accepted_in (ac_quorum ac)) of
         None \<Rightarrow> out
       | Some c \<Rightarrow> bt_insert i (ca_env c) out)) [] ids"

definition p2p_set :: "('m, 's) acceptor \<Rightarrow> bytes \<Rightarrow> phase \<Rightarrow> byte \<Rightarrow> party_id \<Rightarrow> ('m, 's) signed_envelope btree" where
  "p2p_set ac sid ph round to = entry (ac_p2p ac) (sid, ph, round, to)"

definition equivocations_in :: "('m, 's) acceptor \<Rightarrow> bytes \<Rightarrow> (party_id \<times> ('m, 's) signed_envelope \<times> ('m, 's) signed_envelope) list" where
  "equivocations_in ac sid = map (\<lambda>((_, i), ev). (i, ev)) (filter (\<lambda>((s, _), _). s = sid) (ac_equivocations ac))"

definition take_new_equivocations :: "('m, 's) acceptor
    \<Rightarrow> (slot \<times> ('m, 's) signed_envelope \<times> ('m, 's) signed_envelope) list \<times> ('m, 's) acceptor" where
  "take_new_equivocations ac = (let new = filter (\<lambda>(k, _). k \<notin> ac_reported ac) (ac_equivocations ac) in
     (map (\<lambda>((sid, i), (a, b)). ((sid, e_phase (se_envelope a), e_round (se_envelope a), i), (a, b))) new,
      ac\<lparr>ac_reported := ac_reported ac \<union> set (map fst new)\<rparr>))"

section \<open>The acceptor of the orchestrator\<close>

record ('m, 's) mesh_acceptor =
  mc_quorum :: nat
  mc_bcast :: "(slot, (bytes, ('m, 's) candidate) kmap) kmap"
  mc_equivocated :: "(bytes \<times> party_id) set"
  mc_p2p :: "(slot, ('m, 's) signed_envelope btree) kmap"

definition mesh_acceptor_new :: "nat \<Rightarrow> ('m, 's) mesh_acceptor" where
  "mesh_acceptor_new t = \<lparr>mc_quorum = t - 1, mc_bcast = [], mc_equivocated = {}, mc_p2p = []\<rparr>"

definition mesh_insert_candidate :: "slot \<Rightarrow> bytes \<Rightarrow> ('m, 's) signed_envelope \<Rightarrow> ('m, 's) mesh_acceptor \<Rightarrow> ('m, 's) mesh_acceptor" where
  "mesh_insert_candidate key payload env mc = (let ps = new_candidate payload env (entry (mc_bcast mc) key) in
     mc\<lparr>mc_bcast := bt_insert key ps (mc_bcast mc),
        mc_equivocated := (if length ps = 2 then insert (slot_sender key) (mc_equivocated mc) else mc_equivocated mc)\<rparr>)"

definition mesh_accept_broadcast :: "(('m, 's) signed_envelope \<Rightarrow> bytes) \<Rightarrow> ('m, 's) signed_envelope \<Rightarrow> party_id option
    \<Rightarrow> ('m, 's) mesh_acceptor \<Rightarrow> ('m, 's) mesh_acceptor" where
  "mesh_accept_broadcast ebytes se echoer mc = (let (key, payload) = slot_and_payload ebytes se in
     if slot_sender key \<in> mc_equivocated mc then mc
     else (let mc = mesh_insert_candidate key payload se mc in
       case echoer of
         None \<Rightarrow> mc
       | Some k \<Rightarrow> if k \<noteq> e_from (se_envelope se)
           then mc\<lparr>mc_bcast := add_echoer key payload k (mc_bcast mc)\<rparr> else mc))"

definition mesh_accept_p2p :: "('m, 's) signed_envelope \<Rightarrow> party_id \<Rightarrow> ('m, 's) mesh_acceptor \<Rightarrow> ('m, 's) mesh_acceptor" where
  "mesh_accept_p2p se to mc = (let e = se_envelope se; key = (e_sid e, e_phase e, e_round e, to); ms = entry (mc_p2p mc) key in
     mc\<lparr>mc_p2p := bt_insert key (if bt_contains ms (e_from e) then ms else bt_insert (e_from e) se ms) (mc_p2p mc)\<rparr>)"

definition mesh_process :: "(('m, 's) signed_envelope \<Rightarrow> bytes) \<Rightarrow> ('m, 's) received \<Rightarrow> ('m, 's) mesh_acceptor \<Rightarrow> ('m, 's) mesh_acceptor" where
  "mesh_process ebytes msg mc = (case msg of
       Received_Original se \<Rightarrow> (case e_to (se_envelope se) of
           None \<Rightarrow> mesh_accept_broadcast ebytes se None mc
         | Some to \<Rightarrow> mesh_accept_p2p se to mc)
     | Received_Echo echoer se \<Rightarrow> mesh_accept_broadcast ebytes se (Some echoer) mc)"

definition mesh_bcast_set :: "('m, 's) mesh_acceptor \<Rightarrow> bytes \<Rightarrow> phase \<Rightarrow> byte \<Rightarrow> party_id list
    \<Rightarrow> ('m, 's) signed_envelope envelope btree \<times> bool" where
  "mesh_bcast_set mc sid ph round ids = (let out = foldl (\<lambda>out i.
     if (sid, i) \<in> mc_equivocated mc then out
     else (case Option.bind (bt_get (mc_bcast mc) (sid, ph, round, i)) (accepted_in (mc_quorum mc)) of
         None \<Rightarrow> out
       | Some c \<Rightarrow> bt_insert i (envelope_broadcast sid ph round i (ca_env c)) out)) [] ids
     in (out, length out = length ids))"

definition mesh_p2p_set :: "('m, 's) mesh_acceptor \<Rightarrow> bytes \<Rightarrow> phase \<Rightarrow> byte \<Rightarrow> party_id \<Rightarrow> party_id list
    \<Rightarrow> ('m, 's) signed_envelope envelope btree \<times> bool" where
  "mesh_p2p_set mc sid ph round to ids = (let out = map (\<lambda>(i, se). (i, envelope_p2p sid ph round i to se))
       (entry (mc_p2p mc) (sid, ph, round, to))
     in (out, list_all (\<lambda>i. bt_contains out i) ids))"

section \<open>What was received\<close>

definition carries_broadcast :: "('m, 's) received \<Rightarrow> ('m, 's) signed_envelope \<Rightarrow> bool" where
  "carries_broadcast msg se \<longleftrightarrow> (case msg of
       Received_Original x \<Rightarrow> x = se \<and> e_to (se_envelope se) = None
     | Received_Echo _ x \<Rightarrow> x = se)"

definition bodies :: "(('m, 's) signed_envelope \<Rightarrow> bytes) \<Rightarrow> ('m, 's) received list \<Rightarrow> slot \<Rightarrow> bytes set" where
  \<comment> \<open>the values a slot was seen with\<close>
  "bodies ebytes msgs key = {ebytes se | msg se. msg \<in> set msgs \<and> carries_broadcast msg se \<and> slot_of se = key}"

definition echoers :: "(('m, 's) signed_envelope \<Rightarrow> bytes) \<Rightarrow> ('m, 's) received list \<Rightarrow> slot \<Rightarrow> bytes \<Rightarrow> party_id set" where
  \<comment> \<open>the parties other than the sender that echoed a value\<close>
  "echoers ebytes msgs key b = {k. \<exists>se. Received_Echo k se \<in> set msgs \<and> slot_of se = key \<and> ebytes se = b
     \<and> k \<noteq> e_from (se_envelope se)}"

definition received_sid :: "('m, 's) received \<Rightarrow> bytes" where
  "received_sid msg = (case msg of Received_Original se \<Rightarrow> e_sid (se_envelope se) | Received_Echo _ se \<Rightarrow> e_sid (se_envelope se))"

definition unequivocal :: "(('m, 's) signed_envelope \<Rightarrow> bytes) \<Rightarrow> ('m, 's) received list \<Rightarrow> bytes \<Rightarrow> party_id \<Rightarrow> bool" where
  \<comment> \<open>one value in every slot of the sender's session\<close>
  "unequivocal ebytes msgs sid i \<longleftrightarrow> (\<forall>ph r. \<forall>b \<in> bodies ebytes msgs (sid, ph, r, i). \<forall>b' \<in> bodies ebytes msgs (sid, ph, r, i). b = b')"

lemma finite_echoers: "finite (echoers ebytes msgs key b)"
proof (rule finite_subset)
  show "echoers ebytes msgs key b \<subseteq> (\<Union>m \<in> set msgs. {k. \<exists>se. m = Received_Echo k se})"
    by (auto simp: echoers_def)
  have "finite {k. \<exists>se. m = Received_Echo k se}" for m :: "('a, 'b) received"
    by (cases m) auto
  then show "finite (\<Union>m \<in> set msgs. {k. \<exists>se. m = Received_Echo k se})" by simp
qed

section \<open>Echo broadcast\<close>

text \<open>
  What an acceptor promises about the messages it has processed: an accepted value is one it received in that
  slot, echoed by a quorum of parties other than the sender, and the only value the slot was seen with; and
  a value with a quorum of a sender that never equivocated is accepted.
\<close>

locale echo_broadcast =
  fixes ebytes :: "('m, 's) signed_envelope \<Rightarrow> bytes"
    and quorum :: nat
    and accepted :: "('m, 's) received list \<Rightarrow> slot \<Rightarrow> ('m, 's) signed_envelope option"
    and admits :: "('m, 's) received list \<Rightarrow> bytes \<Rightarrow> bool"
  assumes sound: "accepted msgs key = Some se \<Longrightarrow> slot_of se = key \<and> (\<exists>msg \<in> set msgs. carries_broadcast msg se)
      \<and> quorum \<le> card (echoers ebytes msgs key (ebytes se)) \<and> bodies ebytes msgs key = {ebytes se}
      \<and> case_prod (unequivocal ebytes msgs) (slot_sender key)"
    and complete: "admits msgs sid \<Longrightarrow> unequivocal ebytes msgs sid i \<Longrightarrow> b \<in> bodies ebytes msgs (sid, ph, r, i)
      \<Longrightarrow> quorum \<le> card (echoers ebytes msgs (sid, ph, r, i) b)
      \<Longrightarrow> \<exists>se. accepted msgs (sid, ph, r, i) = Some se \<and> ebytes se = b"
begin

text \<open>
  Consistency. Two acceptors accept values of one slot; fewer parties than the quorum, the sender apart, are
  corrupt, and every honest echo the first one counted has reached the second one. Then the values agree.
\<close>

lemma consistent:
  assumes "accepted msgs key = Some se" "accepted msgs' key = Some se'"
    and "finite corrupt" "card corrupt < quorum"
    and delivered: "\<And>k x. Received_Echo k x \<in> set msgs \<Longrightarrow> slot_of x = key \<Longrightarrow> k \<notin> corrupt \<Longrightarrow> Received_Echo k x \<in> set msgs'"
  shows "ebytes se = ebytes se'"
proof -
  let ?Q = "echoers ebytes msgs key (ebytes se)"
  have "\<not> ?Q \<subseteq> corrupt"
    using sound [OF assms(1)] assms(3,4) card_mono [OF assms(3), of ?Q] by force
  then obtain k x where "k \<notin> corrupt" "Received_Echo k x \<in> set msgs" "slot_of x = key" "ebytes x = ebytes se"
    by (auto simp: echoers_def)
  with delivered have "Received_Echo k x \<in> set msgs'" by blast
  then have "ebytes x \<in> bodies ebytes msgs' key"
    using \<open>slot_of x = key\<close> by (force simp: bodies_def carries_broadcast_def)
  then show ?thesis using sound [OF assms(2)] \<open>ebytes x = ebytes se\<close> by simp
qed

text \<open>Acceptance is a property of the messages received.\<close>

lemma accepted_iff:
  assumes "admits msgs sid"
  shows "(\<exists>se. accepted msgs (sid, ph, r, i) = Some se \<and> ebytes se = b) \<longleftrightarrow> b \<in> bodies ebytes msgs (sid, ph, r, i)
    \<and> quorum \<le> card (echoers ebytes msgs (sid, ph, r, i) b) \<and> unequivocal ebytes msgs sid i"
  using sound [of msgs "(sid, ph, r, i)"] complete [OF assms] by fastforce

text \<open>Validity: a value that a quorum of parties echoed, from a sender with one value per slot, is accepted.\<close>

lemma validity:
  assumes "admits msgs sid" "unequivocal ebytes msgs sid i" "slot_of se = (sid, ph, r, i)"
    and "quorum \<le> card Q" "\<And>k. k \<in> Q \<Longrightarrow> k \<noteq> i \<and> Received_Echo k se \<in> set msgs" "Received_Original se \<in> set msgs"
    and "e_to (se_envelope se) = None"
  shows "\<exists>se'. accepted msgs (sid, ph, r, i) = Some se' \<and> ebytes se' = ebytes se"
proof (rule complete [OF assms(1,2)])
  show "ebytes se \<in> bodies ebytes msgs (sid, ph, r, i)"
    using assms(3,6,7) by (force simp: bodies_def carries_broadcast_def)
  have i: "e_from (se_envelope se) = i" using assms(3) by (simp add: slot_of_def Let_def)
  have "Q \<subseteq> echoers ebytes msgs (sid, ph, r, i) (ebytes se)"
    using assms(3,5) i by (force simp: echoers_def)
  then show "quorum \<le> card (echoers ebytes msgs (sid, ph, r, i) (ebytes se))"
    using assms(4) card_mono [OF finite_echoers, of Q] by fastforce
qed

end

section \<open>One slot\<close>

definition slot_ok :: "(('m, 's) signed_envelope \<Rightarrow> bytes) \<Rightarrow> ('m, 's) received list
    \<Rightarrow> (slot, (bytes, ('m, 's) candidate) kmap) kmap \<Rightarrow> slot \<Rightarrow> bool" where
  \<comment> \<open>the slot of a sender without conflict holds the one value seen, and who echoed it\<close>
  "slot_ok ebytes msgs m key \<longleftrightarrow> entry m key = [] \<and> bodies ebytes msgs key = {}
     \<or> (\<exists>c. entry m key = [(ebytes (ca_env c), c)] \<and> bodies ebytes msgs key = {ebytes (ca_env c)} \<and> slot_of (ca_env c) = key
         \<and> ca_echoers c = echoers ebytes msgs key (ebytes (ca_env c)) \<and> (\<exists>msg \<in> set msgs. carries_broadcast msg (ca_env c)))"

definition bcast_step :: "(('m, 's) signed_envelope \<Rightarrow> bytes) \<Rightarrow> ('m, 's) signed_envelope \<Rightarrow> party_id option
    \<Rightarrow> (slot, (bytes, ('m, 's) candidate) kmap) kmap \<Rightarrow> (slot, (bytes, ('m, 's) candidate) kmap) kmap" where
  "bcast_step ebytes se echoer m = (let m = bt_insert (slot_of se) (new_candidate (ebytes se) se (entry m (slot_of se))) m in
     case echoer of
       None \<Rightarrow> m
     | Some k \<Rightarrow> if k = e_from (se_envelope se) then m else add_echoer (slot_of se) (ebytes se) k m)"

lemma entry_insert: "entry (bt_insert k v m) j = (if j = k then v else entry m j)"
  by (simp add: entry_def bt_get_insert)

lemma entry_add_echoer: "j \<noteq> key \<Longrightarrow> entry (add_echoer key b k m) j = entry m j"
  by (auto simp: add_echoer_def entry_insert split: option.splits)

lemma entry_bcast_step: "j \<noteq> slot_of se \<Longrightarrow> entry (bcast_step ebytes se ech m) j = entry m j"
  by (simp add: bcast_step_def Let_def entry_add_echoer entry_insert split: option.splits)

lemma bodies_snoc:
  "bodies ebytes (msgs @ [msg]) key = bodies ebytes msgs key \<union> {ebytes se | se. carries_broadcast msg se \<and> slot_of se = key}"
  by (auto simp: bodies_def)

lemma echoers_snoc:
  "echoers ebytes (msgs @ [msg]) key b = echoers ebytes msgs key b
     \<union> {k. \<exists>se. msg = Received_Echo k se \<and> slot_of se = key \<and> ebytes se = b \<and> k \<noteq> e_from (se_envelope se)}"
  by (auto simp: echoers_def)

definition bcast_of :: "('m, 's) received \<Rightarrow> (('m, 's) signed_envelope \<times> party_id option) option" where
  "bcast_of msg = (case msg of
       Received_Original se \<Rightarrow> if e_to (se_envelope se) = None then Some (se, None) else None
     | Received_Echo k se \<Rightarrow> Some (se, Some k))"

lemma carries_bcast_of: "carries_broadcast msg x \<longleftrightarrow> (\<exists>ech. bcast_of msg = Some (x, ech))"
  by (auto simp: carries_broadcast_def bcast_of_def split: received.splits if_splits)

lemma bcast_of_echo: "bcast_of msg = Some (se, ech) \<Longrightarrow> msg = Received_Echo k x \<longleftrightarrow> ech = Some k \<and> x = se"
  by (auto simp: bcast_of_def split: received.splits if_splits)

lemma slot_unrelated:
  assumes "\<And>x. carries_broadcast msg x \<Longrightarrow> slot_of x \<noteq> key" "slot_ok ebytes msgs m key"
  shows "slot_ok ebytes (msgs @ [msg]) m key"
proof -
  have "bodies ebytes (msgs @ [msg]) key = bodies ebytes msgs key"
    using assms(1) by (auto simp: bodies_snoc)
  moreover have "echoers ebytes (msgs @ [msg]) key b = echoers ebytes msgs key b" for b
    using assms(1) by (auto simp: echoers_snoc carries_broadcast_def)
  ultimately show ?thesis using assms(2) by (auto simp: slot_ok_def)
qed

lemma slot_other:
  assumes "bcast_of msg = Some (se, ech)" "key \<noteq> slot_of se" "slot_ok ebytes msgs m key"
  shows "slot_ok ebytes (msgs @ [msg]) (bcast_step ebytes se ech m) key"
proof -
  have "slot_ok ebytes (msgs @ [msg]) m key"
    by (rule slot_unrelated [OF _ assms(3)]) (use assms(1,2) in \<open>auto simp: carries_bcast_of\<close>)
  then show ?thesis by (simp add: slot_ok_def entry_bcast_step [OF assms(2)])
qed

lemma entry_step_echo:
  assumes "entry m key = [(b, c)]"
  shows "entry (add_echoer key b k m) key = [(b, c\<lparr>ca_echoers := insert k (ca_echoers c)\<rparr>)]"
proof -
  from assms have "bt_get m key = Some [(b, c)]" by (auto simp: entry_def split: option.splits)
  then show ?thesis by (simp add: add_echoer_def entry_insert)
qed

lemma slot_step:
  assumes ok: "slot_ok ebytes msgs m (slot_of se)" and msg: "bcast_of msg = Some (se, ech)"
  defines "ps \<equiv> new_candidate (ebytes se) se (entry m (slot_of se))"
  shows "length ps = 1 \<and> slot_ok ebytes (msgs @ [msg]) (bcast_step ebytes se ech m) (slot_of se)
    \<or> length ps = 2 \<and> (\<exists>b b'. b \<noteq> b' \<and> b \<in> bodies ebytes (msgs @ [msg]) (slot_of se) \<and> b' \<in> bodies ebytes (msgs @ [msg]) (slot_of se))"
proof -
  let ?key = "slot_of se" and ?b = "ebytes se"
  have body: "bodies ebytes (msgs @ [msg]) ?key = insert ?b (bodies ebytes msgs ?key)"
    using msg by (auto simp: bodies_snoc carries_bcast_of)
  have echo: "echoers ebytes (msgs @ [msg]) ?key b = echoers ebytes msgs ?key b
      \<union> (if b = ?b then {k. ech = Some k \<and> k \<noteq> e_from (se_envelope se)} else {})" for b
    using msg by (auto simp: echoers_snoc bcast_of_echo)
  have holds: "slot_ok ebytes (msgs @ [msg]) (bcast_step ebytes se ech m) ?key"
    if ps: "ps = [(?b, c)]" and c: "ebytes (ca_env c) = ?b" "slot_of (ca_env c) = ?key"
      "ca_echoers c = echoers ebytes msgs ?key ?b" "\<exists>msg' \<in> set (msgs @ [msg]). carries_broadcast msg' (ca_env c)"
      and "bodies ebytes (msgs @ [msg]) ?key = {?b}" for c
  proof -
    let ?c = "c\<lparr>ca_echoers := echoers ebytes (msgs @ [msg]) ?key ?b\<rparr>"
    have step: "entry (bt_insert ?key ps m) ?key = [(?b, c)]" using ps by (simp add: entry_insert)
    have "entry (bcast_step ebytes se ech m) ?key = [(?b, ?c)]"
    proof (cases ech)
      case None
      then show ?thesis
        using step c(3) echo [of ?b] by (cases c) (simp add: bcast_step_def ps_def Let_def)
    next
      case (Some k)
      then show ?thesis
        using step c(3) echo [of ?b] entry_step_echo [OF step, of k]
        by (cases c) (auto simp: bcast_step_def ps_def Let_def)
    qed
    then show ?thesis unfolding slot_ok_def using c that(6) by (intro disjI2 exI [of _ ?c]) simp
  qed
  show ?thesis
  proof (cases "entry m ?key")
    case Nil
    then have none: "bodies ebytes msgs ?key = {}" using ok by (simp add: slot_ok_def)
    then have "echoers ebytes msgs ?key ?b = {}" by (force simp: echoers_def bodies_def carries_broadcast_def)
    moreover have ps: "ps = [(?b, \<lparr>ca_env = se, ca_echoers = {}\<rparr>)]"
      using Nil by (simp add: ps_def new_candidate_def bt_contains_def)
    ultimately have "slot_ok ebytes (msgs @ [msg]) (bcast_step ebytes se ech m) ?key"
      using holds [OF ps] none body msg by (auto simp: carries_bcast_of)
    then show ?thesis using ps by simp
  next
    case (Cons x xs)
    then obtain c where c: "entry m ?key = [(ebytes (ca_env c), c)]" "bodies ebytes msgs ?key = {ebytes (ca_env c)}"
      "slot_of (ca_env c) = ?key" "ca_echoers c = echoers ebytes msgs ?key (ebytes (ca_env c))"
      "\<exists>msg \<in> set msgs. carries_broadcast msg (ca_env c)"
      using ok by (auto simp: slot_ok_def)
    show ?thesis
    proof (cases "ebytes (ca_env c) = ?b")
      case True
      then have ps: "ps = [(?b, c)]" using c(1) by (simp add: ps_def new_candidate_def bt_contains_def)
      then show ?thesis using holds [OF ps] True c body by auto
    next
      case False
      then have "length ps = 2" using c(1) by (simp add: ps_def new_candidate_def bt_contains_def)
      then show ?thesis using body c(2) False by blast
    qed
  qed
qed

section \<open>The acceptor of a node provides it\<close>

definition poisoned :: "('m, 's) acceptor \<Rightarrow> bytes \<times> party_id \<Rightarrow> bool" where
  "poisoned ac k \<longleftrightarrow> bt_contains (ac_equivocations ac) k"

definition refuses :: "('m, 's) acceptor \<Rightarrow> bytes \<Rightarrow> bool" where
  \<comment> \<open>the caps keep a session id out\<close>
  "refuses ac sid \<longleftrightarrow> length sid > MAX_SID \<or> card (ac_sids ac) \<ge> MAX_TRACKED_SIDS"

definition acceptor_inv :: "(('m, 's) signed_envelope \<Rightarrow> bytes) \<Rightarrow> nat \<Rightarrow> ('m, 's) received list \<Rightarrow> ('m, 's) acceptor \<Rightarrow> bool" where
  "acceptor_inv ebytes t msgs ac \<longleftrightarrow> ac_quorum ac = t - 1 \<and> finite (ac_sids ac)
     \<and> (\<forall>msg \<in> set msgs. received_sid msg \<in> ac_sids ac \<or> refuses ac (received_sid msg))
     \<and> (\<forall>sid ph r i. (sid \<in> ac_sids ac \<longrightarrow> \<not> poisoned ac (sid, i) \<longrightarrow> slot_ok ebytes msgs (ac_bcast ac) (sid, ph, r, i))
         \<and> (sid \<notin> ac_sids ac \<longrightarrow> entry (ac_bcast ac) (sid, ph, r, i) = [] \<and> \<not> poisoned ac (sid, i))
         \<and> (poisoned ac (sid, i) \<longrightarrow> \<not> unequivocal ebytes msgs sid i))"

lemma acceptor_invI:
  assumes "ac_quorum ac = t - 1" "finite (ac_sids ac)"
    and "\<And>msg. msg \<in> set msgs \<Longrightarrow> received_sid msg \<in> ac_sids ac \<or> refuses ac (received_sid msg)"
    and "\<And>sid ph r i. sid \<in> ac_sids ac \<Longrightarrow> \<not> poisoned ac (sid, i) \<Longrightarrow> slot_ok ebytes msgs (ac_bcast ac) (sid, ph, r, i)"
    and "\<And>sid ph r i. sid \<notin> ac_sids ac \<Longrightarrow> entry (ac_bcast ac) (sid, ph, r, i) = []"
    and "\<And>sid i. poisoned ac (sid, i) \<Longrightarrow> sid \<in> ac_sids ac \<and> \<not> unequivocal ebytes msgs sid i"
  shows "acceptor_inv ebytes t msgs ac"
  unfolding acceptor_inv_def using assms by blast

lemma acceptor_invD:
  assumes "acceptor_inv ebytes t msgs ac"
  shows "ac_quorum ac = t - 1" "finite (ac_sids ac)"
    and "msg \<in> set msgs \<Longrightarrow> received_sid msg \<in> ac_sids ac \<or> refuses ac (received_sid msg)"
    and "sid \<in> ac_sids ac \<Longrightarrow> \<not> poisoned ac (sid, i) \<Longrightarrow> slot_ok ebytes msgs (ac_bcast ac) (sid, ph, r, i)"
    and "sid \<notin> ac_sids ac \<Longrightarrow> entry (ac_bcast ac) (sid, ph, r, i) = []"
    and "poisoned ac (sid, i) \<Longrightarrow> sid \<in> ac_sids ac" "poisoned ac (sid, i) \<Longrightarrow> \<not> unequivocal ebytes msgs sid i"
  using assms unfolding acceptor_inv_def by blast+

lemma slot_of_sid: "slot_of se = (sid, ph, r, i) \<Longrightarrow> e_sid (se_envelope se) = sid"
  by (simp add: slot_of_def Let_def)

lemma carries_sid: "carries_broadcast msg se \<Longrightarrow> received_sid msg = e_sid (se_envelope se)"
  by (auto simp: carries_broadcast_def received_sid_def split: received.splits)

lemma unequivocal_snoc: "unequivocal ebytes (msgs @ [msg]) sid i \<Longrightarrow> unequivocal ebytes msgs sid i"
proof -
  have "bodies ebytes msgs key \<subseteq> bodies ebytes (msgs @ [msg]) key" for key
    unfolding bodies_snoc by blast
  then show "unequivocal ebytes (msgs @ [msg]) sid i \<Longrightarrow> unequivocal ebytes msgs sid i"
    unfolding unequivocal_def by (meson subsetD)
qed

lemma inv_new: "acceptor_inv ebytes t [] (acceptor_new t)"
proof (rule acceptor_invI)
  have new: "ac_sids (acceptor_new t) = {}" "ac_bcast (acceptor_new t) = []" "\<not> poisoned (acceptor_new t) k" for k
    by (simp_all add: acceptor_new_def poisoned_def bt_contains_def)
  show "finite (ac_sids (acceptor_new t))" "ac_quorum (acceptor_new t) = t - 1"
    by (simp_all add: acceptor_new_def)
  show "slot_ok ebytes [] (ac_bcast (acceptor_new t)) (sid, ph, r, i)"
    if "sid \<in> ac_sids (acceptor_new t)" for sid ph r i
    using that unfolding new by blast
  show "entry (ac_bcast (acceptor_new t)) (sid, ph, r, i) = []" for sid ph r i
    unfolding new by (simp add: entry_def)
  show "sid \<in> ac_sids (acceptor_new t) \<and> \<not> unequivocal ebytes [] sid i" if "poisoned (acceptor_new t) (sid, i)" for sid i
    using that new(3) by blast
qed simp

lemma inv_refused:
  assumes inv: "acceptor_inv ebytes t msgs ac" and "admit_sid (received_sid msg) ac = (False, ac')"
  shows "acceptor_inv ebytes t (msgs @ [msg]) ac'"
proof -
  from assms(2) have ac': "ac' = ac\<lparr>ac_dropped := ac_dropped ac + 1\<rparr>" "received_sid msg \<notin> ac_sids ac" "refuses ac (received_sid msg)"
    by (auto simp: admit_sid_def refuses_def split: if_splits)
  then have same: "ac_sids ac' = ac_sids ac" "ac_bcast ac' = ac_bcast ac" "ac_quorum ac' = ac_quorum ac"
    "poisoned ac' k = poisoned ac k" "refuses ac' sid = refuses ac sid" for k sid
    by (simp_all add: poisoned_def refuses_def)
  show ?thesis
  proof (rule acceptor_invI, unfold same)
    fix m assume "m \<in> set (msgs @ [msg])"
    then show "received_sid m \<in> ac_sids ac \<or> refuses ac (received_sid m)"
      using acceptor_invD(3) [OF inv] ac'(3) by auto
  next
    fix sid ph r i assume s: "sid \<in> ac_sids ac" "\<not> poisoned ac (sid, i)"
    show "slot_ok ebytes (msgs @ [msg]) (ac_bcast ac) (sid, ph, r, i)"
      by (rule slot_unrelated [OF _ acceptor_invD(4) [OF inv s]]) (use s(1) ac'(2) carries_sid slot_of_sid in metis)
  qed (use acceptor_invD [OF inv] unequivocal_snoc in blast)+
qed

lemma refuses_grows: "finite (ac_sids ac) \<Longrightarrow> refuses ac s \<Longrightarrow> refuses (ac\<lparr>ac_sids := insert sid (ac_sids ac)\<rparr>) s"
  by (auto simp: refuses_def card_insert_if)

lemma inv_admitted:
  assumes inv: "acceptor_inv ebytes t msgs ac" and "admit_sid sid ac = (True, ac')"
  shows "acceptor_inv ebytes t msgs ac'" "sid \<in> ac_sids ac'"
proof -
  consider (old) "ac' = ac" "sid \<in> ac_sids ac"
    | (new) "ac' = ac\<lparr>ac_sids := insert sid (ac_sids ac)\<rparr>" "sid \<notin> ac_sids ac" "\<not> refuses ac sid"
    using assms(2) by (auto simp: admit_sid_def refuses_def split: if_splits)
  then have "acceptor_inv ebytes t msgs ac' \<and> sid \<in> ac_sids ac'"
  proof cases
    case old
    then show ?thesis using inv by simp
  next
    case new
    have fresh: "received_sid msg \<noteq> sid" if "msg \<in> set msgs" for msg
      using acceptor_invD(3) [OF inv that] new(2,3) by blast
    have none: "bodies ebytes msgs (sid, ph, r, i) = {}" for ph r i
    proof (rule equals0I)
      fix b assume "b \<in> bodies ebytes msgs (sid, ph, r, i)"
      then obtain msg se where "msg \<in> set msgs" "carries_broadcast msg se" "slot_of se = (sid, ph, r, i)"
        by (auto simp: bodies_def)
      then show False using fresh carries_sid slot_of_sid by metis
    qed
    have same: "ac_bcast ac' = ac_bcast ac" "ac_quorum ac' = ac_quorum ac" "poisoned ac' k = poisoned ac k"
      "ac_sids ac' = insert sid (ac_sids ac)" for k
      using new(1) by (simp_all add: poisoned_def)
    have "acceptor_inv ebytes t msgs ac'"
    proof (rule acceptor_invI, unfold same)
      fix m assume "m \<in> set msgs"
      then show "received_sid m \<in> insert sid (ac_sids ac) \<or> refuses ac' (received_sid m)"
        using acceptor_invD(2,3) [OF inv] refuses_grows new(1) by blast
    next
      fix s ph r i assume "s \<in> insert sid (ac_sids ac)" "\<not> poisoned ac (s, i)"
      then show "slot_ok ebytes msgs (ac_bcast ac) (s, ph, r, i)"
        using acceptor_invD(4) [OF inv, of s i ph r] acceptor_invD(5) [OF inv new(2), of ph r i] none [of ph r i]
        by (cases "s = sid") (simp_all add: slot_ok_def)
    qed (use acceptor_invD [OF inv] in blast)+
    then show ?thesis using same(4) by simp
  qed
  then show "acceptor_inv ebytes t msgs ac'" "sid \<in> ac_sids ac'" by blast+
qed

lemma slot_ok_length: "slot_ok ebytes msgs m key \<Longrightarrow> length (entry m key) \<le> 1"
  by (auto simp: slot_ok_def)

lemma slot_ok_bodies: "slot_ok ebytes msgs m key \<Longrightarrow> b \<in> bodies ebytes msgs key \<Longrightarrow> b' \<in> bodies ebytes msgs key \<Longrightarrow> b = b'"
  by (auto simp: slot_ok_def)

lemma accept_broadcast_eq:
  assumes "\<not> poisoned ac (slot_sender (slot_of se))" "length (entry (ac_bcast ac) (slot_of se)) \<le> 1"
  shows "\<exists>evs. accept_broadcast ebytes se ech ac = ac\<lparr>ac_bcast := bcast_step ebytes se ech (ac_bcast ac), ac_equivocations := evs\<rparr>
    \<and> (\<forall>k. bt_contains evs k \<longleftrightarrow> poisoned ac k
        \<or> k = slot_sender (slot_of se) \<and> length (new_candidate (ebytes se) se (entry (ac_bcast ac) (slot_of se))) = 2)"
  using assms
  by (cases ac) (auto simp: accept_broadcast_def slot_and_payload_def insert_candidate_def Let_def bcast_step_def poisoned_def
      MAX_CANDIDATES_PER_SLOT_def bt_contains_def bt_get_insert split: option.splits)

lemma inv_broadcast:
  assumes inv: "acceptor_inv ebytes t msgs ac" and msg: "bcast_of msg = Some (se, ech)" and "e_sid (se_envelope se) \<in> ac_sids ac"
  shows "acceptor_inv ebytes t (msgs @ [msg]) (accept_broadcast ebytes se ech ac)"
proof -
  obtain sid ph r i where key: "slot_of se = (sid, ph, r, i)" by (cases "slot_of se")
  then have sid: "sid \<in> ac_sids ac" using assms(3) slot_of_sid by metis
  have rsid: "received_sid msg = sid"
    using msg key slot_of_sid carries_sid carries_bcast_of by metis
  have carries: "carries_broadcast msg x \<longleftrightarrow> x = se" for x using msg by (auto simp: carries_bcast_of)
  show ?thesis
  proof (cases "poisoned ac (sid, i)")
    case True
    then have step: "accept_broadcast ebytes se ech ac = ac"
      by (simp add: accept_broadcast_def slot_and_payload_def key poisoned_def)
    show ?thesis
      unfolding step
    proof (rule acceptor_invI)
      fix m assume "m \<in> set (msgs @ [msg])"
      then show "received_sid m \<in> ac_sids ac \<or> refuses ac (received_sid m)"
        using acceptor_invD(3) [OF inv] rsid sid by auto
    next
      fix s q w j assume s: "s \<in> ac_sids ac" "\<not> poisoned ac (s, j)"
      show "slot_ok ebytes (msgs @ [msg]) (ac_bcast ac) (s, q, w, j)"
        by (rule slot_unrelated [OF _ acceptor_invD(4) [OF inv s]]) (use s(2) True key carries in auto)
    qed (use acceptor_invD [OF inv] unequivocal_snoc in blast)+
  next
    case False
    note ok = acceptor_invD(4) [OF inv sid False, of ph r, folded key]
    let ?ps = "new_candidate (ebytes se) se (entry (ac_bcast ac) (slot_of se))"
      and ?m = "bcast_step ebytes se ech (ac_bcast ac)"
    obtain evs where step: "accept_broadcast ebytes se ech ac = ac\<lparr>ac_bcast := ?m, ac_equivocations := evs\<rparr>"
      and evs: "\<And>k. bt_contains evs k \<longleftrightarrow> poisoned ac k \<or> k = (sid, i) \<and> length ?ps = 2"
      using accept_broadcast_eq [OF _ slot_ok_length [OF ok], of ebytes ech] False key by auto
    from slot_step [OF ok msg] have slot: "length ?ps = 1 \<and> slot_ok ebytes (msgs @ [msg]) ?m (slot_of se)
      \<or> length ?ps = 2 \<and> \<not> unequivocal ebytes (msgs @ [msg]) sid i"
      using key by (auto simp: unequivocal_def)
    let ?ac = "ac\<lparr>ac_bcast := ?m, ac_equivocations := evs\<rparr>"
    have same: "ac_quorum ?ac = ac_quorum ac" "ac_sids ?ac = ac_sids ac" "ac_bcast ?ac = ?m"
      "poisoned ?ac k \<longleftrightarrow> poisoned ac k \<or> k = (sid, i) \<and> length ?ps = 2" "refuses ?ac s = refuses ac s" for k s
      using evs by (simp_all add: poisoned_def refuses_def)
    show ?thesis
      unfolding step
    proof (rule acceptor_invI, unfold same)
      fix m assume "m \<in> set (msgs @ [msg])"
      then show "received_sid m \<in> ac_sids ac \<or> refuses ac (received_sid m)"
        using acceptor_invD(3) [OF inv] rsid sid by auto
    next
      fix s q w j assume s: "s \<in> ac_sids ac" "\<not> (poisoned ac (s, j) \<or> (s, j) = (sid, i) \<and> length ?ps = 2)"
      show "slot_ok ebytes (msgs @ [msg]) ?m (s, q, w, j)"
      proof (cases "(s, q, w, j) = slot_of se")
        case True
        then show ?thesis using slot s(2) key by auto
      next
        case False
        then show ?thesis using slot_other [OF msg] acceptor_invD(4) [OF inv s(1)] s(2) by blast
      qed
    next
      fix s q w j assume s: "s \<notin> ac_sids ac"
      then have "(s, q, w, j) \<noteq> slot_of se" using sid key by auto
      then show "entry ?m (s, q, w, j) = []" using entry_bcast_step acceptor_invD(5) [OF inv s] by metis
    next
      fix s j assume "poisoned ac (s, j) \<or> (s, j) = (sid, i) \<and> length ?ps = 2"
      then show "s \<in> ac_sids ac \<and> \<not> unequivocal ebytes (msgs @ [msg]) s j"
        using acceptor_invD(6,7) [OF inv] unequivocal_snoc slot sid by force
    qed (use acceptor_invD(1,2) [OF inv] in blast)+
  qed
qed

definition acceptor_run :: "(('m, 's) signed_envelope \<Rightarrow> bytes) \<Rightarrow> nat \<Rightarrow> ('m, 's) received list \<Rightarrow> ('m, 's) acceptor" where
  \<comment> \<open>the state after processing messages in order\<close>
  "acceptor_run ebytes t msgs = foldl (\<lambda>ac msg. process ebytes msg ac) (acceptor_new t) msgs"

lemma inv_process:
  assumes inv: "acceptor_inv ebytes t msgs ac"
  shows "acceptor_inv ebytes t (msgs @ [msg]) (process ebytes msg ac)"
proof -
  obtain ok ac' where ok: "admit_sid (received_sid msg) ac = (ok, ac')" by fastforce
  show ?thesis
  proof (cases ok)
    case False
    then have "process ebytes msg ac = ac'"
      using ok by (auto simp: process_def received_sid_def split: received.splits)
    then show ?thesis using inv_refused [OF inv] ok False by auto
  next
    case True
    then have "admit_sid (received_sid msg) ac = (True, ac')" using ok by simp
    note adm = inv_admitted [OF inv this]
    show ?thesis
    proof (cases "bcast_of msg")
      case None
      then obtain se to where msg: "msg = Received_Original se" "e_to (se_envelope se) = Some to"
        by (auto simp: bcast_of_def split: received.splits if_splits)
      have step: "process ebytes msg ac = accept_p2p se to ac'"
        using ok True msg by (simp add: process_def received_sid_def)
      have same: "ac_quorum (accept_p2p se to ac') = ac_quorum ac'" "ac_sids (accept_p2p se to ac') = ac_sids ac'"
        "ac_bcast (accept_p2p se to ac') = ac_bcast ac'" "poisoned (accept_p2p se to ac') k = poisoned ac' k"
        "refuses (accept_p2p se to ac') sid = refuses ac' sid" for k sid
        by (simp_all add: accept_p2p_def Let_def poisoned_def refuses_def)
      show ?thesis
        unfolding step
      proof (rule acceptor_invI, unfold same)
        fix m assume "m \<in> set (msgs @ [msg])"
        then show "received_sid m \<in> ac_sids ac' \<or> refuses ac' (received_sid m)"
          using acceptor_invD(3) [OF adm(1)] adm(2) by auto
      next
        fix s q w j assume s: "s \<in> ac_sids ac'" "\<not> poisoned ac' (s, j)"
        show "slot_ok ebytes (msgs @ [msg]) (ac_bcast ac') (s, q, w, j)"
          by (rule slot_unrelated [OF _ acceptor_invD(4) [OF adm(1) s]]) (use None in \<open>auto simp: carries_bcast_of\<close>)
      qed (use acceptor_invD [OF adm(1)] unequivocal_snoc in blast)+
    next
      case (Some x)
      then obtain se ech where msg: "bcast_of msg = Some (se, ech)" by (cases x) auto
      then have sid: "received_sid msg = e_sid (se_envelope se)" using carries_sid carries_bcast_of by metis
      have "process ebytes msg ac = accept_broadcast ebytes se ech ac'"
        using ok True msg by (auto simp: process_def received_sid_def bcast_of_def split: received.splits if_splits)
      then show ?thesis using inv_broadcast [OF adm(1) msg] adm(2) sid by simp
    qed
  qed
qed

lemma acceptor_run_snoc [simp]: "acceptor_run ebytes t (msgs @ [msg]) = process ebytes msg (acceptor_run ebytes t msgs)"
  by (simp add: acceptor_run_def)

lemma inv_run: "acceptor_inv ebytes t msgs (acceptor_run ebytes t msgs)"
proof (induction msgs rule: rev_induct)
  case Nil
  then show ?case by (simp add: acceptor_run_def inv_new)
qed (simp add: inv_process)

lemma bcast_set_get:
  "bt_get (bcast_set ac sid ph r ids) i = (if i \<in> set ids \<and> \<not> poisoned ac (sid, i)
     then map_option ca_env (Option.bind (bt_get (ac_bcast ac) (sid, ph, r, i)) (accepted_in (ac_quorum ac))) else None)"
proof -
  let ?F = "\<lambda>out i. if bt_contains (ac_equivocations ac) (sid, i) then out
     else (case Option.bind (bt_get (ac_bcast ac) (sid, ph, r, i)) (accepted_in (ac_quorum ac)) of
         None \<Rightarrow> out
       | Some c \<Rightarrow> bt_insert i (ca_env c) out)"
  have "bt_get (foldl ?F out ids) i = (if i \<in> set ids \<and> \<not> poisoned ac (sid, i)
      \<and> Option.bind (bt_get (ac_bcast ac) (sid, ph, r, i)) (accepted_in (ac_quorum ac)) \<noteq> None
     then map_option ca_env (Option.bind (bt_get (ac_bcast ac) (sid, ph, r, i)) (accepted_in (ac_quorum ac))) else bt_get out i)" for out
    by (induction ids arbitrary: out) (auto simp: poisoned_def bt_get_insert split: option.split)
  from this [of "[]"] show ?thesis unfolding bcast_set_def by (simp add: option.map_disc_iff)
qed

definition node_accepted :: "(('m, 's) signed_envelope \<Rightarrow> bytes) \<Rightarrow> nat \<Rightarrow> ('m, 's) received list \<Rightarrow> slot \<Rightarrow> ('m, 's) signed_envelope option" where
  "node_accepted ebytes t msgs key = (case key of (sid, ph, r, i) \<Rightarrow> bt_get (bcast_set (acceptor_run ebytes t msgs) sid ph r [i]) i)"

lemma accepted_in_entry:
  "Option.bind (bt_get m key) (accepted_in q) = accepted_in q (entry m key)"
  by (simp add: entry_def accepted_in_def split: option.split)

lemma accepted_in_single: "accepted_in q [(b, c)] = (if q \<le> card (ca_echoers c) then Some c else None)"
  by (simp add: accepted_in_def)

interpretation node: echo_broadcast ebytes "t - 1" "node_accepted ebytes t" "\<lambda>msgs sid. sid \<in> ac_sids (acceptor_run ebytes t msgs)"
  for ebytes t
proof unfold_locales
  fix msgs :: "('a, 'b) received list" and key se
  assume acc: "node_accepted ebytes t msgs key = Some se"
  obtain sid ph r i where key: "key = (sid, ph, r, i)" by (cases key)
  let ?ac = "acceptor_run ebytes t msgs"
  note inv = inv_run [of ebytes t msgs]
  from acc obtain c where c: "\<not> poisoned ?ac (sid, i)" "accepted_in (t - 1) (entry (ac_bcast ?ac) key) = Some c" "se = ca_env c"
    by (auto simp: node_accepted_def key bcast_set_get accepted_in_entry acceptor_invD(1) [OF inv] split: if_splits)
  then have "sid \<in> ac_sids ?ac"
    using acceptor_invD(5) [OF inv, of sid ph r i] key by (cases "sid \<in> ac_sids ?ac") (auto simp: accepted_in_def)
  note ok = acceptor_invD(4) [OF inv this c(1)]
  have "unequivocal ebytes msgs sid i"
    using ok slot_ok_bodies unfolding unequivocal_def by blast
  with ok [of ph r] c(2,3)
  show "slot_of se = key \<and> (\<exists>msg \<in> set msgs. carries_broadcast msg se)
      \<and> t - 1 \<le> card (echoers ebytes msgs key (ebytes se)) \<and> bodies ebytes msgs key = {ebytes se}
      \<and> case_prod (unequivocal ebytes msgs) (slot_sender key)"
    by (auto simp: slot_ok_def key accepted_in_single accepted_in_def split: if_splits)
next
  fix msgs :: "('a, 'b) received list" and sid :: bytes and i :: party_id and b :: bytes and ph :: phase and r :: byte
  let ?ac = "acceptor_run ebytes t msgs" and ?key = "(sid, ph, r, i)"
  assume sid: "sid \<in> ac_sids ?ac" and un: "unequivocal ebytes msgs sid i" and b: "b \<in> bodies ebytes msgs ?key"
    and q: "t - 1 \<le> card (echoers ebytes msgs ?key b)"
  note inv = inv_run [of ebytes t msgs]
  have free: "\<not> poisoned ?ac (sid, i)" using acceptor_invD(7) [OF inv] un by blast
  from acceptor_invD(4) [OF inv sid this, of ph r] b q obtain c where
    "accepted_in (t - 1) (entry (ac_bcast ?ac) ?key) = Some c" "ebytes (ca_env c) = b"
    by (auto simp: slot_ok_def accepted_in_single)
  then show "\<exists>se. node_accepted ebytes t msgs ?key = Some se \<and> ebytes se = b"
    using free by (simp add: node_accepted_def bcast_set_get accepted_in_entry acceptor_invD(1) [OF inv])
qed

text \<open>Within the caps every session is admitted.\<close>

lemma run_admits:
  assumes "msg \<in> set msgs" "length (received_sid msg) \<le> MAX_SID" "card (received_sid ` set msgs) \<le> MAX_TRACKED_SIDS"
  shows "received_sid msg \<in> ac_sids (acceptor_run ebytes t msgs)"
proof (rule ccontr)
  let ?ac = "acceptor_run ebytes t msgs"
  assume out: "received_sid msg \<notin> ac_sids ?ac"
  have sub: "ac_sids (acceptor_run ebytes t ms) \<subseteq> received_sid ` set ms" for ms
  proof (induction ms rule: rev_induct)
    case (snoc m ms)
    have "ac_sids (process ebytes m ac) \<subseteq> insert (received_sid m) (ac_sids ac)" for ac
      by (auto simp: process_def admit_sid_def received_sid_def accept_broadcast_def insert_candidate_def accept_p2p_def
          slot_and_payload_def Let_def split: received.splits option.splits if_splits)
    then show ?case using snoc by fastforce
  qed (simp add: acceptor_run_def acceptor_new_def)
  have "card (ac_sids ?ac) \<ge> MAX_TRACKED_SIDS"
    using acceptor_invD(3) [OF inv_run assms(1)] out assms(2) by (auto simp: refuses_def)
  moreover have "card (ac_sids ?ac) < card (received_sid ` set msgs)"
    using sub [of msgs] out assms(1) by (intro psubset_card_mono) auto
  ultimately show False using assms(3) by simp
qed

section \<open>The acceptor of the orchestrator provides it\<close>

definition mesh_run :: "(('m, 's) signed_envelope \<Rightarrow> bytes) \<Rightarrow> nat \<Rightarrow> ('m, 's) received list \<Rightarrow> ('m, 's) mesh_acceptor" where
  "mesh_run ebytes t msgs = foldl (\<lambda>mc msg. mesh_process ebytes msg mc) (mesh_acceptor_new t) msgs"

definition mesh_accepted :: "(('m, 's) signed_envelope \<Rightarrow> bytes) \<Rightarrow> nat \<Rightarrow> ('m, 's) received list \<Rightarrow> slot \<Rightarrow> ('m, 's) signed_envelope option" where
  "mesh_accepted ebytes t msgs key = (case key of (sid, ph, r, i) \<Rightarrow>
     map_option e_payload (bt_get (fst (mesh_bcast_set (mesh_run ebytes t msgs) sid ph r [i])) i))"

definition mesh_inv :: "(('m, 's) signed_envelope \<Rightarrow> bytes) \<Rightarrow> nat \<Rightarrow> ('m, 's) received list \<Rightarrow> ('m, 's) mesh_acceptor \<Rightarrow> bool" where
  "mesh_inv ebytes t msgs mc \<longleftrightarrow> mc_quorum mc = t - 1
     \<and> (\<forall>sid ph r i. ((sid, i) \<notin> mc_equivocated mc \<longrightarrow> slot_ok ebytes msgs (mc_bcast mc) (sid, ph, r, i))
         \<and> ((sid, i) \<in> mc_equivocated mc \<longrightarrow> \<not> unequivocal ebytes msgs sid i))"

lemma mesh_invI:
  assumes "mc_quorum mc = t - 1"
    and "\<And>sid ph r i. (sid, i) \<notin> mc_equivocated mc \<Longrightarrow> slot_ok ebytes msgs (mc_bcast mc) (sid, ph, r, i)"
    and "\<And>sid i. (sid, i) \<in> mc_equivocated mc \<Longrightarrow> \<not> unequivocal ebytes msgs sid i"
  shows "mesh_inv ebytes t msgs mc"
  unfolding mesh_inv_def using assms by blast

lemma mesh_invD:
  assumes "mesh_inv ebytes t msgs mc"
  shows "mc_quorum mc = t - 1"
    and "(sid, i) \<notin> mc_equivocated mc \<Longrightarrow> slot_ok ebytes msgs (mc_bcast mc) (sid, ph, r, i)"
    and "(sid, i) \<in> mc_equivocated mc \<Longrightarrow> \<not> unequivocal ebytes msgs sid i"
  using assms unfolding mesh_inv_def by blast+

lemma mesh_accept_broadcast_eq:
  assumes "slot_sender (slot_of se) \<notin> mc_equivocated mc"
  shows "mesh_accept_broadcast ebytes se ech mc = mc\<lparr>mc_bcast := bcast_step ebytes se ech (mc_bcast mc),
     mc_equivocated := (if length (new_candidate (ebytes se) se (entry (mc_bcast mc) (slot_of se))) = 2
       then insert (slot_sender (slot_of se)) (mc_equivocated mc) else mc_equivocated mc)\<rparr>"
  using assms
  by (cases mc) (auto simp: mesh_accept_broadcast_def slot_and_payload_def mesh_insert_candidate_def Let_def bcast_step_def
      split: option.splits)

lemma mesh_inv_broadcast:
  assumes inv: "mesh_inv ebytes t msgs mc" and msg: "bcast_of msg = Some (se, ech)"
  shows "mesh_inv ebytes t (msgs @ [msg]) (mesh_accept_broadcast ebytes se ech mc)"
proof -
  obtain sid ph r i where key: "slot_of se = (sid, ph, r, i)" by (cases "slot_of se")
  have carries: "carries_broadcast msg x \<longleftrightarrow> x = se" for x using msg by (auto simp: carries_bcast_of)
  show ?thesis
  proof (cases "(sid, i) \<in> mc_equivocated mc")
    case True
    then have step: "mesh_accept_broadcast ebytes se ech mc = mc"
      by (simp add: mesh_accept_broadcast_def slot_and_payload_def key)
    show ?thesis
      unfolding step
    proof (rule mesh_invI)
      fix s q w j assume s: "(s, j) \<notin> mc_equivocated mc"
      show "slot_ok ebytes (msgs @ [msg]) (mc_bcast mc) (s, q, w, j)"
        by (rule slot_unrelated [OF _ mesh_invD(2) [OF inv s]]) (use s True key carries in auto)
    qed (use mesh_invD [OF inv] unequivocal_snoc in blast)+
  next
    case False
    note ok = mesh_invD(2) [OF inv False, of ph r, folded key]
    let ?ps = "new_candidate (ebytes se) se (entry (mc_bcast mc) (slot_of se))"
      and ?m = "bcast_step ebytes se ech (mc_bcast mc)"
    let ?eq = "if length ?ps = 2 then insert (sid, i) (mc_equivocated mc) else mc_equivocated mc"
    have step: "mesh_accept_broadcast ebytes se ech mc = mc\<lparr>mc_bcast := ?m, mc_equivocated := ?eq\<rparr>"
      using mesh_accept_broadcast_eq [of se mc ebytes ech] False key by simp
    from slot_step [OF ok msg] have slot: "length ?ps = 1 \<and> slot_ok ebytes (msgs @ [msg]) ?m (slot_of se)
      \<or> length ?ps = 2 \<and> \<not> unequivocal ebytes (msgs @ [msg]) sid i"
      using key by (auto simp: unequivocal_def)
    have same: "mc_quorum (mc\<lparr>mc_bcast := ?m, mc_equivocated := ?eq\<rparr>) = mc_quorum mc"
      "mc_bcast (mc\<lparr>mc_bcast := ?m, mc_equivocated := ?eq\<rparr>) = ?m"
      "mc_equivocated (mc\<lparr>mc_bcast := ?m, mc_equivocated := ?eq\<rparr>) = ?eq" by simp_all
    show ?thesis
      unfolding step
    proof (rule mesh_invI, unfold same)
      fix s q w j assume s: "(s, j) \<notin> ?eq"
      show "slot_ok ebytes (msgs @ [msg]) ?m (s, q, w, j)"
      proof (cases "(s, q, w, j) = slot_of se")
        case True
        then show ?thesis using slot s key by (auto split: if_splits)
      next
        case other: False
        have "(s, j) \<notin> mc_equivocated mc" using s by (auto split: if_splits)
        then show ?thesis using slot_other [OF msg other] mesh_invD(2) [OF inv] by blast
      qed
    next
      fix s j assume "(s, j) \<in> ?eq"
      then show "\<not> unequivocal ebytes (msgs @ [msg]) s j"
        using mesh_invD(3) [OF inv] unequivocal_snoc slot by (force split: if_splits)
    qed (use mesh_invD(1) [OF inv] in blast)
  qed
qed

lemma mesh_inv_process:
  assumes inv: "mesh_inv ebytes t msgs mc"
  shows "mesh_inv ebytes t (msgs @ [msg]) (mesh_process ebytes msg mc)"
proof (cases "bcast_of msg")
  case None
  then obtain se to where msg: "msg = Received_Original se" "e_to (se_envelope se) = Some to"
    by (auto simp: bcast_of_def split: received.splits if_splits)
  have step: "mesh_process ebytes msg mc = mesh_accept_p2p se to mc" using msg by (simp add: mesh_process_def)
  have same: "mc_quorum (mesh_accept_p2p se to mc) = mc_quorum mc" "mc_bcast (mesh_accept_p2p se to mc) = mc_bcast mc"
    "mc_equivocated (mesh_accept_p2p se to mc) = mc_equivocated mc"
    by (simp_all add: mesh_accept_p2p_def Let_def)
  show ?thesis
    unfolding step
  proof (rule mesh_invI, unfold same)
    fix s q w j assume s: "(s, j) \<notin> mc_equivocated mc"
    show "slot_ok ebytes (msgs @ [msg]) (mc_bcast mc) (s, q, w, j)"
      by (rule slot_unrelated [OF _ mesh_invD(2) [OF inv s]]) (use None in \<open>auto simp: carries_bcast_of\<close>)
  qed (use mesh_invD [OF inv] unequivocal_snoc in blast)+
next
  case (Some x)
  then obtain se ech where msg: "bcast_of msg = Some (se, ech)" by (cases x) auto
  then have "mesh_process ebytes msg mc = mesh_accept_broadcast ebytes se ech mc"
    by (auto simp: mesh_process_def bcast_of_def split: received.splits if_splits)
  then show ?thesis using mesh_inv_broadcast [OF inv msg] by simp
qed

lemma mesh_inv_run: "mesh_inv ebytes t msgs (mesh_run ebytes t msgs)"
proof (induction msgs rule: rev_induct)
  case Nil
  show ?case
    by (rule mesh_invI) (simp_all add: mesh_run_def mesh_acceptor_new_def slot_ok_def entry_def bodies_def)
next
  case (snoc m ms)
  then show ?case using mesh_inv_process by (simp add: mesh_run_def)
qed

lemma mesh_accepted_single:
  "mesh_accepted ebytes t msgs (sid, ph, r, i) = (if (sid, i) \<in> mc_equivocated (mesh_run ebytes t msgs) then None
     else map_option ca_env (accepted_in (mc_quorum (mesh_run ebytes t msgs)) (entry (mc_bcast (mesh_run ebytes t msgs)) (sid, ph, r, i))))"
  by (simp add: mesh_accepted_def mesh_bcast_set_def Let_def accepted_in_entry envelope_broadcast_def split: option.split)

interpretation mesh: echo_broadcast ebytes "t - 1" "mesh_accepted ebytes t" "\<lambda>_ _. True"
  for ebytes t
proof unfold_locales
  fix msgs :: "('a, 'b) received list" and key se
  assume acc: "mesh_accepted ebytes t msgs key = Some se"
  obtain sid ph r i where key: "key = (sid, ph, r, i)" by (cases key)
  let ?mc = "mesh_run ebytes t msgs"
  note inv = mesh_inv_run [of ebytes t msgs]
  from acc obtain c where c: "(sid, i) \<notin> mc_equivocated ?mc" "accepted_in (t - 1) (entry (mc_bcast ?mc) key) = Some c" "se = ca_env c"
    by (auto simp: key mesh_accepted_single mesh_invD(1) [OF inv] split: if_splits)
  note ok = mesh_invD(2) [OF inv c(1)]
  have "unequivocal ebytes msgs sid i"
    using ok slot_ok_bodies unfolding unequivocal_def by blast
  with ok [of ph r] c(2,3)
  show "slot_of se = key \<and> (\<exists>msg \<in> set msgs. carries_broadcast msg se)
      \<and> t - 1 \<le> card (echoers ebytes msgs key (ebytes se)) \<and> bodies ebytes msgs key = {ebytes se}
      \<and> case_prod (unequivocal ebytes msgs) (slot_sender key)"
    by (auto simp: slot_ok_def key accepted_in_single accepted_in_def split: if_splits)
next
  fix msgs :: "('a, 'b) received list" and sid :: bytes and i :: party_id and b :: bytes and ph :: phase and r :: byte
  let ?mc = "mesh_run ebytes t msgs" and ?key = "(sid, ph, r, i)"
  assume un: "unequivocal ebytes msgs sid i" and b: "b \<in> bodies ebytes msgs ?key"
    and q: "t - 1 \<le> card (echoers ebytes msgs ?key b)"
  note inv = mesh_inv_run [of ebytes t msgs]
  have free: "(sid, i) \<notin> mc_equivocated ?mc" using mesh_invD(3) [OF inv] un by blast
  from mesh_invD(2) [OF inv this, of ph r] b q obtain c where
    "accepted_in (t - 1) (entry (mc_bcast ?mc) ?key) = Some c" "ebytes (ca_env c) = b"
    by (auto simp: slot_ok_def accepted_in_single)
  then show "\<exists>se. mesh_accepted ebytes t msgs ?key = Some se \<and> ebytes se = b"
    using free by (simp add: mesh_accepted_single mesh_invD(1) [OF inv])
qed

text \<open>On the sessions a node admits, both acceptors accept the same values.\<close>

lemma acceptors_agree:
  assumes "sid \<in> ac_sids (acceptor_run ebytes t msgs)"
  shows "map_option ebytes (node_accepted ebytes t msgs (sid, ph, r, i)) = map_option ebytes (mesh_accepted ebytes t msgs (sid, ph, r, i))"
proof -
  have "(\<exists>se. node_accepted ebytes t msgs (sid, ph, r, i) = Some se \<and> ebytes se = b)
      \<longleftrightarrow> (\<exists>se. mesh_accepted ebytes t msgs (sid, ph, r, i) = Some se \<and> ebytes se = b)" for b
    using node.accepted_iff [where ebytes = ebytes and t = t and msgs = msgs and sid = sid and ph = ph and r = r and i = i and b = b] mesh.accepted_iff [where ebytes = ebytes and t = t and msgs = msgs and sid = sid and ph = ph and r = r and i = i and b = b] assms by simp
  then show ?thesis
    by (cases "node_accepted ebytes t msgs (sid, ph, r, i)"; cases "mesh_accepted ebytes t msgs (sid, ph, r, i)") auto
qed

text \<open>
  Acceptance does not wait for a conflict: with threshold two, a sender that signs two values for one slot gets
  each of them accepted by the node that saw it first, since a node's own echo is a quorum.
\<close>

lemma quorum_before_conflict:
  assumes "slot_of m = (sid, ph, r, i)" "e_to (se_envelope m) = None" "k \<noteq> i" "length sid \<le> MAX_SID"
  shows "node_accepted ebytes 2 [Received_Original m, Received_Echo k m] (sid, ph, r, i) = Some m"
proof -
  have e: "e_sid (se_envelope m) = sid" "e_from (se_envelope m) = i" using assms(1) by (auto simp: slot_of_def Let_def)
  show ?thesis
    using assms(1,2,3,4)
    by (simp add: node_accepted_def acceptor_run_def process_def e admit_sid_def acceptor_new_def MAX_TRACKED_SIDS_def
        accept_broadcast_def slot_and_payload_def bt_contains_def insert_candidate_def entry_def new_candidate_def
        MAX_CANDIDATES_PER_SLOT_def add_echoer_def bcast_set_def accepted_in_def Let_def)
qed

end
