(* ===== verification/Mesh.thy ===== *)
theory Mesh
  imports Wire Acceptor
begin

text \<open>
  The mesh of a node (\<open>node/src/net/mesh.rs\<close>): the send journal, the outgoing links with their reconnection,
  the first-echo rule of the receive path, the bounded mailbox, and the guards of the reader and accept
  loops. A link is what has been written to it and how many writes it still takes (\<open>None\<close>: all); a mutex is the field it protects. Time is
  the clock readings (milliseconds) of the loops, and a dial is an outcome in a list. Sockets, threads, TLS and
  the artificial send delay are not modelled.
\<close>

section \<open>Configuration and counters\<close>

definition INBOX_BOUND :: nat where "INBOX_BOUND = 65536"

definition rate_cap_per_second :: "nat \<Rightarrow> nat" where
  "rate_cap_per_second n = (1024 * (max n 1 mod 2 ^ 32)) mod 2 ^ 32"

definition accept_cap_per_second :: "nat \<Rightarrow> nat" where
  "accept_cap_per_second n = (32 * (max n 1 mod 2 ^ 32)) mod 2 ^ 32"

definition handshake_cap :: "nat \<Rightarrow> nat" where
  "handshake_cap n = wmul 4 (max n 1)"

record reconnect_config =
  rc_initial :: nat
  rc_factor :: nat
  rc_cap :: nat
  rc_max_attempts :: "nat option"

definition reconnect_default :: reconnect_config where
  "reconnect_default = \<lparr>rc_initial = 100, rc_factor = 2, rc_cap = 5000, rc_max_attempts = None\<rparr>"

record mesh_metrics =
  mm_frames_sent :: nat
  mm_frames_received :: nat
  mm_dropped_bad_signature :: nat
  mm_dropped_misrouted :: nat
  mm_dropped_rate_limited :: nat
  mm_dropped_oversize :: nat
  mm_dropped_inbox_full :: nat
  mm_accepts_rate_limited :: nat
  mm_reconnects :: nat
  mm_sessions_completed :: nat

definition metrics_zero :: mesh_metrics where
  "metrics_zero = \<lparr>mm_frames_sent = 0, mm_frames_received = 0, mm_dropped_bad_signature = 0, mm_dropped_misrouted = 0,
     mm_dropped_rate_limited = 0, mm_dropped_oversize = 0, mm_dropped_inbox_full = 0, mm_accepts_rate_limited = 0,
     mm_reconnects = 0, mm_sessions_completed = 0\<rparr>"

section \<open>State\<close>

record ('m, 's, 'sk, 'vk) wire_env =
  we_scheme :: "('sk, 'vk, 's) sig_scheme"
  we_enc :: "'m \<Rightarrow> bytes"
  we_dec :: "'m decoder"
  we_sig :: "'s \<Rightarrow> bytes"
  we_of_slice :: "bytes \<Rightarrow> 's option"
  we_bound :: "'m frame_bound"

record ('m, 's) link =
  lk_sent :: "('m, 's) wire_message list"
  lk_capacity :: "nat option"

record ('m, 's, 'sk, 'vk) mesh_node =
  mn_id :: party_id
  mn_key :: 'sk
  mn_registry :: "'vk btree"
  mn_out :: "('m, 's) link btree"
  mn_peers :: "nat btree"
  mn_reconnecting :: "party_id set"
  mn_reconnect :: reconnect_config
  mn_journal :: "(bytes, ('m, 's) wire_message list) kmap"
  mn_echoed :: "slot set"
  mn_inbox :: "('m, 's) received list"
  mn_self_echo :: bool
  mn_shutdown :: bool
  mn_metrics :: mesh_metrics

definition mesh_bind :: "party_id \<Rightarrow> 'sk \<Rightarrow> 'vk btree \<Rightarrow> ('m, 's, 'sk, 'vk) mesh_node" where
  "mesh_bind i key registry = \<lparr>mn_id = i, mn_key = key, mn_registry = registry, mn_out = [], mn_peers = [],
     mn_reconnecting = {}, mn_reconnect = reconnect_default, mn_journal = [], mn_echoed = {}, mn_inbox = [],
     mn_self_echo = False, mn_shutdown = False, mn_metrics = metrics_zero\<rparr>"

definition bump :: "(mesh_metrics \<Rightarrow> mesh_metrics) \<Rightarrow> ('m, 's, 'sk, 'vk) mesh_node \<Rightarrow> ('m, 's, 'sk, 'vk) mesh_node" where
  "bump f st = st\<lparr>mn_metrics := f (mn_metrics st)\<rparr>"

section \<open>Sending\<close>

definition message_sid :: "('m, 's) wire_message \<Rightarrow> bytes" where
  "message_sid msg = (case msg of Original se \<Rightarrow> e_sid (se_envelope se) | Echo _ se _ \<Rightarrow> e_sid (se_envelope se))"

definition journal_push :: "('m, 's) wire_message \<Rightarrow> ('m, 's, 'sk, 'vk) mesh_node \<Rightarrow> ('m, 's, 'sk, 'vk) mesh_node" where
  "journal_push msg st = st\<lparr>mn_journal := bt_insert (message_sid msg) (entry (mn_journal st) (message_sid msg) @ [msg])
     (mn_journal st)\<rparr>"

definition retire_session :: "bytes \<Rightarrow> ('m, 's, 'sk, 'vk) mesh_node \<Rightarrow> ('m, 's, 'sk, 'vk) mesh_node" where
  \<comment> \<open>\<open>sid.starts_with(prefix)\<close>\<close>
  "retire_session prefix st = (let journal = filter (\<lambda>(sid, _). take (length prefix) sid \<noteq> prefix) (mn_journal st);
       done = length journal < length (mn_journal st) in
     (if done then bump (\<lambda>m. m\<lparr>mm_sessions_completed := mm_sessions_completed m + 1\<rparr>) else (\<lambda>st. st))
       (st\<lparr>mn_journal := journal\<rparr>))"

definition kick_reconnect :: "party_id \<Rightarrow> ('m, 's, 'sk, 'vk) mesh_node \<Rightarrow> ('m, 's, 'sk, 'vk) mesh_node" where
  \<comment> \<open>at most one task per peer\<close>
  "kick_reconnect peer st = (if mn_shutdown st then st
     else (case bt_get (mn_peers st) peer of
         None \<Rightarrow> st
       | Some _ \<Rightarrow> st\<lparr>mn_reconnecting := insert peer (mn_reconnecting st)\<rparr>))"

definition write_link :: "('m, 's) wire_message \<Rightarrow> ('m, 's) link \<Rightarrow> ('m, 's) link option" where
  "write_link msg l = (case lk_capacity l of
       None \<Rightarrow> Some (l\<lparr>lk_sent := lk_sent l @ [msg]\<rparr>)
     | Some k \<Rightarrow> if k = 0 then None else Some (l\<lparr>lk_sent := lk_sent l @ [msg], lk_capacity := Some (k - 1)\<rparr>))"

definition send_raw :: "party_id \<Rightarrow> ('m, 's) wire_message \<Rightarrow> ('m, 's, 'sk, 'vk) mesh_node \<Rightarrow> ('m, 's, 'sk, 'vk) mesh_node" where
  "send_raw to msg st = (if mn_shutdown st then st
     else (case bt_get (mn_out st) to of
         None \<Rightarrow> kick_reconnect to st
       | Some l \<Rightarrow> (case write_link msg l of
             None \<Rightarrow> kick_reconnect to st
           | Some l' \<Rightarrow> bump (\<lambda>m. m\<lparr>mm_frames_sent := mm_frames_sent m + 1\<rparr>) (st\<lparr>mn_out := bt_insert to l' (mn_out st)\<rparr>))))"

definition send_to :: "party_id \<Rightarrow> ('m, 's) wire_message \<Rightarrow> ('m, 's, 'sk, 'vk) mesh_node \<Rightarrow> ('m, 's, 'sk, 'vk) mesh_node" where
  "send_to to msg st = send_raw to msg (journal_push msg st)"

definition send_all :: "('m, 's) wire_message \<Rightarrow> ('m, 's, 'sk, 'vk) mesh_node \<Rightarrow> ('m, 's, 'sk, 'vk) mesh_node" where
  \<comment> \<open>the connected peers, then the dial set, each once\<close>
  "send_all msg st = (let st = journal_push msg st; connected = map fst (mn_out st); dial = map fst (mn_peers st) in
     foldl (\<lambda>st p. send_raw p msg st) st (connected @ filter (\<lambda>p. p \<notin> set connected) dial))"

fun resend_messages :: "party_id \<Rightarrow> ('m, 's) wire_message list \<Rightarrow> ('m, 's, 'sk, 'vk) mesh_node \<Rightarrow> ('m, 's, 'sk, 'vk) mesh_node" where
  \<comment> \<open>stop at the first failure\<close>
  "resend_messages peer [] st = st"
| "resend_messages peer (msg # msgs) st = (case Option.bind (bt_get (mn_out st) peer) (write_link msg) of
       None \<Rightarrow> kick_reconnect peer st
     | Some l \<Rightarrow> resend_messages peer msgs (st\<lparr>mn_out := bt_insert peer l (mn_out st)\<rparr>))"

definition resend_journal :: "party_id \<Rightarrow> ('m, 's, 'sk, 'vk) mesh_node \<Rightarrow> ('m, 's, 'sk, 'vk) mesh_node" where
  "resend_journal peer st = resend_messages peer (concat (map snd (mn_journal st))) st"

datatype dial = Dialled "nat option" | Dial_Failed

fun reconnect_loop :: "dial list \<Rightarrow> party_id \<Rightarrow> nat \<Rightarrow> nat \<Rightarrow> nat list \<Rightarrow> ('m, 's, 'sk, 'vk) mesh_node
    \<Rightarrow> nat list \<times> ('m, 's, 'sk, 'vk) mesh_node" where
  \<comment> \<open>the dials in order; returned first are the delays slept (before jitter)\<close>
  "reconnect_loop [] peer delay attempt slept st = (slept, st)"
| "reconnect_loop (d # ds) peer delay attempt slept st =
     (if mn_shutdown st then (slept, st\<lparr>mn_reconnecting := mn_reconnecting st - {peer}\<rparr>)
      else if (case rc_max_attempts (mn_reconnect st) of None \<Rightarrow> False | Some m \<Rightarrow> attempt \<ge> m)
      then (slept, st\<lparr>mn_reconnecting := mn_reconnecting st - {peer}\<rparr>)
      else (case d of
          Dialled c \<Rightarrow> (let st = bump (\<lambda>m. m\<lparr>mm_reconnects := mm_reconnects m + 1\<rparr>)
                (st\<lparr>mn_out := bt_insert peer \<lparr>lk_sent = [], lk_capacity = c\<rparr> (mn_out st)\<rparr>);
              st = resend_journal peer st
            in (slept @ [delay], st\<lparr>mn_reconnecting := mn_reconnecting st - {peer}\<rparr>))
        | Dial_Failed \<Rightarrow> reconnect_loop ds peer (min (delay * rc_factor (mn_reconnect st)) (rc_cap (mn_reconnect st)))
            (attempt + 1) (slept @ [delay]) st))"

fun dial_startup :: "nat \<Rightarrow> dial list \<Rightarrow> ('m, 's) link option \<times> dial list" where
  \<comment> \<open>\<open>k\<close> attempts left; the dials not used are returned\<close>
  "dial_startup 0 ds = (None, ds)"
| "dial_startup (Suc k) [] = (None, [])"
| "dial_startup (Suc k) (d # ds) = (case d of
       Dialled c \<Rightarrow> (Some \<lparr>lk_sent = [], lk_capacity = c\<rparr>, ds)
     | Dial_Failed \<Rightarrow> dial_startup k ds)"

fun mesh_connect :: "(party_id \<times> nat) list \<Rightarrow> dial list \<Rightarrow> ('m, 's, 'sk, 'vk) mesh_node \<Rightarrow> bool \<times> ('m, 's, 'sk, 'vk) mesh_node" where
  \<comment> \<open>the first component is \<open>is_ok()\<close>\<close>
  "mesh_connect [] ds st = (True, st)"
| "mesh_connect ((peer, addr) # addrs) ds st = (if peer = mn_id st then mesh_connect addrs ds st
     else (let st = st\<lparr>mn_peers := bt_insert peer addr (mn_peers st)\<rparr> in
       case dial_startup 100 ds of
         (Some l, ds) \<Rightarrow> mesh_connect addrs ds (st\<lparr>mn_out := bt_insert peer l (mn_out st)\<rparr>)
       | (None, ds) \<Rightarrow> (False, st)))"

definition mesh_shutdown :: "('m, 's, 'sk, 'vk) mesh_node \<Rightarrow> ('m, 's, 'sk, 'vk) mesh_node" where
  "mesh_shutdown st = (if mn_shutdown st then st else st\<lparr>mn_shutdown := True, mn_out := []\<rparr>)"

section \<open>Receiving\<close>

definition deliver :: "('m, 's) received \<Rightarrow> ('m, 's, 'sk, 'vk) mesh_node \<Rightarrow> ('m, 's, 'sk, 'vk) mesh_node" where
  \<comment> \<open>\<open>try_send\<close> into the bounded mailbox\<close>
  "deliver r st = (if length (mn_inbox st) < INBOX_BOUND then st\<lparr>mn_inbox := mn_inbox st @ [r]\<rparr>
     else bump (\<lambda>m. m\<lparr>mm_dropped_inbox_full := mm_dropped_inbox_full m + 1\<rparr>) st)"

definition echo_first :: "('m, 's, 'sk, 'vk) wire_env \<Rightarrow> ('m, 's) signed_envelope
    \<Rightarrow> ('m, 's, 'sk, 'vk) mesh_node \<Rightarrow> ('m, 's, 'sk, 'vk) mesh_node" where
  \<comment> \<open>the first value of a broadcast slot is echoed\<close>
  "echo_first W se st = (if slot_of se \<in> mn_echoed st then st
     else (let st = st\<lparr>mn_echoed := insert (slot_of se) (mn_echoed st)\<rparr>;
         echo = wire_echo (we_scheme W) (we_enc W) (we_sig W) (mn_id st) se (mn_key st);
         st = send_all echo st
       in if mn_self_echo st then deliver (Received_Echo (mn_id st) se) st else st))"

definition mesh_handle :: "('m, 's, 'sk, 'vk) wire_env \<Rightarrow> ('m, 's) wire_message
    \<Rightarrow> ('m, 's, 'sk, 'vk) mesh_node \<Rightarrow> ('m, 's, 'sk, 'vk) mesh_node" where
  "mesh_handle W msg st = (if \<not> wire_verify (we_scheme W) (we_enc W) (we_sig W) (mn_registry st) msg
     then bump (\<lambda>m. m\<lparr>mm_dropped_bad_signature := mm_dropped_bad_signature m + 1\<rparr>) st
     else (let st = bump (\<lambda>m. m\<lparr>mm_frames_received := mm_frames_received m + 1\<rparr>) st in
       case msg of
         Original se \<Rightarrow> (case e_to (se_envelope se) of
             Some to \<Rightarrow> if to \<noteq> mn_id st then bump (\<lambda>m. m\<lparr>mm_dropped_misrouted := mm_dropped_misrouted m + 1\<rparr>) st
                 else deliver (Received_Original se) st
           | None \<Rightarrow> deliver (Received_Original se) (echo_first W se st))
       | Echo echoer se _ \<Rightarrow> deliver (Received_Echo echoer se) st))"

type_synonym window = "nat \<times> nat"

definition window_tick :: "nat \<Rightarrow> window \<Rightarrow> window" where
  \<comment> \<open>a new window once a second has passed\<close>
  "window_tick now w = (if now - fst w \<ge> 1000 then (now, 0) else w)"

datatype reader_status = Reading | Closed

definition reader_step :: "('m, 's, 'sk, 'vk) wire_env \<Rightarrow> nat \<Rightarrow> stream \<times> window \<times> ('m, 's, 'sk, 'vk) mesh_node
    \<Rightarrow> reader_status \<times> stream \<times> window \<times> ('m, 's, 'sk, 'vk) mesh_node" where
  \<comment> \<open>one turn of the reader loop at clock \<open>now\<close>\<close>
  "reader_step W now = (\<lambda>(s, w, st).
     if mn_shutdown st then (Closed, s, w, st)
     else (let n = length (mn_registry st); w = window_tick now w in
       case read_frame (we_dec W) (we_of_slice W) (max_frame (we_bound W) n) s of
         (Ok (Some (msg, len)), s) \<Rightarrow>
           (let w = (fst w, snd w + 1) in
            if snd w > rate_cap_per_second n
            then (Closed, s, w, bump (\<lambda>m. m\<lparr>mm_dropped_rate_limited := mm_dropped_rate_limited m + 1\<rparr>) st)
            else if len > variant_max (we_bound W) msg n
            then (Closed, s, w, bump (\<lambda>m. m\<lparr>mm_dropped_oversize := mm_dropped_oversize m + 1\<rparr>) st)
            else (Reading, s, w, mesh_handle W msg st))
       | (Ok None, s) \<Rightarrow> (Closed, s, w, st)
       | (Err e, s) \<Rightarrow> if io_kind e = Would_Block \<or> io_kind e = Timed_Out then (Reading, s, w, st) else (Closed, s, w, st)
       | (Panic, s) \<Rightarrow> (Closed, s, w, st)))"

fun reader_loop :: "('m, 's, 'sk, 'vk) wire_env \<Rightarrow> nat list \<Rightarrow> stream \<times> window \<times> ('m, 's, 'sk, 'vk) mesh_node
    \<Rightarrow> reader_status \<times> stream \<times> window \<times> ('m, 's, 'sk, 'vk) mesh_node" where
  \<comment> \<open>one turn per clock reading, until the connection is left\<close>
  "reader_loop W [] x = (Reading, x)"
| "reader_loop W (now # clock) x = (case reader_step W now x of
       (Closed, y) \<Rightarrow> (Closed, y)
     | (Reading, y) \<Rightarrow> reader_loop W clock y)"

datatype incoming = Incoming nat | Accept_Error

fun accept_loop :: "incoming list \<Rightarrow> window \<Rightarrow> ('m, 's, 'sk, 'vk) mesh_node \<Rightarrow> nat \<times> ('m, 's, 'sk, 'vk) mesh_node" where
  \<comment> \<open>connections at their clock readings; the number of readers started is returned\<close>
  "accept_loop [] w st = (0, st)"
| "accept_loop (c # cs) w st = (if mn_shutdown st then (0, st)
     else (case c of
         Accept_Error \<Rightarrow> accept_loop cs w st
       | Incoming now \<Rightarrow> (let w = window_tick now w; w = (fst w, snd w + 1) in
           if snd w > accept_cap_per_second (length (mn_registry st))
           then accept_loop cs w (bump (\<lambda>m. m\<lparr>mm_accepts_rate_limited := mm_accepts_rate_limited m + 1\<rparr>) st)
           else (case accept_loop cs w st of (k, st) \<Rightarrow> (k + 1, st)))))"

section \<open>The mailbox\<close>

definition receivable :: "('m, 's, 'sk, 'vk) wire_env \<Rightarrow> 'vk btree \<Rightarrow> party_id \<Rightarrow> ('m, 's) received \<Rightarrow> bool" where
  \<comment> \<open>what a mailbox may hold: verified, addressed to this node or to all, and no echo of an own message\<close>
  "receivable W registry me r \<longleftrightarrow> (case r of
       Received_Original se \<Rightarrow> valid_original (we_scheme W) (we_enc W) registry se
         \<and> (e_to (se_envelope se) = None \<or> e_to (se_envelope se) = Some me)
     | Received_Echo k se \<Rightarrow> valid_original (we_scheme W) (we_enc W) registry se
         \<and> (k = me \<or> k \<noteq> e_from (se_envelope se) \<and> bt_contains registry k \<and> e_to (se_envelope se) = None))"

lemma bump_simps [simp]:
  "mn_id (bump f st) = mn_id st" "mn_key (bump f st) = mn_key st" "mn_registry (bump f st) = mn_registry st"
  "mn_out (bump f st) = mn_out st" "mn_peers (bump f st) = mn_peers st" "mn_journal (bump f st) = mn_journal st"
  "mn_echoed (bump f st) = mn_echoed st" "mn_inbox (bump f st) = mn_inbox st" "mn_self_echo (bump f st) = mn_self_echo st"
  "mn_shutdown (bump f st) = mn_shutdown st" "mn_reconnecting (bump f st) = mn_reconnecting st"
  "mn_reconnect (bump f st) = mn_reconnect st"
  by (simp_all add: bump_def)

definition receive_state :: "('m, 's, 'sk, 'vk) mesh_node \<Rightarrow> party_id \<times> 'sk \<times> 'vk btree \<times> slot set \<times> ('m, 's) received list \<times> bool \<times> bool" where
  \<comment> \<open>the fields of the receive path, which sending leaves alone\<close>
  "receive_state st = (mn_id st, mn_key st, mn_registry st, mn_echoed st, mn_inbox st, mn_self_echo st, mn_shutdown st)"

lemma receive_state_kick [simp]: "receive_state (kick_reconnect p st) = receive_state st"
  by (simp add: kick_reconnect_def receive_state_def split: option.split)

lemma receive_state_send_raw [simp]: "receive_state (send_raw p msg st) = receive_state st"
proof -
  have *: "receive_state (bump f (st\<lparr>mn_out := x\<rparr>)) = receive_state st" for f x by (simp add: receive_state_def)
  show ?thesis by (simp add: send_raw_def * split: option.split)
qed

lemma receive_state_send_all [simp]:
  fixes st :: "('m, 's, 'sk, 'vk) mesh_node"
  shows "receive_state (send_all msg st) = receive_state st"
proof -
  have "receive_state (foldl (\<lambda>st p. send_raw p msg st) st ps) = receive_state st" for st :: "('m, 's, 'sk, 'vk) mesh_node" and ps
    by (induction ps arbitrary: st) simp_all
  moreover have "receive_state (journal_push msg st) = receive_state st" by (simp add: journal_push_def receive_state_def)
  ultimately show ?thesis by (simp add: send_all_def Let_def)
qed

lemma send_all_fields [simp]:
  "mn_id (send_all msg st) = mn_id st" "mn_key (send_all msg st) = mn_key st" "mn_registry (send_all msg st) = mn_registry st"
  "mn_echoed (send_all msg st) = mn_echoed st" "mn_inbox (send_all msg st) = mn_inbox st"
  "mn_self_echo (send_all msg st) = mn_self_echo st" "mn_shutdown (send_all msg st) = mn_shutdown st"
  using receive_state_send_all [of msg st] by (simp_all add: receive_state_def)

lemma deliver_fields [simp]:
  "mn_id (deliver r st) = mn_id st" "mn_key (deliver r st) = mn_key st" "mn_registry (deliver r st) = mn_registry st"
  "mn_echoed (deliver r st) = mn_echoed st" "mn_self_echo (deliver r st) = mn_self_echo st"
  "mn_shutdown (deliver r st) = mn_shutdown st"
  "mn_inbox (deliver r st) = (if length (mn_inbox st) < INBOX_BOUND then mn_inbox st @ [r] else mn_inbox st)"
  by (simp_all add: deliver_def)

lemma echo_first_fields [simp]:
  "mn_id (echo_first W se st) = mn_id st" "mn_key (echo_first W se st) = mn_key st"
  "mn_registry (echo_first W se st) = mn_registry st" "mn_shutdown (echo_first W se st) = mn_shutdown st" "mn_self_echo (echo_first W se st) = mn_self_echo st"
  "mn_echoed (echo_first W se st) = insert (slot_of se) (mn_echoed st)"
  by (auto simp: echo_first_def Let_def)

lemma echo_first_inbox:
  "mn_inbox (echo_first W se st) = (if slot_of se \<notin> mn_echoed st \<and> mn_self_echo st \<and> length (mn_inbox st) < INBOX_BOUND
     then mn_inbox st @ [Received_Echo (mn_id st) se] else mn_inbox st)"
  by (simp add: echo_first_def Let_def)

lemma handle_fields [simp]:
  "mn_id (mesh_handle W msg st) = mn_id st" "mn_key (mesh_handle W msg st) = mn_key st"
  "mn_registry (mesh_handle W msg st) = mn_registry st" "mn_shutdown (mesh_handle W msg st) = mn_shutdown st" "mn_self_echo (mesh_handle W msg st) = mn_self_echo st"
  by (auto simp: mesh_handle_def Let_def split: wire_message.split option.split)

text \<open>Every message in the mailbox has passed verification and is for this node; the mailbox is bounded.\<close>

definition mailbox_ok :: "('m, 's, 'sk, 'vk) wire_env \<Rightarrow> ('m, 's, 'sk, 'vk) mesh_node \<Rightarrow> bool" where
  "mailbox_ok W st \<longleftrightarrow> length (mn_inbox st) \<le> INBOX_BOUND \<and> (\<forall>r \<in> set (mn_inbox st). receivable W (mn_registry st) (mn_id st) r)"

lemma mailbox_handle:
  assumes "mailbox_ok W st"
  shows "mailbox_ok W (mesh_handle W msg st)"
proof (cases "wire_verify (we_scheme W) (we_enc W) (we_sig W) (mn_registry st) msg")
  case False
  then show ?thesis using assms by (simp add: mesh_handle_def mailbox_ok_def)
next
  case True
  show ?thesis
  proof (cases msg)
    case (Original se)
    have "receivable W (mn_registry st) (mn_id st) (Received_Echo (mn_id st) se)"
      "e_to (se_envelope se) = None \<or> e_to (se_envelope se) = Some (mn_id st)
        \<Longrightarrow> receivable W (mn_registry st) (mn_id st) (Received_Original se)"
      using True Original by (auto simp: receivable_def wire_verify_def)
    then show ?thesis
      using assms True Original
      by (auto simp: mesh_handle_def mailbox_ok_def Let_def echo_first_inbox split: option.split)
  next
    case (Echo k se s)
    have "receivable W (mn_registry st) (mn_id st) (Received_Echo k se)"
      using True Echo by (auto simp: receivable_def wire_verify_def bt_contains_def split: if_splits option.splits)
    then show ?thesis
      using assms True Echo by (auto simp: mesh_handle_def mailbox_ok_def Let_def)
  qed
qed

section \<open>First echo\<close>

definition echo_emitted :: "('m, 's, 'sk, 'vk) wire_env \<Rightarrow> ('m, 's) wire_message \<Rightarrow> ('m, 's, 'sk, 'vk) mesh_node
    \<Rightarrow> ('m, 's) signed_envelope option" where
  \<comment> \<open>the envelope this node echoes when it handles the message\<close>
  "echo_emitted W msg st = (case msg of
       Original se \<Rightarrow> if wire_verify (we_scheme W) (we_enc W) (we_sig W) (mn_registry st) msg
           \<and> e_to (se_envelope se) = None \<and> slot_of se \<notin> mn_echoed st then Some se else None
     | Echo _ _ _ \<Rightarrow> None)"

fun echoes_emitted :: "('m, 's, 'sk, 'vk) wire_env \<Rightarrow> ('m, 's) wire_message list \<Rightarrow> ('m, 's, 'sk, 'vk) mesh_node
    \<Rightarrow> ('m, 's) signed_envelope list" where
  "echoes_emitted W [] st = []"
| "echoes_emitted W (msg # msgs) st = (case echo_emitted W msg st of None \<Rightarrow> [] | Some se \<Rightarrow> [se])
     @ echoes_emitted W msgs (mesh_handle W msg st)"

lemma echoed_handle:
  "mn_echoed (mesh_handle W msg st) = mn_echoed st \<union> (case echo_emitted W msg st of None \<Rightarrow> {} | Some se \<Rightarrow> {slot_of se})"
  by (auto simp: mesh_handle_def echo_emitted_def Let_def split: wire_message.splits option.splits if_splits)

text \<open>A node signs at most one echo per broadcast slot, whatever it receives.\<close>

lemma one_echo_per_slot:
  "distinct (map slot_of (echoes_emitted W msgs st)) \<and> slot_of ` set (echoes_emitted W msgs st) \<inter> mn_echoed st = {}"
proof (induction msgs arbitrary: st)
  case (Cons msg msgs)
  have emitted: "slot_of se \<notin> mn_echoed st" if "echo_emitted W msg st = Some se" for se
    using that by (auto simp: echo_emitted_def split: wire_message.splits if_splits)
  from Cons.IH [of "mesh_handle W msg st"] show ?case
    using emitted by (auto simp: echoed_handle split: option.splits)
qed simp

section \<open>The reader loop\<close>

definition framed :: "('m, 's, 'sk, 'vk) wire_env \<Rightarrow> ('m, 's) wire_message \<Rightarrow> bytes" where
  "framed W msg = (let b = encode_wire (we_enc W) (we_sig W) msg in be_bytes 4 (length b) @ b)"

definition frame_ok :: "('m, 's, 'sk, 'vk) wire_env \<Rightarrow> ('m \<Rightarrow> bool) \<Rightarrow> nat \<Rightarrow> ('m, 's) wire_message \<Rightarrow> bool" where
  \<comment> \<open>well formed, and within the bounds of a committee of \<open>n\<close>\<close>
  "frame_ok W v n msg \<longleftrightarrow> valid_wire (we_enc W) v msg
     \<and> length (encode_wire (we_enc W) (we_sig W) msg) \<le> variant_max (we_bound W) msg n
     \<and> variant_max (we_bound W) msg n \<le> max_frame (we_bound W) n \<and> max_frame (we_bound W) n < 2 ^ 32"

lemma frame_bytes_framed: "frame_ok W v n msg \<Longrightarrow> frame_bytes (we_enc W) (we_sig W) msg = Ok (framed W msg)"
  by (simp add: frame_bytes_def framed_def frame_ok_def Let_def)

text \<open>
  However the stream is cut, the reader handles the frames on it one by one, in order, while the connection
  stays under its rate.
\<close>

lemma reader_delivers:
  assumes "codec (we_enc W) (we_dec W) v" "signature_law (we_sig W) (we_of_slice W)"
    and "\<forall>msg \<in> set msgs. frame_ok W v (length (mn_registry st)) msg" "healthy s" "\<not> mn_shutdown st"
    and "stream_bytes s = concat (map (framed W) msgs) @ rest"
    and "length clock = length msgs" "snd w + length msgs \<le> rate_cap_per_second (length (mn_registry st))"
  shows "\<exists>s' w'. reader_loop W clock (s, w, st) = (Reading, s', w', foldl (\<lambda>st msg. mesh_handle W msg st) st msgs)
    \<and> healthy s' \<and> stream_bytes s' = rest"
  using assms(3-8)
proof (induction msgs arbitrary: clock s w st)
  case Nil
  then show ?case by simp
next
  case (Cons msg msgs)
  let ?n = "length (mn_registry st)" and ?enc = "encode_wire (we_enc W) (we_sig W) msg"
  from Cons.prems(5) obtain now clock' where clock: "clock = now # clock'" "length clock' = length msgs" by (cases clock) auto
  have ok: "valid_wire (we_enc W) v msg" "length ?enc \<le> variant_max (we_bound W) msg ?n"
    "variant_max (we_bound W) msg ?n \<le> max_frame (we_bound W) ?n" "max_frame (we_bound W) ?n < 2 ^ 32"
    using Cons.prems(1) by (auto simp: frame_ok_def)
  have "stream_bytes s = be_bytes 4 (length ?enc) @ ?enc @ concat (map (framed W) msgs) @ rest"
    using Cons.prems(4) framed_def [of W msg] by (simp add: Let_def)
  from read_frame_frame [OF assms(1,2) ok(1) Cons.prems(2) _ ok(4) this] ok(2,3) obtain s1 where
    s1: "read_frame (we_dec W) (we_of_slice W) (max_frame (we_bound W) ?n) s = (Ok (Some (msg, length ?enc)), s1)"
      "healthy s1" "stream_bytes s1 = concat (map (framed W) msgs) @ rest" by auto
  let ?w = "(fst (window_tick now w), snd (window_tick now w) + 1)"
  have w: "snd ?w + length msgs \<le> rate_cap_per_second ?n"
    using Cons.prems(6) by (auto simp: window_tick_def)
  then have step: "reader_step W now (s, w, st) = (Reading, s1, ?w, mesh_handle W msg st)"
    using s1(1) Cons.prems(3) ok(2) by (simp add: reader_step_def Let_def)
  from Cons.IH [OF _ s1(2) _ s1(3) clock(2), of "mesh_handle W msg st" ?w] Cons.prems(1,3) w
  show ?case unfolding clock(1) by (simp add: step)
qed

text \<open>
  A poll timeout between the bytes of a frame loses what was read: the reader goes on in the middle of the
  frame. Here the header and the first bytes of a frame arrive, the poll expires, and the next four bytes of
  the body are taken for a length.
\<close>

lemma poll_timeout_loses_bytes:
  assumes "io_kind e = Timed_Out" "length h = 4" "be_nat h \<le> max_frame (we_bound W) (length (mn_registry st))"
    "b \<noteq> []" "length b < be_nat h" "\<not> mn_shutdown st"
  shows "\<exists>w'. reader_step W now (Chunk (h @ b) # Failed e # s, w, st) = (Reading, s, w', st)"
proof -
  have "read_fill eof 4 [] (Chunk (h @ b) # Failed e # s) = (Ok (Some h), Chunk b # Failed e # s)" for eof
    using assms(2,4) by (cases b) auto
  moreover have "read_fill eof (be_nat h) [] (Chunk b # Failed e # s) = (Err e, s)" for eof
    using assms(4,5) by auto
  ultimately show ?thesis
    using assms(1,3,6)
    by (simp del: read_fill.simps add: reader_step_def read_frame_def read_exact_or_eof_def read_exact_def Let_def)
qed

section \<open>Reconnection\<close>

definition taken :: "nat option \<Rightarrow> 'a list \<Rightarrow> 'a list" where
  \<comment> \<open>what a link with this capacity takes\<close>
  "taken c xs = (case c of None \<Rightarrow> xs | Some k \<Rightarrow> take k xs)"

lemma resend_messages_takes:
  assumes "bt_get (mn_out st) peer = Some l"
  shows "(\<exists>l'. bt_get (mn_out (resend_messages peer msgs st)) peer = Some l' \<and> lk_sent l' = lk_sent l @ taken (lk_capacity l) msgs)
    \<and> mn_reconnecting (resend_messages peer msgs st) \<subseteq> insert peer (mn_reconnecting st)
    \<and> mn_journal (resend_messages peer msgs st) = mn_journal st"
  using assms
proof (induction msgs arbitrary: st l)
  case Nil
  then show ?case by (auto simp: taken_def split: option.split)
next
  case (Cons msg msgs)
  show ?case
  proof (cases "write_link msg l")
    case None
    then have "lk_capacity l = Some 0" by (auto simp: write_link_def split: option.splits if_splits)
    then show ?thesis using Cons.prems None by (auto simp: taken_def kick_reconnect_def split: option.split)
  next
    case (Some l')
    then have l': "lk_sent l' = lk_sent l @ [msg]" "taken (lk_capacity l) (msg # msgs) = msg # taken (lk_capacity l') msgs"
      by (auto simp: write_link_def taken_def take_Cons' split: option.splits if_splits)
    from Cons.IH [of "st\<lparr>mn_out := bt_insert peer l' (mn_out st)\<rparr>" l'] Cons.prems Some show ?thesis
      by (simp add: bt_get_insert l')
  qed
qed

text \<open>
  A reconnected link carries the journal, session by session in the order of sending, as far as it takes it.
  When it fails on the way no further attempt is under way, whatever the journal still holds: the task that
  resends still counts as running when it asks for another.
\<close>

lemma reconnect_resyncs:
  assumes "\<not> mn_shutdown st" "rc_max_attempts (mn_reconnect st) = None"
  shows "\<exists>l. bt_get (mn_out (snd (reconnect_loop (Dialled c # ds) peer delay attempt slept st))) peer = Some l
    \<and> lk_sent l = taken c (concat (map snd (mn_journal st)))"
    and "peer \<notin> mn_reconnecting (snd (reconnect_loop (Dialled c # ds) peer delay attempt slept st))"
proof -
  let ?st = "bump (\<lambda>m. m\<lparr>mm_reconnects := mm_reconnects m + 1\<rparr>)
    (st\<lparr>mn_out := bt_insert peer \<lparr>lk_sent = [], lk_capacity = c\<rparr> (mn_out st)\<rparr>)"
  have "bt_get (mn_out ?st) peer = Some \<lparr>lk_sent = [], lk_capacity = c\<rparr>" by (simp add: bt_get_insert)
  from resend_messages_takes [OF this] assms
  show "\<exists>l. bt_get (mn_out (snd (reconnect_loop (Dialled c # ds) peer delay attempt slept st))) peer = Some l
      \<and> lk_sent l = taken c (concat (map snd (mn_journal st)))"
    by (simp add: Let_def resend_journal_def)
  show "peer \<notin> mn_reconnecting (snd (reconnect_loop (Dialled c # ds) peer delay attempt slept st))"
    using assms by (simp add: Let_def)
qed

text \<open>The back-off never exceeds its ceiling.\<close>

lemma reconnect_backoff:
  assumes "\<forall>d \<in> set slept. d \<le> c" "delay \<le> c" "rc_cap (mn_reconnect st) \<le> c"
  shows "\<forall>d \<in> set (fst (reconnect_loop ds peer delay attempt slept st)). d \<le> c"
  using assms
proof (induction ds arbitrary: delay attempt slept)
  case (Cons d ds)
  have "\<forall>x \<in> set (fst (reconnect_loop ds peer (min (delay * rc_factor (mn_reconnect st)) (rc_cap (mn_reconnect st)))
      (attempt + 1) (slept @ [delay]) st)). x \<le> c"
    by (rule Cons.IH) (use Cons.prems in auto)
  with Cons.prems show ?case by (auto simp: Let_def split: dial.split)
qed simp

section \<open>Sending\<close>

text \<open>On links that are up a message reaches every connected peer, and it is in the journal.\<close>

definition all_up :: "('m, 's, 'sk, 'vk) mesh_node \<Rightarrow> bool" where
  "all_up st \<longleftrightarrow> \<not> mn_shutdown st \<and> bt_wf (mn_out st) \<and> map fst (mn_peers st) = map fst (mn_out st)
     \<and> (\<forall>(p, l) \<in> set (mn_out st). lk_capacity l = None)"

definition links_of :: "('m, 's, 'sk, 'vk) mesh_node \<Rightarrow> (party_id \<times> ('m, 's) wire_message list) list" where
  "links_of st = map (\<lambda>(p, l). (p, lk_sent l)) (mn_out st)"

lemma send_raw_up:
  assumes "\<not> mn_shutdown st" "bt_get (mn_out st) p = Some l" "lk_capacity l = None"
  shows "mn_out (send_raw p msg st) = bt_insert p (l\<lparr>lk_sent := lk_sent l @ [msg]\<rparr>) (mn_out st)"
    "mn_shutdown (send_raw p msg st) = mn_shutdown st" "mn_journal (send_raw p msg st) = mn_journal st"
  using assms by (simp_all add: send_raw_def write_link_def)

lemma sends_up:
  fixes st :: "('m, 's, 'sk, 'vk) mesh_node"
  assumes "\<not> mn_shutdown st" "distinct ps" "\<forall>p \<in> set ps. \<exists>l. bt_get (mn_out st) p = Some l \<and> lk_capacity l = None"
  shows "bt_get (mn_out (foldl (\<lambda>st p. send_raw p msg st) st ps)) q = (if q \<in> set ps
     then map_option (\<lambda>l. l\<lparr>lk_sent := lk_sent l @ [msg]\<rparr>) (bt_get (mn_out st) q) else bt_get (mn_out st) q)"
  using assms
proof (induction ps arbitrary: st)
  case (Cons p ps)
  then obtain l where l: "bt_get (mn_out st) p = Some l" "lk_capacity l = None" by auto
  note up = send_raw_up [OF Cons.prems(1) l, of msg]
  have "bt_get (mn_out (foldl (\<lambda>st p. send_raw p msg st) (send_raw p msg st) ps)) q = (if q \<in> set ps
     then map_option (\<lambda>l. l\<lparr>lk_sent := lk_sent l @ [msg]\<rparr>) (bt_get (mn_out (send_raw p msg st)) q) else bt_get (mn_out (send_raw p msg st)) q)"
    by (rule Cons.IH) (use Cons.prems up l in \<open>auto simp: bt_get_insert\<close>)
  then show ?case using Cons.prems(2) l up by (auto simp: bt_get_insert)
qed simp

lemma send_all_up:
  assumes "all_up st" "bt_get (mn_out st) p = Some l"
  shows "bt_get (mn_out (send_all msg st)) p = Some (l\<lparr>lk_sent := lk_sent l @ [msg]\<rparr>)"
proof -
  let ?st = "journal_push msg st"
  have st: "mn_out ?st = mn_out st" "mn_peers ?st = mn_peers st" "mn_shutdown ?st = mn_shutdown st"
    by (simp_all add: journal_push_def)
  have none: "filter (\<lambda>p. p \<notin> set (map fst (mn_out st))) (map fst (mn_peers st)) = []"
    using assms(1) unfolding all_up_def by (metis (no_types, lifting) filter_False)
  have "\<exists>l. bt_get (mn_out st) q = Some l \<and> lk_capacity l = None" if "q \<in> set (map fst (mn_out st))" for q
    using that assms(1) bt_entries_get [of "mn_out st"] by (fastforce simp: all_up_def)
  moreover have "distinct (map fst (mn_out st))"
    using assms(1) bt.distinct_entries by (auto simp: all_up_def)
  moreover have "p \<in> set (map fst (mn_out st))"
    using assms bt_entries_get [of "mn_out st" p l] by (force simp: all_up_def)
  ultimately show ?thesis
    using sends_up [of ?st "map fst (mn_out st)" msg p] assms
    by (simp add: send_all_def Let_def st none all_up_def del: set_map)
qed

section \<open>From the wire to acceptance\<close>

definition carried_env :: "('m, 's) wire_message \<Rightarrow> ('m, 's) signed_envelope" where
  "carried_env h = (case h of Original se \<Rightarrow> se | Echo _ se _ \<Rightarrow> se)"

definition mail :: "('m, 's, 'sk, 'vk) wire_env \<Rightarrow> ('m, 's, 'sk, 'vk) mesh_node \<Rightarrow> ('m, 's) wire_message list
    \<Rightarrow> ('m, 's, 'sk, 'vk) mesh_node" where
  \<comment> \<open>a node after handling messages in order\<close>
  "mail W st hs = foldl (\<lambda>st h. mesh_handle W h st) st hs"

lemma mail_snoc [simp]: "mail W st (hs @ [h]) = mesh_handle W h (mail W st hs)"
  by (simp add: mail_def)

lemma mail_fields [simp]:
  "mn_id (mail W st hs) = mn_id st" "mn_key (mail W st hs) = mn_key st" "mn_registry (mail W st hs) = mn_registry st"
  "mn_self_echo (mail W st hs) = mn_self_echo st"
  by (induction hs rule: rev_induct) (simp_all add: mail_def)

definition verified :: "('m, 's, 'sk, 'vk) wire_env \<Rightarrow> ('m, 's, 'sk, 'vk) mesh_node \<Rightarrow> ('m, 's) wire_message \<Rightarrow> bool" where
  "verified W st h \<longleftrightarrow> wire_verify (we_scheme W) (we_enc W) (we_sig W) (mn_registry st) h"

text \<open>What one message adds to the mailbox, when there is room for it.\<close>

lemma handle_inbox:
  assumes "length (mn_inbox st) + 2 \<le> INBOX_BOUND"
  shows "mn_inbox (mesh_handle W h st) = mn_inbox st @ (if \<not> verified W st h then []
     else (case h of
         Echo k se _ \<Rightarrow> [Received_Echo k se]
       | Original se \<Rightarrow> (case e_to (se_envelope se) of
             Some to \<Rightarrow> if to \<noteq> mn_id st then [] else [Received_Original se]
           | None \<Rightarrow> (if slot_of se \<notin> mn_echoed st \<and> mn_self_echo st then [Received_Echo (mn_id st) se] else [])
               @ [Received_Original se])))"
  using assms
  by (auto simp: mesh_handle_def verified_def Let_def echo_first_inbox split: wire_message.split option.split)

lemma handle_echoed:
  "mn_echoed (mesh_handle W h st) = mn_echoed st \<union> (case h of
     Original se \<Rightarrow> if verified W st h \<and> e_to (se_envelope se) = None then {slot_of se} else {}
   | Echo _ _ _ \<Rightarrow> {})"
  by (auto simp: mesh_handle_def verified_def Let_def split: wire_message.split option.split)

lemma mail_inbox:
  fixes st :: "('m, 's, 'sk, 'vk) mesh_node"
  assumes "mn_inbox st = []" "mn_echoed st = {}" "mn_self_echo st" "2 * length hs \<le> INBOX_BOUND"
  shows "length (mn_inbox (mail W st hs)) \<le> 2 * length hs
    \<and> (\<forall>h \<in> set hs. verified W st h \<longrightarrow> (case h of
         Echo k se _ \<Rightarrow> Received_Echo k se \<in> set (mn_inbox (mail W st hs))
       | Original se \<Rightarrow> e_to (se_envelope se) = None \<longrightarrow> Received_Original se \<in> set (mn_inbox (mail W st hs))
           \<and> slot_of se \<in> mn_echoed (mail W st hs)))
    \<and> (\<forall>key \<in> mn_echoed (mail W st hs). \<exists>x. Received_Echo (mn_id st) x \<in> set (mn_inbox (mail W st hs)) \<and> slot_of x = key)
    \<and> (\<forall>r \<in> set (mn_inbox (mail W st hs)). \<forall>x. carries_broadcast r x \<longrightarrow> x \<in> carried_env ` set hs)
    \<and> (\<forall>r \<in> set (mn_inbox (mail W st hs)). received_sid r \<in> (\<lambda>h. e_sid (se_envelope (carried_env h))) ` set hs)"
  using assms(4)
proof (induction hs rule: rev_induct)
  case Nil
  then show ?case using assms(1,2) by (simp add: mail_def)
next
  case (snoc h hs)
  then have IH: "length (mn_inbox (mail W st hs)) \<le> 2 * length hs"
    "\<forall>h \<in> set hs. verified W st h \<longrightarrow> (case h of
         Echo k se _ \<Rightarrow> Received_Echo k se \<in> set (mn_inbox (mail W st hs))
       | Original se \<Rightarrow> e_to (se_envelope se) = None \<longrightarrow> Received_Original se \<in> set (mn_inbox (mail W st hs))
           \<and> slot_of se \<in> mn_echoed (mail W st hs))"
    "\<forall>key \<in> mn_echoed (mail W st hs). \<exists>x. Received_Echo (mn_id st) x \<in> set (mn_inbox (mail W st hs)) \<and> slot_of x = key"
    "\<forall>r \<in> set (mn_inbox (mail W st hs)). \<forall>x. carries_broadcast r x \<longrightarrow> x \<in> carried_env ` set hs"
    "\<forall>r \<in> set (mn_inbox (mail W st hs)). received_sid r \<in> (\<lambda>h. e_sid (se_envelope (carried_env h))) ` set hs"
    by auto
  have same: "verified W (mail W st hs) h = verified W st h" by (simp add: verified_def)
  have "length (mn_inbox (mail W st hs)) + 2 \<le> INBOX_BOUND" using IH(1) snoc.prems by simp
  note step = handle_inbox [OF this, of W h, unfolded same mail_fields] handle_echoed [of W h "mail W st hs", unfolded same]
  show ?case
  proof (cases h)
    case (Original se)
    then show ?thesis
      using IH assms(3) unfolding mail_snoc step set_append
      by (cases "e_to (se_envelope se)")
        (auto simp: carries_broadcast_def carried_env_def received_sid_def split: wire_message.splits)
  next
    case (Echo k se s)
    then show ?thesis
      using IH unfolding mail_snoc step set_append
      by (auto simp: carries_broadcast_def carried_env_def received_sid_def split: wire_message.splits)
  qed
qed

lemma mail_keeps:
  assumes "mn_inbox st = []" "mn_echoed st = {}" "mn_self_echo st" "2 * length hs \<le> INBOX_BOUND"
  shows "Echo k se s \<in> set hs \<Longrightarrow> verified W st (Echo k se s) \<Longrightarrow> Received_Echo k se \<in> set (mn_inbox (mail W st hs))"
    and "Original se \<in> set hs \<Longrightarrow> verified W st (Original se) \<Longrightarrow> e_to (se_envelope se) = None
      \<Longrightarrow> Received_Original se \<in> set (mn_inbox (mail W st hs)) \<and> slot_of se \<in> mn_echoed (mail W st hs)"
    and "key \<in> mn_echoed (mail W st hs) \<Longrightarrow> \<exists>x. Received_Echo (mn_id st) x \<in> set (mn_inbox (mail W st hs)) \<and> slot_of x = key"
    and "r \<in> set (mn_inbox (mail W st hs)) \<Longrightarrow> carries_broadcast r x \<Longrightarrow> x \<in> carried_env ` set hs"
    and "r \<in> set (mn_inbox (mail W st hs)) \<Longrightarrow> received_sid r \<in> (\<lambda>h. e_sid (se_envelope (carried_env h))) ` set hs"
proof -
  note m = mail_inbox [OF assms, of W, THEN conjunct2]
  show "Received_Echo k se \<in> set (mn_inbox (mail W st hs))" if "Echo k se s \<in> set hs" "verified W st (Echo k se s)"
    using bspec [OF conjunct1 [OF m] that(1)] that(2) by simp
  show "Received_Original se \<in> set (mn_inbox (mail W st hs)) \<and> slot_of se \<in> mn_echoed (mail W st hs)"
    if "Original se \<in> set hs" "verified W st (Original se)" "e_to (se_envelope se) = None"
    using bspec [OF conjunct1 [OF m] that(1)] that(2,3) by simp
  show "\<exists>x. Received_Echo (mn_id st) x \<in> set (mn_inbox (mail W st hs)) \<and> slot_of x = key" if "key \<in> mn_echoed (mail W st hs)"
    using m that by blast
  show "x \<in> carried_env ` set hs" if "r \<in> set (mn_inbox (mail W st hs))" "carries_broadcast r x"
    using m that by blast
  show "received_sid r \<in> (\<lambda>h. e_sid (se_envelope (carried_env h))) ` set hs" if "r \<in> set (mn_inbox (mail W st hs))"
    using m that by blast
qed

definition wire_bytes :: "('m, 's, 'sk, 'vk) wire_env \<Rightarrow> ('m, 's) signed_envelope \<Rightarrow> bytes" where
  "wire_bytes W = encode_signed (we_enc W) (we_sig W)"

definition one_value_per_slot :: "('m, 's, 'sk, 'vk) wire_env \<Rightarrow> ('m, 's) wire_message list \<Rightarrow> bytes \<Rightarrow> party_id \<Rightarrow> bool" where
  \<comment> \<open>among what was received, the sender signed one value for every slot of the session\<close>
  "one_value_per_slot W hs sid i \<longleftrightarrow> (\<forall>g \<in> set hs. \<forall>h \<in> set hs. slot_sender (slot_of (carried_env g)) = (sid, i)
     \<longrightarrow> slot_of (carried_env h) = slot_of (carried_env g) \<longrightarrow> wire_bytes W (carried_env g) = wire_bytes W (carried_env h))"

text \<open>
  A broadcast is accepted: when a node has handled the broadcast of a sender that does not equivocate, and
  the echoes of enough other nodes, in whatever order and with whatever else, its acceptor accepts the value. A
  node counts its own echo; the sender itself accepts on the echoes of the others.
\<close>

lemma mail_accepts:
  assumes fresh: "mn_inbox st = []" "mn_echoed st = {}" "mn_self_echo st" and room: "2 * length hs \<le> INBOX_BOUND"
    and sids: "\<forall>h \<in> set hs. length (e_sid (se_envelope (carried_env h))) \<le> MAX_SID"
      "card ((\<lambda>h. e_sid (se_envelope (carried_env h))) ` set hs) \<le> MAX_TRACKED_SIDS"
    and se: "slot_of se = (sid, ph, r, i)" "e_to (se_envelope se) = None" and one: "one_value_per_slot W hs sid i"
    and Q: "\<forall>k \<in> Q. k \<noteq> i \<and> (\<exists>s. Echo k se s \<in> set hs \<and> verified W st (Echo k se s))" "finite Q"
    and direct: "mn_id st \<noteq> i \<Longrightarrow> Original se \<in> set hs \<and> verified W st (Original se)"
    and quorum: "2 \<le> t" "t - 1 \<le> card (if mn_id st = i then Q else insert (mn_id st) Q)"
  shows "\<exists>x. node_accepted (wire_bytes W) t (mn_inbox (mail W st hs)) (sid, ph, r, i) = Some x \<and> wire_bytes W x = wire_bytes W se"
proof -
  let ?inbox = "mn_inbox (mail W st hs)" and ?key = "(sid, ph, r, i)" and ?b = "wire_bytes W se"
  note keeps = mail_keeps [OF fresh room, where W = W]
  have carried: "x \<in> carried_env ` set hs" if "msg \<in> set ?inbox" "carries_broadcast msg x" for msg x
    using keeps(4) [OF that] .
  have same: "wire_bytes W x = wire_bytes W y"
    if "x \<in> carried_env ` set hs" "y \<in> carried_env ` set hs" "slot_of x = slot_of y" "slot_sender (slot_of x) = (sid, i)" for x y
    using one that unfolding one_value_per_slot_def by fastforce
  have un: "unequivocal (wire_bytes W) ?inbox sid i"
    unfolding unequivocal_def
  proof (intro allI ballI)
    fix q w b b'
    assume "b \<in> bodies (wire_bytes W) ?inbox (sid, q, w, i)" "b' \<in> bodies (wire_bytes W) ?inbox (sid, q, w, i)"
    then obtain m1 x m2 y where x: "m1 \<in> set ?inbox" "carries_broadcast m1 x" "b = wire_bytes W x" "slot_of x = (sid, q, w, i)"
      and y: "m2 \<in> set ?inbox" "carries_broadcast m2 y" "b' = wire_bytes W y" "slot_of y = (sid, q, w, i)"
      unfolding bodies_def by (elim CollectE exE conjE) (rule that)
    show "b = b'"
      using same [OF carried [OF x(1,2)] carried [OF y(1,2)]] x(3,4) y(3,4) by simp
  qed
  have se_from: "e_from (se_envelope se) = i" "e_sid (se_envelope se) = sid" using se(1) by (auto simp: slot_of_def Let_def)
  have echo_in: "Received_Echo k se \<in> set ?inbox" if "k \<in> Q" for k
  proof -
    from Q(1) that obtain s where "Echo k se s \<in> set hs" "verified W st (Echo k se s)" by blast
    from keeps(1) [OF this] show ?thesis .
  qed
  have mine: "mn_id st \<in> echoers (wire_bytes W) ?inbox ?key ?b \<and> Received_Original se \<in> set ?inbox" if "mn_id st \<noteq> i"
  proof -
    have o: "Received_Original se \<in> set ?inbox" "slot_of se \<in> mn_echoed (mail W st hs)"
      using keeps(2) [of se] direct [OF that] se(2) by blast+
    obtain x where x: "Received_Echo (mn_id st) x \<in> set ?inbox" "slot_of x = ?key" using keeps(3) [OF o(2)] se(1) by auto
    have "x \<in> carried_env ` set hs" "se \<in> carried_env ` set hs"
      by (rule carried [OF x(1)], simp add: carries_broadcast_def) (rule carried [OF o(1)], simp add: carries_broadcast_def se(2))
    from same [OF this] have "wire_bytes W x = ?b" using x(2) se(1) by simp
    moreover have "e_from (se_envelope x) = i" using x(2) by (auto simp: slot_of_def Let_def)
    ultimately show ?thesis using o(1) x that by (auto simp: echoers_def)
  qed
  let ?Q = "if mn_id st = i then Q else insert (mn_id st) Q"
  have sub: "?Q \<subseteq> echoers (wire_bytes W) ?inbox ?key ?b"
  proof -
    have "k \<in> echoers (wire_bytes W) ?inbox ?key ?b" if "k \<in> Q" for k
      using echo_in [OF that] Q(1) that se(1) se_from by (auto simp: echoers_def)
    then show ?thesis using mine by auto
  qed
  then have q: "t - 1 \<le> card (echoers (wire_bytes W) ?inbox ?key ?b)"
    using quorum(2) card_mono [OF finite_echoers, of ?Q] by fastforce
  have "?Q \<noteq> {}" using quorum by (cases "?Q = {}") auto
  then obtain msg where msg: "msg \<in> set ?inbox" "carries_broadcast msg se"
  proof (cases "mn_id st = i")
    case True
    then obtain k where "k \<in> Q" using \<open>?Q \<noteq> {}\<close> by auto
    from echo_in [OF this] show ?thesis by (intro that) (auto simp: carries_broadcast_def)
  next
    case False
    from mine [OF this] show ?thesis using se(2) by (intro that [of "Received_Original se"]) (auto simp: carries_broadcast_def)
  qed
  have b: "?b \<in> bodies (wire_bytes W) ?inbox ?key" using msg se(1) by (auto simp: bodies_def)
  have rsid: "received_sid msg = sid" using carries_sid [OF msg(2)] se_from by simp
  have "received_sid ` set ?inbox \<subseteq> (\<lambda>h. e_sid (se_envelope (carried_env h))) ` set hs"
    by (rule image_subsetI) (rule keeps(5))
  then have "card (received_sid ` set ?inbox) \<le> card ((\<lambda>h. e_sid (se_envelope (carried_env h))) ` set hs)"
    by (intro card_mono finite_imageI finite_set)
  then have "card (received_sid ` set ?inbox) \<le> MAX_TRACKED_SIDS" using sids(2) by linarith
  moreover have "length (received_sid msg) \<le> MAX_SID" using keeps(5) [OF msg(1)] sids(1) by auto
  ultimately have "sid \<in> ac_sids (acceptor_run (wire_bytes W) t ?inbox)"
    using run_admits [OF msg(1)] rsid by metis
  from node.complete [OF this un b q] show ?thesis .
qed

end
