(* ===== verification/Node_State.thy ===== *)
theory Node_State
  imports Mesh Sim Policy Store "HOL-Library.AList"
begin

text \<open>
  The networked node of \<open>node/src/party/party.rs\<close> (\<open>PartyNode\<close>): its mesh, its acceptor, its evidence archive, and
  how a driver thread sends and waits. What the other threads do while a driver runs is a list of events: a
  frame arrives on a connection, the collector drains one message of the mailbox into the acceptor, a waiting
  driver wakes and looks. A driver is a state-passing computation over the node; any interleaving of the
  threads is a list of events.
\<close>

section \<open>The node\<close>

type_synonym ('f, 'g, 's) node_envelope = "(('f, 'g, 's) node_payload, 's) signed_envelope"

datatype ('f, 'g, 's) evidence =
    Core_Token "('f, 'g, 's) blame_token"
  | Dealt_Share ident_abort "('f, 'g, 's) node_envelope" "'g feldman"
  | Wrong_Sign_Share ident_abort "('f, 'g, 's) node_envelope" bytes 'f "'g feldman" "'g feldman"
  | Equivocation ident_abort "('f, 'g, 's) node_envelope" "('f, 'g, 's) node_envelope"

record ('f, 'g, 's) archive =
  ar_transcript :: "('f, 'g, 's) node_envelope list"
  ar_logged :: "(bytes \<times> phase \<times> byte \<times> party_id \<times> party_id option) set"
  ar_tokens :: "(string \<times> ('f, 'g, 's) evidence) list"
  ar_aborts :: "(ident_abort \<times> string option) list"

datatype ('f, 'g, 's) node_event =
    Arrive "(('f, 'g, 's) node_payload, 's) wire_message"
  | Drain
  | Look bool

record ('f, 'g, 's, 'sk, 'vk, 'r) node_env =
  ne_k256 :: "('f, 'g, 'r) k256"
  ne_wire :: "(('f, 'g, 's) node_payload, 's, 'sk, 'vk) wire_env"
  ne_params :: params

record ('f, 'g, 's, 'sk, 'vk, 'r) node_state =
  ns_mesh :: "(('f, 'g, 's) node_payload, 's, 'sk, 'vk) mesh_node"
  ns_acceptor :: "(('f, 'g, 's) node_payload, 's) acceptor"
  ns_events :: "('f, 'g, 's) node_event list"
  ns_rng :: 'r
  ns_archive :: "('f, 'g, 's) archive option"
  ns_ki_pool :: "('f, 'g) ki_pool"
  ns_equivocations :: nat

type_synonym ('f, 'g, 's, 'sk, 'vk, 'r, 'a) node_driver = "(('f, 'g, 's, 'sk, 'vk, 'r) node_state, error, 'a) sm"

definition node_bind :: "('f, 'g, 's, 'sk, 'vk, 'r) node_env \<Rightarrow> party_id \<Rightarrow> 'sk \<Rightarrow> 'vk btree \<Rightarrow> 'r
    \<Rightarrow> ('f, 'g, 's, 'sk, 'vk, 'r) node_state" where
  \<comment> \<open>own echoes count: the self-echo loopback is on\<close>
  "node_bind N me key registry rng = \<lparr>ns_mesh = (mesh_bind me key registry)\<lparr>mn_self_echo := True\<rparr>,
     ns_acceptor = acceptor_new (p_t (ne_params N)), ns_events = [], ns_rng = rng, ns_archive = None,
     ns_ki_pool = pool_new, ns_equivocations = 0\<rparr>"

definition ns_me :: "('f, 'g, 's, 'sk, 'vk, 'r) node_state \<Rightarrow> party_id" where
  "ns_me st = mn_id (ns_mesh st)"

definition node_process :: "('f, 'g, 's, 'sk, 'vk, 'r) node_env \<Rightarrow> (('f, 'g, 's) node_payload, 's) received
    \<Rightarrow> ('f, 'g, 's, 'sk, 'vk, 'r) node_state \<Rightarrow> ('f, 'g, 's, 'sk, 'vk, 'r) node_state" where
  "node_process N r st = st\<lparr>ns_acceptor := process (wire_bytes (ne_wire N)) r (ns_acceptor st)\<rparr>"

definition node_drain :: "('f, 'g, 's, 'sk, 'vk, 'r) node_env \<Rightarrow> ('f, 'g, 's, 'sk, 'vk, 'r) node_state
    \<Rightarrow> ('f, 'g, 's, 'sk, 'vk, 'r) node_state" where
  \<comment> \<open>one turn of the collector thread\<close>
  "node_drain N st = (case mn_inbox (ns_mesh st) of
       [] \<Rightarrow> st
     | r # rs \<Rightarrow> node_process N r (st\<lparr>ns_mesh := (ns_mesh st)\<lparr>mn_inbox := rs\<rparr>\<rparr>))"

section \<open>The archive\<close>

fun join :: "string \<Rightarrow> string list \<Rightarrow> string" where
  "join sep [] = []"
| "join sep [x] = x"
| "join sep (x # y # xs) = x @ sep @ join sep (y # xs)"

definition archive_create :: "('f, 'g, 's) archive option \<Rightarrow> ('f, 'g, 's) archive" where
  \<comment> \<open>the logs of an earlier run are kept, its set of logged slots is not\<close>
  "archive_create old = (case old of None \<Rightarrow> \<lparr>ar_transcript = [], ar_logged = {}, ar_tokens = [], ar_aborts = []\<rparr>
     | Some ar \<Rightarrow> ar\<lparr>ar_logged := {}\<rparr>)"

definition archive_log :: "('f, 'g, 's) node_envelope \<Rightarrow> ('f, 'g, 's) archive \<Rightarrow> ('f, 'g, 's) archive" where
  "archive_log se ar = (let e = se_envelope se; key = (e_sid e, e_phase e, e_round e, e_from e, e_to e) in
     if key \<in> ar_logged ar then ar
     else ar\<lparr>ar_logged := insert key (ar_logged ar), ar_transcript := ar_transcript ar @ [se]\<rparr>)"

fun evidence_abort :: "('f, 'g, 's) evidence \<Rightarrow> ident_abort" where
  "evidence_abort (Core_Token tk) = tk_abort tk"
| "evidence_abort (Dealt_Share ab _ _) = ab"
| "evidence_abort (Wrong_Sign_Share ab _ _ _ _ _) = ab"
| "evidence_abort (Equivocation ab _ _) = ab"

definition token_name :: "ident_abort \<Rightarrow> string" where
  "token_name ab = ''blame-'' @ phase_display (ab_phase ab) @ ''-'' @ join ''-'' (map dec_str (ab_blamed ab)) @ ''.tok''"

definition write_token :: "('f, 'g, 's) evidence \<Rightarrow> ('f, 'g, 's) archive \<Rightarrow> string \<times> ('f, 'g, 's) archive" where
  \<comment> \<open>a token file of the same name is replaced\<close>
  "write_token ev ar = (let name = token_name (evidence_abort ev)
     in (name, ar\<lparr>ar_tokens := AList.update name ev (ar_tokens ar)\<rparr>))"

definition archive_abort :: "ident_abort \<Rightarrow> ('f, 'g, 's) evidence option \<Rightarrow> ('f, 'g, 's) archive \<Rightarrow> ('f, 'g, 's) archive" where
  \<comment> \<open>one line of \<open>aborts.log\<close>, naming the token file\<close>
  "archive_abort ab ev ar = (case ev of
       None \<Rightarrow> ar\<lparr>ar_aborts := ar_aborts ar @ [(ab, None)]\<rparr>
     | Some ev \<Rightarrow> (case write_token ev ar of (name, ar) \<Rightarrow> ar\<lparr>ar_aborts := ar_aborts ar @ [(ab, Some name)]\<rparr>))"

definition set_archive :: "('f, 'g, 's) archive option \<Rightarrow> ('f, 'g, 's, 'sk, 'vk, 'r) node_state
    \<Rightarrow> ('f, 'g, 's, 'sk, 'vk, 'r) node_state" where
  "set_archive old st = st\<lparr>ns_archive := Some (archive_create old)\<rparr>"

definition log_accepted :: "('f, 'g, 's) node_envelope btree \<Rightarrow> ('f, 'g, 's, 'sk, 'vk, 'r) node_state
    \<Rightarrow> ('f, 'g, 's, 'sk, 'vk, 'r) node_state" where
  "log_accepted envs st = st\<lparr>ns_archive := map_option (fold archive_log (map snd envs)) (ns_archive st)\<rparr>"

definition note_abort :: "ident_abort \<Rightarrow> ('f, 'g, 's) evidence option \<Rightarrow> ('f, 'g, 's, 'sk, 'vk, 'r) node_state
    \<Rightarrow> ('f, 'g, 's, 'sk, 'vk, 'r) node_state" where
  "note_abort ab ev st = st\<lparr>ns_archive := map_option (archive_abort ab ev) (ns_archive st)\<rparr>"

definition record_abort :: "error \<Rightarrow> ('f, 'g, 's) evidence option \<Rightarrow> ('f, 'g, 's, 'sk, 'vk, 'r) node_state
    \<Rightarrow> ('f, 'g, 's, 'sk, 'vk, 'r) node_state" where
  "record_abort e ev st = (case e of Abort ab \<Rightarrow> note_abort ab ev st | _ \<Rightarrow> st)"

definition note_blamed :: "phase \<Rightarrow> party_id list \<Rightarrow> string \<Rightarrow> ('f, 'g, 's, 'sk, 'vk, 'r) node_state
    \<Rightarrow> ('f, 'g, 's, 'sk, 'vk, 'r) node_state" where
  "note_blamed ph bl detail st =
     foldl (\<lambda>st f. note_abort \<lparr>ab_phase = ph, ab_blamed = [f], ab_detail = detail\<rparr> None st) st bl"

definition equivocation_abort :: "slot \<Rightarrow> ident_abort" where
  "equivocation_abort key = (case key of (sid, ph, round, from) \<Rightarrow>
     \<lparr>ab_phase = ph, ab_blamed = [from], ab_detail = ''broadcast equivocation in round '' @ dec_str (unat round)
        @ '': two conflicting values carry party '' @ dec_str from @ [CHR 0x27] @ ''s valid signature ('' @ section_sign @ ''4.7 rule (3))''\<rparr>)"

definition report_equivocations :: "(slot \<times> ('f, 'g, 's) node_envelope \<times> ('f, 'g, 's) node_envelope) list
    \<Rightarrow> ('f, 'g, 's, 'sk, 'vk, 'r) node_state \<Rightarrow> ('f, 'g, 's, 'sk, 'vk, 'r) node_state" where
  "report_equivocations eqs st = foldl (\<lambda>st (key, a, b).
       note_abort (equivocation_abort key) (Some (Equivocation (equivocation_abort key) a b)) st)
     (st\<lparr>ns_equivocations := wadd (ns_equivocations st) (length eqs)\<rparr>) eqs"

section \<open>Sending\<close>

definition node_sign_envelope :: "('f, 'g, 's, 'sk, 'vk, 'r) node_env \<Rightarrow> ('f, 'g, 's) node_payload envelope
    \<Rightarrow> ('f, 'g, 's, 'sk, 'vk, 'r) node_state \<Rightarrow> ('f, 'g, 's) node_envelope" where
  "node_sign_envelope N e st = signed_sign (we_scheme (ne_wire N)) (we_enc (ne_wire N)) e (mn_key (ns_mesh st))"

definition node_broadcast :: "('f, 'g, 's, 'sk, 'vk, 'r) node_env \<Rightarrow> bytes \<Rightarrow> phase \<Rightarrow> byte \<Rightarrow> ('f, 'g, 's) node_payload
    \<Rightarrow> ('f, 'g, 's, 'sk, 'vk, 'r, unit) node_driver" where
  "node_broadcast N sid ph round payload = (\<lambda>st.
     (Ok (), st\<lparr>ns_mesh := send_all (Original (node_sign_envelope N
        (envelope_broadcast sid ph round (ns_me st) payload) st)) (ns_mesh st)\<rparr>))"

definition node_send_p2p :: "('f, 'g, 's, 'sk, 'vk, 'r) node_env \<Rightarrow> bytes \<Rightarrow> phase \<Rightarrow> byte \<Rightarrow> party_id
    \<Rightarrow> ('f, 'g, 's) node_payload \<Rightarrow> ('f, 'g, 's, 'sk, 'vk, 'r, unit) node_driver" where
  \<comment> \<open>the own copy goes straight into the acceptor\<close>
  "node_send_p2p N sid ph round to payload = (\<lambda>st.
     let sgd = node_sign_envelope N (envelope_p2p sid ph round (ns_me st) to payload) st
     in (Ok (), if to = ns_me st then node_process N (Received_Original sgd) st
        else st\<lparr>ns_mesh := send_to to (Original sgd) (ns_mesh st)\<rparr>))"

section \<open>Waiting for a round\<close>

fun wait_for :: "('f, 'g, 's, 'sk, 'vk, 'r) node_env \<Rightarrow> ((('f, 'g, 's) node_payload, 's) acceptor \<Rightarrow> 'v btree) \<Rightarrow> nat
    \<Rightarrow> ('f, 'g, 's) node_event list \<Rightarrow> ('f, 'g, 's, 'sk, 'vk, 'r) node_state \<Rightarrow> 'v btree \<times> ('f, 'g, 's, 'sk, 'vk, 'r) node_state" where
  \<comment> \<open>each \<open>Look\<close> is a turn of the loop; it says whether the deadline has passed, as it has once the events end\<close>
  "wait_for N view n [] st = (view (ns_acceptor st), st\<lparr>ns_events := []\<rparr>)"
| "wait_for N view n (Arrive msg # evs) st =
     wait_for N view n evs (st\<lparr>ns_mesh := mesh_handle (ne_wire N) msg (ns_mesh st)\<rparr>)"
| "wait_for N view n (Drain # evs) st = wait_for N view n evs (node_drain N st)"
| "wait_for N view n (Look late # evs) st = (if length (view (ns_acceptor st)) = n \<or> late
     then (view (ns_acceptor st), st\<lparr>ns_events := evs\<rparr>) else wait_for N view n evs st)"

definition accepted_broadcasts_over :: "('f, 'g, 's, 'sk, 'vk, 'r) node_env \<Rightarrow> bytes \<Rightarrow> phase \<Rightarrow> byte \<Rightarrow> party_id list
    \<Rightarrow> ('f, 'g, 's, 'sk, 'vk, 'r, ('f, 'g, 's) node_envelope btree) node_driver" where
  "accepted_broadcasts_over N sid ph round ids = (\<lambda>st.
     case wait_for N (\<lambda>ac. bcast_set ac sid ph round ids) (length ids) (ns_events st) st of (envs, st) \<Rightarrow>
     case take_new_equivocations (ns_acceptor st) of (eqs, ac) \<Rightarrow>
     (Ok envs, log_accepted envs (report_equivocations eqs (st\<lparr>ns_acceptor := ac\<rparr>))))"

definition p2p_over :: "party_id list \<Rightarrow> 'v btree \<Rightarrow> 'v btree" where
  "p2p_over ids envs = filter (\<lambda>(f, _). f \<in> set ids) envs"

definition accepted_p2p_over :: "('f, 'g, 's, 'sk, 'vk, 'r) node_env \<Rightarrow> bytes \<Rightarrow> phase \<Rightarrow> byte \<Rightarrow> party_id list
    \<Rightarrow> ('f, 'g, 's, 'sk, 'vk, 'r, ('f, 'g, 's) node_envelope btree) node_driver" where
  "accepted_p2p_over N sid ph round ids = (\<lambda>st.
     case wait_for N (\<lambda>ac. p2p_over ids (p2p_set ac sid ph round (ns_me st))) (length ids) (ns_events st) st of (envs, st) \<Rightarrow>
     (Ok envs, log_accepted envs st))"

definition accepted_broadcasts :: "('f, 'g, 's, 'sk, 'vk, 'r) node_env \<Rightarrow> bytes \<Rightarrow> phase \<Rightarrow> byte
    \<Rightarrow> ('f, 'g, 's, 'sk, 'vk, 'r, ('f, 'g, 's) node_envelope btree) node_driver" where
  "accepted_broadcasts N sid ph round = accepted_broadcasts_over N sid ph round (parties (ne_params N))"

definition accepted_p2p :: "('f, 'g, 's, 'sk, 'vk, 'r) node_env \<Rightarrow> bytes \<Rightarrow> phase \<Rightarrow> byte
    \<Rightarrow> ('f, 'g, 's, 'sk, 'vk, 'r, ('f, 'g, 's) node_envelope btree) node_driver" where
  "accepted_p2p N sid ph round = accepted_p2p_over N sid ph round (parties (ne_params N))"

section \<open>Small steps of the drivers\<close>

definition on_node :: "(('f, 'g, 's, 'sk, 'vk, 'r) node_state \<Rightarrow> ('f, 'g, 's, 'sk, 'vk, 'r) node_state)
    \<Rightarrow> ('f, 'g, 's, 'sk, 'vk, 'r, unit) node_driver" where
  "on_node f = (\<lambda>st. (Ok (), f st))"

definition on_rng :: "('r \<Rightarrow> 'a \<times> 'r) \<Rightarrow> ('f, 'g, 's, 'sk, 'vk, 'r, 'a) node_driver" where
  \<comment> \<open>use of the session's \<open>&mut rng\<close>\<close>
  "on_rng f = (\<lambda>st. case f (ns_rng st) of (a, r) \<Rightarrow> (Ok a, st\<lparr>ns_rng := r\<rparr>))"

definition ask :: "(('f, 'g, 's, 'sk, 'vk, 'r) node_state \<Rightarrow> 'a) \<Rightarrow> ('f, 'g, 's, 'sk, 'vk, 'r, 'a) node_driver" where
  "ask f = (\<lambda>st. (Ok (f st), st))"

definition on_error :: "(error \<Rightarrow> ('f, 'g, 's, 'sk, 'vk, 'r) node_state \<Rightarrow> ('f, 'g, 's, 'sk, 'vk, 'r) node_state)
    \<Rightarrow> ('f, 'g, 's, 'sk, 'vk, 'r, 'a) node_driver \<Rightarrow> ('f, 'g, 's, 'sk, 'vk, 'r, 'a) node_driver" where
  \<comment> \<open>\<open>if let Err(e) = \<dots> { \<dots>; return Err(e) }\<close>\<close>
  "on_error f m = (\<lambda>st. case m st of (Err e, st) \<Rightarrow> (Err e, f e st) | (r, st) \<Rightarrow> (r, st))"

definition retiring :: "bytes \<Rightarrow> ('f, 'g, 's, 'sk, 'vk, 'r, 'a) node_driver \<Rightarrow> ('f, 'g, 's, 'sk, 'vk, 'r, 'a) node_driver" where
  \<comment> \<open>\<open>let out = \<dots>; self.node.retire_session(sid); out\<close>\<close>
  "retiring sid m = (\<lambda>st. case m st of (r, st) \<Rightarrow> (r, case r of Panic \<Rightarrow> st
     | _ \<Rightarrow> st\<lparr>ns_mesh := retire_session sid (ns_mesh st)\<rparr>))"

definition pick_all :: "phase \<Rightarrow> string \<Rightarrow> (party_id \<Rightarrow> ('f, 'g, 's) node_payload \<Rightarrow> 'v option)
    \<Rightarrow> ('f, 'g, 's) node_envelope btree \<Rightarrow> 'v btree result" where
  \<comment> \<open>the payloads of a round by sender; the first sender whose payload does not match is blamed\<close>
  "pick_all ph detail sel envs = foldR (\<lambda>(f, se) out. case sel f (e_payload (se_envelope se)) of
       Some x \<Rightarrow> Ok (bt_insert f x out) | None \<Rightarrow> abort ph [f] detail) envs []"

definition incomplete :: "'a result" where
  "incomplete = Err (InvalidParams ''incomplete message sets'')"

definition require_complete :: "bool \<Rightarrow> unit result" where
  "require_complete b = (if b then Ok () else incomplete)"

end
