(* ===== verification/Node_Heard.thy ===== *)
theory Node_Heard
  imports Node_State
begin

text \<open>
  What a node can come to accept: every envelope its acceptor holds has been heard on the wire, or is an own
  message to itself. \<open>heard P\<close> says that all envelopes that have arrived, and all that are still to arrive in the
  events of a run, satisfy \<open>P\<close>; every operation of a node keeps it, so that what a round returns satisfies \<open>P\<close>.
\<close>

section \<open>The acceptor\<close>

lemma set_bt_insert: "set (bt_insert k v m) \<subseteq> insert (k, v) (set m)"
  by (induction m rule: bt_insert.induct) (auto split: if_splits)

definition holds_broadcasts :: "(('m, 's) signed_envelope \<Rightarrow> bool) \<Rightarrow> ('m, 's) acceptor \<Rightarrow> bool" where
  "holds_broadcasts P ac \<longleftrightarrow> (\<forall>key. \<forall>(b, c) \<in> set (entry (ac_bcast ac) key).
     slot_of (ca_env c) = key \<and> e_to (se_envelope (ca_env c)) = None \<and> P (ca_env c))"

definition holds_p2p :: "(('m, 's) signed_envelope \<Rightarrow> bool) \<Rightarrow> ('m, 's) acceptor \<Rightarrow> bool" where
  "holds_p2p P ac \<longleftrightarrow> (\<forall>sid ph r to. bt_wf (entry (ac_p2p ac) (sid, ph, r, to)) \<and>
     (\<forall>(i, se) \<in> set (entry (ac_p2p ac) (sid, ph, r, to)). slot_of se = (sid, ph, r, i)
        \<and> e_to (se_envelope se) = Some to \<and> P se))"

definition received_ok :: "(('m, 's) signed_envelope \<Rightarrow> bool) \<Rightarrow> ('m, 's) received \<Rightarrow> bool" where
  "received_ok P r \<longleftrightarrow> (case r of Received_Original se \<Rightarrow> P se | Received_Echo k se \<Rightarrow> e_to (se_envelope se) = None \<and> P se)"

lemma holds_new: "holds_broadcasts P (acceptor_new t)" "holds_p2p P (acceptor_new t)"
  by (simp_all add: holds_broadcasts_def holds_p2p_def acceptor_new_def entry_def bt_wf_def)

lemma admit_fields:
  assumes "admit_sid sid ac = (ok, ac')"
  shows "ac_bcast ac' = ac_bcast ac" "ac_p2p ac' = ac_p2p ac" "ac_equivocations ac' = ac_equivocations ac"
  using assms by (auto simp: admit_sid_def split: if_splits)

lemma insert_candidate_entry:
  "set (entry (ac_bcast (insert_candidate key payload env ac)) j) \<subseteq> set (entry (ac_bcast ac) j)
     \<union> (if j = key then {(payload, \<lparr>ca_env = env, ca_echoers = {}\<rparr>)} else {})"
  using set_bt_insert [of payload "\<lparr>ca_env = env, ca_echoers = {}\<rparr>" "entry (ac_bcast ac) key"]
  by (auto simp: insert_candidate_def Let_def entry_insert new_candidate_def split: if_splits)

lemma insert_candidate_p2p: "ac_p2p (insert_candidate key payload env ac) = ac_p2p ac"
  by (simp add: insert_candidate_def Let_def)

lemma add_echoer_envs:
  assumes "(b, c) \<in> set (entry (add_echoer key payload k m) j)"
  shows "\<exists>b' c'. (b', c') \<in> set (entry m j) \<and> ca_env c = ca_env c'"
proof (cases "bt_get m key")
  case (Some ps)
  show ?thesis
  proof (cases "bt_get ps payload")
    case (Some c0)
    then have c0: "(payload, c0) \<in> set ps" by (metis bt_get_map_of map_of_SomeD)
    have "entry m key = ps" using \<open>bt_get m key = Some ps\<close> by (simp add: entry_def)
    have "(b, c) \<in> set (bt_insert payload (c0\<lparr>ca_echoers := insert k (ca_echoers c0)\<rparr>) ps) \<or> (b, c) \<in> set (entry m j)"
      using assms Some \<open>bt_get m key = Some ps\<close> by (auto simp: add_echoer_def entry_insert split: if_splits)
    then have "(b, c) = (payload, c0\<lparr>ca_echoers := insert k (ca_echoers c0)\<rparr>) \<and> j = key \<or> (b, c) \<in> set (entry m j)"
      using set_bt_insert [of payload "c0\<lparr>ca_echoers := insert k (ca_echoers c0)\<rparr>" ps] assms Some \<open>bt_get m key = Some ps\<close>
        \<open>entry m key = ps\<close> by (cases "j = key") (auto simp: add_echoer_def entry_insert)
    then show ?thesis using c0 \<open>entry m key = ps\<close> by force
  qed (use assms Some in \<open>auto simp: add_echoer_def\<close>)
qed (use assms in \<open>auto simp: add_echoer_def\<close>)

lemma accept_broadcast_holds:
  assumes "holds_broadcasts P ac" "e_to (se_envelope se) = None" "P se"
  shows "holds_broadcasts P (accept_broadcast eb se ech ac)"
proof -
  let ?ac = "insert_candidate (slot_of se) (eb se) se ac"
  have ins: "holds_broadcasts P ?ac"
    unfolding holds_broadcasts_def
  proof (intro allI ballI, clarify)
    fix a b c d e f
    assume "(e, f) \<in> set (entry (ac_bcast ?ac) (a, b, c, d))"
    then have "(e, f) \<in> set (entry (ac_bcast ac) (a, b, c, d)) \<or> (a, b, c, d) = slot_of se \<and> ca_env f = se"
      using insert_candidate_entry [of "slot_of se" "eb se" se ac "(a, b, c, d)"] by (auto split: if_splits)
    then show "slot_of (ca_env f) = (a, b, c, d) \<and> e_to (se_envelope (ca_env f)) = None \<and> P (ca_env f)"
      using assms unfolding holds_broadcasts_def by fastforce
  qed
  have "holds_broadcasts P (?ac\<lparr>ac_bcast := add_echoer (slot_of se) (eb se) k (ac_bcast ?ac)\<rparr>)" for k
    unfolding holds_broadcasts_def
  proof (intro allI ballI, clarify)
    fix a b c d e f
    assume "(e, f) \<in> set (entry (ac_bcast (?ac\<lparr>ac_bcast := add_echoer (slot_of se) (eb se) k (ac_bcast ?ac)\<rparr>)) (a, b, c, d))"
    then obtain b' c' where "(b', c') \<in> set (entry (ac_bcast ?ac) (a, b, c, d))" "ca_env f = ca_env c'"
      using add_echoer_envs by fastforce
    then show "slot_of (ca_env f) = (a, b, c, d) \<and> e_to (se_envelope (ca_env f)) = None \<and> P (ca_env f)"
      using ins unfolding holds_broadcasts_def by fastforce
  qed
  then show ?thesis
    using assms(1) ins by (auto simp: accept_broadcast_def slot_and_payload_def Let_def split: option.splits)
qed

lemma accept_broadcast_p2p: "ac_p2p (accept_broadcast eb se ech ac) = ac_p2p ac"
  by (simp add: accept_broadcast_def slot_and_payload_def Let_def insert_candidate_p2p split: option.splits)

lemma accept_p2p_holds:
  assumes "holds_p2p P ac" "e_to (se_envelope se) = Some to" "P se"
  shows "holds_p2p P (accept_p2p se to ac)"
proof -
  let ?e = "se_envelope se"
  have "bt_wf (entry (ac_p2p (accept_p2p se to ac)) (sid, ph, r, to')) \<and>
     (\<forall>(i, x) \<in> set (entry (ac_p2p (accept_p2p se to ac)) (sid, ph, r, to')). slot_of x = (sid, ph, r, i)
        \<and> e_to (se_envelope x) = Some to' \<and> P x)" for sid ph r to'
  proof (cases "(sid, ph, r, to') = (e_sid ?e, e_phase ?e, e_round ?e, to)
      \<and> \<not> bt_contains (entry (ac_p2p ac) (sid, ph, r, to')) (e_from ?e)")
    case True
    then have "entry (ac_p2p (accept_p2p se to ac)) (sid, ph, r, to') = bt_insert (e_from ?e) se (entry (ac_p2p ac) (sid, ph, r, to'))"
      by (auto simp: accept_p2p_def Let_def entry_insert)
    moreover have "slot_of se = (sid, ph, r, e_from ?e)" using True by (simp add: slot_of_def Let_def)
    moreover have "bt_wf (bt_insert (e_from ?e) se (entry (ac_p2p ac) (sid, ph, r, to')))"
      using assms(1) unfolding holds_p2p_def by (intro bt.wf_insert) blast
    ultimately show ?thesis
      using assms True set_bt_insert [of "e_from ?e" se "entry (ac_p2p ac) (sid, ph, r, to')"]
      unfolding holds_p2p_def by fastforce
  next
    case False
    then have "entry (ac_p2p (accept_p2p se to ac)) (sid, ph, r, to') = entry (ac_p2p ac) (sid, ph, r, to')"
      by (auto simp: accept_p2p_def Let_def entry_insert)
    then show ?thesis using assms(1) unfolding holds_p2p_def by simp
  qed
  then show ?thesis unfolding holds_p2p_def by blast
qed

lemma accept_p2p_bcast: "ac_bcast (accept_p2p se to ac) = ac_bcast ac"
  by (simp add: accept_p2p_def Let_def)

lemma process_holds:
  assumes "holds_broadcasts P ac" "holds_p2p P ac" "received_ok P r"
  shows "holds_broadcasts P (process eb r ac) \<and> holds_p2p P (process eb r ac)"
proof -
  obtain ok ac' where adm: "admit_sid (received_sid r) ac = (ok, ac')" by fastforce
  note f = admit_fields [OF adm]
  have h: "holds_broadcasts P ac'" "holds_p2p P ac'"
    using assms(1,2) f(1,2) unfolding holds_broadcasts_def holds_p2p_def by simp_all
  have b: "holds_broadcasts P (accept_broadcast eb se ech ac') \<and> holds_p2p P (accept_broadcast eb se ech ac')"
    if "e_to (se_envelope se) = None" "P se" for se ech
    using accept_broadcast_holds [OF h(1) that] h(2) accept_broadcast_p2p [of eb se ech ac']
    unfolding holds_p2p_def by simp
  have p: "holds_broadcasts P (accept_p2p se to ac') \<and> holds_p2p P (accept_p2p se to ac')"
    if "e_to (se_envelope se) = Some to" "P se" for se to
    using accept_p2p_holds [OF h(2) that] h(1) accept_p2p_bcast [of se to ac']
    unfolding holds_broadcasts_def by simp
  show ?thesis
    using adm h assms(3) b p
    by (auto simp: process_def received_sid_def received_ok_def split: received.splits option.splits)
qed

section \<open>The node\<close>

definition event_ok :: "(('f, 'g, 's) node_envelope \<Rightarrow> bool) \<Rightarrow> ('f, 'g, 's) node_event \<Rightarrow> bool" where
  "event_ok P ev \<longleftrightarrow> (case ev of Arrive msg \<Rightarrow> P (carried_env msg) | _ \<Rightarrow> True)"

definition heard :: "(('f, 'g, 's) node_envelope \<Rightarrow> bool) \<Rightarrow> ('f, 'g, 's, 'sk, 'vk, 'r) node_state \<Rightarrow> bool" where
  "heard P st \<longleftrightarrow> holds_broadcasts P (ns_acceptor st) \<and> holds_p2p P (ns_acceptor st)
     \<and> (\<forall>r \<in> set (mn_inbox (ns_mesh st)). received_ok P r) \<and> (\<forall>ev \<in> set (ns_events st). event_ok P ev)"

lemma handle_received_ok:
  assumes "\<forall>r \<in> set (mn_inbox st). received_ok P r" "P (carried_env msg)"
  shows "\<forall>r \<in> set (mn_inbox (mesh_handle W msg st)). received_ok P r"
proof (cases msg)
  case (Original se)
  then show ?thesis
    using assms by (auto simp: mesh_handle_def Let_def echo_first_inbox received_ok_def carried_env_def split: option.splits if_splits)
next
  case (Echo k se s)
  then show ?thesis
    using assms
    by (auto simp: mesh_handle_def Let_def received_ok_def carried_env_def wire_verify_def split: option.splits if_splits)
qed

lemma heard_drain: "heard P st \<Longrightarrow> heard P (node_drain N st)"
proof (cases "mn_inbox (ns_mesh st)")
  case (Cons r rs)
  assume "heard P st"
  then show ?thesis
    using Cons process_holds [of P "ns_acceptor st" r] by (simp add: heard_def node_drain_def node_process_def)
qed (simp add: node_drain_def)

lemma drain_fields [simp]:
  "ns_events (node_drain N st) = ns_events st" "ns_rng (node_drain N st) = ns_rng st" "ns_me (node_drain N st) = ns_me st"
  "mn_key (ns_mesh (node_drain N st)) = mn_key (ns_mesh st)"
  by (auto simp: node_drain_def node_process_def ns_me_def split: list.split)

lemma drain_events: "node_drain N (st\<lparr>ns_events := evs\<rparr>) = (node_drain N st)\<lparr>ns_events := evs\<rparr>"
  by (cases "mn_inbox (ns_mesh st)") (simp_all add: node_drain_def node_process_def)

lemma wait_for_heard:
  assumes "heard P (st\<lparr>ns_events := evs\<rparr>)" "wait_for N view n evs st = (x, st')"
  shows "heard P st' \<and> x = view (ns_acceptor st') \<and> ns_me st' = ns_me st"
  using assms
proof (induction N view n evs st rule: wait_for.induct)
  case (1 N view n st)
  then show ?case by (auto simp: ns_me_def)
next
  case (2 N view n msg evs st)
  have "heard P ((st\<lparr>ns_mesh := mesh_handle (ne_wire N) msg (ns_mesh st)\<rparr>)\<lparr>ns_events := evs\<rparr>)"
    using 2(2) handle_received_ok [of "ns_mesh st" P msg "ne_wire N"] by (auto simp: heard_def event_ok_def)
  moreover have "wait_for N view n evs (st\<lparr>ns_mesh := mesh_handle (ne_wire N) msg (ns_mesh st)\<rparr>) = (x, st')"
    using 2(3) by simp
  ultimately have "heard P st' \<and> x = view (ns_acceptor st') \<and> ns_me st' = ns_me (st\<lparr>ns_mesh := mesh_handle (ne_wire N) msg (ns_mesh st)\<rparr>)"
    by (rule 2(1))
  then show ?case by (simp add: ns_me_def)
next
  case (3 N view n evs st)
  have "heard P (st\<lparr>ns_events := evs\<rparr>)" using 3(2) by (simp add: heard_def)
  then have "heard P ((node_drain N st)\<lparr>ns_events := evs\<rparr>)" using heard_drain by (simp flip: drain_events)
  moreover have "wait_for N view n evs (node_drain N st) = (x, st')" using 3(3) by simp
  ultimately have "heard P st' \<and> x = view (ns_acceptor st') \<and> ns_me st' = ns_me (node_drain N st)" by (rule 3(1))
  then show ?case by simp
next
  case (4 N view n late evs st)
  have h: "heard P (st\<lparr>ns_events := evs\<rparr>)" using 4(2) by (simp add: heard_def)
  show ?case
  proof (cases "length (view (ns_acceptor st)) = n \<or> late")
    case True
    then show ?thesis using 4(3) h by (auto simp: ns_me_def)
  next
    case False
    then have "wait_for N view n evs st = (x, st')" using 4(3) by simp
    with False h show ?thesis by (intro 4(1))
  qed
qed

lemma heard_archive [simp]:
  "heard P (st\<lparr>ns_archive := x\<rparr>) = heard P st" "heard P (st\<lparr>ns_equivocations := y\<rparr>) = heard P st"
  "ns_me (st\<lparr>ns_archive := x\<rparr>) = ns_me st" "ns_me (st\<lparr>ns_equivocations := y\<rparr>) = ns_me st"
  by (simp_all add: heard_def ns_me_def)

lemma note_abort_fields [simp]: "heard P (note_abort ab ev st) = heard P st" "ns_me (note_abort ab ev st) = ns_me st"
  by (simp_all add: note_abort_def)

lemma log_accepted_fields [simp]: "heard P (log_accepted envs st) = heard P st" "ns_me (log_accepted envs st) = ns_me st"
  by (simp_all add: log_accepted_def)

lemma report_fields [simp]:
  fixes st :: "('f, 'g, 's, 'sk, 'vk, 'r) node_state"
  shows "heard P (report_equivocations eqs st) = heard P st" "ns_me (report_equivocations eqs st) = ns_me st"
proof -
  let ?F = "\<lambda>st (key, a, b). note_abort (equivocation_abort key) (Some (Equivocation (equivocation_abort key) a b)) st"
  have "heard P (foldl ?F st eqs) = heard P st \<and> ns_me (foldl ?F st eqs) = ns_me st"
    for st :: "('f, 'g, 's, 'sk, 'vk, 'r) node_state"
    by (induction eqs rule: rev_induct) (auto split: prod.split)
  from this [of "st\<lparr>ns_equivocations := wadd (ns_equivocations st) (length eqs)\<rparr>"]
  show "heard P (report_equivocations eqs st) = heard P st" "ns_me (report_equivocations eqs st) = ns_me st"
    unfolding report_equivocations_def by simp_all
qed

lemma send_all_inbox [simp]: "mn_inbox (send_all msg st) = mn_inbox st" by simp

lemma send_to_fields [simp]: "mn_inbox (send_to to msg st) = mn_inbox st" "mn_id (send_to to msg st) = mn_id st"
  using receive_state_send_raw [of to msg "journal_push msg st"]
  by (simp_all add: send_to_def journal_push_def receive_state_def)

lemma heard_broadcast:
  assumes "heard P st" "node_broadcast N sid ph round payload st = (r, st')"
  shows "heard P st' \<and> ns_me st' = ns_me st \<and> r = Ok ()"
  using assms by (auto simp: node_broadcast_def heard_def ns_me_def)

lemma heard_send_p2p:
  assumes "heard P st" "node_send_p2p N sid ph round to payload st = (r, st')"
    and "P (node_sign_envelope N (envelope_p2p sid ph round (ns_me st) to payload) st)"
  shows "heard P st' \<and> ns_me st' = ns_me st \<and> r = Ok ()"
proof (cases "to = ns_me st")
  case True
  then show ?thesis
    using assms process_holds [of P "ns_acceptor st" "Received_Original (node_sign_envelope N (envelope_p2p sid ph round (ns_me st) to payload) st)"]
    by (auto simp: node_send_p2p_def Let_def node_process_def heard_def ns_me_def received_ok_def)
next
  case False
  then show ?thesis using assms by (auto simp: node_send_p2p_def Let_def heard_def ns_me_def)
qed

section \<open>The rounds\<close>

lemma bcast_set_wf: "bt_wf (bcast_set ac sid ph round ids)"
proof -
  have "bt_wf out \<Longrightarrow> bt_wf (foldl (\<lambda>out i. if c i then out else (case f i of None \<Rightarrow> out | Some x \<Rightarrow> bt_insert i (g x) out)) out ids)"
    for out :: "'v btree" and c :: "party_id \<Rightarrow> bool" and f :: "party_id \<Rightarrow> 'x option" and g
    by (induction ids arbitrary: out) (auto simp: bt.wf_insert split: option.split)
  from this [of "[]"] show ?thesis unfolding bcast_set_def by (simp add: bt_wf_def [of "[]"])
qed

lemma find_in_set: "find Q xs = Some x \<Longrightarrow> x \<in> set xs"
  by (induction xs) (auto split: if_splits)

lemma bcast_set_holds:
  assumes "holds_broadcasts P ac" "(i, se) \<in> set (bcast_set ac sid ph round ids)"
  shows "i \<in> set ids \<and> slot_of se = (sid, ph, round, i) \<and> e_to (se_envelope se) = None \<and> P se"
proof -
  have "bt_get (bcast_set ac sid ph round ids) i = Some se"
    using assms(2) bt.entries_get [OF bcast_set_wf] by blast
  then obtain c where i: "i \<in> set ids" and c: "se = ca_env c" "accepted_in (ac_quorum ac) (entry (ac_bcast ac) (sid, ph, round, i)) = Some c"
    by (auto simp: bcast_set_get accepted_in_entry split: if_splits)
  then have "c \<in> snd ` set (entry (ac_bcast ac) (sid, ph, round, i))"
    by (auto simp: accepted_in_def dest: find_in_set)
  then show ?thesis using assms(1) c(1) i unfolding holds_broadcasts_def by fastforce
qed

definition round_of :: "bytes \<Rightarrow> phase \<Rightarrow> byte \<Rightarrow> party_id list \<Rightarrow> ('f, 'g, 's) node_envelope btree \<Rightarrow> bool" where
  \<comment> \<open>a set of broadcasts of a round, by sender\<close>
  "round_of sid ph round ids envs \<longleftrightarrow> bt_wf envs \<and> (\<forall>(i, se) \<in> set envs. i \<in> set ids \<and> slot_of se = (sid, ph, round, i)
     \<and> e_to (se_envelope se) = None)"

lemma accepted_broadcasts_heard:
  assumes "heard P st" "accepted_broadcasts_over N sid ph round ids st = (r, st')"
  obtains envs where "r = Ok envs" "round_of sid ph round ids envs" "\<forall>(i, se) \<in> set envs. P se" "heard P st'" "ns_me st' = ns_me st"
proof -
  obtain envs st1 where w: "wait_for N (\<lambda>ac. bcast_set ac sid ph round ids) (length ids) (ns_events st) st = (envs, st1)"
    by fastforce
  have h: "heard P st1" "envs = bcast_set (ns_acceptor st1) sid ph round ids" "ns_me st1 = ns_me st"
    using wait_for_heard [OF _ w, of P] assms(1) by simp_all
  then have sets: "round_of sid ph round ids envs" "\<forall>(i, se) \<in> set envs. P se"
    using bcast_set_wf bcast_set_holds [of P "ns_acceptor st1" _ _ sid ph round ids] unfolding round_of_def heard_def by blast+
  obtain eqs ac where t: "take_new_equivocations (ns_acceptor st1) = (eqs, ac)" by fastforce
  then have "ac_bcast ac = ac_bcast (ns_acceptor st1)" "ac_p2p ac = ac_p2p (ns_acceptor st1)"
    by (auto simp: take_new_equivocations_def Let_def)
  then have "heard P (st1\<lparr>ns_acceptor := ac\<rparr>)" using h(1) by (simp add: heard_def holds_broadcasts_def holds_p2p_def)
  then have "heard P (log_accepted envs (report_equivocations eqs (st1\<lparr>ns_acceptor := ac\<rparr>)))" by simp
  moreover have "ns_me (log_accepted envs (report_equivocations eqs (st1\<lparr>ns_acceptor := ac\<rparr>))) = ns_me st"
    using h(3) by (simp add: ns_me_def [of "st1\<lparr>ns_acceptor := ac\<rparr>"]) (simp add: ns_me_def)
  ultimately show ?thesis
    using that [OF _ sets] assms(2) w t by (auto simp: accepted_broadcasts_over_def)
qed

definition letters_of :: "bytes \<Rightarrow> phase \<Rightarrow> byte \<Rightarrow> party_id \<Rightarrow> party_id list \<Rightarrow> ('f, 'g, 's) node_envelope btree \<Rightarrow> bool" where
  "letters_of sid ph round me ids envs \<longleftrightarrow> bt_wf envs \<and> (\<forall>(i, se) \<in> set envs. i \<in> set ids \<and> slot_of se = (sid, ph, round, i)
     \<and> e_to (se_envelope se) = Some me)"

lemma bt_wf_filter: "bt_wf m \<Longrightarrow> bt_wf (filter f m)"
proof (induction m)
  case (Cons x m)
  then show ?case by (auto simp: bt_wf_def)
qed simp

lemma accepted_p2p_heard:
  assumes "heard P st" "accepted_p2p_over N sid ph round ids st = (r, st')"
  obtains envs where "r = Ok envs" "letters_of sid ph round (ns_me st) ids envs" "\<forall>(i, se) \<in> set envs. P se" "heard P st'" "ns_me st' = ns_me st"
proof -
  let ?view = "\<lambda>ac. p2p_over ids (p2p_set ac sid ph round (ns_me st))"
  obtain envs st1 where w: "wait_for N ?view (length ids) (ns_events st) st = (envs, st1)" by fastforce
  have h: "heard P st1" "envs = ?view (ns_acceptor st1)" "ns_me st1 = ns_me st"
    using wait_for_heard [OF _ w, of P] assms(1) by simp_all
  let ?all = "entry (ac_p2p (ns_acceptor st1)) (sid, ph, round, ns_me st)"
  have envs: "envs = filter (\<lambda>(f, _). f \<in> set ids) ?all" using h(2) by (simp add: p2p_over_def p2p_set_def)
  have all: "bt_wf ?all" "\<forall>(i, se) \<in> set ?all. slot_of se = (sid, ph, round, i) \<and> e_to (se_envelope se) = Some (ns_me st) \<and> P se"
    using h(1) unfolding heard_def holds_p2p_def by blast+
  have "letters_of sid ph round (ns_me st) ids envs" "\<forall>(i, se) \<in> set envs. P se"
    using all bt_wf_filter [OF all(1)] unfolding letters_of_def envs by auto
  then show ?thesis using that assms(2) w h(1,3) by (auto simp: accepted_p2p_over_def)
qed

text \<open>A complete round has one message from every member of the committee, in the order of the ids.\<close>

lemma complete_round:
  assumes "bt_wf envs" "fst ` set envs \<subseteq> set ids" "length envs = length ids" "distinct ids"
  shows "map fst envs = sort ids"
proof -
  have d: "distinct (map fst envs)" using assms(1) by (simp add: bt_wf_def strict_sorted_iff)
  have "card (set (map fst envs)) = card (set ids)" using d assms(3,4) by (simp add: distinct_card del: set_map)
  then have "set (map fst envs) = set ids" using assms(2) by (intro card_subset_eq) auto
  then show ?thesis using assms(1,4) by (intro strict_sorted_equal) (simp_all add: bt_wf_def strict_sorted_iff)
qed

section \<open>What was said\<close>

definition said :: "('f, 'g, 's) node_envelope btree \<Rightarrow> (party_id \<times> ('f, 'g, 's) node_payload) list" where
  \<comment> \<open>the payloads of a round by sender\<close>
  "said envs = map (\<lambda>(f, se). (f, e_payload (se_envelope se))) envs"

definition pick_said :: "phase \<Rightarrow> string \<Rightarrow> (party_id \<Rightarrow> 'p \<Rightarrow> 'v option) \<Rightarrow> (party_id \<times> 'p) list \<Rightarrow> 'v btree result" where
  "pick_said ph detail sel ps = foldR (\<lambda>(f, p) out. case sel f p of
       Some x \<Rightarrow> Ok (bt_insert f x out) | None \<Rightarrow> abort ph [f] detail) ps []"

lemma pick_all_said: "pick_all ph detail sel envs = pick_said ph detail sel (said envs)"
  by (simp add: pick_all_def pick_said_def said_def foldR_map case_prod_unfold cong: option.case_cong)

lemma pick_all_ok:
  assumes "\<And>f p. (f, p) \<in> set (said envs) \<Longrightarrow> sel f p \<noteq> None"
  shows "\<exists>m. pick_all ph detail sel envs = Ok m \<and> bt_wf m \<and> (\<forall>i. bt_get m i \<noteq> None \<longleftrightarrow> i \<in> fst ` set envs)"
proof -
  have "\<exists>m. foldR (\<lambda>(f, p) out. case sel f p of Some x \<Rightarrow> Ok (bt_insert f x out) | None \<Rightarrow> abort ph [f] detail) xs acc = Ok m
      \<and> bt_wf m \<and> (\<forall>i. bt_get m i \<noteq> None \<longleftrightarrow> i \<in> fst ` set xs \<or> bt_get acc i \<noteq> None)"
    if "\<And>f p. (f, p) \<in> set xs \<Longrightarrow> sel f p \<noteq> None" "bt_wf acc" for xs acc
    using that
  proof (induction xs arbitrary: acc)
    case (Cons x xs)
    obtain f p where x: "x = (f, p)" by (cases x)
    with Cons.prems(1) [of f p] obtain y where y: "sel f p = Some y" by auto
    from Cons.IH [of "bt_insert f y acc"] Cons.prems obtain m where
      "foldR (\<lambda>(f, p) out. case sel f p of Some x \<Rightarrow> Ok (bt_insert f x out) | None \<Rightarrow> abort ph [f] detail) xs (bt_insert f y acc) = Ok m"
      "bt_wf m" "\<forall>i. bt_get m i \<noteq> None \<longleftrightarrow> i \<in> fst ` set xs \<or> bt_get (bt_insert f y acc) i \<noteq> None"
      by (auto simp: bt.wf_insert)
    then show ?case using x y by (auto simp: bt_get_insert split: if_splits)
  qed simp
  from this [of "said envs" "[]"] assms show ?thesis
    unfolding pick_all_said pick_said_def by (auto simp: said_def bt_wf_def image_image case_prod_unfold)
qed

definition says :: "(byte \<Rightarrow> party_id \<Rightarrow> 'p) \<Rightarrow> byte \<Rightarrow> party_id list \<Rightarrow> (party_id \<times> 'p) list" where
  "says val round ids = map (\<lambda>i. (i, val round i)) (sort ids)"

lemma said_says:
  assumes "round_of sid ph round ids envs" "length envs = length ids" "distinct ids"
    and "\<forall>(i, se) \<in> set envs. e_payload (se_envelope se) = val round i"
  shows "said envs = says val round ids"
proof -
  have "map fst envs = sort ids"
    using assms(1) by (intro complete_round assms(2,3)) (auto simp: round_of_def)
  then have "says val round ids = map (\<lambda>(i, se). (i, val round i)) envs"
    by (simp add: says_def flip: \<open>map fst envs = sort ids\<close>) (simp add: o_def case_prod_unfold)
  then show ?thesis using assms(4) by (auto simp: said_def)
qed

end
