(* ===== verification/Node_Keygen.thy ===== *)
theory Node_Keygen
  imports Node_Heard
begin

text \<open>
  Joint random sharing over the wire, as one node runs it (\<open>joint_vss\<close>, \<open>complaint_round\<close> and \<open>keygen\<close> of
  \<open>node/src/party/party.rs\<close>): commit, reveal and shares, complaints, defences, adjudication. The verdict is computed
  from what the node accepted; the lemmas show that it depends on the broadcasts alone, so that nodes that accept
  the same broadcasts reach the same verdict.
\<close>

section \<open>Rounds and faults\<close>

definition VSS_ROUND_COMMIT :: byte where "VSS_ROUND_COMMIT = 1"
definition VSS_ROUND_REVEAL :: byte where "VSS_ROUND_REVEAL = 2"
definition VSS_ROUND_COMPLAIN :: byte where "VSS_ROUND_COMPLAIN = 3"
definition VSS_ROUND_DEFEND :: byte where "VSS_ROUND_DEFEND = 4"

datatype cheat =
    Bad_Deal party_id
  | False_Accuse party_id
  | Bad_Sign_Share
  | Bad_Product_Proof
  | Bad_Reshare party_id
  | Bad_Nonce_Point
  | Bad_Open_Share

section \<open>The complaint subprotocol\<close>

definition defenses_due :: "phase \<Rightarrow> party_id \<Rightarrow> (party_id \<Rightarrow> 'f result) \<Rightarrow> ('f, 'g, 's) node_envelope btree
    \<Rightarrow> (party_id \<times> 'f) list result" where
  \<comment> \<open>an answer to every complaint that names this node\<close>
  "defenses_due ph me defense_for complaint_sets = foldR (\<lambda>(a, se) defs. case e_payload (se_envelope se) of
       Complaints ds \<Rightarrow> if me \<in> set ds then bindR (defense_for a) (\<lambda>s. Ok (defs @ [(a, s)])) else Ok defs
     | _ \<Rightarrow> abort ph [a] ''malformed complaint broadcast'') complaint_sets []"

fun first_complaint :: "phase \<Rightarrow> ('f, 'g, 's) node_envelope btree \<Rightarrow> (party_id \<times> party_id) option result" where
  "first_complaint ph [] = Ok None"
| "first_complaint ph ((a, se) # cs) = (case e_payload (se_envelope se) of
       Complaints ds \<Rightarrow> if ds = [] then first_complaint ph cs else Ok (Some (a, Min (set ds)))
     | _ \<Rightarrow> abort ph [a] ''malformed complaint broadcast'')"

definition adjudicate :: "phase \<Rightarrow> (party_id \<Rightarrow> party_id \<Rightarrow> 'f \<Rightarrow> bool result) \<Rightarrow> ('f, 'g, 's) node_envelope btree
    \<Rightarrow> ('f, 'g, 's) node_envelope btree \<Rightarrow> unit result" where
  \<comment> \<open>the first complaint is decided; \<open>defense_sets[&d]\<close> panics where \<open>d\<close> sent no defence\<close>
  "adjudicate ph defense_verifies complaint_sets defense_sets =
     bindR (first_complaint ph complaint_sets) (\<lambda>fc. case fc of
       None \<Rightarrow> Ok ()
     | Some (a, d) \<Rightarrow> bindR (of_opt (bt_get defense_sets d)) (\<lambda>se. case e_payload (se_envelope se) of
           Defenses defs \<Rightarrow> (case find (\<lambda>(x, _). x = a) defs of
               None \<Rightarrow> abort ph [d] (''dealer '' @ dec_str d @ '' broadcast no defense against '' @ dec_str a @ [CHR 0x27] @ ''s complaint'')
             | Some (_, share) \<Rightarrow> bindR (defense_verifies d a share) (\<lambda>ok.
                 if ok then abort ph [a] (''false accusation: dealer '' @ dec_str d @ [CHR 0x27]
                   @ ''s defense share verifies against its commitment'')
                 else abort ph [d] (''dealer '' @ dec_str d @ [CHR 0x27] @ ''s defense share fails verification against its commitment'')))
         | _ \<Rightarrow> abort ph [d] ''malformed defense broadcast''))"

definition complaint_round :: "('f, 'g, 's, 'sk, 'vk, 'r) node_env \<Rightarrow> bytes \<Rightarrow> phase \<Rightarrow> byte \<times> byte \<Rightarrow> party_id list
    \<Rightarrow> party_id list \<Rightarrow> (party_id \<Rightarrow> 'f result) \<Rightarrow> (party_id \<Rightarrow> party_id \<Rightarrow> 'f \<Rightarrow> bool result)
    \<Rightarrow> ('f, 'g, 's, 'sk, 'vk, 'r, unit) node_driver" where
  "complaint_round N sid ph rounds ids complaints defense_for defense_verifies =
     bindS (node_broadcast N sid ph (fst rounds) (Complaints complaints)) (\<lambda>_.
     bindS (accepted_broadcasts_over N sid ph (fst rounds) ids) (\<lambda>complaint_sets.
     bindS (liftR (require_complete (length complaint_sets = length ids))) (\<lambda>_.
     bindS (ask ns_me) (\<lambda>me.
     bindS (liftR (defenses_due ph me defense_for complaint_sets)) (\<lambda>defs.
     bindS (node_broadcast N sid ph (snd rounds) (Defenses defs)) (\<lambda>_.
     bindS (accepted_broadcasts_over N sid ph (snd rounds) ids) (\<lambda>defense_sets.
     bindS (liftR (require_complete (length defense_sets = length ids))) (\<lambda>_.
     liftR (adjudicate ph defense_verifies complaint_sets defense_sets)))))))))"

definition accuse :: "cheat option \<Rightarrow> party_id list \<Rightarrow> party_id list" where
  \<comment> \<open>the false accusation of a cheating node\<close>
  "accuse cheat complaints = (case cheat of
       Some (False_Accuse d) \<Rightarrow> if d \<in> set complaints then complaints else complaints @ [d]
     | _ \<Rightarrow> complaints)"

definition dealt_share_evidence :: "('f::field, 'g::ab_group_add, 'r) k256 \<Rightarrow> error \<Rightarrow> party_id list
    \<Rightarrow> ('f, 'g, 's) node_envelope btree \<Rightarrow> 'g dkg_bcast2 btree \<Rightarrow> ('f, 'g, 's) evidence option" where
  "dealt_share_evidence E e complaints share_envs r2 = (case e of
       Abort ab \<Rightarrow> (case ab_blamed ab of
           [d] \<Rightarrow> if d \<notin> set complaints then None
             else Option.bind (bt_get share_envs d) (\<lambda>se. case e_payload (se_envelope se) of
                 Dkg (Share s) \<Rightarrow> Option.bind (bt_get r2 d) (\<lambda>b2. if verify_share E (b2_com b2) (pp_to s) (pp_share s) then None
                   else Some (Dealt_Share ab se (b2_com b2)))
               | _ \<Rightarrow> None)
         | _ \<Rightarrow> None)
     | _ \<Rightarrow> None)"

section \<open>Joint random sharing\<close>

definition bad_deal_shares :: "cheat option \<Rightarrow> 'f::field dkg_p2p list \<Rightarrow> 'f dkg_p2p list" where
  "bad_deal_shares cheat shares = (case cheat of
       Some (Bad_Deal v) \<Rightarrow> map (\<lambda>s. if pp_to s = v then s\<lparr>pp_share := pp_share s + 1\<rparr> else s) shares
     | _ \<Rightarrow> shares)"

definition vss_deal :: "('f::field, 'g::ab_group_add, 's, 'sk, 'vk, 'r) node_env \<Rightarrow> bytes \<Rightarrow> phase \<Rightarrow> cheat option
    \<Rightarrow> ('f, 'g) dkg_instance \<Rightarrow> dkg_bcast1 \<Rightarrow> ('f, 'g, 's, 'sk, 'vk, 'r, unit) node_driver" where
  "vss_deal N sid ph cheat inst b1 =
     bindS (node_broadcast N sid ph VSS_ROUND_COMMIT (Dkg (Commit b1))) (\<lambda>_.
     bindS (liftR (dkg_reveal (ne_k256 N) inst)) (\<lambda>(b2, shares).
     bindS (node_broadcast N sid ph VSS_ROUND_REVEAL (Dkg (Reveal b2))) (\<lambda>_.
     bindS (mapS (\<lambda>s. node_send_p2p N sid ph VSS_ROUND_REVEAL (pp_to s) (Dkg (Share s))) (bad_deal_shares cheat shares)) (\<lambda>_.
     retS ()))))"

definition commit_in :: "party_id \<Rightarrow> ('f, 'g, 's) node_payload \<Rightarrow> dkg_bcast1 option" where
  "commit_in f p = (case p of Dkg (Commit b) \<Rightarrow> if b1_from b = f then Some b else None | _ \<Rightarrow> None)"

definition reveal_in :: "party_id \<Rightarrow> ('f, 'g, 's) node_payload \<Rightarrow> 'g dkg_bcast2 option" where
  "reveal_in f p = (case p of Dkg (Reveal b) \<Rightarrow> if b2_from b = f then Some b else None | _ \<Rightarrow> None)"

definition share_in :: "party_id \<Rightarrow> party_id \<Rightarrow> ('f, 'g, 's) node_payload \<Rightarrow> 'f option" where
  "share_in me f p = (case p of Dkg (Share s) \<Rightarrow> if pp_from s = f \<and> pp_to s = me then Some (pp_share s) else None | _ \<Rightarrow> None)"

definition vss_messages :: "phase \<Rightarrow> party_id \<Rightarrow> ('f, 'g, 's) node_envelope btree \<Rightarrow> ('f, 'g, 's) node_envelope btree
    \<Rightarrow> ('f, 'g, 's) node_envelope btree \<Rightarrow> (dkg_bcast1 btree \<times> 'g dkg_bcast2 btree \<times> 'f btree) result" where
  "vss_messages ph me r1_envs r2_envs share_envs =
     bindR (pick_all ph ''malformed commit broadcast'' commit_in r1_envs) (\<lambda>r1.
     bindR (pick_all ph ''malformed reveal broadcast'' reveal_in r2_envs) (\<lambda>r2.
     bindR (pick_all ph ''malformed share envelope'' (share_in me) share_envs) (\<lambda>mine. Ok (r1, r2, mine))))"

definition check_reveal :: "('f, 'g, 'r) k256 \<Rightarrow> bytes \<Rightarrow> bytes \<Rightarrow> phase \<Rightarrow> nat \<Rightarrow> dkg_bcast1 btree \<Rightarrow> 'g dkg_bcast2 btree
    \<Rightarrow> party_id \<Rightarrow> unit result" where
  "check_reveal E sid tag ph t r1 r2 i =
     bindR (of_opt (bt_get r2 i)) (\<lambda>b2.
       if length (points (b2_com b2)) \<noteq> t then abort ph [i] ''malformed Feldman commitment vector''
       else bindR (of_opt (bt_get r1 i)) (\<lambda>b1.
         if hash_commitment E sid tag i (b2_com b2) \<noteq> b1_hash b1 then abort ph [i] ''commit-reveal hash mismatch'' else Ok ()))"

definition check_reveals :: "('f, 'g, 'r) k256 \<Rightarrow> bytes \<Rightarrow> bytes \<Rightarrow> phase \<Rightarrow> nat \<Rightarrow> party_id list \<Rightarrow> dkg_bcast1 btree
    \<Rightarrow> 'g dkg_bcast2 btree \<Rightarrow> unit result" where
  "check_reveals E sid tag ph t ids r1 r2 = foldR (\<lambda>i _. check_reveal E sid tag ph t r1 r2 i) ids ()"

definition failed_shares :: "(party_id \<Rightarrow> 'f \<Rightarrow> bool result) \<Rightarrow> party_id list \<Rightarrow> 'f btree \<Rightarrow> party_id list result" where
  \<comment> \<open>the dealers whose share fails the check\<close>
  "failed_shares verifies ids mine = foldR (\<lambda>i bad. bindR (of_opt (bt_get mine i)) (\<lambda>s.
     bindR (verifies i s) (\<lambda>ok. Ok (if ok then bad else bad @ [i])))) ids []"

definition revealed_verifies :: "('f::field, 'g::ab_group_add, 'r) k256 \<Rightarrow> 'g dkg_bcast2 btree \<Rightarrow> party_id \<Rightarrow> party_id \<Rightarrow> 'f
    \<Rightarrow> bool result" where
  "revealed_verifies E r2 d a s = bindR (of_opt (bt_get r2 d)) (\<lambda>b2. Ok (verify_share E (b2_com b2) a s))"

definition vss_defense :: "cheat option \<Rightarrow> ('f::field, 'g) dkg_instance \<Rightarrow> party_id \<Rightarrow> 'f result" where
  \<comment> \<open>what was dealt, also by a cheat\<close>
  "vss_defense cheat inst a = Ok (case cheat of
       Some (Bad_Deal v) \<Rightarrow> if v = a then dkg_defend inst a + 1 else dkg_defend inst a
     | _ \<Rightarrow> dkg_defend inst a)"

definition vss_output :: "party_id \<Rightarrow> party_id list \<Rightarrow> 'f::field btree \<Rightarrow> 'g::ab_group_add dkg_bcast2 btree
    \<Rightarrow> ('f, 'g) key_share result" where
  "vss_output me ids mine r2 =
     bindR (foldR (\<lambda>i (acc, coms). bindR (of_opt (bt_get mine i)) (\<lambda>s. bindR (of_opt (bt_get r2 i)) (\<lambda>b2.
       Ok (acc + s, coms @ [b2_com b2])))) ids (0, [])) (\<lambda>(share_sum, coms).
     bindR (com_sum coms) (\<lambda>com. Ok \<lparr>o_index = me, o_share = share_sum, o_com = com\<rparr>))"

definition joint_vss_run :: "('f::field, 'g::ab_group_add, 's, 'sk, 'vk, 'r) node_env \<Rightarrow> bytes \<Rightarrow> bytes \<Rightarrow> phase \<Rightarrow> party_id list
    \<Rightarrow> cheat option \<Rightarrow> ('f, 'g, 's, 'sk, 'vk, 'r, ('f, 'g) key_share) node_driver" where
  "joint_vss_run N sid tag ph ids cheat =
     (let E = ne_k256 N; t = p_t (ne_params N); n = length ids in
     bindS (ask ns_me) (\<lambda>me.
     bindS (liftR (committee_new ids t)) (\<lambda>c.
     bindS (on_rng (dkg_start_committee E c sid tag me)) (\<lambda>(inst, b1).
     bindS (vss_deal N sid ph cheat inst b1) (\<lambda>_.
     bindS (accepted_broadcasts_over N sid ph VSS_ROUND_COMMIT ids) (\<lambda>r1_envs.
     bindS (accepted_broadcasts_over N sid ph VSS_ROUND_REVEAL ids) (\<lambda>r2_envs.
     bindS (accepted_p2p_over N sid ph VSS_ROUND_REVEAL ids) (\<lambda>share_envs.
     bindS (liftR (require_complete (length r1_envs = n \<and> length r2_envs = n \<and> length share_envs = n))) (\<lambda>_.
     bindS (liftR (vss_messages ph me r1_envs r2_envs share_envs)) (\<lambda>(r1, r2, mine).
     bindS (liftR (check_reveals E sid tag ph t ids r1 r2)) (\<lambda>_.
     bindS (liftR (failed_shares (\<lambda>i. revealed_verifies E r2 i me) ids mine)) (\<lambda>failed.
     let complaints = accuse cheat failed in
     bindS (on_error (\<lambda>e. record_abort e (dealt_share_evidence E e complaints share_envs r2))
       (complaint_round N sid ph (VSS_ROUND_COMPLAIN, VSS_ROUND_DEFEND) ids complaints (vss_defense cheat inst)
         (revealed_verifies E r2))) (\<lambda>_.
     liftR (vss_output me ids mine r2))))))))))))))"

definition joint_vss_over :: "('f::field, 'g::ab_group_add, 's, 'sk, 'vk, 'r) node_env \<Rightarrow> bytes \<Rightarrow> bytes \<Rightarrow> phase \<Rightarrow> party_id list
    \<Rightarrow> cheat option \<Rightarrow> ('f, 'g, 's, 'sk, 'vk, 'r, ('f, 'g) key_share) node_driver" where
  "joint_vss_over N sid tag ph ids cheat = retiring sid (joint_vss_run N sid tag ph ids cheat)"

definition joint_vss :: "('f::field, 'g::ab_group_add, 's, 'sk, 'vk, 'r) node_env \<Rightarrow> bytes \<Rightarrow> bytes \<Rightarrow> phase \<Rightarrow> cheat option
    \<Rightarrow> ('f, 'g, 's, 'sk, 'vk, 'r, ('f, 'g) key_share) node_driver" where
  "joint_vss N sid tag ph cheat = joint_vss_over N sid tag ph (parties (ne_params N)) cheat"

definition node_keygen :: "('f::field, 'g::ab_group_add, 's, 'sk, 'vk, 'r) node_env \<Rightarrow> bytes \<Rightarrow> bytes \<Rightarrow> cheat option
    \<Rightarrow> ('f, 'g, 's, 'sk, 'vk, 'r, ('f, 'g) key_share) node_driver" where
  "node_keygen N sid tag cheat = joint_vss N sid tag KeyGen cheat"

section \<open>The complaint subprotocol decides from what was said\<close>

definition check_complaints :: "phase \<Rightarrow> (party_id \<times> ('f, 'g, 's) node_payload) list \<Rightarrow> unit result" where
  \<comment> \<open>the first sender whose broadcast is no list of complaints\<close>
  "check_complaints ph cs = foldR (\<lambda>(a, p) _. case p of Complaints _ \<Rightarrow> Ok () | _ \<Rightarrow> abort ph [a] ''malformed complaint broadcast'') cs ()"

definition verdict_of :: "('a \<Rightarrow> 'b) \<Rightarrow> 'a result \<Rightarrow> 'b result" where
  "verdict_of f r = bindR r (\<lambda>a. Ok (f a))"

lemma verdict_of_simps [simp]: "verdict_of f (Ok a) = Ok (f a)" "verdict_of f (Err e) = Err e" "verdict_of f Panic = Panic"
  by (simp_all add: verdict_of_def)

lemma defenses_due_check:
  assumes "\<And>a. \<exists>s. defense_for a = Ok s"
  shows "verdict_of (\<lambda>_. ()) (defenses_due ph me defense_for cs) = check_complaints ph (said cs)"
proof -
  have "verdict_of (\<lambda>_. ()) (foldR (\<lambda>(a, se) defs. case e_payload (se_envelope se) of
       Complaints ds \<Rightarrow> if me \<in> set ds then bindR (defense_for a) (\<lambda>s. Ok (defs @ [(a, s)])) else Ok defs
     | _ \<Rightarrow> abort ph [a] ''malformed complaint broadcast'') cs acc) = check_complaints ph (said cs)" for acc
  proof (induction cs arbitrary: acc)
    case Nil
    then show ?case by (simp add: check_complaints_def said_def)
  next
    case (Cons x cs)
    obtain a se where x: "x = (a, se)" by (cases x)
    obtain s where s: "defense_for a = Ok s" using assms by blast
    show ?case
    proof (cases "e_payload (se_envelope se)")
      case (Complaints ds)
      then show ?thesis using Cons.IH s x by (simp add: check_complaints_def said_def)
    qed (use x in \<open>simp_all add: check_complaints_def said_def abort_def\<close>)
  qed
  from this [of "[]"] show ?thesis unfolding defenses_due_def .
qed

lemma bt_get_said: "map_option (\<lambda>se. e_payload (se_envelope se)) (bt_get envs i) = map_of (said envs) i"
  by (induction envs) (auto simp: said_def)

lemma first_complaint_said:
  assumes "said cs = said cs'"
  shows "first_complaint ph cs = first_complaint ph cs'"
  using assms
proof (induction ph cs arbitrary: cs' rule: first_complaint.induct)
  case (1 ph)
  then show ?case by (simp add: said_def)
next
  case (2 ph a se cs)
  then obtain b se' cs'' where c: "cs' = (b, se') # cs''" "a = b" "e_payload (se_envelope se) = e_payload (se_envelope se')" "said cs = said cs''"
    by (auto simp: said_def Cons_eq_map_conv split: prod.splits)
  show ?case
  proof (cases "e_payload (se_envelope se')")
    case (Complaints ds)
    then show ?thesis using c 2(1) [of ds cs''] by simp
  qed (use c in simp_all)
qed

lemma adjudicate_said:
  fixes cs ds :: "('f, 'g, 's) node_envelope btree"
  assumes "said cs = said cs'" "said ds = said ds'"
  shows "adjudicate ph verifies cs ds = adjudicate ph verifies cs' ds'"
proof -
  let ?pay = "\<lambda>se. e_payload (se_envelope se)"
  have get: "bindR (of_opt x) (\<lambda>se. F (?pay se)) = bindR (of_opt (map_option ?pay x)) F"
    for x :: "('f, 'g, 's) node_envelope option" and F :: "('f, 'g, 's) node_payload \<Rightarrow> unit result"
    by (cases x) (simp_all add: of_opt_def)
  have "bindR (of_opt (bt_get ds d)) (\<lambda>se. F (?pay se)) = bindR (of_opt (bt_get ds' d)) (\<lambda>se. F (?pay se))"
    for d and F :: "('f, 'g, 's) node_payload \<Rightarrow> unit result"
    unfolding get bt_get_said assms(2) ..
  then show ?thesis unfolding adjudicate_def first_complaint_said [OF assms(1)] by simp
qed

section \<open>A run over broadcasts without equivocation\<close>

definition speaks :: "bytes \<Rightarrow> phase \<Rightarrow> (byte \<Rightarrow> party_id \<Rightarrow> ('f, 'g, 's) node_payload) \<Rightarrow> ('f, 'g, 's) node_envelope \<Rightarrow> bool" where
  \<comment> \<open>in this session every sender broadcasts one value a round, and its shares are share messages to their receiver\<close>
  "speaks sid ph val se \<longleftrightarrow> (let e = se_envelope se in e_sid e = sid \<longrightarrow> e_phase e = ph \<longrightarrow> (case e_to e of
       None \<Rightarrow> e_payload e = val (e_round e) (e_from e)
     | Some to \<Rightarrow> e_round e = VSS_ROUND_REVEAL \<longrightarrow> share_in to (e_from e) (e_payload e) \<noteq> None))"

lemma bindS_eq: "bindS m f st = (case m st of (Ok a, st1) \<Rightarrow> f a st1 | (Err e, st1) \<Rightarrow> (Err e, st1) | (Panic, st1) \<Rightarrow> (Panic, st1))"
  by (simp add: bindS_def)

lemma bindS_step: "m st = (Ok a, st1) \<Longrightarrow> bindS m f st = f a st1"
  by (simp add: bindS_def)

lemma bindS_lift_case: "bindS (liftR r) f st = (case r of Ok a \<Rightarrow> f a st | Err e \<Rightarrow> (Err e, st) | Panic \<Rightarrow> (Panic, st))"
  by (simp add: bindS_def liftR_def split: res.split)

lemma bindS_ask [simp]: "bindS (ask f) g st = g (f st) st"
  by (simp add: bindS_def ask_def)

lemma bindS_require: "bindS (liftR (require_complete b)) f st = (if b then f () st else (incomplete, st))"
  by (simp add: bindS_lift_case require_complete_def incomplete_def)

lemma broadcast_round:
  assumes "heard (speaks sid ph val) st" "distinct ids"
    and "bindS (accepted_broadcasts_over N sid ph round ids) f st = (r, st')"
  obtains envs st1 where "round_of sid ph round ids envs" "length envs = length ids \<longrightarrow> said envs = says val round ids"
    "heard (speaks sid ph val) st1" "ns_me st1 = ns_me st" "f envs st1 = (r, st')"
proof -
  obtain q st1 where a: "accepted_broadcasts_over N sid ph round ids st = (q, st1)" by fastforce
  obtain envs where e: "q = Ok envs" "round_of sid ph round ids envs" "\<forall>(i, se) \<in> set envs. speaks sid ph val se"
    "heard (speaks sid ph val) st1" "ns_me st1 = ns_me st"
    by (rule accepted_broadcasts_heard [OF assms(1) a])
  have "e_payload (se_envelope se) = val round i" if "(i, se) \<in> set envs" for i se
    using e(2,3) that by (fastforce simp: round_of_def speaks_def slot_of_def Let_def)
  then have s: "said envs = says val round ids" if "length envs = length ids"
    by (intro said_says [OF e(2) that assms(2)]) auto
  have "f envs st1 = (r, st')" using assms(3) a e(1) by (simp add: bindS_eq)
  then show ?thesis using that [OF e(2) _ e(4,5)] s by presburger
qed

lemma broadcast_step:
  assumes "heard P st" "bindS (node_broadcast N sid ph round payload) f st = (r, st')"
  obtains st1 where "heard P st1" "ns_me st1 = ns_me st" "f () st1 = (r, st')"
proof -
  obtain q st1 where a: "node_broadcast N sid ph round payload st = (q, st1)" by fastforce
  note b = heard_broadcast [OF assms(1) a]
  then have "f () st1 = (r, st')" using assms(2) a by (simp add: bindS_eq)
  with b show ?thesis by (intro that) simp_all
qed

lemma complaint_round_result:
  assumes h: "heard (speaks sid ph val) st" and d: "distinct ids" and df: "\<And>a. \<exists>s. defense_for a = Ok s"
    and run: "complaint_round N sid ph (rc, rd) ids complaints defense_for verifies st = (res, st')"
  shows "res = incomplete \<or> (\<exists>e. check_complaints ph (says val rc ids) = Err e \<and> res = Err e)
    \<or> check_complaints ph (says val rc ids) = Panic \<and> res = Panic
    \<or> check_complaints ph (says val rc ids) = Ok () \<and> (\<exists>cs ds. said cs = says val rc ids \<and> said ds = says val rd ids
        \<and> res = adjudicate ph verifies cs ds)"
proof -
  note run [unfolded complaint_round_def fst_conv snd_conv]
  then obtain st1 where h1: "heard (speaks sid ph val) st1" and run1:
    "bindS (accepted_broadcasts_over N sid ph rc ids) (\<lambda>complaint_sets.
     bindS (liftR (require_complete (length complaint_sets = length ids))) (\<lambda>_.
     bindS (ask ns_me) (\<lambda>me.
     bindS (liftR (defenses_due ph me defense_for complaint_sets)) (\<lambda>defs.
     bindS (node_broadcast N sid ph rd (Defenses defs)) (\<lambda>_.
     bindS (accepted_broadcasts_over N sid ph rd ids) (\<lambda>defense_sets.
     bindS (liftR (require_complete (length defense_sets = length ids))) (\<lambda>_.
     liftR (adjudicate ph verifies complaint_sets defense_sets)))))))) st1 = (res, st')"
    by (rule broadcast_step [OF h])
  from broadcast_round [OF h1 d run1] obtain cs st2 where cs: "length cs = length ids \<longrightarrow> said cs = says val rc ids"
    and h2: "heard (speaks sid ph val) st2" and run2:
    "bindS (liftR (require_complete (length cs = length ids))) (\<lambda>_.
     bindS (ask ns_me) (\<lambda>me.
     bindS (liftR (defenses_due ph me defense_for cs)) (\<lambda>defs.
     bindS (node_broadcast N sid ph rd (Defenses defs)) (\<lambda>_.
     bindS (accepted_broadcasts_over N sid ph rd ids) (\<lambda>defense_sets.
     bindS (liftR (require_complete (length defense_sets = length ids))) (\<lambda>_.
     liftR (adjudicate ph verifies cs defense_sets))))))) st2 = (res, st')"
    by blast
  show ?thesis
  proof (cases "length cs = length ids")
    case False
    then show ?thesis using run2 by (simp add: bindS_require)
  next
    case True
    note said_cs = cs [rule_format, OF True]
    note check = defenses_due_check [where defense_for = defense_for and ph = ph and me = "ns_me st2" and cs = cs, OF df, unfolded said_cs]
    show ?thesis
    proof (cases "defenses_due ph (ns_me st2) defense_for cs")
      case (Ok defs)
      with run2 True have run3: "bindS (node_broadcast N sid ph rd (Defenses defs)) (\<lambda>_.
         bindS (accepted_broadcasts_over N sid ph rd ids) (\<lambda>defense_sets.
         bindS (liftR (require_complete (length defense_sets = length ids))) (\<lambda>_.
         liftR (adjudicate ph verifies cs defense_sets)))) st2 = (res, st')"
        by (simp add: bindS_lift_case require_complete_def)
      obtain st3 where h3: "heard (speaks sid ph val) st3" and run4:
        "bindS (accepted_broadcasts_over N sid ph rd ids) (\<lambda>defense_sets.
         bindS (liftR (require_complete (length defense_sets = length ids))) (\<lambda>_.
         liftR (adjudicate ph verifies cs defense_sets))) st3 = (res, st')"
        by (rule broadcast_step [OF h2 run3])
      from broadcast_round [OF h3 d run4] obtain ds st4 where ds: "length ds = length ids \<longrightarrow> said ds = says val rd ids"
        and run5: "bindS (liftR (require_complete (length ds = length ids))) (\<lambda>_. liftR (adjudicate ph verifies cs ds)) st4 = (res, st')"
        by blast
      show ?thesis
      proof (cases "length ds = length ids")
        case False
        then show ?thesis using run5 by (simp add: bindS_require)
      next
        case True
        then have "res = adjudicate ph verifies cs ds" using run5 by (simp add: bindS_lift_case require_complete_def liftR_def)
        then show ?thesis using said_cs ds [rule_format, OF True] check Ok by auto
      qed
    next
      case (Err e)
      have "check_complaints ph (says val rc ids) = Err e" using check Err by simp
      moreover have "res = Err e" using run2 True Err by (simp add: bindS_lift_case require_complete_def)
      ultimately show ?thesis by simp
    next
      case Panic
      have "check_complaints ph (says val rc ids) = Panic" using check Panic by simp
      moreover have "res = Panic" using run2 True Panic by (simp add: bindS_lift_case require_complete_def)
      ultimately show ?thesis by simp
    qed
  qed
qed

definition vss_opening :: "('f, 'g, 'r) k256 \<Rightarrow> bytes \<Rightarrow> bytes \<Rightarrow> phase \<Rightarrow> nat \<Rightarrow> party_id list
    \<Rightarrow> (byte \<Rightarrow> party_id \<Rightarrow> ('f, 'g, 's) node_payload) \<Rightarrow> 'g dkg_bcast2 btree result" where
  \<comment> \<open>the reveals, once commitments and reveals are in\<close>
  "vss_opening E sid tag ph t ids val =
     bindR (pick_said ph ''malformed commit broadcast'' commit_in (says val VSS_ROUND_COMMIT ids)) (\<lambda>r1.
     bindR (pick_said ph ''malformed reveal broadcast'' reveal_in (says val VSS_ROUND_REVEAL ids)) (\<lambda>r2.
     bindR (check_reveals E sid tag ph t ids r1 r2) (\<lambda>_. Ok r2)))"

definition joint_com :: "'g::ab_group_add dkg_bcast2 btree \<Rightarrow> party_id list \<Rightarrow> 'g feldman result" where
  "joint_com r2 ids = com_sum (map (\<lambda>i. b2_com (the (bt_get r2 i))) ids)"

definition vss_outcome :: "('f::field, 'g::ab_group_add, 'r) k256 \<Rightarrow> bytes \<Rightarrow> bytes \<Rightarrow> phase \<Rightarrow> nat \<Rightarrow> party_id list
    \<Rightarrow> (byte \<Rightarrow> party_id \<Rightarrow> ('f, 'g, 's) node_payload) \<Rightarrow> 'g feldman result \<Rightarrow> bool" where
  \<comment> \<open>what a run can come to, given what every sender says\<close>
  "vss_outcome E sid tag ph t ids val v \<longleftrightarrow> v = (incomplete :: 'g feldman result) \<or>
     (case committee_new ids t of Err e \<Rightarrow> v = Err e | Panic \<Rightarrow> v = Panic | Ok _ \<Rightarrow>
     (case vss_opening E sid tag ph t ids val of Err e \<Rightarrow> v = Err e | Panic \<Rightarrow> v = Panic | Ok r2 \<Rightarrow>
     (case check_complaints ph (says val VSS_ROUND_COMPLAIN ids) of Err e \<Rightarrow> v = Err e | Panic \<Rightarrow> v = Panic | Ok _ \<Rightarrow>
       (\<exists>cs ds :: ('f, 'g, 's) node_envelope btree. said cs = says val VSS_ROUND_COMPLAIN ids \<and> said ds = says val VSS_ROUND_DEFEND ids
         \<and> v = bindR (adjudicate ph (revealed_verifies E r2) cs ds) (\<lambda>_. joint_com r2 ids)))))"

lemma vss_outcome_unique:
  assumes "vss_outcome E sid tag ph t ids val v" "vss_outcome E sid tag ph t ids val w" "v \<noteq> incomplete" "w \<noteq> incomplete"
  shows "v = w"
proof (cases "committee_new ids t")
  case (Ok c)
  show ?thesis
  proof (cases "vss_opening E sid tag ph t ids val")
    case (Ok r2)
    show ?thesis
    proof (cases "check_complaints ph (says val VSS_ROUND_COMPLAIN ids)")
      case (Ok u)
      note ok = \<open>committee_new ids t = Ok c\<close> \<open>vss_opening E sid tag ph t ids val = Ok r2\<close> Ok
      from assms(1,3) obtain cs ds where 1: "said cs = says val VSS_ROUND_COMPLAIN ids" "said ds = says val VSS_ROUND_DEFEND ids"
        "v = bindR (adjudicate ph (revealed_verifies E r2) cs ds) (\<lambda>_. joint_com r2 ids)"
        unfolding vss_outcome_def by (auto simp: ok)
      from assms(2,4) obtain cs' ds' where 2: "said cs' = says val VSS_ROUND_COMPLAIN ids" "said ds' = says val VSS_ROUND_DEFEND ids"
        "w = bindR (adjudicate ph (revealed_verifies E r2) cs' ds') (\<lambda>_. joint_com r2 ids)"
        unfolding vss_outcome_def by (auto simp: ok)
      have "adjudicate ph (revealed_verifies E r2) cs ds = adjudicate ph (revealed_verifies E r2) cs' ds'"
        by (rule adjudicate_said) (simp_all add: 1(1,2) 2(1,2))
      then show ?thesis using 1(3) 2(3) by simp
    qed (use assms \<open>committee_new ids t = Ok c\<close> \<open>vss_opening E sid tag ph t ids val = Ok r2\<close> in \<open>simp_all add: vss_outcome_def\<close>)
  qed (use assms \<open>committee_new ids t = Ok c\<close> in \<open>simp_all add: vss_outcome_def\<close>)
qed (use assms in \<open>simp_all add: vss_outcome_def\<close>)

lemma vss_deal_heard:
  assumes h: "heard (speaks sid ph val) st" and inst: "di_me inst = ns_me st" "\<not> di_bad_reveal inst"
    and run: "vss_deal N sid ph cheat inst b1 st = (r, st')"
  shows "heard (speaks sid ph val) st' \<and> ns_me st' = ns_me st \<and> r = Ok ()"
proof -
  let ?shares = "map (\<lambda>j. \<lparr>pp_from = di_me inst, pp_to = j, pp_share = share_for inst j\<rparr>) (c_ids (di_committee inst))"
  have reveal: "dkg_reveal (ne_k256 N) inst = Ok (\<lparr>b2_from = di_me inst, b2_com = di_com inst\<rparr>, ?shares)"
    using inst(2) by (simp add: dkg_reveal_def)
  have froms: "\<forall>s \<in> set (bad_deal_shares cheat ?shares). pp_from s = ns_me st"
    using inst(1) by (auto simp: bad_deal_shares_def split: option.split cheat.split)
  have sends: "heard (speaks sid ph val) st2 \<and> ns_me st2 = ns_me st \<and> (\<exists>us. q = Ok us)"
    if "heard (speaks sid ph val) st1" "ns_me st1 = ns_me st" "\<forall>s \<in> set ss. pp_from s = ns_me st"
      "mapS (\<lambda>s. node_send_p2p N sid ph VSS_ROUND_REVEAL (pp_to s) (Dkg (Share s))) ss st1 = (q, st2)" for ss st1 st2 q
    using that
  proof (induction ss arbitrary: st1 st2 q)
    case Nil
    then show ?case by (auto simp: retS_def)
  next
    case (Cons s ss)
    obtain q1 st3 where s: "node_send_p2p N sid ph VSS_ROUND_REVEAL (pp_to s) (Dkg (Share s)) st1 = (q1, st3)" by fastforce
    have "speaks sid ph val (node_sign_envelope N (envelope_p2p sid ph VSS_ROUND_REVEAL (ns_me st1) (pp_to s) (Dkg (Share s))) st1)"
      using Cons.prems(2,3) by (simp add: speaks_def node_sign_envelope_def signed_sign_def envelope_p2p_def share_in_def)
    note b = heard_send_p2p [OF Cons.prems(1) s this]
    obtain q2 st4 where ss: "mapS (\<lambda>s. node_send_p2p N sid ph VSS_ROUND_REVEAL (pp_to s) (Dkg (Share s))) ss st3 = (q2, st4)" by fastforce
    have c: "heard (speaks sid ph val) st4 \<and> ns_me st4 = ns_me st \<and> (\<exists>us. q2 = Ok us)"
      using Cons.IH [OF _ _ _ ss] b Cons.prems(2,3) by simp
    then show ?case using Cons.prems(4) s ss b by (auto simp: bindS_eq retS_def)
  qed
  note run [unfolded vss_deal_def]
  then obtain st1 where 1: "heard (speaks sid ph val) st1" "ns_me st1 = ns_me st"
    and run1: "bindS (liftR (dkg_reveal (ne_k256 N) inst)) (\<lambda>(b2, shares).
     bindS (node_broadcast N sid ph VSS_ROUND_REVEAL (Dkg (Reveal b2))) (\<lambda>_.
     bindS (mapS (\<lambda>s. node_send_p2p N sid ph VSS_ROUND_REVEAL (pp_to s) (Dkg (Share s))) (bad_deal_shares cheat shares)) (\<lambda>_.
     retS ()))) st1 = (r, st')"
    by (rule broadcast_step [OF h])
  then have "bindS (node_broadcast N sid ph VSS_ROUND_REVEAL (Dkg (Reveal \<lparr>b2_from = di_me inst, b2_com = di_com inst\<rparr>))) (\<lambda>_.
     bindS (mapS (\<lambda>s. node_send_p2p N sid ph VSS_ROUND_REVEAL (pp_to s) (Dkg (Share s))) (bad_deal_shares cheat ?shares)) (\<lambda>_.
     retS ())) st1 = (r, st')"
    by (simp add: bindS_lift_case reveal)
  then obtain st2 where 2: "heard (speaks sid ph val) st2" "ns_me st2 = ns_me st1" and run2:
    "bindS (mapS (\<lambda>s. node_send_p2p N sid ph VSS_ROUND_REVEAL (pp_to s) (Dkg (Share s))) (bad_deal_shares cheat ?shares)) (\<lambda>_.
     retS ()) st2 = (r, st')"
    by (rule broadcast_step [OF 1(1)])
  obtain q st3 where m: "mapS (\<lambda>s. node_send_p2p N sid ph VSS_ROUND_REVEAL (pp_to s) (Dkg (Share s))) (bad_deal_shares cheat ?shares) st2 = (q, st3)"
    by fastforce
  from sends [OF 2(1) _ froms m] 1(2) 2(2) run2 m show ?thesis by (auto simp: bindS_eq retS_def)
qed

lemma foldR_checks: "foldR (\<lambda>i _. f i) ids () = Ok () \<longleftrightarrow> (\<forall>i \<in> set ids. f i = Ok ())"
proof (induction ids)
  case (Cons i ids)
  then show ?case by (cases "f i") auto
qed simp

lemma failed_shares_total:
  assumes "\<And>i. i \<in> set ids \<Longrightarrow> \<exists>s b. bt_get mine i = Some s \<and> verifies i s = Ok b"
  shows "\<exists>l. failed_shares verifies ids mine = Ok l"
proof -
  have "\<exists>l. foldR (\<lambda>i bad. bindR (of_opt (bt_get mine i)) (\<lambda>s. bindR (verifies i s) (\<lambda>ok. Ok (if ok then bad else bad @ [i])))) ids acc = Ok l"
    for acc
    using assms
  proof (induction ids arbitrary: acc)
    case (Cons i ids)
    then obtain s b where "bt_get mine i = Some s" "verifies i s = Ok b" by force
    then show ?case using Cons.IH [of "if b then acc else acc @ [i]"] Cons.prems by (simp add: of_opt_def)
  qed simp
  then show ?thesis unfolding failed_shares_def .
qed

lemma vss_output_com:
  assumes "\<And>i. i \<in> set ids \<Longrightarrow> bt_get mine i \<noteq> None \<and> bt_get r2 i \<noteq> None"
  shows "verdict_of o_com (vss_output me ids mine r2) = joint_com r2 ids"
proof -
  let ?step = "\<lambda>i (acc, coms). bindR (of_opt (bt_get mine i)) (\<lambda>s. bindR (of_opt (bt_get r2 i)) (\<lambda>b2. (Ok (acc + s, coms @ [b2_com b2]) :: _ result)))"
  have "\<exists>x. foldR ?step ids (acc, coms) = Ok (x, coms @ map (\<lambda>i. b2_com (the (bt_get r2 i))) ids)" for acc coms
    using assms
  proof (induction ids arbitrary: acc coms)
    case (Cons i ids)
    then obtain s b2 where "bt_get mine i = Some s" "bt_get r2 i = Some b2" by fastforce
    then show ?case using Cons.IH [of "acc + s" "coms @ [b2_com b2]"] Cons.prems by (simp add: of_opt_def)
  qed simp
  from this [of 0 "[]"] obtain x where "foldR ?step ids (0, []) = Ok (x, map (\<lambda>i. b2_com (the (bt_get r2 i))) ids)" by auto
  then show ?thesis
    by (cases "com_sum (map (\<lambda>i. b2_com (the (bt_get r2 i))) ids)") (simp_all add: vss_output_def joint_com_def)
qed

lemma committee_new_distinct:
  assumes "committee_new ids t = Ok c"
  shows "distinct ids"
proof -
  have "\<not> dup_window (sort ids)"
    using assms by (auto simp: committee_new_def Let_def bindR_Ok_iff split: if_splits)
  then show ?thesis using dup_window_iff [of "sort ids"] by simp
qed

text \<open>
  Whatever arrives, in whatever order and however the threads interleave: a run comes to the outcome that the
  broadcasts determine, or it times out.
\<close>

lemma joint_vss_run_outcome:
  fixes N :: "('f::field, 'g::ab_group_add, 's, 'sk, 'vk, 'r) node_env"
  assumes h: "heard (speaks sid ph val) st" and run: "joint_vss_run N sid tag ph ids cheat st = (res, st')"
  shows "vss_outcome (ne_k256 N) sid tag ph (p_t (ne_params N)) ids val (verdict_of o_com res)"
proof (cases "committee_new ids (p_t (ne_params N))")
  case (Ok c)
  let ?E = "ne_k256 N" and ?t = "p_t (ne_params N)" and ?P = "speaks sid ph val" and ?n = "length ids"
  note d = committee_new_distinct [OF Ok]
  obtain inst b1 r where start: "dkg_start_committee ?E c sid tag (ns_me st) (ns_rng st) = ((inst, b1), r)"
    by (metis surj_pair)
  then have inst: "di_me inst = ns_me st" "\<not> di_bad_reveal inst"
    by (auto simp: dkg_start_committee_def dkg_start_with_secret_def Let_def split: prod.splits)
  define st1 where "st1 = st\<lparr>ns_rng := r\<rparr>"
  have h1: "heard ?P st1" "ns_me st1 = ns_me st" using h by (simp_all add: st1_def heard_def ns_me_def)
  obtain q st2 where deal: "vss_deal N sid ph cheat inst b1 st1 = (q, st2)" by fastforce
  note h2 = vss_deal_heard [OF h1(1) _ inst(2) deal, unfolded h1(2), OF inst(1)]
  let ?R = "\<lambda>me r1_envs r2_envs share_envs.
     bindS (liftR (require_complete (length r1_envs = ?n \<and> length r2_envs = ?n \<and> length share_envs = ?n))) (\<lambda>_.
     bindS (liftR (vss_messages ph me r1_envs r2_envs share_envs)) (\<lambda>(r1, r2, mine).
     bindS (liftR (check_reveals ?E sid tag ph ?t ids r1 r2)) (\<lambda>_.
     bindS (liftR (failed_shares (\<lambda>i. revealed_verifies ?E r2 i me) ids mine)) (\<lambda>failed.
     bindS (on_error (\<lambda>e. record_abort e (dealt_share_evidence ?E e (accuse cheat failed) share_envs r2))
       (complaint_round N sid ph (VSS_ROUND_COMPLAIN, VSS_ROUND_DEFEND) ids (accuse cheat failed) (vss_defense cheat inst)
         (revealed_verifies ?E r2))) (\<lambda>_.
     liftR (vss_output me ids mine r2))))))"
  have "bindS (accepted_broadcasts_over N sid ph VSS_ROUND_COMMIT ids) (\<lambda>r1_envs.
     bindS (accepted_broadcasts_over N sid ph VSS_ROUND_REVEAL ids) (\<lambda>r2_envs.
     bindS (accepted_p2p_over N sid ph VSS_ROUND_REVEAL ids) (\<lambda>share_envs. ?R (ns_me st) r1_envs r2_envs share_envs))) st2 = (res, st')"
    using run deal h2 start
    by (simp add: joint_vss_run_def Let_def bindS_lift_case Ok) (simp add: bindS_eq on_rng_def st1_def)
  then obtain r1_envs st3 where "round_of sid ph VSS_ROUND_COMMIT ids r1_envs" and r1: "length r1_envs = ?n \<longrightarrow> said r1_envs = says val VSS_ROUND_COMMIT ids"
    and h3: "heard ?P st3" "ns_me st3 = ns_me st2"
    and run3: "bindS (accepted_broadcasts_over N sid ph VSS_ROUND_REVEAL ids) (\<lambda>r2_envs.
     bindS (accepted_p2p_over N sid ph VSS_ROUND_REVEAL ids) (\<lambda>share_envs. ?R (ns_me st) r1_envs r2_envs share_envs)) st3 = (res, st')"
    by (rule broadcast_round [OF conjunct1 [OF h2] d])
  from run3 obtain r2_envs st4 where "round_of sid ph VSS_ROUND_REVEAL ids r2_envs" and r2: "length r2_envs = ?n \<longrightarrow> said r2_envs = says val VSS_ROUND_REVEAL ids"
    and h4: "heard ?P st4" "ns_me st4 = ns_me st3"
    and run4: "bindS (accepted_p2p_over N sid ph VSS_ROUND_REVEAL ids) (\<lambda>share_envs. ?R (ns_me st) r1_envs r2_envs share_envs) st4 = (res, st')"
    by (rule broadcast_round [OF h3(1) d])
  have me4: "ns_me st4 = ns_me st" using h4(2) h3(2) h2 by simp
  obtain q4 st5 where a: "accepted_p2p_over N sid ph VSS_ROUND_REVEAL ids st4 = (q4, st5)" by fastforce
  obtain share_envs where s: "q4 = Ok share_envs" "letters_of sid ph VSS_ROUND_REVEAL (ns_me st4) ids share_envs"
    "\<forall>(i, se) \<in> set share_envs. ?P se" "heard ?P st5" "ns_me st5 = ns_me st4"
    by (rule accepted_p2p_heard [OF h4(1) a])
  have run5: "?R (ns_me st) r1_envs r2_envs share_envs st5 = (res, st')" using run4 a s(1) by (simp add: bindS_eq)
  show ?thesis
  proof (cases "length r1_envs = ?n \<and> length r2_envs = ?n \<and> length share_envs = ?n")
    case False
    have "(incomplete, st5) = (res, st')" using run5 unfolding bindS_require if_not_P [OF False] .
    then show ?thesis by (auto simp: vss_outcome_def incomplete_def)
  next
    case True
    have "share_in (ns_me st) i p \<noteq> None" if "(i, p) \<in> set (said share_envs)" for i p
      using that s(2,3) me4 by (fastforce simp: said_def letters_of_def speaks_def slot_of_def Let_def)
    then obtain mine where mine: "pick_all ph ''malformed share envelope'' (share_in (ns_me st)) share_envs = Ok mine"
      "\<forall>i. bt_get mine i \<noteq> None \<longleftrightarrow> i \<in> fst ` set share_envs"
      using pick_all_ok by blast
    have "map fst share_envs = sort ids"
      using s(2) True by (intro complete_round d) (auto simp: letters_of_def)
    then have mine_all: "bt_get mine i \<noteq> None" if "i \<in> set ids" for i
      using mine(2) that by (metis set_map set_sort)
    have run6: "bindS (liftR (vss_messages ph (ns_me st) r1_envs r2_envs share_envs)) (\<lambda>(r1, r2, mine).
     bindS (liftR (check_reveals ?E sid tag ph ?t ids r1 r2)) (\<lambda>_.
     bindS (liftR (failed_shares (\<lambda>i. revealed_verifies ?E r2 i (ns_me st)) ids mine)) (\<lambda>failed.
     bindS (on_error (\<lambda>e. record_abort e (dealt_share_evidence ?E e (accuse cheat failed) share_envs r2))
       (complaint_round N sid ph (VSS_ROUND_COMPLAIN, VSS_ROUND_DEFEND) ids (accuse cheat failed) (vss_defense cheat inst)
         (revealed_verifies ?E r2))) (\<lambda>_.
     liftR (vss_output (ns_me st) ids mine r2))))) st5 = (res, st')"
      using run5 True by (simp add: bindS_lift_case require_complete_def)
    let ?PC = "pick_said ph ''malformed commit broadcast'' commit_in (says val VSS_ROUND_COMMIT ids)"
      and ?PR = "pick_said ph ''malformed reveal broadcast'' reveal_in (says val VSS_ROUND_REVEAL ids)"
    have msgs: "vss_messages ph (ns_me st) r1_envs r2_envs share_envs = bindR ?PC (\<lambda>r1. bindR ?PR (\<lambda>r2. Ok (r1, r2, mine)))"
      using r1 r2 True mine(1) by (simp add: vss_messages_def pick_all_said [of ph _ commit_in] pick_all_said [of ph _ reveal_in])
    note out = vss_outcome_def Ok vss_opening_def
    show ?thesis
    proof (cases ?PC)
      case PC: (Ok b1s)
      show ?thesis
      proof (cases ?PR)
        case PR: (Ok b2s)
        show ?thesis
        proof (cases "check_reveals ?E sid tag ph ?t ids b1s b2s")
          case CR: (Ok u)
          then have "\<forall>i \<in> set ids. check_reveal ?E sid tag ph ?t b1s b2s i = Ok ()"
            by (simp add: check_reveals_def foldR_checks)
          then have b2s: "bt_get b2s i \<noteq> None" if "i \<in> set ids" for i
            using that by (auto simp: check_reveal_def of_opt_def split: option.splits)
          have "\<exists>s b. bt_get mine i = Some s \<and> revealed_verifies ?E b2s i (ns_me st) s = Ok b" if "i \<in> set ids" for i
            using mine_all [OF that] b2s [OF that] by (auto simp: revealed_verifies_def of_opt_def)
          then obtain failed where failed: "failed_shares (\<lambda>i. revealed_verifies ?E b2s i (ns_me st)) ids mine = Ok failed"
            using failed_shares_total [of ids mine "\<lambda>i. revealed_verifies ?E b2s i (ns_me st)"] by auto
          have opened: "vss_opening ?E sid tag ph ?t ids val = Ok b2s" using PC PR CR by (simp add: vss_opening_def)
          obtain q6 st6 where cr: "complaint_round N sid ph (VSS_ROUND_COMPLAIN, VSS_ROUND_DEFEND) ids (accuse cheat failed)
              (vss_defense cheat inst) (revealed_verifies ?E b2s) st5 = (q6, st6)" by fastforce
          have "\<exists>s. vss_defense cheat inst a = Ok s" for a by (simp add: vss_defense_def)
          note round = complaint_round_result [OF s(4) d this cr]
          have res: "verdict_of o_com res = bindR q6 (\<lambda>_. joint_com b2s ids)"
            using run6 msgs PC PR CR failed cr vss_output_com [of ids mine b2s "ns_me st"] mine_all b2s
            by (cases q6) (auto simp: bindS_lift_case bindS_eq on_error_def liftR_def)
          from round show ?thesis unfolding res vss_outcome_def by (elim disjE exE conjE) (simp_all add: Ok opened incomplete_def, blast)
        qed (use run6 msgs PC PR in \<open>auto simp: bindS_lift_case out\<close>)
      qed (use run6 msgs PC in \<open>auto simp: bindS_lift_case out\<close>)
    qed (use run6 msgs in \<open>auto simp: bindS_lift_case out\<close>)
  qed
qed (use run in \<open>auto simp: joint_vss_run_def Let_def bindS_lift_case vss_outcome_def\<close>)

text \<open>Nodes that hear the same broadcasts reach the same verdict and the same commitment, unless one times out.\<close>

lemma joint_vss_agree:
  fixes N :: "('f::field, 'g::ab_group_add, 's, 'sk, 'vk, 'r) node_env"
  assumes "heard (speaks sid ph val) st" "heard (speaks sid ph val) st'"
    and v: "v = verdict_of o_com (fst (joint_vss_run N sid tag ph ids cheat st))"
    and v': "v' = verdict_of o_com (fst (joint_vss_run N sid tag ph ids cheat' st'))"
  shows "v = v' \<or> v = incomplete \<or> v' = incomplete"
proof -
  have "vss_outcome (ne_k256 N) sid tag ph (p_t (ne_params N)) ids val v"
    unfolding v by (rule joint_vss_run_outcome [OF assms(1)]) (rule prod.collapse [symmetric])
  moreover have "vss_outcome (ne_k256 N) sid tag ph (p_t (ne_params N)) ids val v'"
    unfolding v' by (rule joint_vss_run_outcome [OF assms(2)]) (rule prod.collapse [symmetric])
  ultimately show ?thesis using vss_outcome_unique by blast
qed

section \<open>What a verdict can be\<close>

text \<open>A complaint that names no member of the committee stops every node: \<open>defense_sets[&d]\<close> panics.\<close>

lemma foreign_complaint_panics:
  assumes "first_complaint ph complaint_sets = Ok (Some (a, d))" "bt_get defense_sets d = None"
  shows "adjudicate ph verifies complaint_sets defense_sets = Panic"
  using assms by (simp add: adjudicate_def of_opt_def)

text \<open>
  A dealer that sends a wrong share and answers the complaint with the right one: the honest accuser is
  blamed. The share the node received fails the check, so it complains; the defence verifies.
\<close>

lemma honest_accuser_blamed:
  assumes com: "bt_get r2 d = Some b2" and right: "verify_share E (b2_com b2) a s"
    and wrong: "\<not> verify_share E (b2_com b2) a s'" and got: "bt_get mine d = Some s'" "d \<in> set ids"
    and failed: "failed_shares (\<lambda>i. revealed_verifies E r2 i a) ids mine = Ok failed"
    and complaint: "first_complaint ph complaint_sets = Ok (Some (a, d))"
    and defence: "bt_get defense_sets d = Some sd" "e_payload (se_envelope sd) = Defenses [(a, s)]"
  shows "d \<in> set failed \<and> (\<exists>detail. adjudicate ph (revealed_verifies E r2) complaint_sets defense_sets = abort ph [a] detail)"
proof -
  have "d \<in> set failed"
  proof -
    have "foldR (\<lambda>i bad. bindR (of_opt (bt_get mine i)) (\<lambda>s. bindR (revealed_verifies E r2 i a s) (\<lambda>ok. Ok (if ok then bad else bad @ [i])))) js acc = Ok l
        \<Longrightarrow> set acc \<subseteq> set l \<and> (d \<in> set js \<longrightarrow> d \<in> set l)" for js acc l
    proof (induction js arbitrary: acc)
      case (Cons j js)
      from Cons.prems obtain s1 ok where "bt_get mine j = Some s1" "revealed_verifies E r2 j a s1 = Ok ok"
        "foldR (\<lambda>i bad. bindR (of_opt (bt_get mine i)) (\<lambda>s. bindR (revealed_verifies E r2 i a s) (\<lambda>ok. Ok (if ok then bad else bad @ [i])))) js
          (if ok then acc else acc @ [j]) = Ok l"
        by (auto simp: bindR_Ok_iff of_opt_def split: option.splits)
      moreover have "\<not> ok" if "j = d"
        using that calculation(1,2) got(1) com wrong by (auto simp: revealed_verifies_def of_opt_def)
      ultimately show ?case using Cons.IH [of "if ok then acc else acc @ [j]"] by (auto split: if_splits)
    qed simp
    from this [of ids "[]" failed] failed got(2) show ?thesis by (simp add: failed_shares_def)
  qed
  then show ?thesis using complaint defence right com by (auto simp: adjudicate_def of_opt_def revealed_verifies_def)
qed

end
