(* ===== verification/Node_Triple.thy ===== *)
theory Node_Triple
  imports Node_Keygen
begin

text \<open>
  Beaver triples over the wire, as one node runs them (\<open>triple_run\<close> and \<open>triple_robust_run\<close> of
  \<open>node/src/party/party.rs\<close>): two joint random sharings, the re-sharing deal with its product proof, the checks, and
  either the complaint subprotocol or the public reconstruction of a dealer's polynomial.
\<close>

definition TR_ROUND_DEAL :: byte where "TR_ROUND_DEAL = 1"
definition TR_ROUND_COMPLAIN :: byte where "TR_ROUND_COMPLAIN = 2"
definition TR_ROUND_DEFEND :: byte where "TR_ROUND_DEFEND = 3"
definition TR_ROUND_RECON_REQ :: byte where "TR_ROUND_RECON_REQ = 4"
definition TR_ROUND_RECON_SUPPLY :: byte where "TR_ROUND_RECON_SUPPLY = 5"

record ('f, 'g, 's) triple_t2 =
  t2_deals :: "('f, 'g) triple_deal_msg btree"
  t2_mine :: "'f btree"
  t2_sent :: "'f btree"
  t2_resh_envs :: "('f, 'g, 's) node_envelope btree"

section \<open>T1 and T2\<close>

definition deal_in :: "party_id \<Rightarrow> ('f, 'g, 's) node_payload \<Rightarrow> ('f, 'g) triple_deal_msg option" where
  "deal_in f p = (case p of Triple_Deal d \<Rightarrow> Some d | _ \<Rightarrow> None)"

definition reshare_in :: "party_id \<Rightarrow> ('f, 'g, 's) node_payload \<Rightarrow> 'f option" where
  "reshare_in f p = (case p of Reshare s \<Rightarrow> Some s | _ \<Rightarrow> None)"

definition deal_message :: "('f::field, 'g::ab_group_add, 'r) k256 \<Rightarrow> bytes \<Rightarrow> party_id \<Rightarrow> cheat option
    \<Rightarrow> ('f, 'g) key_share \<Rightarrow> ('f, 'g) key_share \<Rightarrow> nat \<Rightarrow> 'r \<Rightarrow> (('f, 'g) triple_deal_msg \<times> 'f shamir_poly) \<times> 'r" where
  \<comment> \<open>the re-sharing of the local product, and its proof\<close>
  "deal_message E sid me cheat alpha beta t rng =
     (case shamir_random E (o_share alpha * o_share beta) t rng of (g, rng) \<Rightarrow>
      case dleq_prove E sid TRIPLE_PRODUCT (o_share alpha) (gen E) (com_eval_at E (o_com beta) me) rng of ((x1, x2, p), rng) \<Rightarrow>
        ((\<lparr>td_com = from_poly E g, td_x1 = x1, td_x2 = x2,
           td_proof = (if cheat = Some Bad_Product_Proof then p\<lparr>d_z := d_z p + 1\<rparr> else p)\<rparr>, g), rng))"

definition resharing :: "cheat option \<Rightarrow> 'f::field shamir_poly \<Rightarrow> party_id \<Rightarrow> 'f" where
  "resharing cheat g i = (case cheat of
       Some (Bad_Reshare v) \<Rightarrow> if v = i then shamir_eval g i + 1 else shamir_eval g i
     | _ \<Rightarrow> shamir_eval g i)"

definition triple_t1_t2 :: "('f::field, 'g::ab_group_add, 's, 'sk, 'vk, 'r) node_env \<Rightarrow> bytes \<Rightarrow> party_id list \<Rightarrow> cheat option
    \<Rightarrow> ('f, 'g, 's, 'sk, 'vk, 'r, ('f, 'g) key_share \<times> ('f, 'g) key_share \<times> ('f, 'g, 's) triple_t2) node_driver" where
  "triple_t1_t2 N sid ids cheat =
     (let E = ne_k256 N; t = p_t (ne_params N); n = length ids in
     bindS (ask ns_me) (\<lambda>me.
     bindS (joint_vss_over N (sid @ str_bytes ''/alpha'') DKG_COMMIT Triples ids None) (\<lambda>alpha.
     bindS (joint_vss_over N (sid @ str_bytes ''/beta'') DKG_COMMIT Triples ids None) (\<lambda>beta.
     bindS (on_rng (deal_message E sid me cheat alpha beta t)) (\<lambda>(deal, g).
     bindS (node_broadcast N sid Triples TR_ROUND_DEAL (Triple_Deal deal)) (\<lambda>_.
     bindS (mapS (\<lambda>i. node_send_p2p N sid Triples TR_ROUND_DEAL i (Reshare (resharing cheat g i))) ids) (\<lambda>_.
     bindS (accepted_broadcasts_over N sid Triples TR_ROUND_DEAL ids) (\<lambda>deal_envs.
     bindS (accepted_p2p_over N sid Triples TR_ROUND_DEAL ids) (\<lambda>resh_envs.
     bindS (liftR (require_complete (length deal_envs = n \<and> length resh_envs = n))) (\<lambda>_.
     bindS (liftR (pick_all Triples ''malformed triple deal broadcast'' deal_in deal_envs)) (\<lambda>deals.
     bindS (liftR (pick_all Triples ''malformed re-share envelope'' reshare_in resh_envs)) (\<lambda>mine.
     retS (alpha, beta, \<lparr>t2_deals = deals, t2_mine = mine,
       t2_sent = bt_of_list (map (\<lambda>i. (i, resharing cheat g i)) ids), t2_resh_envs = resh_envs\<rparr>)))))))))))))"

section \<open>T3\<close>

definition proof_holds :: "('f::field, 'g::ab_group_add, 'r) k256 \<Rightarrow> bytes \<Rightarrow> 'g feldman \<Rightarrow> 'g feldman \<Rightarrow> party_id
    \<Rightarrow> ('f, 'g) triple_deal_msg \<Rightarrow> bool result" where
  \<comment> \<open>\<open>points[0]\<close> of an empty vector panics\<close>
  "proof_holds E sid ca cb i d =
     (if td_x1 d \<noteq> com_eval_at E ca i then Ok False
      else bindR (of_opt (nth_opt (points (td_com d)) 0)) (\<lambda>c0.
        Ok (td_x2 d = c0 \<and> dleq_verify E sid TRIPLE_PRODUCT (gen E) (td_x1 d) (com_eval_at E cb i) (td_x2 d) (td_proof d))))"

definition check_proof :: "('f::field, 'g::ab_group_add, 'r) k256 \<Rightarrow> bytes \<Rightarrow> ('f, 'g) triple_deal_msg btree
    \<Rightarrow> 'g feldman \<Rightarrow> 'g feldman \<Rightarrow> party_id \<Rightarrow> unit result" where
  "check_proof E sid deals ca cb i = bindR (of_opt (bt_get deals i)) (\<lambda>d. bindR (proof_holds E sid ca cb i d) (\<lambda>ok.
     if ok then Ok () else abort Triples [i] ''invalid DLEQ product proof''))"

definition triple_check_proofs :: "('f::field, 'g::ab_group_add, 's, 'sk, 'vk, 'r) node_env \<Rightarrow> bytes \<Rightarrow> party_id list
    \<Rightarrow> ('f, 'g) triple_deal_msg btree \<Rightarrow> 'g feldman \<Rightarrow> 'g feldman \<Rightarrow> ('f, 'g, 's, 'sk, 'vk, 'r, unit) node_driver" where
  "triple_check_proofs N sid ids deals ca cb = on_error (\<lambda>e. record_abort e None)
     (liftR (foldR (\<lambda>i _. check_proof (ne_k256 N) sid deals ca cb i) ids ()))"

definition triple_combine :: "('f::field, 'g::ab_group_add, 'r) k256 \<Rightarrow> party_id \<Rightarrow> party_id list \<Rightarrow> ('f, 'g) key_share
    \<Rightarrow> ('f, 'g) key_share \<Rightarrow> ('f, 'g) triple_deal_msg btree \<Rightarrow> 'f btree \<Rightarrow> ('f, 'g) triple result" where
  \<comment> \<open>\<open>cc.expect("n >= 1")\<close> panics on no dealer\<close>
  "triple_combine E me ids alpha beta deals mine =
     bindR (lagrange_coeffs ids) (\<lambda>lambdas.
     bindR (mapR (\<lambda>(l, i). bindR (of_opt (bt_get deals i)) (\<lambda>d. Ok (com_scale E (td_com d) l))) (zip lambdas ids)) (\<lambda>scaled.
     bindR (mapR (\<lambda>(l, i). bindR (of_opt (bt_get mine i)) (\<lambda>s. Ok (l * s))) (zip lambdas ids)) (\<lambda>parts.
     bindR (com_sum scaled) (\<lambda>cc.
     Ok (\<lparr>ts_index = me, ts_a = o_share alpha, ts_b = o_share beta, ts_c = foldl (+) 0 parts\<rparr>,
         \<lparr>tp_ca = o_com alpha, tp_cb = o_com beta, tp_cc = cc\<rparr>)))))"

definition dealt_verifies :: "('f::field, 'g::ab_group_add, 'r) k256 \<Rightarrow> ('f, 'g) triple_deal_msg btree \<Rightarrow> party_id \<Rightarrow> party_id
    \<Rightarrow> 'f \<Rightarrow> bool result" where
  "dealt_verifies E deals d a s = bindR (of_opt (bt_get deals d)) (\<lambda>deal. Ok (verify_share E (td_com deal) a s))"

definition triple_run :: "('f::field, 'g::ab_group_add, 's, 'sk, 'vk, 'r) node_env \<Rightarrow> bytes \<Rightarrow> party_id list \<Rightarrow> cheat option
    \<Rightarrow> ('f, 'g, 's, 'sk, 'vk, 'r, ('f, 'g) triple) node_driver" where
  "triple_run N sid ids cheat =
     (let E = ne_k256 N in
     bindS (ask ns_me) (\<lambda>me.
     bindS (triple_t1_t2 N sid ids cheat) (\<lambda>(alpha, beta, t2).
     bindS (triple_check_proofs N sid ids (t2_deals t2) (o_com alpha) (o_com beta)) (\<lambda>_.
     bindS (liftR (failed_shares (\<lambda>i. dealt_verifies E (t2_deals t2) i me) ids (t2_mine t2))) (\<lambda>failed.
     bindS (on_error (\<lambda>e. record_abort e None)
       (complaint_round N sid Triples (TR_ROUND_COMPLAIN, TR_ROUND_DEFEND) ids (accuse cheat failed)
         (\<lambda>a. of_opt (bt_get (t2_sent t2) a)) (dealt_verifies E (t2_deals t2)))) (\<lambda>_.
     liftR (triple_combine E me ids alpha beta (t2_deals t2) (t2_mine t2))))))))"

definition triple_over :: "('f::field, 'g::ab_group_add, 's, 'sk, 'vk, 'r) node_env \<Rightarrow> bytes \<Rightarrow> party_id list \<Rightarrow> cheat option
    \<Rightarrow> ('f, 'g, 's, 'sk, 'vk, 'r, ('f, 'g) triple) node_driver" where
  "triple_over N sid ids cheat = retiring sid (triple_run N sid ids cheat)"

definition node_triple :: "('f::field, 'g::ab_group_add, 's, 'sk, 'vk, 'r) node_env \<Rightarrow> bytes \<Rightarrow> cheat option
    \<Rightarrow> ('f, 'g, 's, 'sk, 'vk, 'r, ('f, 'g) triple) node_driver" where
  "node_triple N sid cheat = triple_over N sid (parties (ne_params N)) cheat"

section \<open>Public reconstruction\<close>

definition reshare_requests :: "('f, 'g, 's) node_envelope btree \<Rightarrow> party_id list \<Rightarrow> cheat option
    \<Rightarrow> (party_id \<times> ('f, 'g, 's) node_envelope) list result" where
  \<comment> \<open>the dealers' own envelopes as evidence\<close>
  "reshare_requests resh_envs failed cheat =
     bindR (mapR (\<lambda>i. bindR (of_opt (bt_get resh_envs i)) (\<lambda>se. Ok (i, se))) failed) (\<lambda>reqs. case cheat of
       Some (False_Accuse d) \<Rightarrow> if d \<in> set (map fst reqs) then Ok reqs
         else bindR (of_opt (bt_get resh_envs d)) (\<lambda>se. Ok (reqs @ [(d, se)]))
     | _ \<Rightarrow> Ok reqs)"

definition genuine_request :: "('f::field, 'g::ab_group_add, 's, 'sk, 'vk, 'r) node_env \<Rightarrow> 'vk btree \<Rightarrow> bytes
    \<Rightarrow> ('f, 'g) triple_deal_msg btree \<Rightarrow> party_id \<Rightarrow> party_id \<Rightarrow> ('f, 'g, 's) node_envelope \<Rightarrow> bool result" where
  \<comment> \<open>the request of \<open>v\<close> against \<open>d\<close>; \<open>self.registry[d]\<close> and \<open>deals[d]\<close> panic on an unknown dealer\<close>
  "genuine_request N registry sid deals v d ev = (let e = se_envelope ev in
     if e_from e = d \<and> e_to e = Some v \<and> e_sid e = sid \<and> e_phase e = Triples \<and> e_round e = TR_ROUND_DEAL
     then (case e_payload e of
         Reshare s \<Rightarrow> bindR (of_opt (bt_get registry d)) (\<lambda>key.
           if verify_signature (we_scheme (ne_wire N)) (we_enc (ne_wire N)) ev key
           then bindR (dealt_verifies (ne_k256 N) deals d v s) (\<lambda>ok. Ok (\<not> ok)) else Ok False)
       | _ \<Rightarrow> Ok False)
     else Ok False)"

definition judge_request :: "('f::field, 'g::ab_group_add, 's, 'sk, 'vk, 'r) node_env \<Rightarrow> 'vk btree \<Rightarrow> bytes
    \<Rightarrow> ('f, 'g) triple_deal_msg btree \<Rightarrow> party_id \<Rightarrow> party_id \<times> ('f, 'g, 's) node_envelope
    \<Rightarrow> (party_id, unit) kmap \<Rightarrow> (party_id, unit) kmap result" where
  "judge_request N registry sid deals v req acc = (case req of (d, ev) \<Rightarrow>
     bindR (genuine_request N registry sid deals v d ev) (\<lambda>ok.
       if ok then Ok (bt_insert d () acc)
       else abort Triples [v] (''false accusation: '' @ dec_str v @ [CHR 0x27] @ ''s reconstruction request against dealer ''
         @ dec_str d @ '' does not hold up'')))"

definition judge_requests :: "('f::field, 'g::ab_group_add, 's, 'sk, 'vk, 'r) node_env \<Rightarrow> 'vk btree \<Rightarrow> bytes
    \<Rightarrow> ('f, 'g) triple_deal_msg btree \<Rightarrow> ('f, 'g, 's) node_envelope btree \<Rightarrow> party_id list result" where
  \<comment> \<open>the dealers to reconstruct, ascending\<close>
  "judge_requests N registry sid deals req_sets =
     bindR (foldR (\<lambda>(v, se) out. case e_payload (se_envelope se) of
         Reshare_Requests reqs \<Rightarrow> foldR (\<lambda>(d, x) out. judge_request N registry sid deals v (d, unseal x) out) reqs out
       | _ \<Rightarrow> abort Triples [v] ''malformed reconstruction request broadcast'') req_sets []) (\<lambda>m. Ok (map fst m))"

definition supplies_in :: "('f, 'g, 's) node_envelope btree \<Rightarrow> (party_id, 'f btree) kmap result" where
  \<comment> \<open>what was supplied, by dealer and supplier\<close>
  "supplies_in sup_sets = foldR (\<lambda>(f, se) out. case e_payload (se_envelope se) of
       Reshare_Supply list \<Rightarrow> Ok (foldl (\<lambda>out (d, s). bt_insert d (bt_insert f s (entry out d)) out) out list)
     | _ \<Rightarrow> abort Triples [f] ''malformed reconstruction supply broadcast'') sup_sets []"

definition reconstruct_share :: "('f::field, 'g::ab_group_add, 'r) k256 \<Rightarrow> nat \<Rightarrow> party_id \<Rightarrow> ('f, 'g) triple_deal_msg btree
    \<Rightarrow> (party_id, 'f btree) kmap \<Rightarrow> party_id \<Rightarrow> 'f result" where
  \<comment> \<open>the own share of dealer \<open>d\<close>, from the first \<open>t\<close> supplies that verify\<close>
  "reconstruct_share E t me deals supplied d =
     bindR (of_opt (bt_get supplied d)) (\<lambda>shares.
     bindR (mapR (\<lambda>(i, s). bindR (dealt_verifies E deals d i s) (\<lambda>ok. Ok (ok, i, s))) shares) (\<lambda>checked.
     let valid = map snd (filter fst checked) in
       if length valid < t then abort Triples [d] ''fewer than t valid re-shared shares; committed re-sharing polynomial unrecoverable''
       else interpolate_at (of_nat me) (map fst (take t valid)) (map snd (take t valid))))"

definition reconstruct_all :: "('f::field, 'g::ab_group_add, 'r) k256 \<Rightarrow> nat \<Rightarrow> party_id \<Rightarrow> ('f, 'g) triple_deal_msg btree
    \<Rightarrow> (party_id, 'f btree) kmap \<Rightarrow> party_id list \<Rightarrow> 'f btree \<Rightarrow> 'f btree result" where
  "reconstruct_all E t me deals supplied ds mine =
     foldR (\<lambda>d mine. bindR (reconstruct_share E t me deals supplied d) (\<lambda>s. Ok (bt_insert d s mine))) ds mine"

definition triple_supply :: "('f::field, 'g::ab_group_add, 's, 'sk, 'vk, 'r) node_env \<Rightarrow> bytes \<Rightarrow> party_id list
    \<Rightarrow> ('f, 'g) triple_deal_msg btree \<Rightarrow> party_id list \<Rightarrow> 'f btree \<Rightarrow> ('f, 'g, 's, 'sk, 'vk, 'r, 'f btree) node_driver" where
  \<comment> \<open>the supply round\<close>
  "triple_supply N sid ids deals ds mine =
     bindS (ask ns_me) (\<lambda>me.
     bindS (liftR (mapR (\<lambda>d. bindR (of_opt (bt_get mine d)) (\<lambda>s. Ok (d, s))) ds)) (\<lambda>supplies.
     bindS (node_broadcast N sid Triples TR_ROUND_RECON_SUPPLY (Reshare_Supply supplies)) (\<lambda>_.
     bindS (accepted_broadcasts_over N sid Triples TR_ROUND_RECON_SUPPLY ids) (\<lambda>sup_sets.
     bindS (liftR (require_complete (length sup_sets = length ids))) (\<lambda>_.
     bindS (liftR (supplies_in sup_sets)) (\<lambda>supplied.
     bindS (on_error (\<lambda>e. record_abort e None)
       (liftR (reconstruct_all (ne_k256 N) (p_t (ne_params N)) me deals supplied ds mine))) (\<lambda>mine.
     bindS (on_node (note_blamed Triples ds (''re-shared share failed commitment check; committed polynomial publicly reconstructed (SPEC ''
       @ section_sign @ ''10.4)''))) (\<lambda>_.
     retS mine))))))))"

definition triple_robust_run :: "('f::field, 'g::ab_group_add, 's, 'sk, 'vk, 'r) node_env \<Rightarrow> bytes \<Rightarrow> party_id list \<Rightarrow> cheat option
    \<Rightarrow> ('f, 'g, 's, 'sk, 'vk, 'r, ('f, 'g) triple \<times> party_id list) node_driver" where
  "triple_robust_run N sid ids cheat =
     (let E = ne_k256 N in
     bindS (ask ns_me) (\<lambda>me.
     bindS (ask (\<lambda>st. mn_registry (ns_mesh st))) (\<lambda>registry.
     bindS (triple_t1_t2 N sid ids cheat) (\<lambda>(alpha, beta, t2).
     bindS (triple_check_proofs N sid ids (t2_deals t2) (o_com alpha) (o_com beta)) (\<lambda>_.
     bindS (liftR (failed_shares (\<lambda>i. dealt_verifies E (t2_deals t2) i me) ids (t2_mine t2))) (\<lambda>failed.
     bindS (liftR (reshare_requests (t2_resh_envs t2) failed cheat)) (\<lambda>requests.
     bindS (node_broadcast N sid Triples TR_ROUND_RECON_REQ (Reshare_Requests (map (\<lambda>(d, se). (d, seal_in se)) requests))) (\<lambda>_.
     bindS (accepted_broadcasts_over N sid Triples TR_ROUND_RECON_REQ ids) (\<lambda>req_sets.
     bindS (liftR (require_complete (length req_sets = length ids))) (\<lambda>_.
     bindS (on_error (\<lambda>e. record_abort e None) (liftR (judge_requests N registry sid (t2_deals t2) req_sets))) (\<lambda>ds.
     bindS (if ds = [] then retS (t2_mine t2) else triple_supply N sid ids (t2_deals t2) ds (t2_mine t2)) (\<lambda>mine.
     bindS (liftR (triple_combine E me ids alpha beta (t2_deals t2) mine)) (\<lambda>triple.
     retS (triple, ds))))))))))))))"

definition triple_robust :: "('f::field, 'g::ab_group_add, 's, 'sk, 'vk, 'r) node_env \<Rightarrow> bytes \<Rightarrow> cheat option
    \<Rightarrow> ('f, 'g, 's, 'sk, 'vk, 'r, ('f, 'g) triple \<times> party_id list) node_driver" where
  "triple_robust N sid cheat = retiring sid (triple_robust_run N sid (parties (ne_params N)) cheat)"

end
