(* ===== verification/Node_Presign.thy ===== *)
theory Node_Presign
  imports Node_Triple
begin

text \<open>
  Presigning over the wire, as one node runs it (\<open>presign_run\<close>, \<open>presign_robust_run\<close> and \<open>presign_ki_run\<close> of
  \<open>node/src/party/party.rs\<close>), fail-fast and robust. The opening of the two Beaver masks, which each of the drivers
  repeats, is one definition per posture.
\<close>

definition PS_ROUND_DELTA_EPS :: byte where "PS_ROUND_DELTA_EPS = 1"
definition PS_ROUND_V :: byte where "PS_ROUND_V = 2"
definition PS_ROUND_NONCE :: byte where "PS_ROUND_NONCE = 3"
definition PS_ROUND_Z :: byte where "PS_ROUND_Z = 4"

section \<open>Openings\<close>

definition open_noted :: "('f::field, 'g::ab_group_add, 's, 'sk, 'vk, 'r) node_env \<Rightarrow> 'g feldman \<Rightarrow> 'f btree \<Rightarrow> phase
    \<Rightarrow> ('f, 'g, 's, 'sk, 'vk, 'r, 'f) node_driver" where
  "open_noted N com shares ph = on_error (\<lambda>e. record_abort e None)
     (liftR (open_com (ne_k256 N) (p_t (ne_params N)) com shares ph))"

definition open_robust_noted :: "('f::field, 'g::ab_group_add, 's, 'sk, 'vk, 'r) node_env \<Rightarrow> 'g feldman \<Rightarrow> 'f btree \<Rightarrow> phase
    \<Rightarrow> ('f, 'g, 's, 'sk, 'vk, 'r, 'f \<times> party_id list) node_driver" where
  "open_robust_noted N com shares ph =
     bindS (liftR (open_robust (ne_k256 N) (p_t (ne_params N)) com shares ph)) (\<lambda>(opened, blamed).
     bindS (on_node (note_blamed ph blamed (''share failed commitment check during opening (SPEC '' @ section_sign
       @ ''10.4: filtered, opening continued)''))) (\<lambda>_. retS (opened, blamed)))"

definition open_share_in :: "party_id \<Rightarrow> ('f, 'g, 's) node_payload \<Rightarrow> 'f option" where
  "open_share_in f p = (case p of Open_Share s \<Rightarrow> Some s | _ \<Rightarrow> None)"

definition beaver_open_in :: "party_id \<Rightarrow> ('f, 'g, 's) node_payload \<Rightarrow> ('f \<times> 'f) option" where
  "beaver_open_in f p = (case p of Beaver_Open a b \<Rightarrow> Some (a, b) | _ \<Rightarrow> None)"

definition collect_open_shares :: "('f, 'g, 's, 'sk, 'vk, 'r) node_env \<Rightarrow> bytes \<Rightarrow> phase \<Rightarrow> byte \<Rightarrow> party_id list
    \<Rightarrow> ('f, 'g, 's, 'sk, 'vk, 'r, 'f btree) node_driver" where
  "collect_open_shares N sid ph round ids =
     bindS (accepted_broadcasts_over N sid ph round ids) (\<lambda>envs.
     bindS (liftR (require_complete (length envs = length ids))) (\<lambda>_.
     liftR (pick_all ph ''malformed opening broadcast'' open_share_in envs)))"

definition collect_beaver_opens :: "('f, 'g, 's, 'sk, 'vk, 'r) node_env \<Rightarrow> bytes \<Rightarrow> phase \<Rightarrow> byte \<Rightarrow> party_id list
    \<Rightarrow> ('f, 'g, 's, 'sk, 'vk, 'r, 'f btree \<times> 'f btree) node_driver" where
  "collect_beaver_opens N sid ph round ids =
     bindS (accepted_broadcasts_over N sid ph round ids) (\<lambda>envs.
     bindS (liftR (require_complete (length envs = length ids))) (\<lambda>_.
     bindS (liftR (pick_all ph ''malformed opening broadcast'' beaver_open_in envs)) (\<lambda>pairs.
     retS (map (\<lambda>(f, a, b). (f, a)) pairs, map (\<lambda>(f, a, b). (f, b)) pairs))))"

definition node_expel :: "party_id list \<times> party_id list \<Rightarrow> party_id list \<Rightarrow> party_id list \<times> party_id list" where
  \<comment> \<open>on \<open>(blamed, active)\<close>; the blame is kept sorted\<close>
  "node_expel st new = (case expel st new of (blamed, active) \<Rightarrow> (sort blamed, active))"

definition node_masks :: "('f::field, 'g::ab_group_add, 's, 'sk, 'vk, 'r) node_env \<Rightarrow> bytes \<Rightarrow> phase \<Rightarrow> byte \<Rightarrow> party_id list
    \<Rightarrow> 'g feldman \<Rightarrow> 'g feldman \<Rightarrow> 'f \<Rightarrow> 'f \<Rightarrow> ('f, 'g, 's, 'sk, 'vk, 'r, 'f \<times> 'f) node_driver" where
  \<comment> \<open>broadcast the own mask shares, open both masks\<close>
  "node_masks N sid ph round ids d_com e_com d e =
     bindS (node_broadcast N sid ph round (Beaver_Open d e)) (\<lambda>_.
     bindS (collect_beaver_opens N sid ph round ids) (\<lambda>(ds, es).
     bindS (open_noted N d_com ds ph) (\<lambda>delta.
     bindS (open_noted N e_com es ph) (\<lambda>eps.
     retS (delta, eps)))))"

definition node_masks_robust :: "('f::field, 'g::ab_group_add, 's, 'sk, 'vk, 'r) node_env \<Rightarrow> bytes \<Rightarrow> phase \<Rightarrow> byte
    \<Rightarrow> party_id list \<times> party_id list \<Rightarrow> 'g feldman \<Rightarrow> 'g feldman \<Rightarrow> 'f \<Rightarrow> 'f
    \<Rightarrow> ('f, 'g, 's, 'sk, 'vk, 'r, ('f \<times> 'f) \<times> party_id list \<times> party_id list) node_driver" where
  \<comment> \<open>the same over the active parties; who is blamed is expelled\<close>
  "node_masks_robust N sid ph round standing d_com e_com d e =
     bindS (node_broadcast N sid ph round (Beaver_Open d e)) (\<lambda>_.
     bindS (collect_beaver_opens N sid ph round (snd standing)) (\<lambda>(ds, es).
     bindS (open_robust_noted N d_com ds ph) (\<lambda>(delta, b_d).
     bindS (open_robust_noted N e_com es ph) (\<lambda>(eps, b_e).
     retS ((delta, eps), node_expel (node_expel standing b_d) b_e)))))"

section \<open>P1: the dealing phase\<close>

definition triple_cheat :: "cheat option \<Rightarrow> cheat option" where
  \<comment> \<open>the dealing faults go to the triple session\<close>
  "triple_cheat cheat = (case cheat of
       Some Bad_Product_Proof \<Rightarrow> cheat | Some (Bad_Reshare _) \<Rightarrow> cheat | Some (False_Accuse _) \<Rightarrow> cheat | _ \<Rightarrow> None)"

definition presign_p1 :: "('f::field, 'g::ab_group_add, 's, 'sk, 'vk, 'r) node_env \<Rightarrow> bytes \<Rightarrow> party_id list \<Rightarrow> cheat option
    \<Rightarrow> ('f, 'g, 's, 'sk, 'vk, 'r, ('f, 'g) triple \<times> ('f, 'g) key_share \<times> ('f, 'g) key_share) node_driver" where
  "presign_p1 N sid ids cheat =
     bindS (triple_over N (sid @ str_bytes ''/t1'') ids (triple_cheat cheat)) (\<lambda>t1.
     bindS (joint_vss_over N (sid @ str_bytes ''/u'') DKG_COMMIT Presign ids None) (\<lambda>u_out.
     bindS (joint_vss_over N (sid @ str_bytes ''/a'') DKG_COMMIT Presign ids None) (\<lambda>a_out.
     retS (t1, u_out, a_out))))"

section \<open>P3: the nonce round\<close>

definition own_v_share :: "cheat option \<Rightarrow> 'f::field triple_share \<Rightarrow> 'f \<Rightarrow> 'f \<Rightarrow> 'f" where
  "own_v_share cheat s delta eps =
     (if cheat = Some Bad_Open_Share then beaver_share s delta eps + 1 else beaver_share s delta eps)"

definition own_nonce_point :: "('f::field, 'g::ab_group_add, 'r) k256 \<Rightarrow> cheat option \<Rightarrow> 'f \<Rightarrow> 'f \<Rightarrow> 'g" where
  "own_nonce_point E cheat v_inv a = (let r_j = smul E (gen E) (v_inv * a)
     in if cheat = Some Bad_Nonce_Point then r_j + gen E else r_j)"

definition check_nonce :: "('f::field, 'g::ab_group_add, 'r) k256 \<Rightarrow> 'g feldman \<Rightarrow> party_id \<times> ('f, 'g, 's) node_envelope
    \<Rightarrow> 'g list \<Rightarrow> (error \<times> bool, 'g list) res" where
  \<comment> \<open>an error says whether it is archived\<close>
  "check_nonce E k_com fe acc = (case fe of (f, se) \<Rightarrow> (case e_payload (se_envelope se) of
       Nonce_Point p \<Rightarrow> if p \<noteq> com_eval_at E k_com f
         then Err (Abort \<lparr>ab_phase = Presign, ab_blamed = [f], ab_detail = ''invalid nonce point R_j''\<rparr>, True)
         else Ok (acc @ [p])
     | _ \<Rightarrow> Err (Abort \<lparr>ab_phase = Presign, ab_blamed = [f], ab_detail = ''malformed nonce broadcast''\<rparr>, False)))"

definition check_nonces :: "('f::field, 'g::ab_group_add, 's, 'sk, 'vk, 'r) node_env \<Rightarrow> 'g feldman
    \<Rightarrow> ('f, 'g, 's) node_envelope btree \<Rightarrow> ('f, 'g, 's, 'sk, 'vk, 'r, 'g list) node_driver" where
  "check_nonces N k_com envs = (\<lambda>st. case foldR (check_nonce (ne_k256 N) k_com) envs [] of
       Ok ps \<Rightarrow> (Ok ps, st)
     | Err (e, archived) \<Rightarrow> (Err e, if archived then record_abort e None st else st)
     | Panic \<Rightarrow> (Panic, st))"

definition presign_p1_p3 :: "('f::field, 'g::ab_group_add, 's, 'sk, 'vk, 'r) node_env \<Rightarrow> bytes \<Rightarrow> party_id list \<Rightarrow> cheat option
    \<Rightarrow> ('f, 'g, 's, 'sk, 'vk, 'r, ('f \<times> 'g feldman) \<times> 'f \<times> 'g) node_driver" where
  \<comment> \<open>returns the own share and the commitment of \<open>u\<close>, then the nonce\<close>
  "presign_p1_p3 N sid ids cheat =
     (let E = ne_k256 N in
     bindS (presign_p1 N sid ids cheat) (\<lambda>((t1, pub1), u_out, a_out).
     bindS (node_masks N sid Presign PS_ROUND_DELTA_EPS ids (mask_com E (o_com u_out) (tp_ca pub1))
       (mask_com E (o_com a_out) (tp_cb pub1)) (o_share u_out - ts_a t1) (o_share a_out - ts_b t1)) (\<lambda>(delta, eps).
     bindS (liftR (beaver_com E pub1 delta eps)) (\<lambda>v_com.
     bindS (node_broadcast N sid Presign PS_ROUND_V (Open_Share (own_v_share cheat t1 delta eps))) (\<lambda>_.
     bindS (collect_open_shares N sid Presign PS_ROUND_V ids) (\<lambda>v_shares.
     bindS (open_noted N v_com v_shares Presign) (\<lambda>v.
     bindS (liftR (invert_v ''v = 0'' v)) (\<lambda>v_inv.
     bindS (node_broadcast N sid Presign PS_ROUND_NONCE (Nonce_Point (own_nonce_point E cheat v_inv (o_share a_out)))) (\<lambda>_.
     bindS (accepted_broadcasts_over N sid Presign PS_ROUND_NONCE ids) (\<lambda>nonce_envs.
     bindS (liftR (require_complete (length nonce_envs = length ids))) (\<lambda>_.
     bindS (check_nonces N (com_scale E (o_com a_out) v_inv) nonce_envs) (\<lambda>r_points.
     bindS (liftR (bindR (lagrange_coeffs ids) (\<lambda>lambdas. nonce_scalar E ''r = 0'' lambdas r_points))) (\<lambda>nonce.
     retS ((o_share u_out, o_com u_out), nonce))))))))))))))"

section \<open>P4 and the drivers\<close>

definition z_masks :: "('f::field, 'g::ab_group_add, 'r) k256 \<Rightarrow> ('f, 'g) triple \<Rightarrow> ('f, 'g) key_share \<Rightarrow> 'f \<times> 'g feldman
    \<Rightarrow> ('g feldman \<times> 'g feldman) \<times> 'f \<times> 'f" where
  \<comment> \<open>the commitments and the own shares of both masks of \<open>u\<close> times the key\<close>
  "z_masks E tr key u = (case tr of (t2, pub2) \<Rightarrow> case u of (u_j, u_com) \<Rightarrow>
     ((mask_com E u_com (tp_ca pub2), mask_com E (o_com key) (tp_cb pub2)), u_j - ts_a t2, o_share key - ts_b t2))"

definition presign_record :: "('f::field, 'g::ab_group_add, 'r) k256 \<Rightarrow> nat \<Rightarrow> party_id \<Rightarrow> ('f, 'g) triple \<Rightarrow> 'f \<times> 'g feldman
    \<Rightarrow> 'f \<times> 'g \<Rightarrow> 'f \<times> 'f \<Rightarrow> ('f, 'g) presignature result" where
  "presign_record E rid me tr u nonce opened_masks = (case tr of (t2, pub2) \<Rightarrow> case opened_masks of (d2v, e2v) \<Rightarrow>
     bindR (beaver_com E pub2 d2v e2v) (\<lambda>z_com.
       Ok \<lparr>ps_id = rid, ps_index = me, ps_r = fst nonce, ps_big_r = snd nonce, ps_u_share = fst u,
         ps_z_share = beaver_share t2 d2v e2v, ps_u_com = snd u, ps_z_com = z_com\<rparr>))"

definition presign_run :: "('f::field, 'g::ab_group_add, 's, 'sk, 'vk, 'r) node_env \<Rightarrow> bytes \<Rightarrow> nat \<Rightarrow> ('f, 'g) key_share
    \<Rightarrow> party_id list \<Rightarrow> cheat option \<Rightarrow> ('f, 'g, 's, 'sk, 'vk, 'r, ('f, 'g) presignature) node_driver" where
  "presign_run N sid rid key ids cheat =
     (let E = ne_k256 N in
     bindS (ask ns_me) (\<lambda>me.
     bindS (presign_p1_p3 N sid ids cheat) (\<lambda>(u, nonce).
     bindS (triple_over N (sid @ str_bytes ''/t2'') ids None) (\<lambda>tr.
     case z_masks E tr key u of ((d_com, e_com), d, e) \<Rightarrow>
     bindS (node_masks N sid Presign PS_ROUND_Z ids d_com e_com d e) (\<lambda>opened_masks.
     liftR (presign_record E rid me tr u nonce opened_masks))))))"

definition node_presign :: "('f::field, 'g::ab_group_add, 's, 'sk, 'vk, 'r) node_env \<Rightarrow> bytes \<Rightarrow> nat \<Rightarrow> ('f, 'g) key_share
    \<Rightarrow> cheat option \<Rightarrow> ('f, 'g, 's, 'sk, 'vk, 'r, ('f, 'g) presignature) node_driver" where
  "node_presign N sid rid key cheat = retiring sid (presign_run N sid rid key (parties (ne_params N)) cheat)"

definition presign_ki_run :: "('f::field, 'g::ab_group_add, 's, 'sk, 'vk, 'r) node_env \<Rightarrow> bytes \<Rightarrow> nat
    \<Rightarrow> cheat option \<Rightarrow> ('f, 'g, 's, 'sk, 'vk, 'r, ('f, 'g) ki_presignature) node_driver" where
  "presign_ki_run N sid rid cheat =
     bindS (ask ns_me) (\<lambda>me.
     bindS (presign_p1_p3 N sid (parties (ne_params N)) cheat) (\<lambda>((u_j, u_com), r, big_r).
     retS \<lparr>kp_id = rid, kp_index = me, kp_r = r, kp_big_r = big_r, kp_u_share = u_j, kp_u_com = u_com\<rparr>))"

definition node_presign_ki :: "('f::field, 'g::ab_group_add, 's, 'sk, 'vk, 'r) node_env \<Rightarrow> bytes \<Rightarrow> nat
    \<Rightarrow> cheat option \<Rightarrow> ('f, 'g, 's, 'sk, 'vk, 'r, ('f, 'g) ki_presignature) node_driver" where
  "node_presign_ki N sid rid cheat = retiring sid (presign_ki_run N sid rid cheat)"

definition on_pool :: "(('f, 'g) ki_pool \<Rightarrow> 'a result \<times> ('f, 'g) ki_pool) \<Rightarrow> ('f, 'g, 's, 'sk, 'vk, 'r, 'a) node_driver" where
  \<comment> \<open>under the lock of the pool\<close>
  "on_pool f = (\<lambda>st. case f (ns_ki_pool st) of (r, pool) \<Rightarrow> (r, st\<lparr>ns_ki_pool := pool\<rparr>))"

definition presign_ki_pooled :: "('f::field, 'g::ab_group_add, 's, 'sk, 'vk, 'r) node_env \<Rightarrow> bytes \<Rightarrow> nat
    \<Rightarrow> cheat option \<Rightarrow> ('f, 'g, 's, 'sk, 'vk, 'r, 'f) node_driver" where
  "presign_ki_pooled N sid rid cheat =
     bindS (node_presign_ki N sid rid cheat) (\<lambda>p. bindS (on_pool (pool_insert p)) (\<lambda>_. retS (kp_r p)))"

section \<open>The robust posture\<close>

definition sort_nonces :: "('f::field, 'g::ab_group_add, 'r) k256 \<Rightarrow> 'g feldman \<Rightarrow> ('f, 'g, 's) node_envelope btree
    \<Rightarrow> (party_id list \<times> 'g list \<times> party_id list) result" where
  \<comment> \<open>the valid senders, their points, and the senders of bad points\<close>
  "sort_nonces E k_com envs = foldR (\<lambda>(f, se) (ok, ps, bad). case e_payload (se_envelope se) of
       Nonce_Point p \<Rightarrow> if p = com_eval_at E k_com f then Ok (ok @ [f], ps @ [p], bad) else Ok (ok, ps, bad @ [f])
     | _ \<Rightarrow> abort Presign [f] ''malformed nonce broadcast'') envs ([], [], [])"

definition presign_p1_p3_robust :: "('f::field, 'g::ab_group_add, 's, 'sk, 'vk, 'r) node_env \<Rightarrow> bytes \<Rightarrow> party_id list
    \<Rightarrow> cheat option \<Rightarrow> ('f, 'g, 's, 'sk, 'vk, 'r, (('f \<times> 'g feldman) \<times> 'f \<times> 'g) \<times> party_id list \<times> party_id list) node_driver" where
  \<comment> \<open>also returns the blamed and the active parties\<close>
  "presign_p1_p3_robust N sid ids cheat =
     (let E = ne_k256 N; t = p_t (ne_params N) in
     bindS (presign_p1 N sid ids cheat) (\<lambda>((t1, pub1), u_out, a_out).
     bindS (node_masks_robust N sid Presign PS_ROUND_DELTA_EPS ([], ids) (mask_com E (o_com u_out) (tp_ca pub1))
       (mask_com E (o_com a_out) (tp_cb pub1)) (o_share u_out - ts_a t1) (o_share a_out - ts_b t1)) (\<lambda>((delta, eps), standing).
     bindS (liftR (beaver_com E pub1 delta eps)) (\<lambda>v_com.
     bindS (node_broadcast N sid Presign PS_ROUND_V (Open_Share (own_v_share cheat t1 delta eps))) (\<lambda>_.
     bindS (collect_open_shares N sid Presign PS_ROUND_V (snd standing)) (\<lambda>v_shares.
     bindS (open_robust_noted N v_com v_shares Presign) (\<lambda>(v, b_v).
     let standing = node_expel standing b_v in
     bindS (liftR (invert_v ''v = 0'' v)) (\<lambda>v_inv.
     bindS (node_broadcast N sid Presign PS_ROUND_NONCE (Nonce_Point (own_nonce_point E cheat v_inv (o_share a_out)))) (\<lambda>_.
     bindS (accepted_broadcasts_over N sid Presign PS_ROUND_NONCE (snd standing)) (\<lambda>nonce_envs.
     bindS (liftR (require_complete (length nonce_envs = length (snd standing)))) (\<lambda>_.
     bindS (liftR (sort_nonces E (com_scale E (o_com a_out) v_inv) nonce_envs)) (\<lambda>(valid, r_points, bad).
     bindS (on_node (note_blamed Presign bad ''invalid nonce point R_j'')) (\<lambda>_.
     bindS (liftR (if length valid < t then Err (NotEnoughShares (length valid) t) else Ok ())) (\<lambda>_.
     bindS (liftR (bindR (lagrange_coeffs valid) (\<lambda>lambdas. nonce_scalar E ''r = 0'' lambdas r_points))) (\<lambda>nonce.
     retS (((o_share u_out, o_com u_out), nonce), node_expel standing bad))))))))))))))))"

definition presign_robust_run :: "('f::field, 'g::ab_group_add, 's, 'sk, 'vk, 'r) node_env \<Rightarrow> bytes \<Rightarrow> nat \<Rightarrow> ('f, 'g) key_share
    \<Rightarrow> party_id list \<Rightarrow> cheat option \<Rightarrow> ('f, 'g, 's, 'sk, 'vk, 'r, ('f, 'g) presignature \<times> party_id list) node_driver" where
  "presign_robust_run N sid rid key ids cheat =
     (let E = ne_k256 N in
     bindS (ask ns_me) (\<lambda>me.
     bindS (presign_p1_p3_robust N sid ids cheat) (\<lambda>((u, nonce), standing).
     bindS (triple_over N (sid @ str_bytes ''/t2'') ids None) (\<lambda>tr.
     case z_masks E tr key u of ((d_com, e_com), d, e) \<Rightarrow>
     bindS (node_masks_robust N sid Presign PS_ROUND_Z standing d_com e_com d e) (\<lambda>(opened_masks, blamed, active).
     bindS (liftR (presign_record E rid me tr u nonce opened_masks)) (\<lambda>p.
     retS (p, blamed)))))))"

definition node_presign_robust :: "('f::field, 'g::ab_group_add, 's, 'sk, 'vk, 'r) node_env \<Rightarrow> bytes \<Rightarrow> nat \<Rightarrow> ('f, 'g) key_share
    \<Rightarrow> cheat option \<Rightarrow> ('f, 'g, 's, 'sk, 'vk, 'r, ('f, 'g) presignature \<times> party_id list) node_driver" where
  "node_presign_robust N sid rid key cheat =
     retiring sid (presign_robust_run N sid rid key (parties (ne_params N)) cheat)"

end
