(* ===== verification/Node_Sign.thy ===== *)
theory Node_Sign
  imports Node_Presign
begin

text \<open>
  Signing over the wire, as one node runs it (\<open>sign_run_scalar\<close>, \<open>sign_ki_run\<close>, \<open>sign_ki_robust_run\<close> of
  \<open>node/src/party/party.rs\<close>), and the drivers that expel and restart (\<open>restart_step\<close>, \<open>keygen_with_restart\<close>,
  \<open>presign_with_restart\<close>).
\<close>

definition SIGN_ROUND_SHARE :: byte where "SIGN_ROUND_SHARE = 1"
definition KI_ROUND_OPEN :: byte where "KI_ROUND_OPEN = 1"
definition KI_ROUND_SHARE :: byte where "KI_ROUND_SHARE = 2"

section \<open>The shares of a signature\<close>

definition node_sign_share :: "cheat option \<Rightarrow> 'f::field sign_share \<Rightarrow> 'f sign_share" where
  "node_sign_share cheat sh = (if cheat = Some Bad_Sign_Share then sh\<lparr>sg_s := sg_s sh + 1\<rparr> else sh)"

definition sign_shares_in :: "nat \<Rightarrow> ('f, 'g, 's) node_envelope btree
    \<Rightarrow> ('f sign_share list \<times> ('f, 'g, 's) node_envelope btree) result" where
  \<comment> \<open>the shares for this presignature, and their envelopes; shares for another one are dropped\<close>
  "sign_shares_in pid envs = foldR (\<lambda>(f, se) (shares, env_of). case e_payload (se_envelope se) of
       Node_Sign_Share i s \<Rightarrow> if i = pid then Ok (shares @ [\<lparr>sg_from = f, sg_s = s\<rparr>], bt_insert f se env_of)
         else Ok (shares, env_of)
     | _ \<Rightarrow> abort Sign [f] ''malformed sign broadcast'') envs ([], [])"

definition note_sign_share :: "string \<Rightarrow> bytes \<Rightarrow> 'f \<Rightarrow> 'g feldman \<Rightarrow> 'g feldman \<Rightarrow> ('f, 'g, 's) node_envelope btree
    \<Rightarrow> ('f, 'g, 's, 'sk, 'vk, 'r) node_state \<Rightarrow> party_id \<Rightarrow> ('f, 'g, 's, 'sk, 'vk, 'r) node_state" where
  \<comment> \<open>the evidence against one sender, whose signed share is at hand\<close>
  "note_sign_share detail msg r u_com z_com env_of st f = (case bt_get env_of f of None \<Rightarrow> st
     | Some se \<Rightarrow> let ab = \<lparr>ab_phase = Sign, ab_blamed = [f], ab_detail = detail\<rparr>
         in note_abort ab (Some (Wrong_Sign_Share ab se msg r u_com z_com)) st)"

definition SHARE_FAILED :: string where
  "SHARE_FAILED = ''signature share failed commitment check''"

section \<open>Online signing\<close>

definition sign_run_scalar :: "('f::field, 'g::ab_group_add, 's, 'sk, 'vk, 'r) node_env \<Rightarrow> bytes \<Rightarrow> ('f, 'g) presignature
    \<Rightarrow> 'f \<Rightarrow> bytes \<Rightarrow> party_id list \<Rightarrow> cheat option \<Rightarrow> ('f, 'g, 's, 'sk, 'vk, 'r, ('f \<times> 'f) \<times> party_id list) node_driver" where
  "sign_run_scalar N sid presig m message ids cheat =
     (let E = ne_k256 N; share = node_sign_share cheat (sign_share presig m) in
     bindS (node_broadcast N sid Sign SIGN_ROUND_SHARE (Node_Sign_Share (ps_id presig) (sg_s share))) (\<lambda>_.
     bindS (accepted_broadcasts_over N sid Sign SIGN_ROUND_SHARE ids) (\<lambda>envs.
     bindS (liftR (sign_shares_in (ps_id presig) envs)) (\<lambda>(shares, env_of).
     bindS (liftR (combine_robust E (ne_params N) presig m shares)) (\<lambda>(rs, blamed).
     bindS (on_node (\<lambda>st. foldl (note_sign_share SHARE_FAILED message (ps_r presig) (ps_u_com presig) (ps_z_com presig) env_of) st blamed)) (\<lambda>_.
     bindS (liftR (normalized E rs)) (\<lambda>sig. retS (sig, blamed))))))))"

definition sign_member :: "party_id list \<Rightarrow> ('f, 'g, 's, 'sk, 'vk, 'r, 'a) node_driver \<Rightarrow> ('f, 'g, 's, 'sk, 'vk, 'r, 'a) node_driver" where
  "sign_member ids m = bindS (ask ns_me) (\<lambda>me. if me \<notin> set ids
     then liftR (Err (InvalidParams ''this node is not a member of the signing committee'')) else m)"

definition sign_run :: "('f::field, 'g::ab_group_add, 's, 'sk, 'vk, 'r) node_env \<Rightarrow> bytes \<Rightarrow> ('f, 'g) presignature
    \<Rightarrow> bytes \<Rightarrow> party_id list \<Rightarrow> cheat option \<Rightarrow> ('f, 'g, 's, 'sk, 'vk, 'r, ('f \<times> 'f) \<times> party_id list) node_driver" where
  "sign_run N sid presig msg ids cheat = sign_run_scalar N sid presig (message_scalar (ne_k256 N) msg) msg ids cheat"

definition sign_over :: "('f::field, 'g::ab_group_add, 's, 'sk, 'vk, 'r) node_env \<Rightarrow> bytes \<Rightarrow> ('f, 'g) presignature
    \<Rightarrow> bytes \<Rightarrow> party_id list \<Rightarrow> cheat option \<Rightarrow> ('f, 'g, 's, 'sk, 'vk, 'r, ('f \<times> 'f) \<times> party_id list) node_driver" where
  "sign_over N sid presig msg ids cheat = sign_member ids (retiring sid (sign_run N sid presig msg ids cheat))"

definition node_sign :: "('f::field, 'g::ab_group_add, 's, 'sk, 'vk, 'r) node_env \<Rightarrow> bytes \<Rightarrow> ('f, 'g) presignature
    \<Rightarrow> bytes \<Rightarrow> cheat option \<Rightarrow> ('f, 'g, 's, 'sk, 'vk, 'r, ('f \<times> 'f) \<times> party_id list) node_driver" where
  "node_sign N sid presig msg cheat = sign_over N sid presig msg (parties (ne_params N)) cheat"

definition sign_scalar_over :: "('f::field, 'g::ab_group_add, 's, 'sk, 'vk, 'r) node_env \<Rightarrow> bytes \<Rightarrow> ('f, 'g) presignature
    \<Rightarrow> 'f \<Rightarrow> party_id list \<Rightarrow> cheat option \<Rightarrow> ('f, 'g, 's, 'sk, 'vk, 'r, ('f \<times> 'f) \<times> party_id list) node_driver" where
  \<comment> \<open>the bytes of the scalar stand for the message in the archive\<close>
  "sign_scalar_over N sid presig m ids cheat =
     sign_member ids (retiring sid (sign_run_scalar N sid presig m (sc_bytes (ne_k256 N) m) ids cheat))"

definition node_sign_scalar :: "('f::field, 'g::ab_group_add, 's, 'sk, 'vk, 'r) node_env \<Rightarrow> bytes \<Rightarrow> ('f, 'g) presignature
    \<Rightarrow> 'f \<Rightarrow> cheat option \<Rightarrow> ('f, 'g, 's, 'sk, 'vk, 'r, ('f \<times> 'f) \<times> party_id list) node_driver" where
  "node_sign_scalar N sid presig m cheat = sign_scalar_over N sid presig m (parties (ne_params N)) cheat"

section \<open>Key-independent signing\<close>

definition ki_mask_inputs :: "('f::field, 'g::ab_group_add, 'r) k256 \<Rightarrow> cheat option \<Rightarrow> ('f, 'g) ki_presignature
    \<Rightarrow> ('f, 'g) key_share \<Rightarrow> ('f, 'g) triple \<Rightarrow> ('g feldman \<times> 'g feldman) \<times> 'f \<times> 'f" where
  "ki_mask_inputs E cheat presig key tr = (case tr of (t_share, t_pub) \<Rightarrow>
     ((mask_com E (kp_u_com presig) (tp_ca t_pub), mask_com E (o_com key) (tp_cb t_pub)),
      (if cheat = Some Bad_Open_Share then kp_u_share presig - ts_a t_share + 1 else kp_u_share presig - ts_a t_share),
      o_share key - ts_b t_share))"

definition ki_second_round :: "('f::field, 'g::ab_group_add, 's, 'sk, 'vk, 'r) node_env \<Rightarrow> bytes \<Rightarrow> ('f, 'g) ki_presignature
    \<Rightarrow> 'f \<Rightarrow> ('f, 'g) triple \<Rightarrow> 'f \<times> 'f \<Rightarrow> party_id list \<Rightarrow> cheat option
    \<Rightarrow> ('f, 'g, 's, 'sk, 'vk, 'r, 'g feldman \<times> 'f sign_share list \<times> ('f, 'g, 's) node_envelope btree) node_driver" where
  \<comment> \<open>the own \<open>z\<close> share, the broadcast, and what was accepted\<close>
  "ki_second_round N sid presig m tr masks ids cheat = (case tr of (t_share, t_pub) \<Rightarrow> case masks of (delta, eps) \<Rightarrow>
     bindS (liftR (ki_z_com (ne_k256 N) t_pub delta eps)) (\<lambda>z_com.
     let share = node_sign_share cheat (sign_share_ki presig (ki_z_share t_share delta eps) m) in
     bindS (node_broadcast N sid Sign KI_ROUND_SHARE (Node_Sign_Share (kp_id presig) (sg_s share))) (\<lambda>_.
     bindS (accepted_broadcasts_over N sid Sign KI_ROUND_SHARE ids) (\<lambda>envs.
     bindS (liftR (sign_shares_in (kp_id presig) envs)) (\<lambda>(shares, env_of).
     retS (z_com, shares, env_of))))))"

definition sign_ki_run :: "('f::field, 'g::ab_group_add, 's, 'sk, 'vk, 'r) node_env \<Rightarrow> bytes \<Rightarrow> ('f, 'g) ki_presignature
    \<Rightarrow> ('f, 'g) key_share \<Rightarrow> bytes \<Rightarrow> cheat option \<Rightarrow> ('f, 'g, 's, 'sk, 'vk, 'r, 'f \<times> 'f) node_driver" where
  "sign_ki_run N sid presig key msg cheat =
     (let E = ne_k256 N; ids = parties (ne_params N); m = message_scalar E msg in
     bindS (node_triple N (sid @ str_bytes ''/triple'') (triple_cheat cheat)) (\<lambda>tr.
     case ki_mask_inputs E cheat presig key tr of ((d_com, e_com), d, e) \<Rightarrow>
     bindS (node_masks N sid Sign KI_ROUND_OPEN ids d_com e_com d e) (\<lambda>masks.
     bindS (ki_second_round N sid presig m tr masks ids cheat) (\<lambda>(z_com, shares, env_of).
     bindS (on_error (\<lambda>e st. case e of
         Abort ab \<Rightarrow> foldl (note_sign_share (ab_detail ab) msg (kp_r presig) (kp_u_com presig) z_com env_of) st (ab_blamed ab)
       | _ \<Rightarrow> st) (liftR (combine_ki E (ne_params N) presig z_com m shares))) (\<lambda>rs.
     liftR (normalized E rs))))))"

definition node_sign_ki :: "('f::field, 'g::ab_group_add, 's, 'sk, 'vk, 'r) node_env \<Rightarrow> bytes \<Rightarrow> ('f, 'g) ki_presignature
    \<Rightarrow> ('f, 'g) key_share \<Rightarrow> bytes \<Rightarrow> cheat option \<Rightarrow> ('f, 'g, 's, 'sk, 'vk, 'r, 'f \<times> 'f) node_driver" where
  "node_sign_ki N sid presig key msg cheat = retiring sid (sign_ki_run N sid presig key msg cheat)"

definition sign_ki_robust_run :: "('f::field, 'g::ab_group_add, 's, 'sk, 'vk, 'r) node_env \<Rightarrow> bytes \<Rightarrow> ('f, 'g) ki_presignature
    \<Rightarrow> ('f, 'g) key_share \<Rightarrow> bytes \<Rightarrow> cheat option \<Rightarrow> ('f, 'g, 's, 'sk, 'vk, 'r, ('f \<times> 'f) \<times> party_id list) node_driver" where
  "sign_ki_robust_run N sid presig key msg cheat =
     (let E = ne_k256 N; ids = parties (ne_params N); m = message_scalar E msg in
     bindS (node_triple N (sid @ str_bytes ''/triple'') (triple_cheat cheat)) (\<lambda>tr.
     case ki_mask_inputs E cheat presig key tr of ((d_com, e_com), d, e) \<Rightarrow>
     bindS (node_masks_robust N sid Sign KI_ROUND_OPEN ([], ids) d_com e_com d e) (\<lambda>(masks, standing).
     bindS (ki_second_round N sid presig m tr masks (snd standing) cheat) (\<lambda>(z_com, shares, env_of).
     bindS (liftR (combine_ki_robust E (ne_params N) presig z_com m shares)) (\<lambda>(rs, b2).
     bindS (on_node (\<lambda>st. foldl (note_sign_share SHARE_FAILED msg (kp_r presig) (kp_u_com presig) z_com env_of) st b2)) (\<lambda>_.
     bindS (liftR (normalized E rs)) (\<lambda>sig. retS (sig, fst (node_expel standing b2)))))))))"

definition sign_ki_robust :: "('f::field, 'g::ab_group_add, 's, 'sk, 'vk, 'r) node_env \<Rightarrow> bytes \<Rightarrow> ('f, 'g) ki_presignature
    \<Rightarrow> ('f, 'g) key_share \<Rightarrow> bytes \<Rightarrow> cheat option \<Rightarrow> ('f, 'g, 's, 'sk, 'vk, 'r, ('f \<times> 'f) \<times> party_id list) node_driver" where
  "sign_ki_robust N sid presig key msg cheat = retiring sid (sign_ki_robust_run N sid presig key msg cheat)"

definition sign_ki_pooled :: "('f::field, 'g::ab_group_add, 's, 'sk, 'vk, 'r) node_env \<Rightarrow> bytes \<Rightarrow> nat
    \<Rightarrow> ('f, 'g) key_share \<Rightarrow> bytes \<Rightarrow> cheat option \<Rightarrow> ('f, 'g, 's, 'sk, 'vk, 'r, 'f \<times> 'f) node_driver" where
  \<comment> \<open>the record leaves the pool before a share is sent\<close>
  "sign_ki_pooled N sid rid key msg cheat =
     bindS (on_pool (pool_consume rid)) (\<lambda>p. node_sign_ki N sid p key msg cheat)"

section \<open>Expel and restart\<close>

definition abort_with :: "ident_abort \<Rightarrow> string \<Rightarrow> error" where
  "abort_with ab extra = Abort (ab\<lparr>ab_detail := ab_detail ab @ ''; '' @ extra\<rparr>)"

fun policy_text :: "error \<Rightarrow> string" where
  \<comment> \<open>\<open>restart_committee\<close> fails with \<open>InvalidParams\<close> only\<close>
  "policy_text (InvalidParams m) = ''invalid parameters: '' @ m"
| "policy_text _ = ''''"

definition restart_step :: "nat \<Rightarrow> party_id \<Rightarrow> party_id list \<Rightarrow> ident_abort \<Rightarrow> party_id list option result" where
  \<comment> \<open>\<open>None\<close>: this node is expelled; the blame the code accumulates here is \<open>add_blame\<close>\<close>
  "restart_step t me current ab = (case restart_committee current (ab_blamed ab) t of
       Ok survivors \<Rightarrow> Ok (if me \<in> set survivors then Some survivors else None)
     | Err e \<Rightarrow> Err (abort_with ab (''expel-and-restart refused: '' @ policy_text e))
     | Panic \<Rightarrow> Panic)"

definition EXPELLED :: string where
  "EXPELLED = ''this node is expelled '' @ map char_of [0xE2, 0x80, 0x94 :: nat] @ '' the session continues over the surviving committee''"

type_synonym ('f, 'g, 's, 'sk, 'vk, 'r) restart_state =
  "party_id list \<times> party_id list \<times> nat \<times> ('f, 'g, 's, 'sk, 'vk, 'r) node_state"

definition after_abort :: "nat \<Rightarrow> ident_abort \<Rightarrow> ('f, 'g, 's, 'sk, 'vk, 'r) restart_state
    \<Rightarrow> 'a result \<times> ('f, 'g, 's, 'sk, 'vk, 'r) node_state + ('f, 'g, 's, 'sk, 'vk, 'r) restart_state" where
  "after_abort t ab rst = (case rst of (current, blamed_all, attempt, st) \<Rightarrow>
     case restart_step t (ns_me st) current ab of
       Ok (Some survivors) \<Rightarrow> Inr (survivors, add_blame blamed_all (ab_blamed ab), wadd attempt 1, st)
     | Ok None \<Rightarrow> Inl (Err (abort_with ab EXPELLED), st)
     | Err e \<Rightarrow> Inl (Err e, st)
     | Panic \<Rightarrow> Inl (Panic, st))"

definition node_keygen_attempt :: "('f::field, 'g::ab_group_add, 's, 'sk, 'vk, 'r) node_env \<Rightarrow> bytes \<Rightarrow> bytes \<Rightarrow> cheat option
    \<Rightarrow> ('f, 'g, 's, 'sk, 'vk, 'r) restart_state \<Rightarrow> (('f, 'g) key_share \<times> party_id list \<times> party_id list) result
        \<times> ('f, 'g, 's, 'sk, 'vk, 'r) node_state + ('f, 'g, 's, 'sk, 'vk, 'r) restart_state" where
  "node_keygen_attempt N sid tag cheat rst = (case rst of (current, blamed_all, attempt, st) \<Rightarrow>
     case joint_vss_run N (poison_sid sid attempt) tag KeyGen current (if attempt = 0 then cheat else None) st of
       (Ok share, st) \<Rightarrow> Inl (Ok (share, current, blamed_all), st)
     | (Err (Abort ab), st) \<Rightarrow> after_abort (p_t (ne_params N)) ab (current, blamed_all, attempt, st)
     | (Err e, st) \<Rightarrow> Inl (Err e, st)
     | (Panic, st) \<Rightarrow> Inl (Panic, st))"

definition keygen_with_restart :: "('f::field, 'g::ab_group_add, 's, 'sk, 'vk, 'r) node_env \<Rightarrow> bytes \<Rightarrow> bytes \<Rightarrow> cheat option
    \<Rightarrow> ('f, 'g, 's, 'sk, 'vk, 'r) node_state \<Rightarrow> ((('f, 'g) key_share \<times> party_id list \<times> party_id list) result
        \<times> ('f, 'g, 's, 'sk, 'vk, 'r) node_state) option" where
  \<comment> \<open>\<open>None\<close>: the loop does not end\<close>
  "keygen_with_restart N sid tag cheat st = map_option (\<lambda>out. retiring sid (\<lambda>_. out) st)
     (restart_loop (node_keygen_attempt N sid tag cheat) (parties (ne_params N), [], 0, st))"

definition node_presign_attempt :: "('f::field, 'g::ab_group_add, 's, 'sk, 'vk, 'r) node_env \<Rightarrow> bytes \<Rightarrow> nat \<Rightarrow> ('f, 'g) key_share
    \<Rightarrow> cheat option \<Rightarrow> ('f, 'g, 's, 'sk, 'vk, 'r) restart_state
    \<Rightarrow> (('f, 'g) presignature \<times> nat \<times> party_id list \<times> party_id list) result \<times> ('f, 'g, 's, 'sk, 'vk, 'r) node_state
        + ('f, 'g, 's, 'sk, 'vk, 'r) restart_state" where
  "node_presign_attempt N sid first_id key cheat rst = (case rst of (current, blamed_all, attempt, st) \<Rightarrow>
     let rid = wadd first_id attempt in
     case presign_robust_run N (poison_sid sid attempt) rid key current (if attempt = 0 then cheat else None) st of
       (Ok (p, in_attempt), st) \<Rightarrow> Inl (Ok (p, rid, current, add_blame blamed_all in_attempt), st)
     | (Err (Abort ab), st) \<Rightarrow> after_abort (p_t (ne_params N)) ab (current, blamed_all, attempt, st)
     | (Err e, st) \<Rightarrow> Inl (Err e, st)
     | (Panic, st) \<Rightarrow> Inl (Panic, st))"

definition presign_with_restart_over :: "('f::field, 'g::ab_group_add, 's, 'sk, 'vk, 'r) node_env \<Rightarrow> bytes \<Rightarrow> nat
    \<Rightarrow> ('f, 'g) key_share \<Rightarrow> party_id list \<Rightarrow> cheat option \<Rightarrow> ('f, 'g, 's, 'sk, 'vk, 'r) node_state
    \<Rightarrow> ((('f, 'g) presignature \<times> nat \<times> party_id list \<times> party_id list) result \<times> ('f, 'g, 's, 'sk, 'vk, 'r) node_state) option" where
  "presign_with_restart_over N sid first_id key start cheat st = map_option (\<lambda>out. retiring sid (\<lambda>_. out) st)
     (restart_loop (node_presign_attempt N sid first_id key cheat) (start, [], 0, st))"

definition presign_with_restart :: "('f::field, 'g::ab_group_add, 's, 'sk, 'vk, 'r) node_env \<Rightarrow> bytes \<Rightarrow> nat
    \<Rightarrow> ('f, 'g) key_share \<Rightarrow> cheat option \<Rightarrow> ('f, 'g, 's, 'sk, 'vk, 'r) node_state
    \<Rightarrow> ((('f, 'g) presignature \<times> nat \<times> party_id list \<times> party_id list) result \<times> ('f, 'g, 's, 'sk, 'vk, 'r) node_state) option" where
  "presign_with_restart N sid first_id key cheat st =
     presign_with_restart_over N sid first_id key (parties (ne_params N)) cheat st"

end
