(* ===== verification/Node_Blame.thy ===== *)
theory Node_Blame
  imports Node_Sign
begin

text \<open>
  Whom the drivers of a node can blame. An abort of a session over a committee names at least one party of that
  committee and no other, whatever the network delivers; so every restart expels a member, and the loops
  \<open>keygen_with_restart\<close> and \<open>presign_with_restart\<close> end. The predicates below say it of a result and of a driver, and the
  rules follow the combinators the drivers are written in.
\<close>

section \<open>Results and drivers that blame only members\<close>

definition fairR :: "party_id list \<Rightarrow> ('a \<Rightarrow> bool) \<Rightarrow> 'a result \<Rightarrow> bool" where
  "fairR ids R r \<longleftrightarrow> (case r of Ok a \<Rightarrow> R a | Panic \<Rightarrow> True
     | Err e \<Rightarrow> (case e of Abort ab \<Rightarrow> ab_blamed ab \<noteq> [] \<and> set (ab_blamed ab) \<subseteq> set ids | _ \<Rightarrow> True))"

definition fair :: "party_id list \<Rightarrow> ('a \<Rightarrow> bool) \<Rightarrow> ('st, error, 'a) sm \<Rightarrow> bool" where
  "fair ids R m \<longleftrightarrow> (\<forall>st. fairR ids R (fst (m st)))"

abbreviation members :: "party_id list \<Rightarrow> 'v btree \<Rightarrow> bool" where
  "members ids m \<equiv> fst ` set m \<subseteq> set ids"

lemma members_insert: "members ids m \<Longrightarrow> i \<in> set ids \<Longrightarrow> members ids (bt_insert i v m)"
  by (rule order_trans [OF image_mono [OF set_bt_insert]]) simp

lemma member_key: "members ids m \<Longrightarrow> (f, v) \<in> set m \<Longrightarrow> f \<in> set ids"
  by force

lemma member_get: "members ids m \<Longrightarrow> bt_get m f = Some v \<Longrightarrow> f \<in> set ids"
  using bt_get_notin [of f m] by (cases "f \<in> fst ` set m") auto

lemma fairR_simps [simp]:
  "fairR ids R (Ok a) = R a" "fairR ids R Panic" "fairR ids R (Err (InvalidParams x))" "fairR ids R (Err (ZeroValue x))"
  "fairR ids R (Err (NotEnoughShares i j))" "fairR ids R (Err Ecdsa)" "fairR ids R (Err (PresigStore x))"
  by (simp_all add: fairR_def)

lemma fairR_abort [simp]: "fairR ids R (abort ph bl d) \<longleftrightarrow> bl \<noteq> [] \<and> set bl \<subseteq> set ids"
  by (simp add: fairR_def abort_def)

lemma fairR_of_opt: "(\<And>a. x = Some a \<Longrightarrow> R a) \<Longrightarrow> fairR ids R (of_opt x)"
  by (cases x) (simp_all add: of_opt_def)

lemma fairR_bind: "fairR ids Q m \<Longrightarrow> (\<And>a. m = Ok a \<Longrightarrow> Q a \<Longrightarrow> fairR ids R (f a)) \<Longrightarrow> fairR ids R (bindR m f)"
  by (cases m) (simp_all add: fairR_def)

lemma fairR_bind_opt: "(\<And>a. x = Some a \<Longrightarrow> fairR ids R (f a)) \<Longrightarrow> fairR ids R (bindR (of_opt x) f)"
  by (cases x) (simp_all add: of_opt_def)

lemma fairR_foldR:
  assumes "I s" "\<And>x s. x \<in> set xs \<Longrightarrow> I s \<Longrightarrow> fairR ids I (f x s)"
  shows "fairR ids I (foldR f xs s)"
  using assms
proof (induction xs arbitrary: s)
  case (Cons x xs)
  then have "fairR ids I (f x s)" by simp
  then show ?case using Cons by (auto intro!: fairR_bind)
qed simp

lemma fairR_mapR: "(\<And>x. x \<in> set xs \<Longrightarrow> fairR ids (\<lambda>_. True) (f x)) \<Longrightarrow> fairR ids (\<lambda>_. True) (mapR f xs)"
proof (induction xs)
  case (Cons x xs)
  then have "fairR ids (\<lambda>_. True) (f x)" "fairR ids (\<lambda>_. True) (mapR f xs)" by simp_all
  then show ?case by (auto intro!: fairR_bind)
qed simp

lemma fairR_weaken: "fairR ids Q r \<Longrightarrow> (\<And>a. Q a \<Longrightarrow> R a) \<Longrightarrow> fairR ids R r"
  by (cases r) (simp_all add: fairR_def)

lemma fair_bind:
  assumes "fair ids Q m" "\<And>a. Q a \<Longrightarrow> fair ids R (f a)"
  shows "fair ids R (bindS m f)"
  unfolding fair_def
proof
  fix st
  obtain r st1 where m: "m st = (r, st1)" by fastforce
  then have r: "fairR ids Q r" using assms(1) unfolding fair_def by (metis fst_conv)
  show "fairR ids R (fst (bindS m f st))"
  proof (cases r)
    case (Ok a)
    then show ?thesis using assms(2) [of a] r m by (simp add: bindS_def fair_def)
  qed (use r m in \<open>simp_all add: bindS_def fairR_def\<close>)
qed

lemma fair_lift: "fairR ids R r \<Longrightarrow> fair ids R (liftR r)"
  by (simp add: fair_def liftR_def)

lemma fair_ret: "R a \<Longrightarrow> fair ids R (retS a)"
  by (simp add: fair_def retS_def)

lemma fair_ask: "fair ids (\<lambda>_. True) (ask f)"
  by (simp add: fair_def ask_def)

lemma fair_on_rng: "fair ids (\<lambda>_. True) (on_rng f)"
  by (simp add: fair_def on_rng_def split: prod.split)

lemma fair_on_node: "fair ids (\<lambda>_. True) (on_node f)"
  by (simp add: fair_def on_node_def)

lemma fst_on_error: "fst (on_error f m st) = fst (m st)"
  by (simp add: on_error_def split: prod.split res.split)

lemma fst_retiring: "fst (retiring sid m st) = fst (m st)"
  by (simp add: retiring_def split: prod.split)

lemma fair_on_error: "fair ids R m \<Longrightarrow> fair ids R (on_error f m)"
  by (simp add: fair_def fst_on_error)

lemma fair_retiring: "fair ids R m \<Longrightarrow> fair ids R (retiring sid m)"
  by (simp add: fair_def fst_retiring)

lemma fair_broadcast: "fair ids (\<lambda>_. True) (node_broadcast N sid ph round p)"
  by (simp add: fair_def node_broadcast_def)

lemma fair_send: "fair ids (\<lambda>_. True) (node_send_p2p N sid ph round i p)"
  by (simp add: fair_def node_send_p2p_def Let_def)

lemma fair_mapS: "(\<And>x. fair ids (\<lambda>_. True) (f x)) \<Longrightarrow> fair ids (\<lambda>_. True) (mapS f xs)"
proof (induction xs)
  case (Cons x xs)
  show ?case unfolding mapS.simps by (rule fair_bind [OF Cons.prems], rule fair_bind [OF Cons.IH [OF Cons.prems]]) (simp add: fair_ret)
qed (simp add: fair_ret)

lemma fair_weaken: "fair ids Q m \<Longrightarrow> (\<And>a. Q a \<Longrightarrow> R a) \<Longrightarrow> fair ids R m"
  unfolding fair_def by (meson fairR_weaken)

lemma wait_for_view: "wait_for N view n evs st = (v, st') \<Longrightarrow> \<exists>ac. v = view ac"
  by (induction N view n evs st rule: wait_for.induct) (auto split: if_splits)

lemma fair_broadcasts:
  fixes N :: "('f, 'g, 's, 'sk, 'vk, 'r) node_env"
  shows "fair ids (members ids) (accepted_broadcasts_over N sid ph round ids)"
proof -
  have "members ids (bcast_set ac sid ph round ids)" for ac :: "(('f, 'g, 's) node_payload, 's) acceptor"
  proof -
    have "members ids out \<Longrightarrow> set js \<subseteq> set ids \<Longrightarrow> members ids (foldl (\<lambda>out i. if c i then out
        else (case f i of None \<Rightarrow> out | Some x \<Rightarrow> bt_insert i (g x) out)) out js)"
      for out :: "'v btree" and c f and g :: "'x \<Rightarrow> 'v" and js
    proof (induction js arbitrary: out)
      case (Cons i js)
      have "members ids (bt_insert i (g x) out)" for x
        using Cons.prems by (intro members_insert) simp_all
      then show ?case using Cons by (auto split: option.split)
    qed simp
    from this [of "[]" ids] show ?thesis unfolding bcast_set_def by simp
  qed
  then have "fairR ids (members ids) (fst (accepted_broadcasts_over N sid ph round ids st))" for st :: "('f, 'g, 's, 'sk, 'vk, 'r) node_state"
    unfolding accepted_broadcasts_over_def
    by (cases "wait_for N (\<lambda>ac. bcast_set ac sid ph round ids) (length ids) (ns_events st) st")
      (auto split: prod.split dest!: wait_for_view simp del: image_subset_iff)
  then show ?thesis unfolding fair_def by blast
qed

lemma fair_p2p: "fair ids (members ids) (accepted_p2p_over N sid ph round ids)"
  by (auto simp: fair_def accepted_p2p_over_def p2p_over_def split: prod.splits dest!: wait_for_view)

lemma fair_require: "fair ids (\<lambda>_. True) (liftR (require_complete b))"
  by (simp add: fair_lift require_complete_def incomplete_def)

lemma fairR_pick_all:
  fixes envs :: "('f, 'g, 's) node_envelope btree" and sel :: "party_id \<Rightarrow> ('f, 'g, 's) node_payload \<Rightarrow> 'v option"
  assumes "members ids envs"
  shows "fairR ids (members ids) (pick_all ph d sel envs)"
  unfolding pick_all_def
proof (rule fairR_foldR)
  fix x :: "party_id \<times> ('f, 'g, 's) node_envelope" and out :: "'v btree"
  assume x: "x \<in> set envs" and out: "members ids out"
  obtain f se where "x = (f, se)" by fastforce
  with x have f: "x = (f, se)" "f \<in> set ids" using member_key [OF assms, of f se] by simp_all
  have "members ids (bt_insert f v out)" for v by (rule members_insert [OF out f(2)])
  then show "fairR ids (members ids) ((\<lambda>(f, se) out. case sel f (e_payload (se_envelope se)) of
      Some x \<Rightarrow> Ok (bt_insert f x out) | None \<Rightarrow> abort ph [f] d) x out)"
    using f by (auto split: option.split)
qed simp


lemma fairR_lagrange: "fairR ids (\<lambda>_. True) (lagrange_coeffs_at x ps)"
  unfolding lagrange_coeffs_at_def
  by (rule fairR_mapR) (auto simp: lagrange_one_def intro!: fairR_bind_opt fairR_bind split: prod.split)

lemma fairR_committee_new: "fairR ids (\<lambda>_. True) (committee_new js t)"
  by (auto simp: committee_new_def Let_def intro!: fairR_bind_opt)

section \<open>The joint random sharing\<close>

lemma fairR_failed_shares:
  assumes "\<And>i s. fairR ids (\<lambda>_. True) (verifies i s)"
  shows "fairR ids (\<lambda>_. True) (failed_shares verifies js mine)"
  unfolding failed_shares_def by (rule fairR_foldR) (auto intro!: fairR_bind_opt fairR_bind assms)

lemma fairR_revealed: "fairR ids (\<lambda>_. True) (revealed_verifies E r2 d a s)"
  unfolding revealed_verifies_def by (auto intro!: fairR_bind_opt)

lemma fairR_check_reveals: "fairR ids (\<lambda>_. True) (check_reveals E sid tag ph t ids r1 r2)"
  unfolding check_reveals_def
  by (rule fairR_foldR) (auto simp: check_reveal_def intro!: fairR_bind_opt)

lemma fairR_defenses_due:
  fixes cs :: "('f, 'g, 's) node_envelope btree" and defense_for :: "party_id \<Rightarrow> 'f result"
  assumes "members ids cs" "\<And>a. fairR ids (\<lambda>_. True) (defense_for a)"
  shows "fairR ids (\<lambda>_. True) (defenses_due ph me defense_for cs)"
  unfolding defenses_due_def
proof (rule fairR_foldR)
  fix x :: "party_id \<times> ('f, 'g, 's) node_envelope" and out :: "(party_id \<times> 'f) list"
  assume x: "x \<in> set cs"
  obtain a se where "x = (a, se)" by fastforce
  with x have "x = (a, se)" "a \<in> set ids" using member_key [OF assms(1), of a se] by simp_all
  then show "fairR ids (\<lambda>_. True) ((\<lambda>(a, se) defs. case e_payload (se_envelope se) of
       Complaints ds \<Rightarrow> if me \<in> set ds then bindR (defense_for a) (\<lambda>s. Ok (defs @ [(a, s)])) else Ok defs
     | _ \<Rightarrow> abort ph [a] ''malformed complaint broadcast'') x out)"
    using assms(2) [of a] by (auto split: node_payload.split intro!: fairR_bind)
qed simp

lemma first_complaint_member:
  assumes "members ids cs"
  shows "fairR ids (\<lambda>fc. case fc of None \<Rightarrow> True | Some (a, d) \<Rightarrow> a \<in> set ids) (first_complaint ph cs)"
  using assms by (induction ph cs rule: first_complaint.induct) (auto split: node_payload.split)

lemma fairR_adjudicate:
  assumes "members ids cs" "members ids ds" "\<And>d a s. fairR ids (\<lambda>_. True) (verifies d a s)"
  shows "fairR ids (\<lambda>_. True) (adjudicate ph verifies cs ds)"
  unfolding adjudicate_def
proof (rule fairR_bind [OF first_complaint_member [OF assms(1)]])
  fix fc :: "(party_id \<times> party_id) option"
  assume fc: "case fc of None \<Rightarrow> True | Some (a, d) \<Rightarrow> a \<in> set ids"
  show "fairR ids (\<lambda>_. True) (case fc of
       None \<Rightarrow> Ok ()
     | Some (a, d) \<Rightarrow> bindR (of_opt (bt_get ds d)) (\<lambda>se. case e_payload (se_envelope se) of
           Defenses defs \<Rightarrow> (case find (\<lambda>(x, _). x = a) defs of
               None \<Rightarrow> abort ph [d] (''dealer '' @ dec_str d @ '' broadcast no defense against '' @ dec_str a @ [CHR 0x27] @ ''s complaint'')
             | Some (_, share) \<Rightarrow> bindR (verifies d a share) (\<lambda>ok.
                 if ok then abort ph [a] (''false accusation: dealer '' @ dec_str d @ [CHR 0x27]
                   @ ''s defense share verifies against its commitment'')
                 else abort ph [d] (''dealer '' @ dec_str d @ [CHR 0x27] @ ''s defense share fails verification against its commitment'')))
         | _ \<Rightarrow> abort ph [d] ''malformed defense broadcast''))"
  proof (cases fc)
    case (Some p)
    then obtain a d where p: "fc = Some (a, d)" "a \<in> set ids" using fc by (cases p) auto
    have "d \<in> set ids" if "bt_get ds d = Some se" for se
      by (rule member_get [OF assms(2) that])
    then show ?thesis using p assms(3)
      by (auto intro!: fairR_bind_opt fairR_bind [where Q = "\<lambda>_. True"] split: node_payload.split option.split)
  qed simp
qed

lemma fair_complaint_round:
  assumes "\<And>a. fairR ids (\<lambda>_. True) (defense_for a)" "\<And>d a s. fairR ids (\<lambda>_. True) (verifies d a s)"
  shows "fair ids (\<lambda>_. True) (complaint_round N sid ph rounds ids complaints defense_for verifies)"
  unfolding complaint_round_def
  by (intro fair_bind [OF fair_broadcast] fair_bind [OF fair_broadcasts] fair_bind [OF fair_require] fair_bind [OF fair_ask]
    fair_bind [OF fair_lift [OF fairR_defenses_due]] fair_lift fairR_adjudicate assms)


lemma fair_joint_vss_run: "fair ids (\<lambda>_. True) (joint_vss_run N sid tag ph ids cheat)"
proof -
  have deal: "fair ids (\<lambda>_. True) (vss_deal N sid ph cheat inst b1)" for inst b1
    unfolding vss_deal_def split_beta dkg_reveal_def
    by (intro fair_bind [OF fair_broadcast] fair_bind [OF fair_lift] fair_bind [OF fair_mapS] fair_send fair_ret TrueI
      fairR_bind [where Q = "\<lambda>_. True"]) (auto simp: com_add_const_def split: list.split)
  have messages: "fairR ids (\<lambda>_. True) (vss_messages ph me r1 r2 sh)" if "members ids r1" "members ids r2" "members ids sh" for me r1 r2 sh
    unfolding vss_messages_def
    by (intro fairR_bind [OF fairR_pick_all] that) simp
  have out: "fairR ids (\<lambda>_. True) (vss_output me ids mine r2)" for me mine r2
    unfolding vss_output_def split_beta
    by (intro fairR_bind [OF fairR_foldR [where I = "\<lambda>_. True"]]) (auto simp: com_sum_def intro!: fairR_bind_opt split: list.split)
  have defense: "fairR ids (\<lambda>_. True) (vss_defense cheat inst a)" for inst a
    by (simp add: vss_defense_def)
  show ?thesis
    unfolding joint_vss_run_def Let_def split_beta
    by (intro fair_bind [OF fair_ask] fair_bind [OF fair_lift [OF fairR_committee_new]] fair_bind [OF fair_on_rng] fair_bind [OF deal]
      fair_bind [OF fair_broadcasts] fair_bind [OF fair_p2p] fair_bind [OF fair_require] fair_bind [OF fair_lift [OF messages]]
      fair_bind [OF fair_lift [OF fairR_check_reveals]] fair_bind [OF fair_lift [OF fairR_failed_shares]] fairR_revealed
      fair_bind [OF fair_on_error [OF fair_complaint_round]] defense fair_lift out)
qed

lemma fair_joint_vss_over: "fair ids (\<lambda>_. True) (joint_vss_over N sid tag ph ids cheat)"
  unfolding joint_vss_over_def by (rule fair_retiring [OF fair_joint_vss_run])

section \<open>Triples and presignatures\<close>

lemma fairR_dealt: "fairR ids (\<lambda>_. True) (dealt_verifies E deals d a s)"
  unfolding dealt_verifies_def by (auto intro!: fairR_bind_opt)

lemma fairR_combine: "fairR ids (\<lambda>_. True) (triple_combine E me ids alpha beta deals mine)"
  unfolding triple_combine_def lagrange_coeffs_def split_beta
  by (intro fairR_bind [OF fairR_lagrange] fairR_bind [OF fairR_mapR]) (auto simp: com_sum_def intro!: fairR_bind_opt fairR_bind split: list.split)

lemma fair_triple_t1_t2: "fair ids (\<lambda>_. True) (triple_t1_t2 N sid ids cheat)"
  unfolding triple_t1_t2_def Let_def split_beta
  by (intro fair_bind [OF fair_ask] fair_bind [OF fair_joint_vss_over] fair_bind [OF fair_on_rng] fair_bind [OF fair_broadcast]
    fair_bind [OF fair_mapS] fair_send fair_bind [OF fair_broadcasts] fair_bind [OF fair_p2p] fair_bind [OF fair_require]
    fair_bind [OF fair_lift [OF fairR_pick_all]] fair_ret TrueI)

lemma fair_check_proofs: "fair ids (\<lambda>_. True) (triple_check_proofs N sid ids deals ca cb)"
proof -
  have "fairR ids (\<lambda>_. True) (check_proof E sid deals ca cb i)" if "i \<in> set ids" for E i
    using that unfolding check_proof_def proof_holds_def by (auto intro!: fairR_bind_opt fairR_bind [where Q = "\<lambda>_. True"])
  then show ?thesis unfolding triple_check_proofs_def by (intro fair_on_error fair_lift fairR_foldR) simp_all
qed

lemma fair_triple_over: "fair ids (\<lambda>_. True) (triple_over N sid ids cheat)"
proof -
  have sent: "fairR ids (\<lambda>_. True) (of_opt (bt_get m a))" for m and a :: party_id by (rule fairR_of_opt) simp
  show ?thesis
    unfolding triple_over_def triple_run_def Let_def split_beta
    by (intro fair_retiring fair_bind [OF fair_ask] fair_bind [OF fair_triple_t1_t2] fair_bind [OF fair_check_proofs]
      fair_bind [OF fair_lift [OF fairR_failed_shares]] fairR_dealt fair_bind [OF fair_on_error [OF fair_complaint_round]] sent
      fair_lift fairR_combine)
qed

lemma fair_presign_p1: "fair ids (\<lambda>_. True) (presign_p1 N sid ids cheat)"
  unfolding presign_p1_def
  by (intro fair_bind [OF fair_triple_over] fair_bind [OF fair_joint_vss_over] fair_ret TrueI)


lemma fairR_subset: "fairR js R r \<Longrightarrow> set js \<subseteq> set ids \<Longrightarrow> fairR ids R r"
  by (simp add: fairR_def split: res.splits error.splits) blast

lemma fair_subset: "fair js R m \<Longrightarrow> set js \<subseteq> set ids \<Longrightarrow> fair ids R m"
  unfolding fair_def using fairR_subset by blast

lemma fair_open_shares: "fair ids (members ids) (collect_open_shares N sid ph round ids)"
  unfolding collect_open_shares_def
  by (intro fair_bind [OF fair_broadcasts] fair_bind [OF fair_require] fair_lift fairR_pick_all)

lemma fair_beaver_opens: "fair ids (\<lambda>_. True) (collect_beaver_opens N sid ph round ids)"
  unfolding collect_beaver_opens_def
  by (intro fair_bind [OF fair_broadcasts] fair_bind [OF fair_require] fair_bind [OF fair_lift [OF fairR_pick_all]] fair_ret TrueI)

lemma fair_open_robust: "fair ids (\<lambda>_. True) (open_robust_noted N com shares ph)"
proof -
  have "fairR ids (\<lambda>_. True) (open_robust E t com shares ph)" for E t
    unfolding open_robust_def Let_def split_beta interpolate_at_zero_def interpolate_at_def
    by (auto intro!: fairR_bind [OF fairR_lagrange] fairR_bind [where Q = "\<lambda>_. True"])
  then show ?thesis
    unfolding open_robust_noted_def split_beta
    by (intro fair_bind [OF fair_lift] fair_bind [OF fair_on_node] fair_ret TrueI)
qed

lemma expel_active: "set (snd (node_expel st new)) \<subseteq> set (snd st)"
proof -
  have step: "set (snd ((case st of (blamed, active) \<Rightarrow> \<lambda>j.
      (if j \<in> set blamed then blamed else blamed @ [j], filter (\<lambda>p. p \<noteq> j) active)) j)) \<subseteq> set (snd st)"
    for j :: party_id and st :: "party_id list \<times> party_id list" by (cases st) auto
  have "set (snd (expel st new)) \<subseteq> set (snd st)"
    unfolding expel_def
  proof (induction new arbitrary: st)
    case (Cons j new)
    show ?case unfolding foldl_Cons by (rule order_trans [OF Cons.IH step])
  qed simp
  then show ?thesis by (simp add: node_expel_def split_beta)
qed

lemma fair_masks_robust:
  assumes "set (snd standing) \<subseteq> set ids"
  shows "fair ids (\<lambda>(_, st). set (snd st) \<subseteq> set ids) (node_masks_robust N sid ph round standing d_com e_com d e)"
  unfolding node_masks_robust_def split_beta
  by (intro fair_bind [OF fair_broadcast] fair_bind [OF fair_subset [OF fair_beaver_opens assms]] fair_bind [OF fair_open_robust] fair_ret)
    (simp, rule order_trans [OF order_trans [OF expel_active expel_active] assms])

lemma fairR_sort_nonces:
  fixes envs :: "('f::field, 'g::ab_group_add, 's) node_envelope btree"
  assumes "members ids envs"
  shows "fairR ids (\<lambda>_. True) (sort_nonces E k_com envs)"
  unfolding sort_nonces_def
proof (rule fairR_foldR)
  fix x :: "party_id \<times> ('f, 'g, 's) node_envelope" and out :: "party_id list \<times> 'g list \<times> party_id list"
  assume x: "x \<in> set envs"
  obtain f se where "x = (f, se)" by fastforce
  with x have f: "x = (f, se)" "f \<in> set ids" using member_key [OF assms, of f se] by simp_all
  then show "fairR ids (\<lambda>_. True) ((\<lambda>(f, se) (ok, ps, bad). case e_payload (se_envelope se) of
       Nonce_Point p \<Rightarrow> if p = com_eval_at E k_com f then Ok (ok @ [f], ps @ [p], bad) else Ok (ok, ps, bad @ [f])
     | _ \<Rightarrow> abort Presign [f] ''malformed nonce broadcast'') x out)"
    by (cases out) (simp split: node_payload.split)
qed simp

lemma fairR_beaver_com: "fairR ids (\<lambda>_. True) (beaver_com E pub d e)"
  by (auto simp: beaver_com_def com_add_const_def split: list.split)

lemma fairR_nonce: "fairR ids (\<lambda>_. True) (bindR (lagrange_coeffs js) (\<lambda>lambdas. nonce_scalar E msg lambdas ps))"
  unfolding lagrange_coeffs_def nonce_scalar_def Let_def
  by (intro fairR_bind [OF fairR_lagrange] fairR_bind_opt) simp

lemma fair_presign_p1_p3_robust: "fair ids (\<lambda>(_, st). set (snd st) \<subseteq> set ids) (presign_p1_p3_robust N sid ids cheat)"
proof -
  have inv: "fairR ids (\<lambda>_. True) (invert_v msg v)" for msg and v :: "'x::field"
    by (simp add: invert_v_def split: option.split)
  have members: "members ids m" if "members js m" "set js \<subseteq> set ids" for m :: "'v btree" and js
    using that by blast
  show ?thesis
    unfolding presign_p1_p3_robust_def Let_def split_beta
    apply (intro fair_bind [OF fair_presign_p1] fair_bind [OF fair_masks_robust] fair_bind [OF fair_lift [OF fairR_beaver_com]]
      fair_bind [OF fair_broadcast])
     apply simp
    subgoal for p1 masks v_com u
      apply (rule fair_bind [OF fair_subset [OF fair_open_shares]])
       apply (simp add: split_beta)
      apply (intro fair_bind [OF fair_open_robust] fair_bind [OF fair_lift [OF inv]] fair_bind [OF fair_broadcast])
      apply (rule fair_bind [OF fair_subset [OF fair_broadcasts]])
       apply (simp add: split_beta) apply (meson expel_active order_trans)
      apply (rule fair_bind [OF fair_require], rule fair_bind [OF fair_lift [OF fairR_sort_nonces]])
       apply (erule members) apply (simp add: split_beta) apply (meson expel_active order_trans)
      apply (rule fair_bind [OF fair_on_node], rule fair_bind [OF fair_lift [where R = "\<lambda>_. True"]], simp)
      apply (rule fair_bind [OF fair_lift [OF fairR_nonce]], rule fair_ret)
      apply (simp add: split_beta) apply (meson expel_active order_trans)
      done
    done
qed

lemma fair_presign_robust_run: "fair ids (\<lambda>_. True) (presign_robust_run N sid rid key ids cheat)"
proof -
  have rec: "fairR ids (\<lambda>_. True) (presign_record E rid me tr u nonce ms)" for E me tr u nonce and ms
    unfolding presign_record_def split_beta by (intro fairR_bind [OF fairR_beaver_com]) simp
  show ?thesis
    unfolding presign_robust_run_def Let_def split_beta
    by (intro fair_bind [OF fair_ask] fair_bind [OF fair_presign_p1_p3_robust] fair_bind [OF fair_triple_over]
      fair_bind [OF fair_masks_robust] fair_bind [OF fair_lift [OF rec]] fair_ret TrueI) (simp add: split_beta)
qed

section \<open>The restart loops end\<close>

lemma restart_loop_ends:
  fixes step :: "party_id list \<times> 'b \<Rightarrow> 'o + party_id list \<times> 'b"
  assumes "\<And>current b current' b'. step (current, b) = Inr (current', b') \<Longrightarrow> length current' < length current"
  shows "\<exists>out. restart_loop step (current, b) = Some out"
proof (induction "length current" arbitrary: current b rule: less_induct)
  case less
  show ?case
  proof (cases "step (current, b)")
    case (Inl out)
    then show ?thesis by (simp add: restart_loop_simps(1))
  next
    case (Inr st')
    obtain current' b' where st': "st' = (current', b')" by fastforce
    show ?thesis using less [of current' b'] assms [of current b current' b'] Inr st' by (simp add: restart_loop_simps(2))
  qed
qed

lemma after_abort_restart:
  assumes "after_abort t ab (current, rest) = Inr (current', rest')"
  shows "restart_committee current (ab_blamed ab) t = Ok current'"
  using assms by (auto simp: after_abort_def restart_step_def split: prod.splits res.splits option.splits if_splits)

lemma blamed_shrinks:
  assumes "restart_committee current (ab_blamed ab) t = Ok current'" "ab_blamed ab \<noteq> [] \<and> set (ab_blamed ab) \<subseteq> set current"
  shows "length current' < length current"
  by (rule restart_committee_shrinks [OF assms(1)]) (use assms(2) in \<open>cases "ab_blamed ab"; auto\<close>)

lemma fair_abort:
  assumes "fair ids R m" "m st = (Err (Abort ab), st')"
  shows "ab_blamed ab \<noteq> [] \<and> set (ab_blamed ab) \<subseteq> set ids"
proof -
  have "fairR ids R (fst (m st))" using assms(1) by (simp add: fair_def)
  then show ?thesis by (simp add: assms(2) fairR_def)
qed


lemma node_keygen_restart_ends: "\<exists>out. keygen_with_restart N sid tag cheat st = Some out"
proof -
  have shrinks: "length current' < length current"
    if step: "node_keygen_attempt N sid tag cheat (current, rest) = Inr (current', rest')" for current rest current' rest'
  proof -
    obtain bl attempt st where rest: "rest = (bl, attempt, st)" by (cases rest)
    obtain r st' where run: "joint_vss_run N (poison_sid sid attempt) tag KeyGen current (if attempt = 0 then cheat else None) st = (r, st')"
      by fastforce
    obtain ab where "r = Err (Abort ab)" "restart_committee current (ab_blamed ab) (p_t (ne_params N)) = Ok current'"
      using step [unfolded rest node_keygen_attempt_def prod.case run] by (auto split: res.splits error.splits dest: after_abort_restart)
    then show ?thesis using fair_abort [OF fair_joint_vss_run] run by (metis blamed_shrinks)
  qed
  have "\<exists>out. restart_loop (node_keygen_attempt N sid tag cheat) (parties (ne_params N), [], 0, st) = Some out"
    by (rule restart_loop_ends) (rule shrinks)
  then obtain out where "restart_loop (node_keygen_attempt N sid tag cheat) (parties (ne_params N), [], 0, st) = Some out" by blast
  then show ?thesis unfolding keygen_with_restart_def by simp
qed

lemma node_presign_restart_ends: "\<exists>out. presign_with_restart_over N sid first_id key start cheat st = Some out"
proof -
  have shrinks: "length current' < length current"
    if step: "node_presign_attempt N sid first_id key cheat (current, rest) = Inr (current', rest')" for current rest current' rest'
  proof -
    obtain bl attempt st where rest: "rest = (bl, attempt, st)" by (cases rest)
    obtain r st' where run: "presign_robust_run N (poison_sid sid attempt) (wadd first_id attempt) key current
        (if attempt = 0 then cheat else None) st = (r, st')"
      by fastforce
    obtain ab where "r = Err (Abort ab)" "restart_committee current (ab_blamed ab) (p_t (ne_params N)) = Ok current'"
      using step [unfolded rest node_presign_attempt_def prod.case run Let_def] by (auto split: res.splits prod.splits error.splits dest: after_abort_restart)
    then show ?thesis using fair_abort [OF fair_presign_robust_run] run by (metis blamed_shrinks)
  qed
  have "\<exists>out. restart_loop (node_presign_attempt N sid first_id key cheat) (start, [], 0, st) = Some out"
    by (rule restart_loop_ends) (rule shrinks)
  then obtain out where "restart_loop (node_presign_attempt N sid first_id key cheat) (start, [], 0, st) = Some out" by blast
  then show ?thesis unfolding presign_with_restart_over_def by simp
qed

end
