(* ===== verification/Seal.thy ===== *)
theory Seal
  imports Codec
begin

text \<open>
  Sealing at rest (\<open>node/src/store/seal.rs\<close>): the storage key, the envelope of a sealed file, and the choice of the
  key's source. The AEAD cipher is a third-party crate, so it is a parameter; \<open>cipher_ok\<close> states its
  documented contract, decryption of what was encrypted under the same key, nonce and associated data.
\<close>

section \<open>The cipher\<close>

record cipher =
  cp_encrypt :: "bytes \<Rightarrow> bytes \<Rightarrow> bytes \<Rightarrow> bytes \<Rightarrow> bytes"
  cp_decrypt :: "bytes \<Rightarrow> bytes \<Rightarrow> bytes \<Rightarrow> bytes \<Rightarrow> bytes option"

definition cipher_ok :: "cipher \<Rightarrow> bool" where
  \<comment> \<open>key, nonce, associated data, text\<close>
  "cipher_ok C \<longleftrightarrow> (\<forall>k n aad m. cp_decrypt C k n aad (cp_encrypt C k n aad m) = Some m)"

section \<open>The storage key\<close>

datatype seal_error = Legacy_Cleartext | Auth_Failed | Malformed

definition SEAL_MAGIC :: bytes where
  "SEAL_MAGIC = str_bytes ''OHMSEAL1''"

definition KEY_DERIVE_TAG :: bytes where
  "KEY_DERIVE_TAG = str_bytes ''OHM-ECDSA-node/v0.1/storage-key''"

record storage_key =
  sk_key :: bytes

definition from_secret :: "(bytes \<Rightarrow> bytes) \<Rightarrow> bytes \<Rightarrow> storage_key" where
  \<comment> \<open>\<open>hash\<close> is SHA-256\<close>
  "from_secret hash secret = \<lparr>sk_key = hash (KEY_DERIVE_TAG @ secret)\<rparr>"

definition seal_file :: "cipher \<Rightarrow> storage_key \<Rightarrow> bytes \<Rightarrow> bytes \<Rightarrow> bytes \<Rightarrow> bytes" where
  \<comment> \<open>\<open>nonce\<close>: 12 bytes of the operating system's generator\<close>
  "seal_file C key nonce purpose plaintext =
     SEAL_MAGIC @ nonce @ cp_encrypt C (sk_key key) nonce (SEAL_MAGIC @ purpose) plaintext"

definition is_sealed :: "bytes \<Rightarrow> bool" where
  "is_sealed b \<longleftrightarrow> take (length SEAL_MAGIC) b = SEAL_MAGIC"

definition open_file :: "cipher \<Rightarrow> storage_key \<Rightarrow> bytes \<Rightarrow> bytes \<Rightarrow> (seal_error, bytes) res" where
  "open_file C key purpose sealed =
     (if \<not> is_sealed sealed then Err Legacy_Cleartext
      else let rest = drop (length SEAL_MAGIC) sealed in
        if length rest < 12 then Err Malformed
        else case cp_decrypt C (sk_key key) (take 12 rest) (SEAL_MAGIC @ purpose) (drop 12 rest) of
            None \<Rightarrow> Err Auth_Failed | Some m \<Rightarrow> Ok m)"

section \<open>Where the key comes from\<close>

datatype key_source =
    Env_Var
  | Key_File string
  | Helper string "string list" nat
  | Generated string

definition DEFAULT_COMMAND_TIMEOUT :: nat where "DEFAULT_COMMAND_TIMEOUT = 5"

definition STORAGE_KEY_FILE :: string where "STORAGE_KEY_FILE = ''storage.key''"

definition white :: "char \<Rightarrow> bool" where
  "white c \<longleftrightarrow> c \<in> {CHR '' '', CHR 0x09, CHR 0x0A, CHR 0x0B, CHR 0x0C, CHR 0x0D}"

fun split_words :: "string \<Rightarrow> string \<Rightarrow> string list" where
  \<comment> \<open>\<open>split_whitespace\<close>; the second argument is the word being read\<close>
  "split_words [] w = (if w = [] then [] else [w])"
| "split_words (c # cs) w = (if white c then (if w = [] then split_words cs [] else w # split_words cs [])
     else split_words cs (w @ [c]))"

definition source_from_env :: "string option \<Rightarrow> string option \<Rightarrow> string option \<Rightarrow> (string \<Rightarrow> bool) \<Rightarrow> string
    \<Rightarrow> (string, key_source option) res" where
  \<comment> \<open>a helper command first, then the key itself, then a key file, then the file beside the data\<close>
  "source_from_env cmd key_hex key_file exists beside = (case cmd of
       Some cmd \<Rightarrow> (case split_words cmd [] of
           [] \<Rightarrow> Err ''OHM_STORAGE_KEY_CMD is empty (whitespace-only)''
         | program # args \<Rightarrow> Ok (Some (Helper program args DEFAULT_COMMAND_TIMEOUT)))
     | None \<Rightarrow> if key_hex \<noteq> None then Ok (Some Env_Var)
         else (case key_file of
             Some path \<Rightarrow> Ok (Some (Key_File path))
           | None \<Rightarrow> let default = beside @ ''/'' @ STORAGE_KEY_FILE
               in if exists default then Ok (Some (Key_File default)) else Ok None))"

section \<open>Opening what was sealed\<close>

lemma open_seal:
  assumes "cipher_ok C" "length nonce = 12"
  shows "open_file C key purpose (seal_file C key nonce purpose m) = Ok m"
  using assms by (simp add: open_file_def seal_file_def is_sealed_def Let_def cipher_ok_def)

lemma sealed_is_sealed: "is_sealed (seal_file C key nonce purpose m)"
  by (simp add: is_sealed_def seal_file_def)

end
