(* ===== verification/Store_Journal.thy ===== *)
theory Store_Journal
  imports Codec Seal
begin

text \<open>
  The journal of the durable store (\<open>node/src/store/persist.rs\<close>): every mutation is an entry of a hash chain, framed by
  its length; opening a store replays the chain and reconciles its final state with the directory. A replayed
  journal is exactly the concatenation of the frames of its entries, so a file that ends inside an entry is refused.
\<close>

section \<open>Entries\<close>

definition JOURNAL_TAG :: bytes where "JOURNAL_TAG = str_bytes ''OHM-ECDSA-node/v0.1/store-journal''"
definition PAYLOAD_TAG :: bytes where "PAYLOAD_TAG = str_bytes ''OHM-ECDSA-node/v0.1/store-payload''"
definition OP_INSERT :: byte where "OP_INSERT = 1"
definition OP_CONSUME :: byte where "OP_CONSUME = 2"
definition OP_EXPIRE :: byte where "OP_EXPIRE = 3"
definition OP_BURN :: byte where "OP_BURN = 4"
definition ZERO_HASH :: bytes where "ZERO_HASH = replicate 32 0"

definition payload_digest :: "(bytes \<Rightarrow> bytes) \<Rightarrow> bytes \<Rightarrow> bytes" where
  \<comment> \<open>\<open>hash\<close> is SHA-256\<close>
  "payload_digest hash b = hash (PAYLOAD_TAG @ b)"

definition entry_digest :: "(bytes \<Rightarrow> bytes) \<Rightarrow> nat \<Rightarrow> byte \<Rightarrow> nat \<Rightarrow> bytes \<Rightarrow> bytes \<Rightarrow> bytes" where
  "entry_digest hash seq op rid prev payload = hash (JOURNAL_TAG @ u64_be seq @ [op] @ u64_be rid @ prev @ payload)"

record journal_entry =
  je_seq :: nat
  je_op :: byte
  je_id :: nat
  je_prev :: bytes
  je_payload :: bytes
  je_hash :: bytes

definition entry_new :: "(bytes \<Rightarrow> bytes) \<Rightarrow> nat \<Rightarrow> byte \<Rightarrow> nat \<Rightarrow> bytes \<Rightarrow> bytes \<Rightarrow> journal_entry" where
  "entry_new hash seq op rid prev payload = \<lparr>je_seq = seq, je_op = op, je_id = rid, je_prev = prev, je_payload = payload,
     je_hash = entry_digest hash seq op rid prev payload\<rparr>"

definition entry_encode :: "journal_entry \<Rightarrow> bytes" where
  "entry_encode e = put_u64 (je_seq e) @ [je_op e] @ put_u64 (je_id e) @ je_prev e @ je_payload e @ je_hash e"

definition take_hash :: "bytes decoder" where
  "take_hash b = do { a \<leftarrow> get_to b 32; Some (a, 32) }"

definition entry_decode :: "bytes \<Rightarrow> journal_entry option" where
  "entry_decode b = do {
     (seq, used) \<leftarrow> take_u64 b;
     rest \<leftarrow> get_from b used;
     (op, u) \<leftarrow> take_u8 rest;
     let used = used + u;
     rest \<leftarrow> get_from b used;
     (rid, u) \<leftarrow> take_u64 rest;
     let used = used + u;
     rest \<leftarrow> get_from b used;
     (prev, u) \<leftarrow> take_hash rest;
     let used = used + u;
     rest \<leftarrow> get_from b used;
     (payload, u) \<leftarrow> take_hash rest;
     let used = used + u;
     rest \<leftarrow> get_from b used;
     (h, u) \<leftarrow> take_hash rest;
     let used = used + u;
     if used = length b then Some \<lparr>je_seq = seq, je_op = op, je_id = rid, je_prev = prev, je_payload = payload, je_hash = h\<rparr>
     else None }"

section \<open>Replay\<close>

definition op_of :: "journal_entry list \<Rightarrow> nat \<Rightarrow> byte option" where
  \<comment> \<open>the last operation on an id\<close>
  "op_of es rid = map_option je_op (find (\<lambda>e. je_id e = rid) (rev es))"

definition op_valid :: "nat \<Rightarrow> journal_entry list \<Rightarrow> journal_entry \<Rightarrow> (string, unit) res" where
  "op_valid n es e = (let known = (\<exists>l \<in> set es. je_id l = je_id e); live = (op_of es (je_id e) = Some OP_INSERT); op = je_op e in
     if op = OP_INSERT \<and> \<not> known then Ok ()
     else if (op = OP_CONSUME \<or> op = OP_EXPIRE) \<and> live then Ok ()
     else if op = OP_BURN \<and> \<not> known then Ok ()
     else if op = OP_INSERT then Err (''journal entry '' @ dec_str n @ '' re-inserts id '' @ dec_str (je_id e))
     else if op = OP_CONSUME \<or> op = OP_EXPIRE then Err (''journal entry '' @ dec_str n @ '' mutates non-live id '' @ dec_str (je_id e))
     else if op = OP_BURN then Err (''journal entry '' @ dec_str n @ '' re-burns id '' @ dec_str (je_id e))
     else Err (''journal entry '' @ dec_str n @ '' has unknown op '' @ dec_str (unat op)))"

definition journal_tip :: "journal_entry list \<Rightarrow> bytes" where
  "journal_tip es = (if es = [] then ZERO_HASH else je_hash (last es))"

definition check_entry :: "(bytes \<Rightarrow> bytes) \<Rightarrow> journal_entry list \<Rightarrow> journal_entry \<Rightarrow> (string, unit) res" where
  \<comment> \<open>sequence number, chain, digest and operation, in this order\<close>
  "check_entry hash es e = (let n = length es + 1 in
     if je_seq e \<noteq> n then Err (''journal entry seq '' @ dec_str (je_seq e) @ '' out of order (expected '' @ dec_str n @ '')'')
     else if je_prev e \<noteq> journal_tip es then Err (''journal entry '' @ dec_str n @ '' breaks the hash chain (prev_hash)'')
     else if je_hash e \<noteq> entry_digest hash (je_seq e) (je_op e) (je_id e) (je_prev e) (je_payload e)
       then Err (''journal entry '' @ dec_str n @ '' has a wrong entry_hash'')
     else op_valid n es e)"

function replay_from :: "(bytes \<Rightarrow> bytes) \<Rightarrow> journal_entry list \<Rightarrow> bytes \<Rightarrow> (string, journal_entry list) res" where
  \<comment> \<open>the loop, with the entries so far\<close>
  "replay_from hash es rest = (if rest = [] then Ok es
     else let n = length es + 1 in
       if length rest < 4 then Err (''journal truncated before entry '' @ dec_str n)
       else let len = be_nat (take 4 rest); body = take len (drop 4 rest) in
         if length rest < 4 + len then Err (''journal truncated inside entry '' @ dec_str n)
         else case entry_decode body of
             None \<Rightarrow> Err (''journal entry '' @ dec_str n @ '' is not canonical'')
           | Some e \<Rightarrow> bindR (check_entry hash es e) (\<lambda>_. replay_from hash (es @ [e]) (drop (4 + len) rest)))"
  by pat_completeness auto

termination replay_from
  by (relation "measure (\<lambda>(_, _, rest). length rest)") auto

declare replay_from.simps [simp del]

definition journal_replay :: "(bytes \<Rightarrow> bytes) \<Rightarrow> bytes \<Rightarrow> (string, journal_entry list) res" where
  "journal_replay hash b = replay_from hash [] b"

section \<open>The writer\<close>

record journal =
  jo_next_seq :: nat
  jo_tip :: bytes

definition journal_new :: journal where
  "journal_new = \<lparr>jo_next_seq = 1, jo_tip = ZERO_HASH\<rparr>"

definition frame_entry :: "journal_entry \<Rightarrow> bytes" where
  "frame_entry e = be_bytes 4 (length (entry_encode e)) @ entry_encode e"

definition journal_append :: "(bytes \<Rightarrow> bytes) \<Rightarrow> byte \<Rightarrow> nat \<Rightarrow> bytes \<Rightarrow> journal \<Rightarrow> bytes \<times> journal" where
  \<comment> \<open>the bytes written to the file, and the writer\<close>
  "journal_append hash op rid payload j = (let e = entry_new hash (jo_next_seq j) op rid (jo_tip j) payload
     in (frame_entry e, \<lparr>jo_next_seq = wadd (jo_next_seq j) 1, jo_tip = je_hash e\<rparr>))"

section \<open>Reconciliation with the directory\<close>

datatype id_state = Live_Id bytes | Consumed_Id bytes | Expired_Id

definition journal_state :: "journal_entry \<Rightarrow> id_state" where
  "journal_state e = (if je_op e = OP_INSERT then Live_Id (je_payload e)
     else if je_op e = OP_CONSUME then Consumed_Id (je_payload e) else Expired_Id)"

definition journaled :: "journal_entry list \<Rightarrow> (nat, id_state) kmap" where
  "journaled es = foldl (\<lambda>m e. bt_insert (je_id e) (journal_state e) m) [] es"

fun disk_label :: "id_state option \<Rightarrow> string" where
  "disk_label None = ''absent''"
| "disk_label (Some (Live_Id _)) = ''live record''"
| "disk_label (Some (Consumed_Id _)) = ''consume tombstone''"
| "disk_label (Some Expired_Id) = ''expiry tombstone''"

type_synonym heal_op = "byte \<times> nat \<times> bytes"

definition reconcile_one :: "(bytes \<Rightarrow> bytes) \<Rightarrow> nat \<Rightarrow> id_state \<Rightarrow> id_state option \<Rightarrow> (string, heal_op list) res" where
  "reconcile_one hash rid js found = (case js of
       Live_Id ph \<Rightarrow> (
         if found = Some (Live_Id ph) then Ok []
         else if found = Some (Consumed_Id ph) then Ok [(OP_CONSUME, rid, ph)]
         else if found = Some Expired_Id then Ok [(OP_EXPIRE, rid, payload_digest hash [])]
         else Err (''record <'' @ dec_str rid @ ''.presig> is missing or does not match the journal (on disk: '' @ disk_label found @ '')''))
     | Consumed_Id ph \<Rightarrow> (
         if found = Some (Consumed_Id ph) then Ok []
         else Err (''the tombstone for consumed id '' @ dec_str rid @ '' is missing or does not match the journal (on disk: ''
           @ disk_label found @ '')''))
     | Expired_Id \<Rightarrow> (
         if found = Some Expired_Id then Ok []
         else Err (''the expiry tombstone for id '' @ dec_str rid @ '' is missing (on disk: '' @ disk_label found @ '')'')))"

definition unaccounted_warning :: "nat \<Rightarrow> id_state \<Rightarrow> string" where
  "unaccounted_warning rid ds = (case ds of
       Live_Id _ \<Rightarrow> ''dropping <'' @ dec_str rid @ ''.presig>: no journal entry accounts for it (crash mid-insert or manual copy''
         @ '' '' @ map char_of [0xE2, 0x80, 0x94 :: nat] @ '' never acknowledged)''
     | Consumed_Id _ \<Rightarrow> ''honoring unaccounted consume tombstone <'' @ dec_str rid @ ''.consumed> (id burned)''
     | Expired_Id \<Rightarrow> ''honoring unaccounted expiry tombstone <'' @ dec_str rid @ ''.expired> (id burned)'')"

definition reconcile_journal :: "(bytes \<Rightarrow> bytes) \<Rightarrow> (nat, id_state) kmap \<Rightarrow> (nat, id_state) kmap
    \<Rightarrow> (string, heal_op list \<times> string list) res" where
  "reconcile_journal hash jm disk =
     bindR (mapR (\<lambda>(rid, js). reconcile_one hash rid js (bt_get disk rid)) jm) (\<lambda>heals.
     Ok (concat heals, map (\<lambda>(rid, ds). unaccounted_warning rid ds) (filter (\<lambda>(rid, _). \<not> bt_contains jm rid) disk)))"

end
