(* ===== verification/Persist_Codec.thy ===== *)
theory Persist_Codec
  imports Node_State Seal
begin

text \<open>
  The files of the durable store and of the evidence archive as bytes, and the offline audit of a blame token
  (\<open>node/src/store/persist.rs\<close>). The decoders chain fields with \<open>take_pair\<close>, which is the
  \<open>let (x, u) = \<dots>?; used += u\<close> of the source. Each encoding is a \<open>codec\<close>.
\<close>

section \<open>Records\<close>

definition put_presig :: "('f, 'g, 'r) k256 \<Rightarrow> ('f, 'g) presignature \<Rightarrow> bytes" where
  "put_presig E p = put_u64 (ps_id p) @ put_u64 (ps_index p) @ put_scalar E (ps_r p) @ put_point E (ps_big_r p)
     @ put_scalar E (ps_u_share p) @ put_scalar E (ps_z_share p) @ encode_commitment E (ps_u_com p) @ encode_commitment E (ps_z_com p)"

definition presig_fields :: "nat \<times> nat \<times> 'f \<times> 'g \<times> 'f \<times> 'f \<times> 'g feldman \<times> 'g feldman \<Rightarrow> ('f, 'g) presignature" where
  "presig_fields = (\<lambda>(rid, index, r, big_r, u, z, u_com, z_com). \<lparr>ps_id = rid, ps_index = index, ps_r = r, ps_big_r = big_r,
     ps_u_share = u, ps_z_share = z, ps_u_com = u_com, ps_z_com = z_com\<rparr>)"

definition take_presig :: "('f, 'g::zero, 'r) k256 \<Rightarrow> ('f, 'g) presignature decoder" where
  "take_presig E b = map_option (map_prod presig_fields (\<lambda>n. n))
     (take_pair take_u64 (take_pair take_u64 (take_pair (take_scalar E) (take_pair (take_point E) (take_pair (take_scalar E)
       (take_pair (take_scalar E) (take_pair (decode_commitment E) (decode_commitment E))))))) b)"

definition RECORD_V2 :: byte where "RECORD_V2 = 2"

definition put_record :: "('f, 'g, 'r) k256 \<Rightarrow> ('f, 'g) presignature \<Rightarrow> nat \<Rightarrow> bytes" where
  "put_record E p created_at = [RECORD_V2] @ put_u64 created_at @ put_presig E p"

definition take_record :: "('f, 'g::zero, 'r) k256 \<Rightarrow> bytes \<Rightarrow> (('f, 'g) presignature \<times> nat option) option" where
  \<comment> \<open>a record without the version byte has no time of creation\<close>
  "take_record E b =
     (if b \<noteq> [] \<and> hd b = RECORD_V2 then do {
        rest \<leftarrow> get_from b 1;
        ((created_at, p), used) \<leftarrow> take_pair take_u64 (take_presig E) rest;
        if 1 + used = length b then Some (p, Some created_at) else None }
      else do {
        (p, used) \<leftarrow> take_presig E b;
        if used = length b then Some (p, None) else None })"

section \<open>Key shares\<close>

definition keyshare_purpose :: bytes where
  "keyshare_purpose = str_bytes ''ohm-ecdsa-node/keyshare-v1''"

definition save_keyshare :: "('f, 'g, 'r) k256 \<Rightarrow> cipher \<Rightarrow> storage_key \<Rightarrow> bytes \<Rightarrow> ('f, 'g) key_share \<Rightarrow> bytes" where
  \<comment> \<open>the contents of the file\<close>
  "save_keyshare E C key nonce share = seal_file C key nonce keyshare_purpose
     (put_u64 (o_index share) @ put_scalar E (o_share share) @ encode_commitment E (o_com share))"

datatype persist_error = Protocol error | At_Rest seal_error | Integrity string

definition load_keyshare :: "('f, 'g::zero, 'r) k256 \<Rightarrow> cipher \<Rightarrow> storage_key option \<Rightarrow> bytes option
    \<Rightarrow> (persist_error, ('f, 'g) key_share option) res" where
  "load_keyshare E C key file = (case file of
       None \<Rightarrow> Ok None
     | Some sealed \<Rightarrow> (case key of
         None \<Rightarrow> Err (Protocol (PresigStore ''a key-share file exists but no storage key is configured''))
       | Some key \<Rightarrow> (case open_file C key keyshare_purpose sealed of
           Err e \<Rightarrow> Err (At_Rest e)
         | Panic \<Rightarrow> Panic
         | Ok plain \<Rightarrow> (case take_pair take_u64 (take_pair (take_scalar E) (decode_commitment E)) plain of
             None \<Rightarrow> Err (Protocol (PresigStore ''corrupt key-share file''))
           | Some ((index, share, com), used) \<Rightarrow>
               if used \<noteq> length plain \<or> index = 0 then Err (Protocol (PresigStore ''corrupt key-share file''))
               else Ok (Some \<lparr>o_index = index, o_share = share, o_com = com\<rparr>)))))"

section \<open>Aborts and evidence\<close>

fun utf8_ok :: "bytes \<Rightarrow> bool" where
  \<comment> \<open>\<open>String::from_utf8\<close> accepts the bytes\<close>
  "utf8_ok [] = True"
| "utf8_ok (a # bs) = (
     let cont = (\<lambda>c :: byte. 0x80 \<le> c \<and> c \<le> 0xBF) in
     if a \<le> 0x7F then utf8_ok bs
     else if 0xC2 \<le> a \<and> a \<le> 0xDF then (case bs of c # cs \<Rightarrow> cont c \<and> utf8_ok cs | _ \<Rightarrow> False)
     else if 0xE0 \<le> a \<and> a \<le> 0xEF then (case bs of c # d # cs \<Rightarrow> cont c \<and> cont d
         \<and> (a = 0xE0 \<longrightarrow> 0xA0 \<le> c) \<and> (a = 0xED \<longrightarrow> c \<le> 0x9F) \<and> utf8_ok cs | _ \<Rightarrow> False)
     else if 0xF0 \<le> a \<and> a \<le> 0xF4 then (case bs of c # d # e # cs \<Rightarrow> cont c \<and> cont d \<and> cont e
         \<and> (a = 0xF0 \<longrightarrow> 0x90 \<le> c) \<and> (a = 0xF4 \<longrightarrow> c \<le> 0x8F) \<and> utf8_ok cs | _ \<Rightarrow> False)
     else False)"

definition bytes_str :: "bytes \<Rightarrow> string" where
  "bytes_str b = map (\<lambda>w. char_of (unat w)) b"

definition put_abort :: "ident_abort \<Rightarrow> bytes" where
  "put_abort a = put_u8 (phase_code (ab_phase a)) @ encode_list put_u64 (ab_blamed a) @ put_bytes (str_bytes (ab_detail a))"

definition take_phase :: "phase decoder" where
  "take_phase b = do { (c, u) \<leftarrow> take_u8 b; ph \<leftarrow> phase_decode c; Some (ph, u) }"

definition take_text :: "string decoder" where
  "take_text b = do { (t, u) \<leftarrow> take_bytes b; if utf8_ok t then Some (bytes_str t, u) else None }"

definition take_abort :: "ident_abort decoder" where
  "take_abort b = map_option (map_prod (\<lambda>(ph, blamed, detail). \<lparr>ab_phase = ph, ab_blamed = blamed, ab_detail = detail\<rparr>) (\<lambda>n. n))
     (take_pair take_phase (take_pair (decode_list take_u64) take_text) b)"

definition put_core_token :: "('f, 'g, 'r) k256 \<Rightarrow> ('s \<Rightarrow> bytes) \<Rightarrow> ('f, 'g, 's) blame_token \<Rightarrow> bytes" where
  "put_core_token E sig tk = put_abort (tk_abort tk) @ encode_signed (encode_message E) sig (tk_envelope tk)
     @ encode_commitment E (tk_com tk)"

definition take_core_token :: "('f, 'g::zero, 'r) k256 \<Rightarrow> (bytes \<Rightarrow> 's option) \<Rightarrow> ('f, 'g, 's) blame_token decoder" where
  "take_core_token E of_slice b = map_option (map_prod (\<lambda>(ab, env, com). \<lparr>tk_abort = ab, tk_envelope = env, tk_com = com\<rparr>) (\<lambda>n. n))
     (take_pair take_abort (take_pair (decode_signed (decode_message E) of_slice) (decode_commitment E)) b)"

fun evidence_encode :: "('f, 'g, 'r) k256 \<Rightarrow> ('s \<Rightarrow> bytes) \<Rightarrow> ('f, 'g, 's) evidence \<Rightarrow> bytes" where
  "evidence_encode E sig (Core_Token tk) = [1] @ put_core_token E sig tk"
| "evidence_encode E sig (Dealt_Share ab env com) = [2] @ put_abort ab @ encode_signed (encode_payload E sig) sig env
     @ encode_commitment E com"
| "evidence_encode E sig (Wrong_Sign_Share ab env msg r u_com z_com) = [3] @ put_abort ab
     @ encode_signed (encode_payload E sig) sig env @ put_bytes msg @ put_scalar E r
     @ encode_commitment E u_com @ encode_commitment E z_com"
| "evidence_encode E sig (Equivocation ab a b) = [4] @ put_abort ab
     @ encode_signed (encode_payload E sig) sig a @ encode_signed (encode_payload E sig) sig b"

definition evidence_prefix :: "('f, 'g::zero, 'r) k256 \<Rightarrow> (bytes \<Rightarrow> 's option) \<Rightarrow> ('f, 'g, 's) evidence decoder" where
  "evidence_prefix E of_slice b = (let env = decode_signed (decode_payload E of_slice) of_slice in do {
     (tag, used) \<leftarrow> take_u8 b;
     rest \<leftarrow> get_from b used;
     if tag = 1 then wrapped Core_Token used (take_core_token E of_slice rest)
     else if tag = 2 then wrapped (\<lambda>(ab, se, com). Dealt_Share ab se com) used
       (take_pair take_abort (take_pair env (decode_commitment E)) rest)
     else if tag = 3 then wrapped (\<lambda>(ab, se, msg, r, u_com, z_com). Wrong_Sign_Share ab se msg r u_com z_com) used
       (take_pair take_abort (take_pair env (take_pair take_bytes (take_pair (take_scalar E)
         (take_pair (decode_commitment E) (decode_commitment E))))) rest)
     else if tag = 4 then wrapped (\<lambda>(ab, a, b). Equivocation ab a b) used (take_pair take_abort (take_pair env env) rest)
     else None })"

definition evidence_decode :: "('f, 'g::zero, 'r) k256 \<Rightarrow> (bytes \<Rightarrow> 's option) \<Rightarrow> bytes \<Rightarrow> ('f, 'g, 's) evidence option" where
  "evidence_decode E of_slice b = do { (ev, used) \<leftarrow> evidence_prefix E of_slice b; if used = length b then Some ev else None }"

section \<open>The offline audit\<close>

record audit_report =
  au_checks :: "(string \<times> bool) list"
  au_blamed :: "party_id list"
  au_phase :: phase

definition audit_verdict :: "audit_report \<Rightarrow> bool" where
  "audit_verdict r \<longleftrightarrow> au_checks r \<noteq> [] \<and> (\<forall>(_, ok) \<in> set (au_checks r). ok)"

definition audit_key :: "(party_id \<times> 'vk) list \<Rightarrow> party_id \<Rightarrow> 'vk option" where
  "audit_key keys f = map_option snd (find (\<lambda>(p, _). p = f) keys)"

definition signed_by :: "('sk, 'vk, 's) sig_scheme \<Rightarrow> ('m \<Rightarrow> bytes) \<Rightarrow> 'vk option \<Rightarrow> ('m, 's) signed_envelope \<Rightarrow> bool" where
  "signed_by G enc key se = (case key of None \<Rightarrow> False | Some k \<Rightarrow> verify_signature G enc se k)"

definition blame_names :: "ident_abort \<Rightarrow> party_id \<Rightarrow> phase \<Rightarrow> bool" where
  "blame_names ab f ph \<longleftrightarrow> ab_blamed ab = [f] \<and> ab_phase ab = ph"

definition names_text :: "party_id \<Rightarrow> string" where
  "names_text f = ''blame consistency: abort names exactly the sender '' @ dec_str f"

definition signature_text :: "party_id \<Rightarrow> string" where
  "signature_text f = ''envelope signature verifies under party '' @ dec_str f @ [CHR 0x27] @ ''s transport key''"

definition dealt_text :: string where
  "dealt_text = ''recomputed check really fails: dealt share does not match EvalCom(com, to)''"

fun audit_checks :: "('f::field, 'g::ab_group_add, 'r) k256 \<Rightarrow> ('sk, 'vk, 's) sig_scheme \<Rightarrow> ('s \<Rightarrow> bytes)
    \<Rightarrow> (party_id \<times> 'vk) list \<Rightarrow> ('f, 'g, 's) evidence \<Rightarrow> (string \<times> bool) list" where
  "audit_checks E G sig keys (Core_Token tk) = (let x = se_envelope (tk_envelope tk); f = e_from x in
     [(names_text f @ '' in its phase'', blame_names (tk_abort tk) f (e_phase x)
         \<and> (case e_payload x of Share s \<Rightarrow> pp_from s = f | _ \<Rightarrow> False)),
      (signature_text f, signed_by G (encode_message E) (audit_key keys f) (tk_envelope tk)),
      (dealt_text, case e_payload x of Share s \<Rightarrow> \<not> verify_share E (tk_com tk) (pp_to s) (pp_share s) | _ \<Rightarrow> False),
      (''core BlameToken::verify agrees (the core'' @ [CHR 0x27] @ ''s auditor)'', token_verify E G tk keys)])"
| "audit_checks E G sig keys (Dealt_Share ab env com) = (let x = se_envelope env; f = e_from x;
       share = (case e_payload x of Dkg (Share s) \<Rightarrow> if pp_from s = f then Some s else None | _ \<Rightarrow> None) in
     [(names_text f @ '' in its phase'', blame_names ab f (e_phase x) \<and> share \<noteq> None),
      (signature_text f, signed_by G (encode_payload E sig) (audit_key keys f) env),
      (dealt_text, case share of None \<Rightarrow> False | Some s \<Rightarrow> \<not> verify_share E com (pp_to s) (pp_share s))])"
| "audit_checks E G sig keys (Equivocation ab a b) = (let x = se_envelope a; y = se_envelope b; f = e_from x in
     [(names_text f @ '' in its phase, both envelopes are broadcasts of the same slot'', blame_names ab f (e_phase x)
         \<and> e_to x = None \<and> e_to y = None \<and> e_from y = f \<and> e_sid y = e_sid x \<and> e_phase y = e_phase x \<and> e_round y = e_round x),
      (''both envelope signatures verify under party '' @ dec_str f @ [CHR 0x27] @ ''s transport key'',
         signed_by G (encode_payload E sig) (audit_key keys f) a \<and> signed_by G (encode_payload E sig) (audit_key keys f) b),
      (''the two signed values really conflict (distinct payloads in one slot)'',
         encode_signed (encode_payload E sig) sig a \<noteq> encode_signed (encode_payload E sig) sig b)])"
| "audit_checks E G sig keys (Wrong_Sign_Share ab env msg r u_com z_com) = (let x = se_envelope env; f = e_from x;
       s = (case e_payload x of Node_Sign_Share _ s \<Rightarrow> Some s | _ \<Rightarrow> None) in
     [(names_text f @ '' in phase sign'', blame_names ab f Sign \<and> e_phase x = Sign \<and> s \<noteq> None),
      (signature_text f, signed_by G (encode_payload E sig) (audit_key keys f) env),
      (''recomputed check really fails: s_j'' @ map char_of [0xC2, 0xB7 :: nat] @ ''G != EvalCom(m'' @ map char_of [0xC2, 0xB7 :: nat]
         @ ''A[u] + r'' @ map char_of [0xC2, 0xB7 :: nat] @ ''A[z], j)'',
         case s of None \<Rightarrow> False | Some s \<Rightarrow> \<not> verify_share E (sign_com E u_com z_com (message_scalar E msg) r) f s)])"

definition audit_token :: "('f::field, 'g::ab_group_add, 'r) k256 \<Rightarrow> ('sk, 'vk, 's) sig_scheme \<Rightarrow> ('s \<Rightarrow> bytes) \<Rightarrow> (bytes \<Rightarrow> 's option)
    \<Rightarrow> bytes \<Rightarrow> (party_id \<times> 'vk) list \<Rightarrow> audit_report" where
  "audit_token E G sig of_slice b keys = (case evidence_decode E of_slice b of
       None \<Rightarrow> \<lparr>au_checks = [(''token file decodes (canonical wire format, no trailing bytes)'', False)], au_blamed = [], au_phase = KeyGen\<rparr>
     | Some ev \<Rightarrow> \<lparr>au_checks = audit_checks E G sig keys ev, au_blamed = ab_blamed (evidence_abort ev), au_phase = ab_phase (evidence_abort ev)\<rparr>)"

end
