(* ===== verification/Spec2Isabelle.thy ===== *)
theory Spec2Isabelle
  imports Sim_Delivery Signed_Drive Sample_Curve Wire Node_Payload Acceptor Mesh Node_State Node_Heard Node_Keygen Node_Triple Node_Presign Node_Sign Node_Blame Seal Store_Journal Persist_Codec
begin

text \<open>
  A model of \<^bold>\<open>ohm-ecdsa\<close>, threshold ECDSA over secp256k1 with an honest majority, identifiable abort and
  robustness (the library crate, \<open>src/src/\<close>), with the theorems that make it correct. This header says what
  is modelled where, what is proved, and what is left out.

  \<^bold>\<open>The program.\<close> A committee of \<open>n\<close> parties shares a signing key with threshold \<open>t\<close>, \<open>n \<ge> 2 t - 1\<close>. Keys are
  generated by a commit-reveal Feldman DKG; presigning draws a nonce \<open>R = G / u\<close> and sharings of \<open>u\<close> and
  \<open>u x\<close>, with products computed by Beaver triples that a triple factory prepares; online signing is one
  round of shares, each verified against public commitments. Every failed check names a party. Keys are
  maintained by refresh and resharing. The runtime holds the stores of single-use presignatures, the
  transport with its wire format and signed envelopes, the restart policy, and the in-process drivers
  that run all parties.

  \<^bold>\<open>Theories and code.\<close>
  \<^item> \<open>Prelude\<close>, \<open>Ordered_Map\<close>: results with panics (\<open>res\<close>: \<open>Ok\<close>, \<open>Err\<close>, \<open>Panic\<close>), state passing, loops over
    lists, wrapping \<open>usize\<close> arithmetic, big-endian bytes; \<open>BTreeMap\<close> as a sorted association list, with the
    locale of an ordered map.
  \<^item> \<open>Polynomials\<close>: evaluation, addition, products and interpolation over a field.
  \<^item> \<open>Core\<close>: \<open>lib.rs\<close>, \<open>error.rs\<close>. The record \<open>k256\<close> holds the operations of the curve and hash crates; the
    laws the code relies on are the predicate \<open>k256_ok\<close>.
  \<^item> \<open>Shamir\<close>, \<open>Vss\<close>, \<open>Opening\<close>, \<open>Dleq\<close>: \<open>primitives/shamir.rs\<close>, \<open>vss.rs\<close>, \<open>open.rs\<close>, \<open>dleq.rs\<close>.
  \<^item> \<open>Dkg\<close>: \<open>protocol/dkg.rs\<close>; \<open>Triple_Factory\<close>, \<open>Triple_Batch\<close>: \<open>protocol/triples.rs\<close>; \<open>Presigning\<close>,
    \<open>Presign_Variants\<close>: \<open>protocol/presign.rs\<close>; \<open>Signing\<close>: \<open>protocol/sign.rs\<close>; \<open>Committee_Refresh\<close>:
    \<open>protocol/refresh.rs\<close>.
  \<^item> \<open>Store\<close>: \<open>runtime/store.rs\<close>; \<open>Policy\<close>: \<open>runtime/policy.rs\<close>; \<open>Codec\<close>, \<open>Transport\<close>: \<open>runtime/transport.rs\<close>;
    \<open>Sim\<close>: \<open>runtime/sim.rs\<close>, with \<open>Sim_Signing\<close> and \<open>Sim_Delivery\<close> for its signing functions;
    \<open>Signed_Drive\<close>: the driver over signed envelopes against the plain driver.

  A Rust \<open>struct\<close> is a record, an \<open>enum\<close> a datatype, a method or function a definition of the same name
  (a clash with a library name gets a prefix: \<open>dkg_\<close>, \<open>store_\<close>, \<open>shamir_\<close>). A long function is split along
  its rounds: \<open>t3_step\<close> is the body of the loop over verifiers in \<open>generate_with_committee\<close>. The random
  number generator is a state passed along (\<open>rnd\<close>); party \<open>k\<close> draws from \<open>rngs[k]\<close>, and a call that runs
  out of generators panics as the code does. \<open>expect\<close>, \<open>unwrap\<close>, indexing out of range and \<open>unreachable!\<close>
  are \<open>Panic\<close>. Party ids are \<open>nat\<close>; where an id or a size is encoded or doubled the 64-bit bound is explicit.

  \<^bold>\<open>What is proved.\<close> Each theory proves the functional behaviour of its operations and what they keep. The
  properties C1, C2, \<dots> of this theory state the results: the life cycle of a key (C1, C2); key generation,
  its refinement by the transport-driven driver, its verification and blame (C3 to C5); triples, single,
  robust, batched and packed (C6 to C10); presigning and its variants (C11 to C15); signing, plain,
  robust, re-randomised and key-independent (C16 to C19); refresh and resharing (C20 to C23); stores (C24
  to C26); wire format and signatures (C27 to C30); committees and restarts (C31, C32); commitments,
  openings and proofs (C33 to C36).
  Interfaces are locales: \<open>ordered_map\<close> (interpreted on the \<open>BTreeMap\<close> model), \<open>single_use_store\<close> and
  \<open>epoch_store\<close> (on both stores), \<open>codec\<close> (on every wire type), \<open>transport\<close> and \<open>dkg_transport\<close> (on the
  simulated transport). Loops that may not end are \<open>partial_function (option)\<close> (the restart loops): their
  ending is proved, with no fuel. The search of \<open>rerand_gamma\<close> counts in one byte and needs none.

  \<^bold>\<open>Assumptions.\<close> \<open>k256_ok\<close>: points form a module over the scalar field, generated by \<open>G\<close>, scalars of distinct
  64-bit indices are distinct, the x-coordinate exists off the identity and forgets the sign, and the
  signature type accepts nonzero pairs and normalises \<open>s\<close>. \<open>Sample_Curve\<close> gives rational parameters with
  these laws, on which every property has a witness. \<open>codec_law\<close> and \<open>signature_law\<close> state the fixed-width
  canonical encodings. Nothing is assumed of the hash: statements that would need collision resistance
  or a random oracle are stated up to the equality or the coefficient concerned.

  \<^bold>\<open>Not modelled.\<close> Secrecy and the cost of discrete logarithms (probabilistic statements); the node crate's
  processes and sockets, its command line and metrics,  the browser and EVM demonstrations, the
  fuzz targets and examples (glue over the modelled functions); zeroisation and constant time, which have
  no observable result; the \<open>debug_assert!\<close> lines, absent in a release build.
\<close>


section \<open>The public key of a sharing\<close>



text \<open>The records of one item of a batch, over all parties.\<close>

lemma batch_column:
  assumes "b < length rids"
  shows "map (\<lambda>r. r ! b) (batch_presigs_of E c rids nonce U Z) = presigs_of E c (rids ! b) (nonce b) (U b) (Z b)"
  by (rule nth_equalityI) (use assms in \<open>simp_all add: batch_presigs_of_def presigs_of_def c_n_def\<close>)



section \<open>The life cycle of a key\<close>




section \<open>Distributed key generation\<close>

text \<open>
  C3. The transport-driven DKG refines the three rounds: run over a transport that holds no envelope of
  this session and phase yet, broadcasting the commitments, revealing, sending the sub-shares and
  collecting the accepted envelopes gives every party exactly the outcome of the dealing rounds on the
  messages themselves, for every injected fault.
\<close>

theorem drive_dkg_refines_rounds:
  fixes E :: "('f::field, 'g::ab_group_add, 'r) k256"
  assumes "k256_ok E" "params_new n t = Ok p" "t < 2 ^ 63" "n < 2 ^ 64" "n \<le> length rngs"
    and "\<forall>e \<in> set (sim_bcast tr) \<union> set (sim_p2p tr). e_sid e \<noteq> sid \<or> e_phase e \<noteq> ph"
  shows "\<exists>started rngs' tr'. mapS (\<lambda>(k, i). dkg_start E p sid tag i k) (List.enumerate 0 (parties p)) rngs = (Ok started, rngs')
    \<and> drive_dkg E sim_ops p sid tag ph tamper (rngs, tr)
      = (bindR (dealing_rounds E ph (full_committee n t) tamper started) (\<lambda>(outs, _). Ok outs), (rngs', tr'))"
proof -
  have "sim.fresh sid ph tr" using assms(6) by (simp add: sim.fresh_def)
  from driven_rounds [OF assms(1-5) this] show ?thesis by fast
qed

lemma drive_dkg_refines_rounds_witness:
  "\<exists>started rngs' tr'. mapS (\<lambda>(k, i). dkg_start sample \<lparr>p_n = 3, p_t = 2\<rparr> [7] [9] i k)
      (List.enumerate 0 (parties \<lparr>p_n = 3, p_t = 2\<rparr>)) [0, 1, 2] = (Ok started, rngs')
    \<and> drive_dkg sample sim_ops \<lparr>p_n = 3, p_t = 2\<rparr> [7] [9] Presign None ([0, 1, 2], sim_new)
      = (bindR (dealing_rounds sample Presign (full_committee 3 2) None started) (\<lambda>(outs, _). Ok outs), (rngs', tr'))"
  by (rule drive_dkg_refines_rounds [OF sample_ok params_3_2]) (simp_all add: sim_new_def)

text \<open>
  C4. A completed DKG is verified: every dealer revealed a commitment of \<open>t\<close> points that matches its
  committed hash and sent a share that verifies against it, and the output is the sum of the shares,
  which verifies against the output commitment.
\<close>

theorem dkg_output_verified:
  fixes E :: "('f::field, 'g::ab_group_add, 'r) k256"
  assumes "k256_ok E" "dkg_finalize E inst ph r1 r2 sh df = Ok out"
  shows "o_index out = di_me inst \<and> verify_share E (o_com out) (di_me inst) (o_share out)
    \<and> o_share out = (\<Sum>i \<leftarrow> c_ids (di_committee inst). the (bt_get sh i))
    \<and> (\<forall>i \<in> set (c_ids (di_committee inst)). \<exists>b1 b2 s. bt_get r1 i = Some b1 \<and> bt_get r2 i = Some b2 \<and> bt_get sh i = Some s
        \<and> hash_commitment E (di_sid inst) (di_tag inst) i (b2_com b2) = b1_hash b1
        \<and> length (points (b2_com b2)) = c_t (di_committee inst) \<and> verify_share E (b2_com b2) (di_me inst) s)"
proof -
  from assms(2) obtain acc com where
    loop: "foldR (finalize_step E inst ph r1 r2 sh df) (c_ids (di_committee inst)) (0, []) = Ok acc"
    and out: "out = \<lparr>o_index = di_me inst, o_share = fst acc, o_com = com\<rparr>"
    by (auto simp: dkg_finalize_def Let_def bindR_Ok_iff split: if_splits)
  let ?ids = "c_ids (di_committee inst)"
  obtain coms ss where sums: "acc = (0 + sum_list ss, [] @ coms)" "length coms = length ?ids" "length ss = length ?ids"
    and each: "\<forall>k < length ?ids. bt_get sh (?ids ! k) = Some (ss ! k)
      \<and> map_option b2_com (bt_get r2 (?ids ! k)) = Some (coms ! k)
      \<and> map_option b1_hash (bt_get r1 (?ids ! k)) = Some (hash_commitment E (di_sid inst) (di_tag inst) (?ids ! k) (coms ! k))
      \<and> length (points (coms ! k)) = c_t (di_committee inst) \<and> verify_share E (coms ! k) (di_me inst) (ss ! k)"
    using finalize_loop_Ok [OF loop] unfolding fst_conv snd_conv by (elim exE conjE) (rule that)
  have "ss = map (\<lambda>i. the (bt_get sh i)) (c_ids (di_committee inst))"
    by (rule nth_equalityI) (use sums(3) each in auto)
  then have "o_share out = (\<Sum>i \<leftarrow> c_ids (di_committee inst). the (bt_get sh i))" using out sums(1) by simp
  moreover have "\<exists>b1 b2 s. bt_get r1 i = Some b1 \<and> bt_get r2 i = Some b2 \<and> bt_get sh i = Some s
        \<and> hash_commitment E (di_sid inst) (di_tag inst) i (b2_com b2) = b1_hash b1
        \<and> length (points (b2_com b2)) = c_t (di_committee inst) \<and> verify_share E (b2_com b2) (di_me inst) s"
    if "i \<in> set (c_ids (di_committee inst))" for i
    using that each by (auto simp: in_set_conv_nth)
  ultimately show ?thesis using finalize_Ok_share [OF assms] by blast
qed


text \<open>A committee of one party, its honest reveal, and a reveal with a vector of the wrong length.\<close>

definition solo :: "(rat, rat) dkg_instance" where
  "solo = \<lparr>di_committee = \<lparr>c_ids = [1], c_t = 1\<rparr>, di_sid = [], di_tag = [], di_me = 1, di_poly = \<lparr>coeffs = [5]\<rparr>,
     di_com = commit sample [5], di_bad_deal = None, di_bad_reveal = False\<rparr>"

definition solo_hash :: "party_id \<Rightarrow> dkg_bcast1 btree" where
  "solo_hash i = [(1, \<lparr>b1_from = 1, b1_hash = hash_commitment sample [] [] i (commit sample [5])\<rparr>)]"

lemma dkg_output_verified_witness:
  "\<exists>out. dkg_finalize sample solo KeyGen (solo_hash 1) [(1, \<lparr>b2_from = 1, b2_com = commit sample [5]\<rparr>)] [(1, 5)] [(1, 5)] = Ok out
    \<and> verify_share sample (o_com out) 1 (o_share out)"
proof -
  obtain out where "dkg_finalize sample solo KeyGen (solo_hash 1) [(1, \<lparr>b2_from = 1, b2_com = commit sample [5]\<rparr>)]
      [(1, 5)] [(1, 5)] = Ok out"
    by (simp add: dkg_finalize_def solo_def solo_hash_def c_n_def finalize_step_def com_sum_def
        verify_share_commit [OF sample_ok])
  from this dkg_output_verified [OF sample_ok this] show ?thesis by (auto simp: solo_def)
qed


section \<open>Beaver triples\<close>

text \<open>
  C6. The triple factory keeps its contract for a whole committee: with honest parties it always succeeds,
  and every party's record lies on three polynomials of \<open>t\<close> coefficients whose constants multiply.
\<close>

theorem generated_triples_multiply:
  fixes E :: "('f::field, 'g::ab_group_add, 'r) k256"
  assumes "k256_ok E" "committee_wf c" "c_n c \<le> length rs"
  shows "\<exists>A B C rs'. generate_with_committee E c sid None rs = (Ok (triples_of E c A B C), rs')
    \<and> length rs' = length rs \<and> length A = c_t c \<and> length B = c_t c \<and> length C = c_t c
    \<and> peval C 0 = peval A 0 * peval B 0"
  by (rule generate_honest [OF assms])

lemma generated_triples_multiply_witness:
  "\<exists>A B C rs'. generate_with_committee sample trio [7] None [0, 1, 2] = (Ok (triples_of sample trio A B C), rs')
    \<and> length rs' = length [0, 1, 2 :: nat] \<and> length A = c_t trio \<and> length B = c_t trio \<and> length C = c_t trio
    \<and> peval C 0 = peval A 0 * peval B 0"
  by (rule generated_triples_multiply [OF sample_ok trio_wf]) simp

text \<open>
  C7. One cheater in a triple run, by a wrong re-share to any receiver, by a wrong product proof, or by
  both, is the one party the abort names.
\<close>

theorem triple_cheater_named:
  fixes E :: "('f::field, 'g::ab_group_add, 'r) k256"
  assumes "k256_ok E" "committee_wf c" "c_n c \<le> length rs" "d \<in> set (c_ids c)"
    and "tt_bad_product_proof tm = Some d \<and> (tt_bad_reshare tm = None \<or> (\<exists>v. tt_bad_reshare tm = Some (d, v)))
      \<or> tt_bad_product_proof tm = None \<and> (\<exists>v \<in> set (c_ids c). tt_bad_reshare tm = Some (d, v))"
  shows "\<exists>a rs'. generate_with_committee E c sid (Some tm) rs = (Err (Abort a), rs')
    \<and> ab_phase a = Triples \<and> ab_blamed a = [d]"
  by (rule generate_single_cheater [OF assms])

lemma triple_cheater_named_witness:
  "\<exists>a rs'. generate_with_committee sample trio [7]
      (Some \<lparr>tt_bad_reshare = Some (2, 3), tt_bad_product_proof = None, tt_bad_product_proof_at = None\<rparr>) [0, 1, 2]
      = (Err (Abort a), rs') \<and> ab_phase a = Triples \<and> ab_blamed a = [2]"
  by (rule triple_cheater_named [OF sample_ok trio_wf]) simp_all

text \<open>
  C8. The robust factory goes on where the plain one aborts: a dealer that sends a wrong re-share is
  expelled, the others' records form a triple, and exactly that dealer is reported.
\<close>

theorem robust_triples_continue:
  fixes E :: "('f::field, 'g::ab_group_add, 'r) k256"
  assumes "k256_ok E" "committee_wf c" "c_n c \<le> length rs" "c_t c < c_n c"
    and "d \<in> set (c_ids c)" "v \<in> set (c_ids c)"
    and "tt_bad_reshare tm = Some (d, v)" "tt_bad_product_proof tm = None"
  shows "\<exists>A B C rs'. generate_robust_with_committee E c sid (Some tm) rs
      = (Ok (filter (\<lambda>(s, _). ts_index s \<noteq> d) (triples_of E c A B C), [d]), rs')
    \<and> length A = c_t c \<and> length B = c_t c \<and> length C = c_t c \<and> peval C 0 = peval A 0 * peval B 0"
  by (rule generate_robust_continues [OF assms])

lemma robust_triples_continue_witness:
  "\<exists>A B C rs'. generate_robust_with_committee sample trio [7]
      (Some \<lparr>tt_bad_reshare = Some (2, 3), tt_bad_product_proof = None, tt_bad_product_proof_at = None\<rparr>) [0, 1, 2]
      = (Ok (filter (\<lambda>(s, _). ts_index s \<noteq> 2) (triples_of sample trio A B C), [2]), rs')
    \<and> length A = c_t trio \<and> length B = c_t trio \<and> length C = c_t trio \<and> peval C 0 = peval A 0 * peval B 0"
  by (rule robust_triples_continue [OF sample_ok trio_wf, of _ 2 3]) simp_all



text \<open>
  C10. The packed factory shares \<open>m\<close> factors in one polynomial: \<open>A\<close> and \<open>B\<close> have \<open>t + m - 1\<close>
  coefficients, and the product record of slot \<open>b\<close> shares, constantly over all \<open>m\<close> slot points, the
  product of the two factors at slot \<open>b\<close>; \<open>n \<ge> 2 t + 2 m - 3\<close> parties suffice.
\<close>

theorem packed_triples_multiply:
  fixes E :: "('f::field, 'g::ab_group_add, 'r) k256"
  assumes "k256_ok E" "committee_wf c" "c_n c \<le> length rs" "1 \<le> m" "m < 2 ^ 62" "c_t c < 2 ^ 62"
    and "2 * c_t c + 2 * m - 3 \<le> c_n c"
  shows "\<exists>A B C rs'. generate_packed_with_committee E c sid m None rs
      = (Ok (batch_triples_of E c m (\<lambda>_. A) (\<lambda>_. B) C), rs')
    \<and> length rs' = length rs \<and> length A = c_t c + m - 1 \<and> length B = c_t c + m - 1
    \<and> (\<forall>b < m. length (C b) = c_t c + m - 1
        \<and> (\<forall>s < m. peval (C b) (slot_point s) = peval A (slot_point b) * peval B (slot_point b)))"
  by (rule generate_packed_honest [OF assms])

text \<open>Five parties of threshold two are enough for two slots.\<close>

definition quint :: committee where "quint = \<lparr>c_ids = [1, 2, 3, 4, 5], c_t = 2\<rparr>"

lemma quint_simps [simp]: "c_n quint = 5" "c_t quint = 2" "c_ids quint = [1, 2, 3, 4, 5]" "committee_wf quint"
  by (simp_all add: quint_def committee_wf_def c_n_def)

lemma packed_triples_multiply_witness:
  "\<exists>A B C rs'. generate_packed_with_committee sample quint [7] 2 None [0, 1, 2, 3, 4]
      = (Ok (batch_triples_of sample quint 2 (\<lambda>_. A) (\<lambda>_. B) C), rs')
    \<and> length rs' = length [0, 1, 2, 3, 4 :: nat] \<and> length A = c_t quint + 2 - 1 \<and> length B = c_t quint + 2 - 1
    \<and> (\<forall>b < 2. length (C b) = c_t quint + 2 - 1
        \<and> (\<forall>s < 2. peval (C b) (slot_point s) = peval A (slot_point b) * peval B (slot_point b)))"
  by (rule packed_triples_multiply [OF sample_ok]) simp_all

section \<open>Presigning\<close>

text \<open>
  C11. The contract of presigning, over a committee holding shares of \<open>x\<close>: an honest run ends in records
  of one nonce, whose shares lie on polynomials \<open>U\<close> and \<open>Z\<close> of at most \<open>t\<close> coefficients with
  \<open>Z(0) = U(0) x\<close>, \<open>R = G / U(0)\<close> and \<open>r\<close> the nonzero reduced x-coordinate of \<open>R\<close>, or in one of the two
  zero-value errors.
\<close>

theorem presign_contract:
  fixes E :: "('f::field, 'g::ab_group_add, 'r) k256"
  assumes "k256_ok E" "committee_wf c" "c_n c \<le> length rs" "length X \<le> c_t c"
  shows "\<exists>res rs'. presign_with_committee E c (map (joint_output E X) (c_ids c)) rid None rs = (res, rs')
    \<and> length rs' = length rs
    \<and> ((\<exists>U Z nonce. res = Ok (presigs_of E c rid nonce U Z) \<and> presig_ok E (c_t c) 0 (peval X 0) U Z nonce)
        \<or> res = Err (ZeroValue ''v = 0'') \<or> res = Err (ZeroValue ''r = 0''))"
  by (rule presign_honest [OF assms])

lemma presign_contract_witness:
  "\<exists>res rs'. presign_with_committee sample trio (map (joint_output sample [5, 1]) (c_ids trio)) 4 None [0, 1, 2] = (res, rs')
    \<and> length rs' = length [0, 1, 2 :: nat]
    \<and> ((\<exists>U Z nonce. res = Ok (presigs_of sample trio 4 nonce U Z) \<and> presig_ok sample (c_t trio) 0 (peval [5, 1] 0) U Z nonce)
        \<or> res = Err (ZeroValue ''v = 0'') \<or> res = Err (ZeroValue ''r = 0''))"
  by (rule presign_contract [OF sample_ok trio_wf]) simp_all



text \<open>
  C13. Robust presigning survives the cheaters it catches: parties that deviate in the openings are
  expelled and reported, in the order of the committee, and the others' records keep the contract of
  presigning, as long as \<open>t\<close> parties remain.
\<close>

theorem presign_robust_contract:
  fixes E :: "('f::field, 'g::ab_group_add, 'r) k256"
  assumes "k256_ok E" "committee_wf c" "c_n c \<le> length rs" "length X \<le> c_t c" "tt_of tamper = None"
    and "c_t c \<le> length (remaining c (deviators tamper))"
  shows "\<exists>res rs'. presign_robust_with_committee E c (map (joint_output E X) (c_ids c)) rid tamper rs = (res, rs')
    \<and> ((\<exists>U Z nonce. res = Ok (map (\<lambda>j. \<lparr>ps_id = rid, ps_index = j, ps_r = fst nonce, ps_big_r = snd nonce,
            ps_u_share = peval U (of_nat j), ps_z_share = peval Z (of_nat j), ps_u_com = commit E U,
            ps_z_com = commit E Z\<rparr>) (remaining c (deviators tamper)),
            filter (\<lambda>j. j \<in> deviators tamper) (c_ids c))
          \<and> presig_ok E (c_t c) 0 (peval X 0) U Z nonce)
        \<or> res = Err (ZeroValue ''v = 0'') \<or> res = Err (ZeroValue ''r = 0''))"
  by (rule presign_robust_honest [OF assms])

lemma presign_robust_contract_witness:
  "\<exists>res rs'. presign_robust_with_committee sample trio (map (joint_output sample [5, 1]) (c_ids trio)) 4
      (Some \<lparr>pt_bad_nonce_point = None, pt_bad_open_share = Some 2, pt_triple_tamper = None\<rparr>) [0, 1, 2] = (res, rs')
    \<and> ((\<exists>U Z nonce :: rat \<times> rat. fst nonce \<noteq> 0 \<and> res = Ok (map (\<lambda>j. \<lparr>ps_id = 4, ps_index = j, ps_r = fst nonce,
            ps_big_r = snd nonce, ps_u_share = peval U (of_nat j), ps_z_share = peval Z (of_nat j),
            ps_u_com = commit sample U, ps_z_com = commit sample Z\<rparr>) [1, 3], [2]))
        \<or> res = Err (ZeroValue ''v = 0'') \<or> res = Err (ZeroValue ''r = 0''))"
  using presign_robust_contract [OF sample_ok trio_wf, of "[0, 1, 2]" "[5, 1]"
    "Some \<lparr>pt_bad_nonce_point = None, pt_bad_open_share = Some 2, pt_triple_tamper = None\<rparr>" 4]
  by (simp add: tt_of_def deviators_def bad_open_def bad_nonce_def presig_ok_def) blast



text \<open>
  C15. Packed presigning and signing compose: one run shares the nonces of all \<open>b = |rids|\<close> slots in one
  polynomial, and every slot's records, combined with the packed quorum \<open>t + b - 1\<close> at that slot's point,
  deliver nothing but a signature that verifies under the key.
\<close>

theorem presign_packed_signs:
  fixes E :: "('f::field, 'g::ab_group_add, 'r) k256"
  assumes "k256_ok E" "params_new n t = Ok p" "t < 2 ^ 62" "n < 2 ^ 64" "n \<le> length rs" "length X \<le> t"
    and "rids \<noteq> []" "length rids < 2 ^ 62" "2 * t + 2 * length rids - 3 \<le> n"
  shows "\<exists>res rs'. run_presign_packed E p (map (joint_output E X) [1..<Suc n]) rids None rs = (res, rs')
    \<and> ((\<exists>why. res = Err (ZeroValue why)) \<or> (\<exists>records. res = Ok records \<and> (\<forall>b < length rids. \<forall>msg tamper sig.
        run_sign_packed E p (length rids) b (map (\<lambda>r. r ! b) records) msg tamper = Ok sig
          \<longrightarrow> good_signature E (smul E (gen E) (peval X 0)) msg sig)))"
proof -
  have small: "t < 2 ^ 63" using assms(3) by simp
  note facts = params_facts [OF assms(2) small assms(4)]
  have cn: "c_n (full_committee n t) \<le> length rs" "length X \<le> c_t (full_committee n t)"
    "c_t (full_committee n t) < 2 ^ 62" "2 * c_t (full_committee n t) + 2 * length rids - 3 \<le> c_n (full_committee n t)"
    using facts(4) assms(3,5,6,9) by simp_all
  obtain res rs' where run: "presign_packed_with_committee E (full_committee n t)
      (map (joint_output E X) (c_ids (full_committee n t))) rids (length rids) None rs = (res, rs')"
    and out: "(\<exists>U Z nonce. res = Ok (batch_presigs_of E (full_committee n t) rids nonce (\<lambda>_. U) Z)
        \<and> batch_presigs_ok E (c_t (full_committee n t) + length rids - 1) slot_point (peval X 0) (length rids) (\<lambda>_. U) Z nonce)
      \<or> (\<exists>msg. res = Err (ZeroValue msg))"
    using presign_packed_honest [OF assms(1) facts(3) cn(1,2) assms(7,8) cn(3,4)] by (elim exE conjE) (rule that)
  have run': "run_presign_packed E p (map (joint_output E X) [1..<Suc n]) rids None rs = (res, rs')"
    using run facts(2) by (simp add: run_presign_packed_def presign_packed_def del: upt_Suc)
  from out show ?thesis
  proof (elim disjE exE conjE)
    fix U Z nonce assume res: "res = Ok (batch_presigs_of E (full_committee n t) rids nonce (\<lambda>_. U) Z)"
      and ok: "batch_presigs_ok E (c_t (full_committee n t) + length rids - 1) slot_point (peval X 0) (length rids) (\<lambda>_. U) Z nonce"
    have sound: "good_signature E (smul E (gen E) (peval X 0)) msg sig"
      if b: "b < length rids" and signed: "run_sign_packed E p (length rids) b
        (map (\<lambda>r. r ! b) (batch_presigs_of E (full_committee n t) rids nonce (\<lambda>_. U) Z)) msg tamper = Ok sig" for b msg tamper sig
    proof (rule run_sign_packed_sound [OF assms(1) _ signers_presigs [OF facts(3)] presigs_hold _ _
          signed [unfolded batch_column [OF b]]])
      show "presig_ok E (p_t p + length rids - 1) (slot_point b) (peval X 0) U (Z b) (nonce b)"
        using ok b by (simp add: batch_presigs_ok_def facts(1))
    qed (use facts assms(3,8) in \<open>auto simp: committee_wf_def\<close>)
    show ?thesis using run' res sound by blast
  qed (use run' in blast)
qed

lemma params_5_2: "params_new 5 2 = Ok \<lparr>p_n = 5, p_t = 2\<rparr>"
  by (simp add: params_new_def wsub_def wmul_def)

lemma presign_packed_signs_witness:
  "\<exists>res rs'. run_presign_packed sample \<lparr>p_n = 5, p_t = 2\<rparr> (map (joint_output sample [5, 1]) [1..<Suc 5]) [4, 8] None [0, 1, 2, 3, 4]
      = (res, rs') \<and> ((\<exists>why. res = Err (ZeroValue why)) \<or> (\<exists>records. res = Ok records \<and> (\<forall>b < length [4, 8 :: nat]. \<forall>msg tamper sig.
        run_sign_packed sample \<lparr>p_n = 5, p_t = 2\<rparr> (length [4, 8 :: nat]) b (map (\<lambda>r. r ! b) records) msg tamper = Ok sig
          \<longrightarrow> good_signature sample (smul sample (gen sample) (peval [5, 1] 0)) msg sig)))"
  by (rule presign_packed_signs [OF sample_ok params_5_2]) simp_all

section \<open>Online signing\<close>

text \<open>A presignature of the secret \<open>5\<close> for the trio: \<open>U\<close> is \<open>1 + x\<close>, \<open>Z\<close> is \<open>5 + x\<close>, and \<open>R\<close> is \<open>G\<close>.\<close>

definition nonce1 :: "rat \<times> rat" where
  "nonce1 = (reduce sample (rat_bytes 1), 1)"

definition recs1 :: "(rat, rat) presignature list" where
  "recs1 = presigs_of sample trio 4 nonce1 [1, 1] [5, 1]"

lemma nonce1_ok: "presig_ok sample 2 0 5 [1, 1] [5, 1] nonce1"
  by (simp add: presig_ok_def nonce1_def sample_def)

lemma recs1_ok: "presig_ok sample (p_t \<lparr>p_n = 3, p_t = 2\<rparr>) 0 5 [1, 1] [5, 1] nonce1"
  by (simp add: nonce1_ok)

lemma recs1_held: "\<forall>q \<in> set recs1. holds sample q [1, 1] [5, 1] nonce1"
  unfolding recs1_def using presigs_hold by blast

lemma recs1_signers: "signers_ok recs1"
  unfolding recs1_def by (rule signers_presigs [OF trio_wf])

lemma recs1_simps [simp]: "length recs1 = 3" "recs1 \<noteq> []" "map ps_index recs1 = [1, 2, 3]"
  by (simp_all add: recs1_def presigs_of_def)

text \<open>
  C16. One wrong share stops a signature and is attributed: replacing the share of a signer by any other
  scalar makes signing abort and name exactly that signer.
\<close>

theorem wrong_share_named:
  fixes E :: "('f::field, 'g::ab_group_add, 'r) k256"
  assumes "k256_ok E" "presig_ok E (p_t p) 0 x U Z nonce" "signers_ok ps" "\<forall>q \<in> set ps. holds E q U Z nonce"
    and "q0 \<in> set ps" "fake \<noteq> sg_s (sign_share q0 (message_scalar E msg))"
  shows "run_sign E p ps msg (Some (ps_index q0, fake)) = abort Sign [ps_index q0] ''signature share failed commitment check''"
  by (rule run_sign_blames [OF assms(1-3) _ assms(5,6)]) (use assms(4) in blast)

lemma wrong_share_named_witness:
  "\<exists>fake. run_sign sample \<lparr>p_n = 3, p_t = 2\<rparr> recs1 [1, 2] (Some (2, fake))
    = abort Sign [2] ''signature share failed commitment check''"
proof -
  have second: "recs1 ! 1 \<in> set recs1" "ps_index (recs1 ! 1) = 2" by (simp_all add: recs1_def presigs_of_def)
  let ?s = "sg_s (sign_share (recs1 ! 1) (message_scalar sample [1, 2]))"
  have "run_sign sample \<lparr>p_n = 3, p_t = 2\<rparr> recs1 [1, 2] (Some (ps_index (recs1 ! 1), ?s + 1))
      = abort Sign [ps_index (recs1 ! 1)] ''signature share failed commitment check''"
    by (rule wrong_share_named [OF sample_ok recs1_ok recs1_signers recs1_held second(1)]) simp
  then show ?thesis unfolding second(2) by blast
qed

text \<open>
  C17. Robust signing delivers in spite of wrong shares: with \<open>t\<close> honest signers left, any number of
  replaced shares is sifted out, the signature is good, and only senders of replaced shares are reported.
\<close>

theorem robust_signing_delivers:
  fixes E :: "('f::field, 'g::ab_group_add, 'r) k256"
  assumes "k256_ok E" "presig_ok E (p_t p) 0 x U Z nonce" "signers_ok ps" "\<forall>q \<in> set ps. holds E q U Z nonce"
    and "p_t p \<le> length (filter (\<lambda>q. ps_index q \<notin> fst ` set tampers) ps)" "ps \<noteq> []"
    and "message_scalar E msg + fst nonce * x \<noteq> 0"
  shows "\<exists>sig blamed. run_sign_robust E p ps msg tampers = Ok (sig, blamed)
    \<and> good_signature E (smul E (gen E) x) msg sig \<and> set blamed \<subseteq> fst ` set tampers"
  by (rule run_sign_robust_delivers [OF assms(1-3) _ assms(5-7)]) (use assms(4) in blast)

lemma sum_pos_nonzero: "message_scalar sample msg + fst nonce1 * 5 \<noteq> 0"
proof -
  have "0 < message_scalar sample msg" "0 < fst nonce1"
    by (simp_all add: message_scalar_def scalar_from_digest_def nonce1_def sample_def)
  then show ?thesis by linarith
qed

lemma robust_signing_delivers_witness:
  "\<exists>sig blamed. run_sign_robust sample \<lparr>p_n = 3, p_t = 2\<rparr> recs1 [1, 2] [(2, 77)] = Ok (sig, blamed)
    \<and> good_signature sample (smul sample (gen sample) 5) [1, 2] sig \<and> set blamed \<subseteq> fst ` set [(2, 77 :: rat)]"
  by (rule robust_signing_delivers [OF sample_ok recs1_ok recs1_signers recs1_held])
    (simp_all add: sum_pos_nonzero recs1_def presigs_of_def)

text \<open>
  C18. Rerandomised signing (and signing under a tweaked key, \<open>x + tau\<close>) is sound: whatever one share is
  replaced by, a delivered signature verifies under the tweaked public key.
\<close>

theorem rerandomised_signing_sound:
  fixes E :: "('f::field, 'g::ab_group_add, 'r) k256"
  assumes "k256_ok E" "presig_ok E (p_t p) 0 x U Z nonce" "signers_ok ps" "\<forall>q \<in> set ps. holds E q U Z nonce"
    and "run_sign_rerand E p ps msg tweak sid X tamper = Some (Ok sig)"
  shows "good_signature E (smul E (gen E) (x + (case tweak of None \<Rightarrow> 0 | Some tau \<Rightarrow> tau))) msg sig"
  by (rule run_sign_rerand_sound [OF assms(1-3) _ assms(5)]) (use assms(4) in blast)

lemma sample_positive: "0 < scalar_from_digest sample d" "normalized sample (r, s) = (if r = 0 \<or> s = 0 then Err Ecdsa
    else Ok (r, if s > 0 then - s else s))"
  using normalized_value [OF sample_ok] by (simp_all add: scalar_from_digest_def sample_def)

lemma sample_gamma: "\<exists>gamma > 0. rerand_gamma sample sid i m tweak X = Some gamma"
  using sample_positive(1) [of "rerand_digest sample sid i m tweak X 0"]
  by (simp add: rerand_gamma_value upt_conv_Cons)

lemma rerandomised_signing_sound_witness:
  "\<exists>sig. run_sign_rerand sample \<lparr>p_n = 3, p_t = 2\<rparr> recs1 [1, 2] (Some 3) [7] 5 None = Some (Ok sig)
    \<and> good_signature sample 8 [1, 2] sig"
proof -
  let ?m = "message_scalar sample [1, 2]"
  obtain gamma where gamma: "gamma > 0" "rerand_gamma sample [7] (ps_id (recs1 ! 0)) ?m (Some 3) 5 = Some gamma"
    using sample_gamma by blast
  have held: "\<And>q. q \<in> set recs1 \<Longrightarrow> holds sample q [1, 1] [5, 1] nonce1" using recs1_held by blast
  obtain r' where r': "rerand_factors sample (snd nonce1) gamma = Ok (inverse gamma, r')"
    "run_sign_rerand sample \<lparr>p_n = 3, p_t = 2\<rparr> recs1 [1, 2] (Some 3) [7] 5 None
      = Some (normalized sample (r', inverse gamma * peval [1, 1] 0 * (?m + r' * (5 + 3))))"
    using run_sign_rerand_delivers [OF sample_ok recs1_ok recs1_signers held _ _ gamma(2)] by auto
  have pos: "0 < r'" "0 < ?m"
    using r'(1) sample_positive(1)
    by (auto simp: rerand_factors_def message_scalar_def of_opt_def split: option.splits res.splits)
  then have "0 < ?m + r' * 8" by simp
  then have "\<exists>sig. run_sign_rerand sample \<lparr>p_n = 3, p_t = 2\<rparr> recs1 [1, 2] (Some 3) [7] 5 None = Some (Ok sig)"
    using r'(2) gamma(1) pos(1) by (simp add: sample_positive(2) add_pos_pos)
  with rerandomised_signing_sound [OF sample_ok recs1_ok recs1_signers recs1_held, of "[1, 2]" "Some 3" "[7]" 5 None]
  show ?thesis by auto
qed

text \<open>
  C19. Key-independent signing is sound: with presignatures that share only a nonce and keys that share
  the secret, whatever opening or signature share is corrupted, a delivered signature verifies under the
  public key of the secret.
\<close>

theorem key_independent_signing_sound:
  fixes E :: "('f::field, 'g::ab_group_add, 'r) k256"
  assumes "k256_ok E" "params_new n t = Ok p" "t < 2 ^ 63" "n < 2 ^ 64" "n \<le> length rngs" "length X \<le> t"
    and "presig_ok E t 0 (peval X 0) U (pscale (peval X 0) U) nonce"
    and "\<forall>q \<in> set presigs. kp_r q = fst nonce \<and> kp_u_com q = commit E U \<and> kp_index q < 2 ^ 64"
    and "distinct (map kp_index presigs)" "\<forall>k \<in> set keys. o_com k = commit E X"
    and "run_sign_ki E p keys presigs msg tamper rngs = (Ok sig, rngs')"
  shows "good_signature E (smul E (gen E) (peval X 0)) msg sig"
  by (rule run_sign_ki_sound [OF assms])

lemma key_independent_signing_sound_witness:
  "\<exists>sig rngs'. run_sign_ki sample \<lparr>p_n = 3, p_t = 2\<rparr> (map (joint_output sample [5, 1]) [1..<Suc 3])
      (ki_presigs_of sample (full_committee 3 2) 4 nonce1 [1, 1]) [1, 2] None [0, 1, 2] = (Ok sig, rngs')
    \<and> good_signature sample 5 [1, 2] sig"
proof -
  let ?ps = "ki_presigs_of sample (full_committee 3 2) 4 nonce1 [1, 1]"
  have ok: "presig_ok sample 2 0 (peval [5, 1] 0) [1, 1] (pscale (peval [5, 1] 0) [1, 1]) nonce1"
    by (simp add: presig_ok_def nonce1_def sample_def)
  obtain rngs' where run: "run_sign_ki sample \<lparr>p_n = 3, p_t = 2\<rparr> (map (joint_output sample [5, 1]) [1..<Suc 3]) ?ps [1, 2] None [0, 1, 2]
      = (normalized sample (fst nonce1, peval [1, 1] 0 * (message_scalar sample [1, 2] + fst nonce1 * peval [5, 1] 0)), rngs')"
    using run_sign_ki_delivers [OF sample_ok params_3_2 _ _ _ _ ok, of "[0, 1, 2]" 4 "[1, 2]"] by auto
  moreover have "fst nonce1 \<noteq> 0" using sample_positive(1) [of "rat_bytes 1"] by (simp add: nonce1_def scalar_from_digest_def)
  ultimately obtain sig where sig: "run_sign_ki sample \<lparr>p_n = 3, p_t = 2\<rparr> (map (joint_output sample [5, 1]) [1..<Suc 3]) ?ps [1, 2] None
      [0, 1, 2] = (Ok sig, rngs')"
    using sum_pos_nonzero [of "[1, 2]"] by (simp add: sample_positive(2) del: upt_Suc)
  have "good_signature sample (smul sample (gen sample) (peval [5, 1] 0)) [1, 2] sig"
    by (rule key_independent_signing_sound [OF sample_ok params_3_2 _ _ _ _ ok _ _ _ sig])
      (auto simp: ki_presigs_of_def o_def simp del: upt_Suc)
  then show ?thesis using sig by auto
qed

section \<open>Committee maintenance\<close>



text \<open>
  C21. Whatever a refresh returns, and under every fault, the public key of every party is the one it
  held before.
\<close>

theorem refresh_keeps_public_key:
  assumes "refresh E c keys sid tamper rs = (Ok keys', rs')"
  shows "length keys' \<le> length keys \<and> (\<forall>k < length keys'.
    nth_opt (points (o_com (keys' ! k))) 0 = nth_opt (points (o_com (keys ! k))) 0)"
  by (rule refresh_public [OF assms])

lemma refresh_keeps_public_key_witness:
  "\<exists>keys' rs'. refresh sample trio (map (joint_output sample [5, 1]) [1, 2, 3]) [7] None [0, 1, 2] = (Ok keys', rs')
    \<and> length keys' = 3 \<and> nth_opt (points (o_com (keys' ! 0))) 0 = Some 5"
proof -
  obtain Z rs' where run: "refresh sample trio (map (joint_output sample [5, 1]) (c_ids trio)) [7] None [0, 1, 2]
      = (Ok (map (joint_output sample (padd [5, 1] Z)) (c_ids trio)), rs')"
    using refresh_honest [OF sample_ok trio_wf, of "[0, 1, 2]" "[5, 1]" "[7]"] by auto
  from run refresh_keeps_public_key [OF run] show ?thesis by (auto simp: commit_def)
qed

text \<open>
  C22. A refresh with a wrong zero-sharing dealing or a corrupted sub-share between two members never
  completes: it ends in an abort of phase \<open>Refresh\<close> that names the party at fault.
\<close>

theorem refresh_fault_named:
  fixes E :: "('f::field, 'g::ab_group_add, 'r) k256"
  assumes "k256_ok E" "committee_wf c" "c_n c \<le> length rs" "bad_reveal_of tamper = None"
    and "d \<in> set (c_ids c)" "v \<in> set (c_ids c)" "faulty_at tamper d v"
  shows "\<exists>e rs'. refresh E c (map (joint_output E X) (c_ids c)) sid tamper rs = (Err e, rs')
    \<and> (\<exists>d v. faulty_at tamper d v \<and> fault_abort tamper Refresh d v e)"
  by (rule refresh_faulty [OF assms])

lemma refresh_fault_named_witness:
  "\<exists>e rs'. refresh sample trio (map (joint_output sample [5, 1]) (c_ids trio)) [7]
      (Some \<lparr>dt_corrupt_share = None, dt_bad_deal = Some (3, 1), dt_bad_reveal = None\<rparr>) [0, 1, 2] = (Err e, rs')
    \<and> (\<exists>d v. faulty_at (Some \<lparr>dt_corrupt_share = None, dt_bad_deal = Some (3, 1), dt_bad_reveal = None\<rparr>) d v
      \<and> fault_abort (Some \<lparr>dt_corrupt_share = None, dt_bad_deal = Some (3, 1), dt_bad_reveal = None\<rparr>) Refresh d v e)"
  by (rule refresh_fault_named [OF sample_ok trio_wf, of _ _ 3 1])
    (simp_all add: bad_reveal_of_def bad_deal_of_def faulty_at_def)

text \<open>
  C23. Resharing hands the secret to a new committee: either every new member holds a share of a
  polynomial of the new threshold with the same constant and no old member cheated a new one, or an old
  member that did cheat is named.
\<close>

theorem reshare_moves_secret:
  fixes E :: "('f::field, 'g::ab_group_add, 'r) k256"
  assumes "k256_ok E" "committee_wf old" "committee_wf new" "c_n old \<le> length rs" "X \<noteq> []" "length X \<le> c_n old"
  shows "\<exists>res rs'. run_reshare E (map (joint_output E X) (c_ids old)) old new sid tamper rs = (res, rs') \<and>
    ((\<exists>Y. res = Ok (map (joint_output E Y) (c_ids new)) \<and> length Y = c_t new \<and> peval Y 0 = peval X 0
        \<and> (\<forall>j \<in> set (c_ids old). \<forall>m \<in> set (c_ids new). \<not> cheats tamper j m))
     \<or> (\<exists>e. res = Err e \<and> (\<exists>j \<in> set (c_ids old). (\<exists>m \<in> set (c_ids new). cheats tamper j m) \<and> blames e j)))"
  unfolding run_reshare_def by (rule reshare_outcome [OF assms])

lemma reshare_moves_secret_witness:
  "\<exists>Y rs'. run_reshare sample (map (joint_output sample [5, 1]) [1, 2, 3]) trio quint [7] None [0, 1, 2]
    = (Ok (map (joint_output sample Y) [1, 2, 3, 4, 5]), rs') \<and> length Y = 2 \<and> peval Y 0 = 5"
  using reshare_moves_secret [OF sample_ok trio_wf, of quint "[0, 1, 2]" "[5, 1]" "[7]" None]
  by (auto simp: cheats_def bad_com_of_def bad_subshare_of_def)

section \<open>Presignature stores\<close>

text \<open>
  C24. The presignature store is a single-use store: every answer of any sequence of inserts and consumes
  is the one an ideal map gives (an id is accepted when absent, delivered once with the record inserted,
  missed otherwise), and the well-formedness invariant is kept.
\<close>

theorem store_history_faithful:
  assumes "store_ok st" "store_run store_insert store_consume calls st = (events, st')"
  shows "store_ok st' \<and> faithful ps_id events (bt_get (st_records st))
    \<and> (\<lambda>i. bt_get (st_records st') i) = replay ps_id events (bt_get (st_records st))"
  using presigs.run_faithful [OF assms] by simp

lemma store_history_faithful_witness:
  "\<exists>events st'. store_run store_insert store_consume [Insert (recs1 ! 0), Insert (recs1 ! 1), Consume 4, Consume 4] (store_new 5)
      = (events, st') \<and> faithful ps_id events (\<lambda>_. None) \<and> store_ok st'"
proof -
  obtain events st' where run: "store_run store_insert store_consume
      [Insert (recs1 ! 0), Insert (recs1 ! 1), Consume 4, Consume 4] (store_new 5) = (events, st')"
    by fastforce
  have "bt_get (st_records (store_new 5 :: (rat, rat) presig_store)) = (\<lambda>_. None)" by (simp add: fun_eq_iff)
  with run store_history_faithful [OF store_new_ok(1) run] show ?thesis by auto
qed



text \<open>
  C26. A cleared store is a new epoch: nothing stored before is delivered after a clear; each id is
  delivered at most as often as it was inserted since.
\<close>

theorem cleared_store_forgets:
  assumes "store_ok st" "store_run store_insert store_consume calls (store_clear st) = (events, st')"
  shows "count_if (is_delivery ps_id i) events \<le> count_if (is_insertion ps_id i) events"
  by (rule presigs.run_after_clear [OF assms])

lemma cleared_store_forgets_witness:
  "\<exists>events st'. store_run store_insert store_consume [Consume 4, Insert (recs1 ! 0), Consume 4, Consume 4]
      (store_clear (snd (store_insert (recs1 ! 1) (store_new 5)))) = (events, st')
    \<and> count_if (is_delivery ps_id 4) events \<le> count_if (is_insertion ps_id 4) events"
proof -
  obtain events st' where run: "store_run store_insert store_consume [Consume 4, Insert (recs1 ! 0), Consume 4, Consume 4]
      (store_clear (snd (store_insert (recs1 ! 1) (store_new 5)))) = (events, st')" by fastforce
  have "store_ok (snd (store_insert (recs1 ! 1) (store_new 5)))"
    by (simp add: store_insert_def store_new_def store_ok_def records_ok_def bt_wf_def)
  from run cleared_store_forgets [OF this run] show ?thesis by blast
qed

section \<open>Wire format and signed transport\<close>

text \<open>A codec over bytes as scalars and points, with the widths of the curve's encodings.\<close>

definition wire_sample :: "(8 word, 8 word, unit) k256" where
  "wire_sample = \<lparr>gen = 1, smul = (*), sha256 = (\<lambda>bs. bs), reduce = (\<lambda>_. 0),
     pt_bytes = (\<lambda>p. if p = 0 then [0] else 2 # replicate 31 0 @ [p]),
     pt_of_bytes = (\<lambda>b. if butlast b = 2 # replicate 31 0 \<and> last b \<noteq> 0 then Some (last b) else None),
     x_bytes = (\<lambda>_. None), sc_bytes = (\<lambda>s. replicate 31 0 @ [s]),
     sc_of_bytes = (\<lambda>b. if butlast b = replicate 31 0 then Some (last b) else None),
     is_high = (\<lambda>_. False), sig_from_scalars = (\<lambda>_ _. None), sig_normalize = (\<lambda>_. None), rnd = (\<lambda>_. (0, ()))\<rparr>"

definition wire_sig :: "8 word \<Rightarrow> bytes" where "wire_sig s = replicate 63 0 @ [s]"

definition wire_sig_of :: "bytes \<Rightarrow> 8 word option" where
  "wire_sig_of b = (if butlast b = replicate 63 0 then Some (last b) else None)"

lemma butlast_last: "b \<noteq> [] \<Longrightarrow> butlast b = xs \<longleftrightarrow> b = xs @ [last b]"
  by (metis append_butlast_last_id butlast_snoc)

lemma wire_sample_law: "codec_law wire_sample"
proof -
  have two: "b = 2 # replicate 31 0 @ [last b]" if "length b = 33" "butlast b = 2 # replicate 31 0" for b :: bytes
    using that butlast_last [of b "2 # replicate 31 0"] by (cases b) auto
  have one: "b = replicate 31 0 @ [last b]" if "length b = 32" "butlast b = replicate 31 0" for b :: bytes
    using that butlast_last [of b "replicate 31 0"] by (cases b) auto
  show ?thesis
    unfolding codec_law_def wire_sample_def
    by (auto split: if_splits dest: one two simp del: replicate.simps)
qed

lemma wire_sig_law: "signature_law wire_sig wire_sig_of"
proof -
  have one: "b = replicate 63 0 @ [last b]" if "length b = 64" "butlast b = replicate 63 0" for b :: bytes
    using that butlast_last [of b "replicate 63 0"] by (cases b) auto
  show ?thesis
    unfolding signature_law_def wire_sig_def wire_sig_of_def
    by (auto split: if_splits dest: one simp del: replicate.simps)
qed

text \<open>
  C27. The wire codec of signed DKG envelopes: decoding inverts encoding, reports the number of bytes
  used and ignores what follows; and it accepts canonical encodings only, so that no two byte strings
  decode to the same envelope.
\<close>

theorem signed_envelope_codec:
  fixes E :: "('f, 'g::zero, 'r) k256" and e :: "(('f, 'g) dkg_message, 's) signed_envelope"
  assumes "codec_law E" "signature_law sig of_slice"
  shows "(valid_envelope (encode_message E) valid_message (se_envelope e) \<longrightarrow>
      decode_signed (decode_message E) of_slice (encode_signed (encode_message E) sig e @ rest)
        = Some (e, length (encode_signed (encode_message E) sig e)))
    \<and> (decode_signed (decode_message E) of_slice b = Some (e, n) \<longrightarrow>
      valid_envelope (encode_message E) valid_message (se_envelope e) \<and> n \<le> length b
        \<and> take n b = encode_signed (encode_message E) sig e)"
  using codec.dec_enc [OF signed_codec [OF message_codec [OF assms(1)] assms(2)]]
    codec.dec_Some [OF signed_codec [OF message_codec [OF assms(1)] assms(2)]] by blast

definition sample_envelope :: "(8 word, 8 word) dkg_message envelope" where
  "sample_envelope = envelope_p2p [7] KeyGen DKG_ROUND_REVEAL 1 2 (Share \<lparr>pp_from = 1, pp_to = 2, pp_share = 9\<rparr>)"

lemma sample_envelope_valid: "valid_envelope (encode_message wire_sample) valid_message sample_envelope"
  by (simp add: valid_envelope_def sample_envelope_def envelope_p2p_def valid_message_def valid_p2p_def
      encode_message_def encode_p2p_def put_u8_def put_u64_def put_scalar_def u64_be_def wire_sample_def)

lemma signed_envelope_codec_witness:
  "decode_signed (decode_message wire_sample) wire_sig_of
      (encode_signed (encode_message wire_sample) wire_sig \<lparr>se_envelope = sample_envelope, se_signature = 3\<rparr> @ [1, 2])
    = Some (\<lparr>se_envelope = sample_envelope, se_signature = 3\<rparr>,
        length (encode_signed (encode_message wire_sample) wire_sig \<lparr>se_envelope = sample_envelope, se_signature = 3\<rparr>))"
  using signed_envelope_codec [OF wire_sample_law wire_sig_law, of "\<lparr>se_envelope = sample_envelope, se_signature = 3\<rparr>" "[1, 2]"]
    sample_envelope_valid by simp

text \<open>
  C28. A transport signature covers the whole envelope: two well-formed envelopes with the same signing
  bytes are equal, in session, phase, round, sender, receiver and payload.
\<close>

theorem signing_bytes_injective:
  fixes E :: "('f, 'g::zero, 'r) k256"
  assumes "codec_law E" "valid_envelope (encode_message E) valid_message x" "valid_envelope (encode_message E) valid_message y"
    and "signing_bytes (encode_message E) x = signing_bytes (encode_message E) y"
  shows "x = y"
  by (rule signing_bytes_inj [OF message_codec [OF assms(1)] assms(2-4)])

lemma signing_bytes_injective_witness:
  "signing_bytes (encode_message wire_sample) sample_envelope \<noteq> signing_bytes (encode_message wire_sample) (sample_envelope\<lparr>e_from := 3\<rparr>)"
proof
  assume "signing_bytes (encode_message wire_sample) sample_envelope = signing_bytes (encode_message wire_sample) (sample_envelope\<lparr>e_from := 3\<rparr>)"
  moreover have "valid_envelope (encode_message wire_sample) valid_message (sample_envelope\<lparr>e_from := 3\<rparr>)"
    using sample_envelope_valid by (simp add: valid_envelope_def sample_envelope_def envelope_p2p_def)
  ultimately have "sample_envelope = sample_envelope\<lparr>e_from := 3\<rparr>"
    using signing_bytes_injective [OF wire_sample_law sample_envelope_valid] by blast
  then show False by (simp add: sample_envelope_def envelope_p2p_def)
qed

text \<open>
  C29. What a signing transport accepts is signed: either every received envelope verifies under the
  registered key of the sender it names and all of them are handed on, keyed by the claimed sender, or the
  round aborts, in its phase, with the sender named in an envelope that does not verify.
\<close>

theorem accepted_envelopes_signed:
  "(verify_all G enc st ph raw = Ok (bt_of_list (map (\<lambda>(c, outer). (c, e_payload outer)) raw))
      \<and> (\<forall>(c, outer) \<in> set raw. signature_ok G enc (sx_verifying_keys st) (e_payload outer)))
    \<or> (\<exists>(c, outer) \<in> set raw. \<not> signature_ok G enc (sx_verifying_keys st) (e_payload outer)
      \<and> verify_all G enc st ph raw = abort ph [e_from (se_envelope (e_payload outer))]
          ''invalid transport signature (forged or tampered envelope)'')"
  by (rule verify_all_cases)

text \<open>A scheme whose signature is the key and the message.\<close>

definition plain_scheme :: "(nat, nat, nat \<times> bytes) sig_scheme" where
  "plain_scheme = \<lparr>sig_sign = (\<lambda>sk m. (sk, m)), sig_verify = (\<lambda>vk m s. s = (vk, m)), sig_public = (\<lambda>sk. sk)\<rparr>"

lemma accepted_envelopes_signed_witness:
  "verify_all plain_scheme (encode_message wire_sample)
      (signing_new plain_scheme sim_new [(1, 10)] :: (unit sim_transport, nat, nat) signing_transport) KeyGen
      [(1, envelope_broadcast [7] KeyGen 2 1 \<lparr>se_envelope = sample_envelope, se_signature = (11, [])\<rparr>)]
    = abort KeyGen [1] ''invalid transport signature (forged or tampered envelope)''"
proof -
  define st :: "(unit sim_transport, nat, nat) signing_transport" where "st = signing_new plain_scheme sim_new [(1, 10)]"
  define sgd where "sgd = \<lparr>se_envelope = sample_envelope, se_signature = (11 :: nat, [] :: bytes)\<rparr>"
  have "sx_verifying_keys st = [(1, 10)]" by (simp add: st_def signing_new_def plain_scheme_def bt_of_list_def)
  then have "\<not> signature_ok plain_scheme (encode_message wire_sample) (sx_verifying_keys st) sgd" "e_from (se_envelope sgd) = 1"
    by (simp_all add: signature_ok_def verify_signature_def plain_scheme_def sgd_def sample_envelope_def envelope_p2p_def)
  with accepted_envelopes_signed [of plain_scheme "encode_message wire_sample" st KeyGen "[(1, envelope_broadcast [7] KeyGen 2 1 sgd)]"]
  show ?thesis by (auto simp: st_def sgd_def envelope_broadcast_def)
qed

text \<open>
  C30. Signing the transport changes no outcome: when every party of the session signs with a registered
  key, the signed DKG driver returns, for every injected fault, the results, errors and generator states of
  the plain driver; and every blame token it issues without a fault on the wire belongs to its error and
  verifies offline against the registered keys.
\<close>

theorem signed_drive_refines:
  fixes E :: "('f::field, 'g::ab_group_add, 'r) k256" and G :: "('sk, 'vk, 's) sig_scheme"
  assumes "sign_correct G" "distinct (map fst signers)" "set (parties p) \<subseteq> fst ` set signers"
    and "drive_dkg_signed E G sim_ops p sid tag ph tamper (rngs, signing_new G sim_new signers)
      = ((res :: (('f, 'g, 's) signed_drive_error, _) res), (rngs', st'))"
  shows "(\<exists>tr'. drive_dkg E sim_ops p sid tag ph tamper (rngs, sim_new) = (map_error sd_error res, (rngs', tr')))
    \<and> (\<forall>er tk. res = Err er \<longrightarrow> sd_token er = Some tk \<longrightarrow> corrupt_of tamper = None \<longrightarrow>
        sd_error er = Abort (tk_abort tk) \<and> token_verify E G tk (verifying_keys
          (signing_new G (sim_new :: (('f, 'g) dkg_message, 's) signed_envelope sim_transport) signers)))"
proof -
  let ?st = "signing_new G sim_new signers :: ((('f, 'g) dkg_message, 's) signed_envelope sim_transport, 'sk, 'vk) signing_transport"
  let ?sks = "sx_signing_keys ?st" and ?vks = "sx_verifying_keys ?st"
  have keys: "\<forall>i \<in> set (parties p). key_pair G ?sks ?vks i"
    using assms(3) signing_new_key_pair [OF _ assms(2)] by fastforce
  from correspondsD [OF signed_sim.drive_signed [OF keys assms(1)] signing_new_carries, of E sid tag ph tamper rngs] assms(4)
  have plain: "\<exists>tr'. drive_dkg E sim_ops p sid tag ph tamper (rngs, sim_new) = (map_error sd_error res, (rngs', tr'))" by auto
  have token: "sd_error er = Abort (tk_abort tk) \<and> token_verify E G tk (verifying_keys ?st)"
    if "res = Err er" "sd_token er = Some tk" "corrupt_of tamper = None" for er tk
  proof -
    have run: "drive_dkg_signed E G sim_ops p sid tag ph tamper (rngs, ?st) = (Err er, (rngs', st'))"
      using assms(4) that(1) by simp
    have carried: "signed_sim.carries E G ?sks ?vks sim_new ?st" by (rule signing_new_carries)
    show ?thesis
      unfolding verifying_keys_def
      by (rule signed_sim.drive_signed_token [OF keys assms(1) carried that(3) run that(2)])
  qed
  show ?thesis by (rule conjI [OF plain]) (intro allI impI token)
qed

lemma signed_drive_refines_witness:
  "\<exists>res rngs' st' tr'. drive_dkg_signed sample plain_scheme sim_ops \<lparr>p_n = 3, p_t = 2\<rparr> [7] [9] KeyGen None
      ([0, 1, 2], signing_new plain_scheme sim_new [(1, 10), (2, 20), (3, 30)])
      = ((res :: ((rat, rat, nat \<times> bytes) signed_drive_error, _) res), (rngs', st'))
    \<and> drive_dkg sample sim_ops \<lparr>p_n = 3, p_t = 2\<rparr> [7] [9] KeyGen None ([0, 1, 2], sim_new) = (map_error sd_error res, (rngs', tr'))"
proof -
  obtain res rngs' st' where run: "drive_dkg_signed sample plain_scheme sim_ops \<lparr>p_n = 3, p_t = 2\<rparr> [7] [9] KeyGen None
      ([0, 1, 2], signing_new plain_scheme sim_new [(1, 10), (2, 20), (3, 30)])
      = ((res :: ((rat, rat, nat \<times> bytes) signed_drive_error, _) res), (rngs', st'))"
    by (metis prod.exhaust)
  have ok: "sign_correct plain_scheme" by (simp add: sign_correct_def plain_scheme_def)
  have dist: "distinct (map fst [(1 :: nat, 10 :: nat), (2, 20), (3, 30)])" by simp
  have sub: "set (parties \<lparr>p_n = 3, p_t = 2\<rparr>) \<subseteq> fst ` set [(1, 10 :: nat), (2, 20), (3, 30)]"
    by (auto simp: parties_def)
  from run signed_drive_refines [OF ok dist sub run] show ?thesis by blast
qed
section \<open>Committees\<close>

text \<open>
  C31. A committee is created exactly for valid parameters, its members are the given ids in increasing
  order, and it satisfies the invariant on which every protocol relies: \<open>1 \<le> t\<close>, \<open>n \<ge> 2 t - 1\<close>, and
  distinct nonzero 64-bit ids.
\<close>

theorem committee_creation:
  assumes "t < 2 ^ 63" "\<forall>j \<in> set ids. j < 2 ^ 64"
  shows "(committee_new ids t = Ok c \<longleftrightarrow> 1 \<le> t \<and> 2 * t - 1 \<le> length ids \<and> 0 \<notin> set ids \<and> distinct ids
      \<and> c = \<lparr>c_ids = sort ids, c_t = t\<rparr>)
    \<and> (committee_new ids t = Ok c \<longrightarrow> committee_wf c)"
  using committee_new_Ok_iff [of t ids c] committee_new_wf [of ids t c] assms by blast

lemma committee_creation_witness:
  "committee_new [3, 1, 2] 2 = Ok \<lparr>c_ids = [1, 2, 3], c_t = 2\<rparr> \<and> committee_wf \<lparr>c_ids = [1, 2, 3], c_t = 2\<rparr>"
proof -
  have "\<forall>j \<in> set [3, 1, 2 :: nat]. j < 2 ^ 64" by simp
  from committee_creation [OF _ this, of 2 "\<lparr>c_ids = [1, 2, 3], c_t = 2\<rparr>"] show ?thesis by simp
qed

text \<open>
  C32. The restart policy: the survivors of an abort are the members that were not blamed, in increasing
  order; they are returned exactly when \<open>2 t - 1\<close> of them remain; they then form a valid committee, and
  when a member was blamed there are strictly fewer of them, so that restarting ends.
\<close>

theorem restart_policy:
  assumes "t < 2 ^ 63" "distinct current" "\<forall>j \<in> set current. 1 \<le> j \<and> j < 2 ^ 64"
  shows "(restart_committee current blamed t = Ok survivors \<longleftrightarrow>
      1 \<le> t \<and> survivors = sort (filter (\<lambda>p. p \<notin> set blamed) current) \<and> 2 * t - 1 \<le> length survivors)
    \<and> (restart_committee current blamed t = Ok survivors \<longrightarrow>
      committee_new survivors t = Ok \<lparr>c_ids = survivors, c_t = t\<rparr>
      \<and> (set blamed \<inter> set current \<noteq> {} \<longrightarrow> length survivors < length current))"
  using restart_committee_Ok [OF assms(1)] restart_committee_valid [OF _ assms(1,2)] restart_committee_shrinks assms(3)
  by blast

lemma restart_policy_witness:
  "restart_committee [1, 2, 3, 4] [2] 2 = Ok [1, 3, 4] \<and> committee_new [1, 3, 4] 2 = Ok \<lparr>c_ids = [1, 3, 4], c_t = 2\<rparr>"
proof -
  have "\<forall>j \<in> set [1, 2, 3, 4 :: nat]. 1 \<le> j \<and> j < 2 ^ 64" by simp
  from restart_policy [OF _ _ this, of 2 "[2]" "[1, 3, 4]"] show ?thesis by simp
qed

section \<open>Commitments, openings and proofs\<close>

text \<open>
  C33. A verified opening is bound to its commitment: from at most \<open>t\<close> committed coefficients, whatever
  value is returned at a point is the discrete logarithm of the commitment evaluated there, whoever sent
  the shares.
\<close>

theorem opening_is_bound:
  fixes E :: "('f::field, 'g::ab_group_add, 'r) k256"
  assumes "k256_ok E" "ids_ok shares" "length (points com) \<le> t" "open_at E point t com shares ph = Ok v"
  shows "smul E (gen E) v = com_eval_at_point E com point"
  by (rule open_at_binding [OF assms])

lemma opening_is_bound_witness:
  "open_at sample 0 2 (commit sample [5, 1]) [(1, 6), (2, 7)] Sign = Ok 5
    \<and> smul sample (gen sample) 5 = com_eval_at_point sample (commit sample [5, 1]) 0"
proof -
  have ids: "ids_ok [(1, 6 :: rat), (2, 7)]" by (simp add: ids_ok_def)
  have opened: "open_at sample 0 2 (commit sample [5, 1]) [(1, 6), (2, 7)] Sign = Ok (peval [5, 1] 0)"
    by (rule open_at_commit [OF sample_ok ids]) auto
  from opened opening_is_bound [OF sample_ok ids _ opened] show ?thesis by simp
qed

text \<open>
  C34. A robust opening tolerates wrong shares: as soon as \<open>t\<close> of the shares lie on the committed
  polynomial it returns the constant, and it reports exactly the senders of the others.
\<close>

theorem robust_opening_delivers:
  fixes E :: "('f::field, 'g::ab_group_add, 'r) k256"
  assumes "k256_ok E" "ids_ok shares" "length cs \<le> t" "t \<le> length (good E (commit E cs) shares)"
  shows "open_robust E t (commit E cs) shares ph = Ok (peval cs 0, cheaters E (commit E cs) shares)"
  by (rule open_robust_commit [OF assms])

lemma robust_opening_delivers_witness:
  "open_robust sample 2 (commit sample [5, 1]) [(1, 6), (2, 9), (3, 8)] Sign = Ok (5, [2])"
proof -
  have ids: "ids_ok [(1, 6 :: rat), (2, 9), (3, 8)]" by (simp add: ids_ok_def)
  have "good sample (commit sample [5, 1]) [(1, 6), (2, 9), (3, 8)] = [(1, 6), (3, 8)]"
    "cheaters sample (commit sample [5, 1]) [(1, 6), (2, 9), (3, 8)] = [2]"
    by (simp_all add: good_def cheaters_def verify_share_commit [OF sample_ok])
  with robust_opening_delivers [OF sample_ok ids, of "[5, 1]" 2 Sign] show ?thesis by simp
qed

text \<open>
  C35. Batch verification of product proofs: proofs that verify one by one verify as a batch, and a batch
  with exactly one wrong proof is rejected unless its random coefficient is zero.
\<close>

theorem dleq_batch_verification:
  assumes "k256_ok E" "length sts = length prfs"
  shows "((\<forall>b g1 x1 g2 x2. b < length prfs \<longrightarrow> sts ! b = (g1, x1, g2, x2) \<longrightarrow>
        dleq_verify E sid tag g1 x1 g2 x2 (prfs ! b)) \<longrightarrow> dleq_verify_batch E sid tag prover sts prfs)
    \<and> (\<forall>b g1 x1 g2 x2. b < length prfs \<longrightarrow> sts ! b = (g1, x1, g2, x2) \<longrightarrow> \<not> dleq_verify E sid tag g1 x1 g2 x2 (prfs ! b)
      \<longrightarrow> (\<forall>i h1 y1 h2 y2. i < length prfs \<longrightarrow> i \<noteq> b \<longrightarrow> sts ! i = (h1, y1, h2, y2) \<longrightarrow>
          dleq_verify E sid tag h1 y1 h2 y2 (prfs ! i))
      \<longrightarrow> batch_rho E (batch_base E sid prover sts prfs) b \<noteq> 0 \<longrightarrow> \<not> dleq_verify_batch E sid tag prover sts prfs)"
proof (intro conjI impI allI)
  assume "\<forall>b g1 x1 g2 x2. b < length prfs \<longrightarrow> sts ! b = (g1, x1, g2, x2) \<longrightarrow> dleq_verify E sid tag g1 x1 g2 x2 (prfs ! b)"
  then show "dleq_verify_batch E sid tag prover sts prfs" by (intro verify_batch_complete [OF assms]) blast
next
  fix b g1 x1 g2 x2
  assume "b < length prfs" and st: "sts ! b = (g1, x1, g2, x2)" "\<not> dleq_verify E sid tag g1 x1 g2 x2 (prfs ! b)"
    and others: "\<forall>i h1 y1 h2 y2. i < length prfs \<longrightarrow> i \<noteq> b \<longrightarrow> sts ! i = (h1, y1, h2, y2) \<longrightarrow>
          dleq_verify E sid tag h1 y1 h2 y2 (prfs ! i)"
    and "batch_rho E (batch_base E sid prover sts prfs) b \<noteq> 0"
  then show "\<not> dleq_verify_batch E sid tag prover sts prfs"
    by (intro verify_batch_single_bad [OF assms \<open>b < length prfs\<close> _ st]) blast+
qed

lemma dleq_batch_verification_witness:
  "\<exists>pf. fst (dleq_prove sample [7] [8] 5 1 2 0) = (5, 10, pf) \<and> dleq_verify_batch sample [7] [8] 1 [(1, 5, 2, 10)] [pf]"
proof -
  obtain x1 x2 pf where proved: "fst (dleq_prove sample [7] [8] 5 1 2 0) = (x1, x2, pf)"
    by (cases "fst (dleq_prove sample [7] [8] 5 1 2 0)")
  have x: "x1 = 5" "x2 = 10" using dleq_complete [OF sample_ok proved] by simp_all
  have "dleq_verify sample [7] [8] 1 x1 2 x2 pf" using dleq_complete [OF sample_ok proved] by blast
  then have "dleq_verify sample [7] [8] 1 5 2 10 pf" unfolding x .
  with x proved dleq_batch_verification [OF sample_ok, of "[(1, 5, 2, 10)]" "[pf]" "[7]" "[8]" 1] show ?thesis by simp
qed

text \<open>
  C36. The search for the re-randomisation scalar of a signature: it returns the first nonzero value among
  the 256 candidates of the counter byte, and fails to end only when all 256 are zero.
\<close>

theorem rerand_search:
  "rerand_gamma E sid i m tweak X =
     map_option (\<lambda>k. scalar_from_digest E (rerand_digest E sid i m tweak X (of_nat k)))
       (find (\<lambda>k. scalar_from_digest E (rerand_digest E sid i m tweak X (of_nat k)) \<noteq> 0) [0..<256])"
  by (rule rerand_gamma_value)

section \<open>What modelling showed\<close>

text \<open>
  The facts in this section state behaviours of the code that its documentation does not promise. They
  are not properties the program relies on.
\<close>

text \<open>
  Two shares of one sender within the first \<open>t\<close> make the plain combination panic: the shares of a
  duplicated sender are verified one by one, and interpolation then divides by zero.
\<close>

lemma duplicate_sender_panics:
  assumes "cheaters E com (wire shares) = []" "q \<le> length shares" "\<not> distinct (take q (map sg_from shares))"
  shows "combine_verified E q point r com shares = Panic"
  by (rule combine_verified_panics [OF assms])

text \<open>\<open>Params::new\<close> accepts a threshold whose double wraps around in a release build.\<close>

lemma threshold_wraps: "params_new 3 (2 ^ 63 + 1) = Ok \<lparr>p_n = 3, p_t = 2 ^ 63 + 1\<rparr>"
  by (simp add: params_new_def wsub_def wmul_def)

text \<open>
  Key-independent signing by the subset \<open>{1, 3}\<close> of three parties takes the triple record of party 2 for
  party 3 and names the honest party 3.
\<close>

lemma subset_signing_names_honest:
  fixes E :: "('f::field, 'g::ab_group_add, 'r) k256"
  assumes "k256_ok E" "peval A (of_nat 2) \<noteq> peval A (of_nat 3)"
  shows "ki_masked E \<lparr>p_n = 3, p_t = 2\<rparr> (triples_of E \<lparr>c_ids = [1, 2, 3], c_t = 2\<rparr> A B C) (map (joint_output E X) [1, 3])
      (map (\<lambda>j. \<lparr>kp_id = rid, kp_index = j, kp_r = r, kp_big_r = R, kp_u_share = peval U (of_nat j), kp_u_com = commit E U\<rparr>) [1, 3])
      None = abort Sign [3] ''share failed commitment check during opening''"
  by (rule ki_masked_subset_names_honest [OF assms refl refl])

text \<open>
  The outer sender of a signed envelope is not compared with the inner one: an envelope signed by \<open>j\<close> and
  sent under the name of \<open>i\<close> is accepted as the message of \<open>i\<close>.
\<close>

lemma inner_sender_unchecked:
  assumes "bt_get (sx_verifying_keys st) (e_from (se_envelope sgd)) = Some key" "verify_signature G enc sgd key"
  shows "verify_all G enc st ph [(i, envelope_broadcast sid ph r i sgd)] = Ok [(i, sgd)]"
proof -
  have "\<And>c outer. (c, outer) \<in> set [(i, envelope_broadcast sid ph r i sgd)] \<Longrightarrow>
      signature_ok G enc (sx_verifying_keys st) (e_payload outer)"
    using assms by (auto simp: signature_ok_def envelope_broadcast_def)
  from verify_all_valid [of "[(i, envelope_broadcast sid ph r i sgd)]", OF this]
  show ?thesis by (simp add: envelope_broadcast_def bt_of_list_def)
qed

text \<open>
  The commitment of a blame token is not signed: an honest dealer's signed share together with any
  commitment it does not lie on is a token that verifies and blames the dealer.
\<close>

lemma token_frames_honest_dealer:
  assumes "verify_signature G (encode_message E) sgd key" "e_payload (se_envelope sgd) = Share sh"
    and "pp_from sh = e_from (se_envelope sgd)" "List.find (\<lambda>(p, _). p = pp_from sh) keys = Some (pp_from sh, key)"
    and "\<not> verify_share E com (pp_to sh) (pp_share sh)"
  shows "token_verify E G \<lparr>tk_abort = \<lparr>ab_phase = e_phase (se_envelope sgd), ab_blamed = [e_from (se_envelope sgd)], ab_detail = d\<rparr>,
      tk_envelope = sgd, tk_com = com\<rparr> keys"
  using assms by (simp add: token_verify_def Let_def)

end
